(* ===== verification/Prelude.thy ===== *)
theory Prelude
  imports Main "HOL-Library.AList" "HOL-Library.Word" "HOL-Library.List_Lexorder" "HOL-Library.Char_ord"
begin

text \<open>
  Shared vocabulary of the development: how the Go values of the service are represented, and
  the lemmas about these representations that every component uses.

  \<^item> A Go \<open>string\<close> is an Isabelle \<open>string\<close>, the list of its bytes; \<open>len\<close> is \<open>length\<close>. The order on
    strings (\<open>sort.Slice\<close> by identity) is the bytewise lexicographic one of the library.
  \<^item> A \<open>time.Time\<close> is the instant it denotes, in nanoseconds since the zero time, as an \<open>int\<close>;
    \<open>IsZero\<close> is equality with \<open>0\<close>, \<open>Before\<close> is \<open>(<)\<close>, \<open>After\<close> is \<open>(>)\<close>.
  \<^item> An \<open>int64\<close> is an \<open>int\<close> in \<open>[-2^63, 2^63)\<close>; every addition or subtraction of the source goes
    through \<open>wrap64\<close>, which writes out the two's complement wrap-around.
  \<^item> A \<open>uint64\<close> is a \<open>64 word\<close>.
  \<^item> A Go map is an association list with distinct keys (\<open>gm_ok\<close>); the order of the list stands
    for the unspecified iteration order of \<open>range\<close>.
\<close>

section \<open>Hint collections\<close>

named_theorems go_map \<open>laws of Go maps as association lists\<close>
named_theorems go_int \<open>laws of 64-bit machine integers\<close>

section \<open>Machine integers and time\<close>

type_synonym time = int
type_synonym uint64 = "64 word"

definition wrap64 :: "int \<Rightarrow> int" where
  "wrap64 x = (x + 2 ^ 63) mod 2 ^ 64 - 2 ^ 63"

definition in_int64 :: "int \<Rightarrow> bool" where
  "in_int64 x \<longleftrightarrow> - (2 ^ 63) \<le> x \<and> x < 2 ^ 63"

lemma in_int64_wrap64 [go_int]: "in_int64 (wrap64 x)"
proof -
  have "0 \<le> (x + 2 ^ 63) mod 2 ^ 64" by (rule pos_mod_sign) simp
  moreover have "(x + 2 ^ 63) mod 2 ^ 64 < 2 ^ 64" by (rule pos_mod_bound) simp
  ultimately show ?thesis by (simp add: wrap64_def in_int64_def)
qed

lemma wrap64_id [go_int]: "in_int64 x \<Longrightarrow> wrap64 x = x"
  by (simp add: wrap64_def in_int64_def)

lemma in_int64_nonneg [go_int]: "0 \<le> x \<Longrightarrow> x \<le> y \<Longrightarrow> in_int64 y \<Longrightarrow> in_int64 x"
  by (simp add: in_int64_def)

lemma in_int64_diff [go_int]: "0 \<le> x \<Longrightarrow> 0 \<le> y \<Longrightarrow> in_int64 x \<Longrightarrow> in_int64 y \<Longrightarrow> in_int64 (x - y)"
  by (simp add: in_int64_def)

text \<open>Go's \<open>/\<close> and \<open>%\<close> truncate towards zero.\<close>

definition go_quot :: "int \<Rightarrow> int \<Rightarrow> int" where
  "go_quot a b = sgn a * sgn b * (\<bar>a\<bar> div \<bar>b\<bar>)"

definition go_rem :: "int \<Rightarrow> int \<Rightarrow> int" where
  "go_rem a b = a - b * go_quot a b"

lemma go_quot_nonneg [go_int]: "0 \<le> a \<Longrightarrow> 0 < b \<Longrightarrow> go_quot a b = a div b"
  by (cases "a = 0") (simp_all add: go_quot_def)

lemma go_rem_nonneg [go_int]: "0 \<le> a \<Longrightarrow> 0 < b \<Longrightarrow> go_rem a b = a mod b"
  by (simp add: go_rem_def go_quot_nonneg minus_mult_div_eq_mod)

section \<open>Strings\<close>

text \<open>Decimal rendering, as \<open>%d\<close> prints it.\<close>

fun nat_digits :: "nat \<Rightarrow> string" where
  "nat_digits n = (if n < 10 then [char_of (48 + n)]
     else nat_digits (n div 10) @ [char_of (48 + n mod 10)])"

declare nat_digits.simps [simp del]

definition show_int :: "int \<Rightarrow> string" where
  "show_int i = (if i < 0 then ''-'' @ nat_digits (nat (- i)) else nat_digits (nat i))"

definition NUL :: char where
  "NUL = CHR 0x00"

definition ContainsAny :: "string \<Rightarrow> char list \<Rightarrow> bool" where
  "ContainsAny s cs \<longleftrightarrow> list_ex (\<lambda>c. c \<in> set cs) s"

fun HasPrefix :: "string \<Rightarrow> string \<Rightarrow> bool" where
  "HasPrefix s [] = True"
| "HasPrefix [] (p # ps) = False"
| "HasPrefix (c # s) (p # ps) = (c = p \<and> HasPrefix s ps)"

fun Contains :: "string \<Rightarrow> string \<Rightarrow> bool" where
  "Contains [] sub = (sub = [])"
| "Contains (c # s) sub = (HasPrefix (c # s) sub \<or> Contains s sub)"

definition is_upper :: "char \<Rightarrow> bool" where
  "is_upper c \<longleftrightarrow> CHR ''A'' \<le> c \<and> c \<le> CHR ''Z''"

definition is_lower :: "char \<Rightarrow> bool" where
  "is_lower c \<longleftrightarrow> CHR ''a'' \<le> c \<and> c \<le> CHR ''z''"

definition is_digit :: "char \<Rightarrow> bool" where
  "is_digit c \<longleftrightarrow> CHR ''0'' \<le> c \<and> c \<le> CHR ''9''"

definition is_num :: "string \<Rightarrow> bool" where
  "is_num s \<longleftrightarrow> s \<noteq> [] \<and> list_all is_digit s"

fun num_value :: "nat \<Rightarrow> string \<Rightarrow> nat" where
  "num_value a [] = a"
| "num_value a (c # cs) = num_value (10 * a + (of_char c - 48)) cs"

lemma num_value_append: "num_value a (s @ u) = num_value (num_value a s) u"
  by (induction s arbitrary: a) auto

lemma num_value_zeros [simp]: "num_value 0 (replicate k (CHR ''0'')) = 0"
  by (induction k) auto

lemma digit_char: "d < 10 \<Longrightarrow> is_digit (char_of (48 + d :: nat)) \<and> of_char (char_of (48 + d) :: char) = 48 + d"
  by (auto simp: is_digit_def less_eq_char_def of_char_of take_bit_nat_def mod_less)

lemma nat_digits_num: "is_num (nat_digits n) \<and> num_value 0 (nat_digits n) = n"
proof (induction n rule: nat_digits.induct)
  case (1 n)
  show ?case
  proof (cases "n < 10")
    case True
    then show ?thesis using digit_char [of n] by (subst (1 2) nat_digits.simps) (simp add: is_num_def)
  next
    case False
    with 1 digit_char [of "n mod 10"] show ?thesis
      by (subst (1 2) nat_digits.simps) (simp add: is_num_def num_value_append)
  qed
qed

lemma nat_digits_inject: "nat_digits m = nat_digits n \<Longrightarrow> m = n"
  using nat_digits_num by metis

lemma nat_digits_length: "0 < k \<Longrightarrow> n < 10 ^ k \<Longrightarrow> length (nat_digits n) \<le> k"
proof (induction k arbitrary: n)
  case (Suc k)
  show ?case
  proof (cases "n < 10")
    case True
    then show ?thesis by (subst nat_digits.simps) simp
  next
    case False
    then have "0 < k" using Suc.prems by (cases k) auto
    moreover have "n div 10 < 10 ^ k" using Suc.prems(2) by (simp add: less_mult_imp_div_less mult.commute)
    ultimately have "length (nat_digits (n div 10)) \<le> k" by (rule Suc.IH)
    then show ?thesis using False by (subst nat_digits.simps) simp
  qed
qed simp

lemma HasPrefix_append [simp]: "HasPrefix (p @ s) p"
  by (induction p) auto

lemma HasPrefix_iff: "HasPrefix s p \<longleftrightarrow> (\<exists>t. s = p @ t)"
  by (induction s p rule: HasPrefix.induct) auto

text \<open>
  The tenant-scoped key of every in-memory record: the components joined by NUL bytes. The
  encoding is injective on components that contain no NUL byte, and only on those.
\<close>

definition scoped_key :: "string \<Rightarrow> string \<Rightarrow> string \<Rightarrow> string" where
  "scoped_key w p i = w @ [NUL] @ p @ [NUL] @ i"

definition nul_free :: "string \<Rightarrow> bool" where
  "nul_free s \<longleftrightarrow> NUL \<notin> set s"

lemma append_sep_inject:
  "x \<notin> set a \<Longrightarrow> x \<notin> set b \<Longrightarrow> a @ x # c = b @ x # d \<longleftrightarrow> a = b \<and> c = d"
proof (induction a arbitrary: b)
  case Nil
  then show ?case by (cases b) auto
next
  case (Cons y ys)
  then show ?case by (cases b) auto
qed

lemma scoped_key_inject:
  assumes "nul_free w" "nul_free p" "nul_free w'" "nul_free p'"
  shows "scoped_key w p i = scoped_key w' p' i' \<longleftrightarrow> w = w' \<and> p = p' \<and> i = i'"
  using assms by (auto simp: scoped_key_def nul_free_def append_sep_inject)

lemma scoped_key_same_scope [simp]: "scoped_key w p i = scoped_key w p i' \<longleftrightarrow> i = i'"
  by (simp add: scoped_key_def)

text \<open>A key whose components are free of NUL has exactly one reading, whatever is asked for.\<close>

lemma scoped_key_nul_free:
  assumes "nul_free w" and "nul_free p" and "nul_free i" and "scoped_key w' p' i' = scoped_key w p i"
  shows "w' = w \<and> p' = p \<and> i' = i"
proof -
  have zero: "count_list s NUL = 0 \<longleftrightarrow> nul_free s" for s
    by (induction s) (auto simp: nul_free_def)
  have "count_list (scoped_key w' p' i') NUL = count_list (scoped_key w p i) NUL" using assms(4) by simp
  then have "count_list w' NUL + count_list p' NUL + count_list i' NUL
      = count_list w NUL + count_list p NUL + count_list i NUL"
    by (simp add: scoped_key_def)
  then have "nul_free w' \<and> nul_free p' \<and> nul_free i'" using assms(1-3) by (simp flip: zero)
  then show ?thesis using assms by (simp add: scoped_key_inject)
qed

section \<open>Go maps\<close>

type_synonym 'v gomap = "(string \<times> 'v) list"

abbreviation gm_get :: "('k \<times> 'v) list \<Rightarrow> 'k \<Rightarrow> 'v option" where
  "gm_get \<equiv> map_of"

abbreviation gm_put :: "'k \<Rightarrow> 'v \<Rightarrow> ('k \<times> 'v) list \<Rightarrow> ('k \<times> 'v) list" where
  "gm_put \<equiv> AList.update"

definition gm_ok :: "('k \<times> 'v) list \<Rightarrow> bool" where
  "gm_ok m \<longleftrightarrow> distinct (map fst m)"

definition gm_all :: "('k \<Rightarrow> 'v \<Rightarrow> bool) \<Rightarrow> ('k \<times> 'v) list \<Rightarrow> bool" where
  "gm_all P m \<longleftrightarrow> (\<forall>k v. map_of m k = Some v \<longrightarrow> P k v)"

definition gm_sum :: "('v \<Rightarrow> int) \<Rightarrow> ('k \<times> 'v) list \<Rightarrow> int" where
  "gm_sum f m = sum_list (map (\<lambda>(k, v). f v) m)"

lemma gm_ok_Nil [go_map, simp]: "gm_ok []"
  by (simp add: gm_ok_def)

lemma gm_ok_put [go_map]: "gm_ok m \<Longrightarrow> gm_ok (gm_put k v m)"
  by (simp add: gm_ok_def distinct_update)

lemma gm_get_put [go_map]: "gm_get (gm_put k v m) k' = (if k = k' then Some v else gm_get m k')"
  by (simp add: update_conv')

lemma gm_get_iff [go_map]: "gm_ok m \<Longrightarrow> gm_get m k = Some v \<longleftrightarrow> (k, v) \<in> set m"
  by (simp add: gm_ok_def)

lemma gm_all_Nil [simp]: "gm_all P []"
  by (simp add: gm_all_def)

lemma gm_all_put: "gm_all P m \<Longrightarrow> P k v \<Longrightarrow> gm_all P (gm_put k v m)"
  by (auto simp: gm_all_def gm_get_put)

lemma gm_allD: "gm_all P m \<Longrightarrow> gm_get m k = Some v \<Longrightarrow> P k v"
  by (simp add: gm_all_def)

lemma gm_all_set: "gm_ok m \<Longrightarrow> gm_all P m \<longleftrightarrow> (\<forall>(k, v) \<in> set m. P k v)"
  by (auto simp: gm_all_def gm_get_iff)

lemma gm_sum_Nil [simp]: "gm_sum f [] = 0"
  by (simp add: gm_sum_def)

lemma gm_sum_Cons [simp]: "gm_sum f ((k, v) # m) = f v + gm_sum f m"
  by (simp add: gm_sum_def)

lemma gm_sum_put_new [go_map]:
  "gm_get m k = None \<Longrightarrow> gm_sum f (gm_put k v m) = gm_sum f m + f v"
  by (induction m) (auto simp: gm_sum_def split: if_splits)

lemma gm_sum_put_old [go_map]:
  "gm_get m k = Some w \<Longrightarrow> gm_sum f (gm_put k v m) = gm_sum f m - f w + f v"
  by (induction m) (auto simp: gm_sum_def split: if_splits)

lemma gm_sum_nonneg: "(\<And>k v. (k, v) \<in> set m \<Longrightarrow> 0 \<le> f v) \<Longrightarrow> 0 \<le> gm_sum f m"
  unfolding gm_sum_def by (rule sum_list_nonneg) auto

lemma gm_sum_cong: "(\<And>k v. (k, v) \<in> set m \<Longrightarrow> f v = g v) \<Longrightarrow> gm_sum f m = gm_sum g m"
  unfolding gm_sum_def by (rule arg_cong [where f = sum_list]) auto

text \<open>Rewriting every value in place, as a \<open>range\<close> loop that assigns the visited key does.\<close>

definition gm_map :: "('v \<Rightarrow> 'v) \<Rightarrow> ('k \<times> 'v) list \<Rightarrow> ('k \<times> 'v) list" where
  "gm_map g m = map (\<lambda>(k, v). (k, g v)) m"

lemma gm_ok_map [go_map]: "gm_ok (gm_map g m) = gm_ok m"
  by (simp add: gm_ok_def gm_map_def case_prod_unfold comp_def)

lemma gm_get_map [go_map]: "gm_get (gm_map g m) k = map_option g (gm_get m k)"
  by (induction m) (auto simp: gm_map_def)

lemma gm_sum_map [go_map]: "gm_sum f (gm_map g m) = gm_sum (\<lambda>v. f (g v)) m"
  by (induction m) (auto simp: gm_sum_def gm_map_def)

lemma gm_sum_mono: "(\<And>k v. (k, v) \<in> set m \<Longrightarrow> f v \<le> g v) \<Longrightarrow> gm_sum f m \<le> gm_sum g m"
  unfolding gm_sum_def by (rule sum_list_mono) auto

lemma gm_sum_member_le:
  "gm_get m k = Some v \<Longrightarrow> (\<And>k v. (k, v) \<in> set m \<Longrightarrow> 0 \<le> f v) \<Longrightarrow> f v \<le> gm_sum f m"
  by (rule member_le_sum_list [of "f v" "map (\<lambda>(k, v). f v) m", folded gm_sum_def])
    (auto dest!: map_of_SomeD intro!: rev_image_eqI)

section \<open>Stateful operations that may fail\<close>

text \<open>
  An operation on a state \<open>'s\<close> takes the state and returns its result with the new state; a Go
  method that returns \<open>(value, error)\<close> returns \<open>Inr value\<close> or \<open>Inl error\<close>. \<open>andThen\<close> is the
  \<open>if err != nil { return err }\<close> idiom.
\<close>

type_synonym ('s, 'e, 'a) op = "'s \<Rightarrow> ('e + 'a) \<times> 's"

definition andThen :: "('s, 'e, 'a) op \<Rightarrow> ('a \<Rightarrow> ('s, 'e, 'b) op) \<Rightarrow> ('s, 'e, 'b) op" where
  "andThen f g s = (case f s of (Inl e, t) \<Rightarrow> (Inl e, t) | (Inr x, t) \<Rightarrow> g x t)"

lemma andThen_Inr [simp]: "f s = (Inr x, t) \<Longrightarrow> andThen f g s = g x t"
  by (simp add: andThen_def)

lemma andThen_Inl [simp]: "f s = (Inl e, t) \<Longrightarrow> andThen f g s = (Inl e, t)"
  by (simp add: andThen_def)

lemma andThenE:
  assumes "andThen f g s = (Inr y, u)"
  obtains x t where "f s = (Inr x, t)" and "g x t = (Inr y, u)"
  using assms by (auto simp: andThen_def split: prod.splits sum.splits)

text \<open>A state invariant is kept by an operation when it holds of the state left behind, whether or not the operation failed.\<close>

definition keeps :: "('s \<Rightarrow> bool) \<Rightarrow> ('s, 'e, 'a) op \<Rightarrow> bool" where
  "keeps I f \<longleftrightarrow> (\<forall>s. I s \<longrightarrow> I (snd (f s)))"

lemma keepsD: "keeps I f \<Longrightarrow> I s \<Longrightarrow> I (snd (f s))"
  by (simp add: keeps_def)

lemma keepsD': "keeps I f \<Longrightarrow> I s \<Longrightarrow> f s = (r, t) \<Longrightarrow> I t"
  by (metis keeps_def snd_conv)

lemma keeps_andThen: "keeps I f \<Longrightarrow> (\<And>x. keeps I (g x)) \<Longrightarrow> keeps I (andThen f g)"
  by (auto simp: keeps_def andThen_def split: prod.splits sum.splits)

end
