(* ===== verification/Problem.thy ===== *)
theory Problem
  imports Prelude
begin

text \<open>
  The error boundary of the service (\<open>src/internal/problem/problem.go\<close>, \<open>classifier.go\<close>): the
  registry of problem codes, the \<open>Details\<close> value every governed refusal carries, its closed wire
  contract, and the classification of implementation failures. It also holds \<open>err\<close>, the
  Go error values the modelled components return. The JSON byte syntax is the standard library's
  and stays outside; the wire record is what is marshalled.
\<close>

section \<open>The code registry\<close>

datatype code =
    CodeInvalidTransition
  | CodeCommitProofMissing
  | CodeRetryIneligible
  | CodeInputRequestStale
  | CodeInputAlreadyResponded
  | CodeInputRequestExpired
  | CodeInputSchemaInvalid
  | CodeApprovalRequestStale
  | CodeApprovalAlreadyDecided
  | CodeApprovalRequestExpired
  | CodeCancellationUnreconciled
  | CodeChildLimitExceeded
  | CodeChildPredecessorIneligible
  | CodeNoEligibleProvider
  | CodeProviderLimitExceeded
  | CodeAuthorityStale
  | CodeToolDispatchDenied
  | CodeBudgetDenied
  | CodeValidationUnavailable
  | CodeArtifactAccessDenied
  | CodeApplyAuthorizationDenied
  | CodeDomainOutcomeUncertain
  | CodeTaskDispatchDenied
  | CodeWorkerFenceStale
  | CodeAdmissionOverloaded
  | CodeLimitExceeded
  | CodeCircuitOpen
  | CodeVersionConflict
  | CodePreconditionRequired
  | CodeIdempotencyConflict
  | CodeIdempotencyKeyReused
  | CodeRequestInvalid
  | CodeResourceNotFound
  | CodeCursorExpired
  | CodeEventInvalid
  | CodeProviderUnavailable
  | CodeContractInvalid
  | CodePolicyDenied
  | CodeWorkerFailed
  | CodeArtifactInvalid
  | CodeDomainRejected
  | CodeTelemetryDegraded
  | CodeInfrastructureUnavailable
  | CodeAuthenticationInvalid
  | CodeAuthorizationDenied
  | CodeInternal

primrec code_string :: "code \<Rightarrow> string" where
  "code_string CodeInvalidTransition = ''RUN_TRANSITION_INVALID''"
| "code_string CodeCommitProofMissing = ''COMMIT_PROOF_MISSING''"
| "code_string CodeRetryIneligible = ''RETRY_INELIGIBLE''"
| "code_string CodeInputRequestStale = ''INPUT_REQUEST_STALE''"
| "code_string CodeInputAlreadyResponded = ''INPUT_ALREADY_RESPONDED''"
| "code_string CodeInputRequestExpired = ''INPUT_REQUEST_EXPIRED''"
| "code_string CodeInputSchemaInvalid = ''INPUT_SCHEMA_INVALID''"
| "code_string CodeApprovalRequestStale = ''APPROVAL_REQUEST_STALE''"
| "code_string CodeApprovalAlreadyDecided = ''APPROVAL_ALREADY_DECIDED''"
| "code_string CodeApprovalRequestExpired = ''APPROVAL_REQUEST_EXPIRED''"
| "code_string CodeCancellationUnreconciled = ''CANCELLATION_UNRECONCILED''"
| "code_string CodeChildLimitExceeded = ''CHILD_LIMIT_EXCEEDED''"
| "code_string CodeChildPredecessorIneligible = ''CHILD_PREDECESSOR_INELIGIBLE''"
| "code_string CodeNoEligibleProvider = ''NO_ELIGIBLE_PROVIDER''"
| "code_string CodeProviderLimitExceeded = ''PROVIDER_LIMIT_EXCEEDED''"
| "code_string CodeAuthorityStale = ''AUTHORITY_STALE''"
| "code_string CodeToolDispatchDenied = ''TOOL_DISPATCH_DENIED''"
| "code_string CodeBudgetDenied = ''BUDGET_DENIED''"
| "code_string CodeValidationUnavailable = ''VALIDATION_UNAVAILABLE''"
| "code_string CodeArtifactAccessDenied = ''ARTIFACT_ACCESS_DENIED''"
| "code_string CodeApplyAuthorizationDenied = ''APPLY_AUTHORIZATION_DENIED''"
| "code_string CodeDomainOutcomeUncertain = ''DOMAIN_OUTCOME_UNCERTAIN''"
| "code_string CodeTaskDispatchDenied = ''TASK_DISPATCH_DENIED''"
| "code_string CodeWorkerFenceStale = ''WORKER_FENCE_STALE''"
| "code_string CodeAdmissionOverloaded = ''ADMISSION_OVERLOADED''"
| "code_string CodeLimitExceeded = ''LIMIT_EXCEEDED''"
| "code_string CodeCircuitOpen = ''CIRCUIT_OPEN''"
| "code_string CodeVersionConflict = ''VERSION_CONFLICT''"
| "code_string CodePreconditionRequired = ''PRECONDITION_REQUIRED''"
| "code_string CodeIdempotencyConflict = ''IDEMPOTENCY_CONFLICT''"
| "code_string CodeIdempotencyKeyReused = ''IDEMPOTENCY_KEY_REUSED''"
| "code_string CodeRequestInvalid = ''REQUEST_INVALID''"
| "code_string CodeResourceNotFound = ''RESOURCE_NOT_FOUND''"
| "code_string CodeCursorExpired = ''EVENT_CURSOR_EXPIRED''"
| "code_string CodeEventInvalid = ''EVENT_INVALID''"
| "code_string CodeProviderUnavailable = ''PROVIDER_UNAVAILABLE''"
| "code_string CodeContractInvalid = ''CONTRACT_INVALID''"
| "code_string CodePolicyDenied = ''POLICY_DENIED''"
| "code_string CodeWorkerFailed = ''WORKER_FAILED''"
| "code_string CodeArtifactInvalid = ''ARTIFACT_INVALID''"
| "code_string CodeDomainRejected = ''DOMAIN_REJECTED''"
| "code_string CodeTelemetryDegraded = ''TELEMETRY_DEGRADED''"
| "code_string CodeInfrastructureUnavailable = ''INFRASTRUCTURE_UNAVAILABLE''"
| "code_string CodeAuthenticationInvalid = ''AUTHENTICATION_INVALID''"
| "code_string CodeAuthorizationDenied = ''AUTHORIZATION_DENIED''"
| "code_string CodeInternal = ''INTERNAL_ERROR''"

definition Codes :: "code list" where
  "Codes = [CodeInvalidTransition,
     CodeCommitProofMissing,
     CodeRetryIneligible,
     CodeInputRequestStale,
     CodeInputAlreadyResponded,
     CodeInputRequestExpired,
     CodeInputSchemaInvalid,
     CodeApprovalRequestStale,
     CodeApprovalAlreadyDecided,
     CodeApprovalRequestExpired,
     CodeCancellationUnreconciled,
     CodeChildLimitExceeded,
     CodeChildPredecessorIneligible,
     CodeNoEligibleProvider,
     CodeProviderLimitExceeded,
     CodeAuthorityStale,
     CodeToolDispatchDenied,
     CodeBudgetDenied,
     CodeValidationUnavailable,
     CodeArtifactAccessDenied,
     CodeApplyAuthorizationDenied,
     CodeDomainOutcomeUncertain,
     CodeTaskDispatchDenied,
     CodeWorkerFenceStale,
     CodeAdmissionOverloaded,
     CodeLimitExceeded,
     CodeCircuitOpen,
     CodeVersionConflict,
     CodePreconditionRequired,
     CodeIdempotencyConflict,
     CodeIdempotencyKeyReused,
     CodeRequestInvalid,
     CodeResourceNotFound,
     CodeCursorExpired,
     CodeEventInvalid,
     CodeProviderUnavailable,
     CodeContractInvalid,
     CodePolicyDenied,
     CodeWorkerFailed,
     CodeArtifactInvalid,
     CodeDomainRejected,
     CodeTelemetryDegraded,
     CodeInfrastructureUnavailable,
     CodeAuthenticationInvalid,
     CodeAuthorizationDenied,
     CodeInternal]"

record Definition =
  df_Code :: code
  df_Type :: string
  df_Title :: string
  df_Retryability :: string
  df_Status :: int

primrec Lookup_registered :: "code \<Rightarrow> Definition" where
  "Lookup_registered CodeInvalidTransition = \<lparr>df_Code = CodeInvalidTransition, df_Type = ''urn:anvilkit:problem:run-transition-invalid'',
     df_Title = ''Run transition is not allowed'', df_Retryability = ''never'', df_Status = 409\<rparr>"
| "Lookup_registered CodeCommitProofMissing = \<lparr>df_Code = CodeCommitProofMissing, df_Type = ''urn:anvilkit:problem:commit-proof-missing'',
     df_Title = ''Commit prerequisites are incomplete'', df_Retryability = ''never'', df_Status = 409\<rparr>"
| "Lookup_registered CodeRetryIneligible = \<lparr>df_Code = CodeRetryIneligible, df_Type = ''urn:anvilkit:problem:retry-ineligible'',
     df_Title = ''Run is not eligible for retry'', df_Retryability = ''never'', df_Status = 409\<rparr>"
| "Lookup_registered CodeInputRequestStale = \<lparr>df_Code = CodeInputRequestStale, df_Type = ''urn:anvilkit:problem:input-request-stale'',
     df_Title = ''Input request version is stale'', df_Retryability = ''never'', df_Status = 409\<rparr>"
| "Lookup_registered CodeInputAlreadyResponded = \<lparr>df_Code = CodeInputAlreadyResponded, df_Type = ''urn:anvilkit:problem:input-already-responded'',
     df_Title = ''Input request already has a response'', df_Retryability = ''never'', df_Status = 409\<rparr>"
| "Lookup_registered CodeInputRequestExpired = \<lparr>df_Code = CodeInputRequestExpired, df_Type = ''urn:anvilkit:problem:input-request-expired'',
     df_Title = ''Input request has expired'', df_Retryability = ''never'', df_Status = 409\<rparr>"
| "Lookup_registered CodeInputSchemaInvalid = \<lparr>df_Code = CodeInputSchemaInvalid, df_Type = ''urn:anvilkit:problem:input-schema-invalid'',
     df_Title = ''Input response violates its schema'', df_Retryability = ''never'', df_Status = 422\<rparr>"
| "Lookup_registered CodeApprovalRequestStale = \<lparr>df_Code = CodeApprovalRequestStale, df_Type = ''urn:anvilkit:problem:approval-request-stale'',
     df_Title = ''Approval request version is stale'', df_Retryability = ''never'', df_Status = 409\<rparr>"
| "Lookup_registered CodeApprovalAlreadyDecided = \<lparr>df_Code = CodeApprovalAlreadyDecided, df_Type = ''urn:anvilkit:problem:approval-already-decided'',
     df_Title = ''Approval request already has a decision'', df_Retryability = ''never'', df_Status = 409\<rparr>"
| "Lookup_registered CodeApprovalRequestExpired = \<lparr>df_Code = CodeApprovalRequestExpired, df_Type = ''urn:anvilkit:problem:approval-request-expired'',
     df_Title = ''Approval request has expired'', df_Retryability = ''never'', df_Status = 409\<rparr>"
| "Lookup_registered CodeCancellationUnreconciled = \<lparr>df_Code = CodeCancellationUnreconciled, df_Type = ''urn:anvilkit:problem:cancellation-unreconciled'',
     df_Title = ''Cancellation remains under reconciliation'', df_Retryability = ''operator-action'', df_Status = 409\<rparr>"
| "Lookup_registered CodeChildLimitExceeded = \<lparr>df_Code = CodeChildLimitExceeded, df_Type = ''urn:anvilkit:problem:child-limit-exceeded'',
     df_Title = ''Child run bound is exceeded'', df_Retryability = ''safe-after-backoff'', df_Status = 429\<rparr>"
| "Lookup_registered CodeChildPredecessorIneligible = \<lparr>df_Code = CodeChildPredecessorIneligible, df_Type = ''urn:anvilkit:problem:child-predecessor-ineligible'',
     df_Title = ''Fallback predecessor is not eligible'', df_Retryability = ''never'', df_Status = 409\<rparr>"
| "Lookup_registered CodeNoEligibleProvider = \<lparr>df_Code = CodeNoEligibleProvider, df_Type = ''urn:anvilkit:problem:no-eligible-provider'',
     df_Title = ''No provider is eligible'', df_Retryability = ''never'', df_Status = 422\<rparr>"
| "Lookup_registered CodeProviderLimitExceeded = \<lparr>df_Code = CodeProviderLimitExceeded, df_Type = ''urn:anvilkit:problem:provider-limit-exceeded'',
     df_Title = ''Provider invocation exceeded a bound'', df_Retryability = ''never'', df_Status = 422\<rparr>"
| "Lookup_registered CodeAuthorityStale = \<lparr>df_Code = CodeAuthorityStale, df_Type = ''urn:anvilkit:problem:authority-stale'',
     df_Title = ''Current authority no longer permits the operation'', df_Retryability = ''never'', df_Status = 403\<rparr>"
| "Lookup_registered CodeToolDispatchDenied = \<lparr>df_Code = CodeToolDispatchDenied, df_Type = ''urn:anvilkit:problem:tool-dispatch-denied'',
     df_Title = ''Tool proposal is not authorized'', df_Retryability = ''never'', df_Status = 403\<rparr>"
| "Lookup_registered CodeBudgetDenied = \<lparr>df_Code = CodeBudgetDenied, df_Type = ''urn:anvilkit:problem:budget-denied'',
     df_Title = ''Budget reservation or settlement was denied'', df_Retryability = ''never'', df_Status = 409\<rparr>"
| "Lookup_registered CodeValidationUnavailable = \<lparr>df_Code = CodeValidationUnavailable, df_Type = ''urn:anvilkit:problem:validation-unavailable'',
     df_Title = ''Contract validation is unavailable'', df_Retryability = ''safe-after-backoff'', df_Status = 503\<rparr>"
| "Lookup_registered CodeArtifactAccessDenied = \<lparr>df_Code = CodeArtifactAccessDenied, df_Type = ''urn:anvilkit:problem:artifact-access-denied'',
     df_Title = ''Artifact is not eligible for access'', df_Retryability = ''never'', df_Status = 403\<rparr>"
| "Lookup_registered CodeApplyAuthorizationDenied = \<lparr>df_Code = CodeApplyAuthorizationDenied, df_Type = ''urn:anvilkit:problem:apply-authorization-denied'',
     df_Title = ''Apply authorization issuance was denied'', df_Retryability = ''never'', df_Status = 409\<rparr>"
| "Lookup_registered CodeDomainOutcomeUncertain = \<lparr>df_Code = CodeDomainOutcomeUncertain, df_Type = ''urn:anvilkit:problem:domain-outcome-uncertain'',
     df_Title = ''Domain outcome requires reconciliation'', df_Retryability = ''safe-after-backoff'', df_Status = 503\<rparr>"
| "Lookup_registered CodeTaskDispatchDenied = \<lparr>df_Code = CodeTaskDispatchDenied, df_Type = ''urn:anvilkit:problem:task-dispatch-denied'',
     df_Title = ''Task prerequisites are incomplete'', df_Retryability = ''never'', df_Status = 409\<rparr>"
| "Lookup_registered CodeWorkerFenceStale = \<lparr>df_Code = CodeWorkerFenceStale, df_Type = ''urn:anvilkit:problem:worker-fence-stale'',
     df_Title = ''Worker result or lease is stale'', df_Retryability = ''never'', df_Status = 409\<rparr>"
| "Lookup_registered CodeAdmissionOverloaded = \<lparr>df_Code = CodeAdmissionOverloaded, df_Type = ''urn:anvilkit:problem:admission-overloaded'',
     df_Title = ''Admission capacity is temporarily exhausted'', df_Retryability = ''safe-after-backoff'', df_Status = 429\<rparr>"
| "Lookup_registered CodeLimitExceeded = \<lparr>df_Code = CodeLimitExceeded, df_Type = ''urn:anvilkit:problem:limit-exceeded'',
     df_Title = ''A configured operation bound was exceeded'', df_Retryability = ''never'', df_Status = 422\<rparr>"
| "Lookup_registered CodeCircuitOpen = \<lparr>df_Code = CodeCircuitOpen, df_Type = ''urn:anvilkit:problem:circuit-open'',
     df_Title = ''Dependency circuit is open'', df_Retryability = ''safe-after-backoff'', df_Status = 503\<rparr>"
| "Lookup_registered CodeVersionConflict = \<lparr>df_Code = CodeVersionConflict, df_Type = ''urn:anvilkit:problem:version-conflict'',
     df_Title = ''Version precondition failed'', df_Retryability = ''never'', df_Status = 412\<rparr>"
| "Lookup_registered CodePreconditionRequired = \<lparr>df_Code = CodePreconditionRequired, df_Type = ''urn:anvilkit:problem:precondition-required'',
     df_Title = ''Concurrency precondition is required'', df_Retryability = ''never'', df_Status = 428\<rparr>"
| "Lookup_registered CodeIdempotencyConflict = \<lparr>df_Code = CodeIdempotencyConflict, df_Type = ''urn:anvilkit:problem:idempotency-conflict'',
     df_Title = ''Idempotency key conflicts with its recorded request'', df_Retryability = ''never'', df_Status = 409\<rparr>"
| "Lookup_registered CodeIdempotencyKeyReused = \<lparr>df_Code = CodeIdempotencyKeyReused, df_Type = ''urn:anvilkit:problem:idempotency-key-reused'',
     df_Title = ''Idempotency key was reused with different canonical bytes'', df_Retryability = ''never'', df_Status = 409\<rparr>"
| "Lookup_registered CodeRequestInvalid = \<lparr>df_Code = CodeRequestInvalid, df_Type = ''urn:anvilkit:problem:request-invalid'',
     df_Title = ''Request is invalid'', df_Retryability = ''never'', df_Status = 422\<rparr>"
| "Lookup_registered CodeResourceNotFound = \<lparr>df_Code = CodeResourceNotFound, df_Type = ''urn:anvilkit:problem:resource-not-found'',
     df_Title = ''Resource was not found'', df_Retryability = ''never'', df_Status = 404\<rparr>"
| "Lookup_registered CodeCursorExpired = \<lparr>df_Code = CodeCursorExpired, df_Type = ''urn:anvilkit:problem:event-cursor-expired'',
     df_Title = ''Event cursor is no longer retained'', df_Retryability = ''never'', df_Status = 410\<rparr>"
| "Lookup_registered CodeEventInvalid = \<lparr>df_Code = CodeEventInvalid, df_Type = ''urn:anvilkit:problem:event-invalid'',
     df_Title = ''Event violates the bounded event contract'', df_Retryability = ''never'', df_Status = 422\<rparr>"
| "Lookup_registered CodeProviderUnavailable = \<lparr>df_Code = CodeProviderUnavailable, df_Type = ''urn:anvilkit:problem:provider-unavailable'',
     df_Title = ''Provider is temporarily unavailable'', df_Retryability = ''safe-after-backoff'', df_Status = 503\<rparr>"
| "Lookup_registered CodeContractInvalid = \<lparr>df_Code = CodeContractInvalid, df_Type = ''urn:anvilkit:problem:contract-invalid'',
     df_Title = ''Contract validation failed'', df_Retryability = ''never'', df_Status = 422\<rparr>"
| "Lookup_registered CodePolicyDenied = \<lparr>df_Code = CodePolicyDenied, df_Type = ''urn:anvilkit:problem:policy-denied'',
     df_Title = ''Policy denied the operation'', df_Retryability = ''never'', df_Status = 403\<rparr>"
| "Lookup_registered CodeWorkerFailed = \<lparr>df_Code = CodeWorkerFailed, df_Type = ''urn:anvilkit:problem:worker-failed'',
     df_Title = ''Worker execution failed'', df_Retryability = ''operator-action'', df_Status = 503\<rparr>"
| "Lookup_registered CodeArtifactInvalid = \<lparr>df_Code = CodeArtifactInvalid, df_Type = ''urn:anvilkit:problem:artifact-invalid'',
     df_Title = ''Artifact is not eligible'', df_Retryability = ''never'', df_Status = 422\<rparr>"
| "Lookup_registered CodeDomainRejected = \<lparr>df_Code = CodeDomainRejected, df_Type = ''urn:anvilkit:problem:domain-rejected'',
     df_Title = ''Authoritative domain rejected the operation'', df_Retryability = ''never'', df_Status = 409\<rparr>"
| "Lookup_registered CodeTelemetryDegraded = \<lparr>df_Code = CodeTelemetryDegraded, df_Type = ''urn:anvilkit:problem:telemetry-degraded'',
     df_Title = ''Telemetry delivery is degraded'', df_Retryability = ''never'', df_Status = 503\<rparr>"
| "Lookup_registered CodeInfrastructureUnavailable = \<lparr>df_Code = CodeInfrastructureUnavailable, df_Type = ''urn:anvilkit:problem:infrastructure-unavailable'',
     df_Title = ''Required infrastructure is unavailable'', df_Retryability = ''safe-after-backoff'', df_Status = 503\<rparr>"
| "Lookup_registered CodeAuthenticationInvalid = \<lparr>df_Code = CodeAuthenticationInvalid, df_Type = ''urn:anvilkit:problem:authentication-invalid'',
     df_Title = ''Authentication failed'', df_Retryability = ''never'', df_Status = 401\<rparr>"
| "Lookup_registered CodeAuthorizationDenied = \<lparr>df_Code = CodeAuthorizationDenied, df_Type = ''urn:anvilkit:problem:authorization-denied'',
     df_Title = ''Authorization failed'', df_Retryability = ''never'', df_Status = 403\<rparr>"
| "Lookup_registered CodeInternal = \<lparr>df_Code = CodeInternal, df_Type = ''urn:anvilkit:problem:internal'',
     df_Title = ''Internal service error'', df_Retryability = ''never'', df_Status = 500\<rparr>"

text \<open>\<open>Lookup\<close> switches on the code's string; a string outside the registry has no definition.\<close>

definition parse_code :: "string \<Rightarrow> code option" where
  "parse_code s = find (\<lambda>c. code_string c = s) Codes"

definition Lookup :: "string \<Rightarrow> Definition option" where
  "Lookup s = map_option Lookup_registered (parse_code s)"

section \<open>Details and the wire contract\<close>

record FieldError =
  fe_Code :: string
  fe_InstancePath :: string
  fe_SchemaPath :: string
  fe_Message :: string

record Details =
  d_Kind :: string
  d_Code :: string
  d_Retryability :: string
  d_Message :: string
  d_FieldErrors :: "FieldError list option" \<comment> \<open>\<open>None\<close> is the nil slice\<close>
  d_Stage :: string
  d_RunID :: string
  d_TraceID :: string
  d_Type :: string
  d_Title :: string
  d_Status :: int
  d_Detail :: string
  d_Fields :: "string gomap"

record wire =
  w_Kind :: string
  w_Code :: string
  w_Retryability :: string
  w_Message :: string
  w_FieldErrors :: "FieldError list option"
  w_Stage :: string
  w_RunID :: string
  w_TraceID :: string

fun Split :: "char \<Rightarrow> string \<Rightarrow> string list" where
  "Split sep [] = [[]]"
| "Split sep (c # s) =
     (if c = sep then [] # Split sep s
      else (case Split sep s of [] \<Rightarrow> [[c]] | p # ps \<Rightarrow> (c # p) # ps))"

definition is_lower_hex :: "char \<Rightarrow> bool" where
  "is_lower_hex c \<longleftrightarrow> c \<in> set ''0123456789abcdef''"

definition NormalizeTraceID :: "string \<Rightarrow> string" where
  "NormalizeTraceID value =
     (let parts = Split CHR ''-'' value;
          value = (if length parts = 4 \<and> length (parts ! 1) = 32 then parts ! 1 else value)
      in if length value \<noteq> 32 then ''''
         else if list_all is_lower_hex value then value else '''')"

definition New :: "code \<Rightarrow> string \<Rightarrow> Details" where
  "New c traceID =
     (let def = Lookup_registered c in
      \<lparr>d_Kind = ''ProblemDetails'', d_Code = code_string (df_Code def),
       d_Retryability = df_Retryability def, d_Message = '''', d_FieldErrors = Some [],
       d_Stage = '''', d_RunID = '''', d_TraceID = NormalizeTraceID traceID,
       d_Type = df_Type def, d_Title = df_Title def, d_Status = df_Status def,
       d_Detail = '''', d_Fields = []\<rparr>)"

definition MarshalJSON :: "Details \<Rightarrow> wire" where
  "MarshalJSON p =
     (let message = d_Message p;
          message = (if d_Detail p \<noteq> '''' then d_Detail p else message);
          message = (if message = '''' then d_Title p else message);
          fieldErrors = (case d_FieldErrors p of None \<Rightarrow> Some [] | Some es \<Rightarrow> Some es)
      in \<lparr>w_Kind = d_Kind p, w_Code = d_Code p, w_Retryability = d_Retryability p,
          w_Message = message, w_FieldErrors = fieldErrors, w_Stage = d_Stage p,
          w_RunID = d_RunID p, w_TraceID = NormalizeTraceID (d_TraceID p)\<rparr>)"

definition UnmarshalJSON :: "wire \<Rightarrow> Details" where
  "UnmarshalJSON w =
     (let restored = \<lparr>d_Kind = w_Kind w, d_Code = w_Code w, d_Retryability = w_Retryability w,
            d_Message = w_Message w,
            d_FieldErrors = (case w_FieldErrors w of None \<Rightarrow> Some [] | Some es \<Rightarrow> Some es),
            d_Stage = w_Stage w, d_RunID = w_RunID w, d_TraceID = w_TraceID w,
            d_Type = '''', d_Title = '''', d_Status = 0, d_Detail = '''', d_Fields = []\<rparr>;
          restored = (case Lookup (w_Code w) of
            None \<Rightarrow> restored
          | Some def \<Rightarrow> restored\<lparr>d_Type := df_Type def, d_Title := df_Title def,
              d_Status := df_Status def,
              d_Retryability := (if d_Retryability restored = '''' then df_Retryability def
                                 else d_Retryability restored)\<rparr>)
      in if w_Message w \<noteq> '''' \<and> w_Message w \<noteq> d_Title restored
         then restored\<lparr>d_Detail := w_Message w\<rparr> else restored)"

definition Details_Error :: "Details \<Rightarrow> string" where
  "Details_Error p = (if d_Detail p = '''' then d_Code p @ '': '' @ d_Title p
                      else d_Code p @ '': '' @ d_Detail p)"

definition InvalidConfiguration :: "string \<Rightarrow> string \<Rightarrow> Details" where
  "InvalidConfiguration f detail =
     \<lparr>d_Kind = ''ProblemDetails'', d_Code = ''CONFIG_INVALID'',
      d_Retryability = ''operator-action'', d_Message = '''', d_FieldErrors = Some [],
      d_Stage = '''', d_RunID = '''', d_TraceID = '''',
      d_Type = ''urn:anvilkit:problem:configuration-invalid'',
      d_Title = ''Invalid service configuration'', d_Status = 500, d_Detail = detail,
      d_Fields = [(f, detail)]\<rparr>"

section \<open>Go error values\<close>

datatype Family = FamilyProvider | FamilyContract | FamilyPolicy | FamilyWorker | FamilyArtifact
  | FamilyConflict | FamilyDomain | FamilyTelemetry | FamilyInfrastructure
  | FamilyAuthentication | FamilyAuthorization | FamilyOther string

text \<open>The retryable outcome of a lost settlement (\<open>Conflict\<close> of \<open>src/internal/budget/budget.go\<close>).\<close>

record conflict =
  cf_ReservationID :: string
  cf_ObservedMicros :: int
  cf_AttemptFinal :: bool

datatype err =
    Problem Details
  | Plain string              \<comment> \<open>\<open>fmt.Errorf\<close> without \<open>%w\<close>\<close>
  | Wrapped string err        \<comment> \<open>\<open>fmt.Errorf("...: %w", err)\<close>\<close>
  | Conflict conflict
  | Failure Family "err option"

primrec Family_string :: "Family \<Rightarrow> string" where
  "Family_string FamilyProvider = ''provider''"
| "Family_string FamilyContract = ''contract''"
| "Family_string FamilyPolicy = ''policy''"
| "Family_string FamilyWorker = ''worker''"
| "Family_string FamilyArtifact = ''artifact''"
| "Family_string FamilyConflict = ''conflict''"
| "Family_string FamilyDomain = ''domain''"
| "Family_string FamilyTelemetry = ''telemetry''"
| "Family_string FamilyInfrastructure = ''infrastructure''"
| "Family_string FamilyAuthentication = ''authentication''"
| "Family_string FamilyAuthorization = ''authorization''"
| "Family_string (FamilyOther s) = s"

definition Conflict_Error :: "conflict \<Rightarrow> string" where
  "Conflict_Error c =
     ''budget settlement for reservation '' @ cf_ReservationID c @
     '' lost its compare-and-set: usage is now '' @ show_int (cf_ObservedMicros c) @
     '' micros (final='' @ (if cf_AttemptFinal c then ''true'' else ''false'') @ '')''"

fun Error :: "err \<Rightarrow> string" where
  "Error (Problem p) = Details_Error p"
| "Error (Plain s) = s"
| "Error (Wrapped s e) = s @ '': '' @ Error e"
| "Error (Conflict c) = Conflict_Error c"
| "Error (Failure f None) = Family_string f @ '' failure: <nil>''"
| "Error (Failure f (Some e)) = Family_string f @ '' failure: '' @ Error e"

text \<open>\<open>errors.As\<close> walks the chain of wrapped errors for the first one of the wanted type.\<close>

fun as_Details :: "err \<Rightarrow> Details option" where
  "as_Details (Problem p) = Some p"
| "as_Details (Wrapped s e) = as_Details e"
| "as_Details (Failure f (Some e)) = as_Details e"
| "as_Details _ = None"

fun as_Conflict :: "err \<Rightarrow> conflict option" where
  "as_Conflict (Conflict c) = Some c"
| "as_Conflict (Wrapped s e) = as_Conflict e"
| "as_Conflict (Failure f (Some e)) = as_Conflict e"
| "as_Conflict _ = None"

fun as_Failure :: "err \<Rightarrow> Family option" where
  "as_Failure (Failure f e) = Some f"
| "as_Failure (Wrapped s e) = as_Failure e"
| "as_Failure _ = None"

text \<open>A problem with no detail, as \<open>problem.New(code, "")\<close> returned as an error.\<close>

definition problem :: "code \<Rightarrow> err" where
  "problem c = Problem (New c '''')"

definition problem_detail :: "code \<Rightarrow> string \<Rightarrow> err" where
  "problem_detail c detail = Problem ((New c '''')\<lparr>d_Detail := detail\<rparr>)"

datatype Action = ActionAck | ActionRetry | ActionDLQ

primrec family_class :: "Family \<Rightarrow> code \<times> Action" where
  "family_class FamilyProvider = (CodeProviderUnavailable, ActionRetry)"
| "family_class FamilyContract = (CodeContractInvalid, ActionAck)"
| "family_class FamilyPolicy = (CodePolicyDenied, ActionAck)"
| "family_class FamilyWorker = (CodeWorkerFailed, ActionDLQ)"
| "family_class FamilyArtifact = (CodeArtifactInvalid, ActionAck)"
| "family_class FamilyConflict = (CodeVersionConflict, ActionAck)"
| "family_class FamilyDomain = (CodeDomainRejected, ActionAck)"
| "family_class FamilyTelemetry = (CodeTelemetryDegraded, ActionAck)"
| "family_class FamilyInfrastructure = (CodeInfrastructureUnavailable, ActionRetry)"
| "family_class FamilyAuthentication = (CodeAuthenticationInvalid, ActionAck)"
| "family_class FamilyAuthorization = (CodeAuthorizationDenied, ActionAck)"
| "family_class (FamilyOther s) = (CodeInternal, ActionDLQ)"

definition Classify :: "err \<Rightarrow> string \<Rightarrow> Details \<times> Action" where
  "Classify e traceID =
     (case as_Failure e of
        None \<Rightarrow> (New CodeInternal traceID, ActionDLQ)
      | Some f \<Rightarrow> (let (c, action) = family_class f in (New c traceID, action)))"

section \<open>Lemmas\<close>

lemma distinct_code_strings: "distinct (map code_string Codes)"
  by code_simp

lemma Codes_complete: "c \<in> set Codes"
  by (cases c) (simp_all add: Codes_def)

lemma parse_code_string [simp]: "parse_code (code_string c) = Some c"
proof -
  obtain c' where f: "find (\<lambda>d. code_string d = code_string c) Codes = Some c'"
    by (cases "find (\<lambda>d. code_string d = code_string c) Codes")
      (use Codes_complete in \<open>auto simp: find_None_iff\<close>)
  then have "code_string c' = code_string c" by (auto simp: find_Some_iff)
  moreover have "inj_on code_string (set Codes)"
    using distinct_code_strings by (simp add: distinct_map)
  ultimately show ?thesis
    using f Codes_complete by (auto simp: parse_code_def inj_on_def)
qed

lemma parse_code_SomeD: "parse_code s = Some c \<Longrightarrow> code_string c = s"
  by (auto simp: parse_code_def find_Some_iff)

instantiation code :: enum
begin

definition enum_code :: "code list" where
  "enum_code = Codes"

definition enum_all_code :: "(code \<Rightarrow> bool) \<Rightarrow> bool" where
  "enum_all_code P = list_all P Codes"

definition enum_ex_code :: "(code \<Rightarrow> bool) \<Rightarrow> bool" where
  "enum_ex_code P = list_ex P Codes"

instance
proof
  show "(UNIV :: code set) = set enum_class.enum"
    using Codes_complete by (auto simp: enum_code_def)
  show "distinct (enum_class.enum :: code list)"
    using distinct_code_strings by (simp add: enum_code_def distinct_map)
  show "enum_class.enum_all P = Ball UNIV P" for P :: "code \<Rightarrow> bool"
    using Codes_complete by (auto simp: enum_all_code_def list_all_iff)
  show "enum_class.enum_ex P = Bex UNIV P" for P :: "code \<Rightarrow> bool"
    using Codes_complete by (auto simp: enum_ex_code_def list_ex_iff)
qed

end

lemma Lookup_code_string [simp]: "Lookup (code_string c) = Some (Lookup_registered c)"
  by (simp add: Lookup_def)

lemma Lookup_registered_Code [simp]: "df_Code (Lookup_registered c) = c"
  by (cases c) simp_all

lemma Lookup_Title_ne [simp]: "df_Title (Lookup_registered c) \<noteq> ''''"
  by (cases c) simp_all

lemma Lookup_Retryability_ne [simp]: "df_Retryability (Lookup_registered c) \<noteq> ''''"
  by (cases c) simp_all

lemma Lookup_SomeD: "Lookup s = Some d \<Longrightarrow> \<exists>c. s = code_string c \<and> d = Lookup_registered c"
  by (auto simp: Lookup_def dest: parse_code_SomeD)

lemma Split_no_sep: "sep \<notin> set s \<Longrightarrow> Split sep s = [s]"
  by (induction s) auto

lemma NormalizeTraceID_shape:
  "NormalizeTraceID v = '''' \<or> (length (NormalizeTraceID v) = 32 \<and> list_all is_lower_hex (NormalizeTraceID v))"
  by (simp add: NormalizeTraceID_def Let_def)

lemma NormalizeTraceID_idem [simp]: "NormalizeTraceID (NormalizeTraceID v) = NormalizeTraceID v"
proof -
  have dash: "\<not> is_lower_hex CHR ''-''" by (simp add: is_lower_hex_def)
  have fixed: "NormalizeTraceID w = w" if "length w = 32" "list_all is_lower_hex w" for w
  proof -
    have "CHR ''-'' \<notin> set w"
      using that(2) dash by (metis list_all_iff)
    then show ?thesis using that by (simp add: NormalizeTraceID_def Split_no_sep)
  qed
  have empty: "NormalizeTraceID '''' = ''''" by (simp add: NormalizeTraceID_def)
  show ?thesis using NormalizeTraceID_shape [of v] fixed empty by (elim disjE) simp_all
qed

lemma problem_inject [simp]: "problem c = problem c' \<longleftrightarrow> c = c'"
  by (metis problem_def New_def Details.select_convs(2) Lookup_registered_Code err.inject(1)
      option.inject parse_code_string)

lemma as_Conflict_problem [simp]: "as_Conflict (problem c) = None" "as_Conflict (problem_detail c s) = None"
  by (simp_all add: problem_def problem_detail_def)

lemma as_Details_problem [simp]:
  "as_Details (problem c) = Some (New c '''')"
  "as_Details (problem_detail c s) = Some ((New c '''')\<lparr>d_Detail := s\<rparr>)"
  by (simp_all add: problem_def problem_detail_def)

section \<open>Properties\<close>

text \<open>Every code is found under its own wire string, no two codes share a wire string or a
  type URN, every definition has an error status, and a string that is no code's is not found.\<close>

theorem registry_is_faithful:
  "(\<forall>c. Lookup (code_string c) = Some (Lookup_registered c) \<and> df_Code (Lookup_registered c) = c \<and>
      df_Status (Lookup_registered c) \<in> {400..599}) \<and>
   inj code_string \<and> inj (df_Type \<circ> Lookup_registered) \<and>
   (\<forall>s. (Lookup s = None) = (s \<notin> range code_string))"
proof (intro conjI allI)
  fix c
  show "Lookup (code_string c) = Some (Lookup_registered c)" by simp
  show "df_Code (Lookup_registered c) = c" by simp
  show "df_Status (Lookup_registered c) \<in> {400..599}" by (cases c) simp_all
next
  have all: "UNIV = set Codes" using Codes_complete by auto
  show "inj code_string" using distinct_code_strings by (simp add: all distinct_map)
  have "distinct (map (df_Type \<circ> Lookup_registered) Codes)" by code_simp
  then show "inj (df_Type \<circ> Lookup_registered)" by (simp only: all distinct_map)
next
  show "(Lookup s = None) = (s \<notin> range code_string)" for s
    by (cases "Lookup s") (auto dest: Lookup_SomeD)
qed

lemma MarshalJSON_message_ne:
  "d_Title p \<noteq> '''' \<or> d_Detail p \<noteq> '''' \<or> d_Message p \<noteq> '''' \<longleftrightarrow> w_Message (MarshalJSON p) \<noteq> ''''"
  by (auto simp: MarshalJSON_def Let_def)

text \<open>A problem that carries a retryability and something to say survives a
  durable boundary: reading its wire form back and writing it again gives the same wire form.\<close>

theorem replay_rewrites_identically:
  assumes "d_Retryability p \<noteq> ''''" and "d_Title p \<noteq> '''' \<or> d_Detail p \<noteq> '''' \<or> d_Message p \<noteq> ''''"
  shows "MarshalJSON (UnmarshalJSON (MarshalJSON p)) = MarshalJSON p"
proof -
  have "w_Message (MarshalJSON p) \<noteq> ''''" using assms(2) MarshalJSON_message_ne by blast
  then show ?thesis
    using assms(1)
    by (cases "Lookup (d_Code p)") (auto simp: MarshalJSON_def UnmarshalJSON_def Let_def split: option.splits)
qed

theorem replay_rewrites_identically_witness:
  "MarshalJSON (UnmarshalJSON (MarshalJSON ((New CodeVersionConflict ''t'')\<lparr>d_Detail := ''stale''\<rparr>)))
   = MarshalJSON ((New CodeVersionConflict ''t'')\<lparr>d_Detail := ''stale''\<rparr>)"
  by (rule replay_rewrites_identically) (simp_all add: New_def)



text \<open>Whatever an error wraps, the action chosen for it is the one its
  problem's registered retryability calls for: retry after a backoff, the dead-letter queue where an
  operator must act or the failure is unknown, and an acknowledgement otherwise.\<close>

theorem classification_agrees_with_registry:
  "\<exists>c. fst (Classify e t) = New c t \<and>
     snd (Classify e t) =
       (if df_Retryability (Lookup_registered c) = ''safe-after-backoff'' then ActionRetry
        else if df_Retryability (Lookup_registered c) = ''operator-action'' \<or> c = CodeInternal then ActionDLQ
        else ActionAck) \<and>
     (c = CodeInternal) = (\<forall>f. as_Failure e = Some f \<longrightarrow> (\<exists>s. f = FamilyOther s))"
proof (cases "as_Failure e")
  case None
  then show ?thesis by (intro exI [of _ CodeInternal]) (simp add: Classify_def)
next
  case (Some f)
  then show ?thesis
    by (intro exI [of _ "fst (family_class f)"]) (cases f; simp add: Classify_def)
qed

theorem classification_agrees_with_registry_witness:
  "snd (Classify (Wrapped ''call'' (Failure FamilyProvider None)) ''t'') = ActionRetry"
  using classification_agrees_with_registry [of "Wrapped ''call'' (Failure FamilyProvider None)" "''t''"]
  by (simp add: Classify_def)

end
