(* ===== verification/Admission.thy ===== *)
theory Admission
  imports Problem
begin

text \<open>
  Bounded admission (\<open>src/internal/admission/admission.go\<close>): the manager that starts runs within global and
  per-workspace limits and queues the rest, the retry budget, and the dependency circuit.

  The counters are Go \<open>int\<close>s bounded by the limits; the number of records is one that no process reaches
  \<open>2^63\<close> of.
\<close>

section \<open>Limits and requests\<close>

record Bounds =
  b_ChildDepth :: int
  b_ChildFanout :: int
  b_Turns :: int
  b_Tools :: int
  b_Repairs :: int
  b_Retries :: int
  b_ContextTokens :: int
  b_InputTokens :: int
  b_OutputTokens :: int
  b_EventBytes :: int
  b_ArtifactBytes :: int
  b_SSEConnections :: int

text \<open>The fields \<open>Limits\<close> and \<open>Request\<close> have in common, and each type with its own ones.\<close>

record Limits = Bounds +
  GlobalActive :: int
  GlobalQueued :: int
  WorkspaceActive :: int
  WorkspaceQueued :: int

record Request = Bounds +
  q_WorkspaceID :: string
  q_RunID :: string

definition Limits_Validate :: "Limits \<Rightarrow> err option" where
  "Limits_Validate l =
     (if \<exists>v \<in> set [GlobalActive l, GlobalQueued l, WorkspaceActive l, WorkspaceQueued l, b_ChildDepth l, b_ChildFanout l,
           b_Turns l, b_Tools l, b_Repairs l, b_Retries l, b_ContextTokens l, b_InputTokens l, b_OutputTokens l,
           b_EventBytes l, b_SSEConnections l]. v < 1
      then Some (Plain ''admission limit must be positive'')
      else if b_ArtifactBytes l < 1 then Some (Plain ''artifact bound must be positive'')
      else None)"

record Decision =
  dn_Admitted :: bool
  dn_Queued :: bool
  dn_Duplicate :: bool
  dn_RetryAfter :: int
  dn_Code :: string

definition no_decision :: Decision where
  "no_decision = \<lparr>dn_Admitted = False, dn_Queued = False, dn_Duplicate = False, dn_RetryAfter = 0, dn_Code = ''''\<rparr>"

definition Second :: int where
  "Second = 1000000000"

section \<open>The manager\<close>

record request_record =
  rc_request :: Request
  rc_state :: string

record Manager =
  mg_limits :: Limits
  mg_active :: "int gomap"
  mg_queued :: "Request list gomap"
  mg_order :: "string list"
  mg_cursor :: nat
  mg_global :: int
  mg_queuedTotal :: int
  mg_durable :: int
  mg_records :: "request_record gomap"

definition NewManager :: "Limits \<Rightarrow> err + Manager" where
  "NewManager l =
     (case Limits_Validate l of
        Some e \<Rightarrow> Inl e
      | None \<Rightarrow> Inr \<lparr>mg_limits = l, mg_active = [], mg_queued = [], mg_order = [], mg_cursor = 0, mg_global = 0,
          mg_queuedTotal = 0, mg_durable = 0, mg_records = []\<rparr>)"

text \<open>A missing key reads as the zero value.\<close>

definition active_of :: "Manager \<Rightarrow> string \<Rightarrow> int" where
  "active_of m w = (case gm_get (mg_active m) w of None \<Rightarrow> 0 | Some n \<Rightarrow> n)"

definition queued_of :: "Manager \<Rightarrow> string \<Rightarrow> Request list" where
  "queued_of m w = (case gm_get (mg_queued m) w of None \<Rightarrow> [] | Some rs \<Rightarrow> rs)"

definition requestKey :: "string \<Rightarrow> string \<Rightarrow> string" where
  "requestKey workspace run = workspace @ [NUL] @ run"

definition alphanumeric :: "char \<Rightarrow> bool" where
  "alphanumeric c \<longleftrightarrow> is_upper c \<or> is_lower c \<or> is_digit c"

definition validIdentity :: "string \<Rightarrow> bool" where
  "validIdentity value \<longleftrightarrow> \<not> (length value < 1 \<or> length value > 128) \<and>
     (case value of [] \<Rightarrow> False
      | c # cs \<Rightarrow> alphanumeric c \<and> list_all (\<lambda>d. alphanumeric d \<or> d \<in> set ''._:-'') cs)"

definition bounds_of :: "'a Bounds_scheme \<Rightarrow> int list" where
  "bounds_of v = [b_ChildDepth v, b_ChildFanout v, b_Turns v, b_Tools v, b_Repairs v, b_Retries v, b_ContextTokens v,
     b_InputTokens v, b_OutputTokens v, b_EventBytes v, b_ArtifactBytes v, b_SSEConnections v]"

definition exceeds :: "Manager \<Rightarrow> Request \<Rightarrow> bool" where
  "exceeds m v \<longleftrightarrow> list_ex (\<lambda>x. x < 0) (bounds_of v) \<or> list_ex (\<lambda>(x, l). x > l) (zip (bounds_of v) (bounds_of (mg_limits m)))"

definition put_record :: "Request \<Rightarrow> string \<Rightarrow> Manager \<Rightarrow> Manager" where
  "put_record v state m =
     m\<lparr>mg_records := gm_put (requestKey (q_WorkspaceID v) (q_RunID v)) \<lparr>rc_request = v, rc_state = state\<rparr> (mg_records m)\<rparr>"

definition activate :: "string \<Rightarrow> Manager \<Rightarrow> Manager" where
  "activate w m = m\<lparr>mg_global := mg_global m + 1, mg_active := gm_put w (active_of m w + 1) (mg_active m)\<rparr>"

definition enqueue :: "Request \<Rightarrow> Manager \<Rightarrow> Manager" where
  "enqueue v m =
     (let w = q_WorkspaceID v
      in m\<lparr>mg_order := (if queued_of m w = [] then mg_order m @ [w] else mg_order m),
           mg_queued := gm_put w (queued_of m w @ [v]) (mg_queued m), mg_queuedTotal := mg_queuedTotal m + 1\<rparr>)"

definition Admit :: "Request \<Rightarrow> Manager \<Rightarrow> Decision \<times> Manager" where
  "Admit v m =
     (if \<not> validIdentity (q_WorkspaceID v) \<or> \<not> validIdentity (q_RunID v) \<or> exceeds m v
      then (no_decision\<lparr>dn_Code := code_string CodeLimitExceeded\<rparr>, m)
      else case gm_get (mg_records m) (requestKey (q_WorkspaceID v) (q_RunID v)) of
        Some prior \<Rightarrow>
          (if rc_request prior \<noteq> v then (no_decision\<lparr>dn_Code := code_string CodeIdempotencyConflict\<rparr>, m)
           else (no_decision\<lparr>dn_Duplicate := True\<rparr>, m))
      | None \<Rightarrow>
          (if mg_global m < GlobalActive (mg_limits m) \<and> active_of m (q_WorkspaceID v) < WorkspaceActive (mg_limits m)
           then (no_decision\<lparr>dn_Admitted := True\<rparr>,
                 put_record v ''active'' ((activate (q_WorkspaceID v) m)\<lparr>mg_durable := mg_durable m + 1\<rparr>))
           else if mg_queuedTotal m \<ge> GlobalQueued (mg_limits m) \<or>
                   int (length (queued_of m (q_WorkspaceID v))) \<ge> WorkspaceQueued (mg_limits m)
           then (no_decision\<lparr>dn_Code := code_string CodeAdmissionOverloaded, dn_RetryAfter := Second\<rparr>, m)
           else (no_decision\<lparr>dn_Queued := True, dn_Code := code_string CodeAdmissionOverloaded, dn_RetryAfter := Second\<rparr>,
                 put_record v ''queued'' ((enqueue v m)\<lparr>mg_durable := mg_durable m + 1\<rparr>))))"

definition zero_request :: Request where
  "zero_request = \<lparr>b_ChildDepth = 0, b_ChildFanout = 0, b_Turns = 0, b_Tools = 0, b_Repairs = 0, b_Retries = 0,
     b_ContextTokens = 0, b_InputTokens = 0, b_OutputTokens = 0, b_EventBytes = 0, b_ArtifactBytes = 0, b_SSEConnections = 0,
     q_WorkspaceID = '''', q_RunID = ''''\<rparr>"

definition start_record :: "Request \<Rightarrow> Manager \<Rightarrow> Manager" where
  "start_record v m =
     (let key = requestKey (q_WorkspaceID v) (q_RunID v);
          record = (case gm_get (mg_records m) key of None \<Rightarrow> \<lparr>rc_request = zero_request, rc_state = ''''\<rparr> | Some prior \<Rightarrow> prior)
      in m\<lparr>mg_records := gm_put key (record\<lparr>rc_state := ''active''\<rparr>) (mg_records m)\<rparr>)"

text \<open>\<open>next\<close> serves the workspace at the cursor: its oldest request starts.\<close>

definition serve :: "nat \<Rightarrow> Manager \<Rightarrow> Request \<times> Manager" where
  "serve cursor m =
     (let workspace = mg_order m ! cursor;
          value = hd (queued_of m workspace);
          rest = tl (queued_of m workspace);
          order = (if rest = [] then take cursor (mg_order m) @ drop (cursor + 1) (mg_order m) else mg_order m);
          m = m\<lparr>mg_queued := gm_put workspace rest (mg_queued m), mg_queuedTotal := mg_queuedTotal m - 1, mg_order := order,
                mg_cursor := (if rest \<noteq> [] then cursor + 1 else if order = [] then 0 else cursor)\<rparr>
      in (value, start_record value (activate workspace m)))"

text \<open>The loop, with the number of iterations left.\<close>

primrec scan :: "nat \<Rightarrow> Manager \<Rightarrow> Request option \<times> Manager" where
  "scan 0 m = (None, m)"
| "scan (Suc left) m =
     (let cursor = mg_cursor m mod length (mg_order m);
          workspace = mg_order m ! cursor
      in if active_of m workspace \<ge> WorkspaceActive (mg_limits m) \<or> queued_of m workspace = []
         then scan left (m\<lparr>mg_cursor := cursor + 1\<rparr>)
         else case serve cursor m of (value, m) \<Rightarrow> (Some value, m))"

definition next_request :: "Manager \<Rightarrow> Request option \<times> Manager" where
  "next_request m =
     (if mg_global m \<ge> GlobalActive (mg_limits m) \<or> mg_order m = [] then (None, m)
      else scan (length (mg_order m)) m)"

definition Complete :: "string \<Rightarrow> string \<Rightarrow> Manager \<Rightarrow> Request option \<times> Manager" where
  "Complete workspace run m =
     (case gm_get (mg_records m) (requestKey workspace run) of
        None \<Rightarrow> (None, m)
      | Some prior \<Rightarrow>
          (if rc_state prior \<noteq> ''active'' then (None, m)
           else let m = m\<lparr>mg_records := gm_put (requestKey workspace run) (prior\<lparr>rc_state := ''complete''\<rparr>) (mg_records m)\<rparr>;
                    m = (if active_of m workspace > 0
                         then m\<lparr>mg_active := gm_put workspace (active_of m workspace - 1) (mg_active m), mg_global := mg_global m - 1\<rparr>
                         else m)
                in next_request m))"

definition DurableRecords :: "Manager \<Rightarrow> int" where
  "DurableRecords m = mg_durable m"

section \<open>Retry budgets\<close>

record RetryPolicy =
  rp_MaximumAttempts :: int
  rp_Base :: int
  rp_Maximum :: int
  rp_MaximumCostMicros :: int

record RetryBudget =
  rb_policy :: RetryPolicy
  rb_attempts :: int
  rb_cost :: int

text \<open>
  The jitter and its random source are floating point: whether the configured jitter lies in the unit
  interval, and what a delay stretched by it comes to, are arguments.
\<close>

definition NewRetryBudget :: "bool \<Rightarrow> RetryPolicy \<Rightarrow> err + RetryBudget" where
  "NewRetryBudget jitter_ok p =
     (if rp_MaximumAttempts p < 1 \<or> rp_MaximumAttempts p > 100 \<or> rp_Base p \<le> 0 \<or> rp_Maximum p < rp_Base p
         \<or> rp_Maximum p > 24 * 3600 * Second \<or> \<not> jitter_ok \<or> rp_MaximumCostMicros p < 1
      then Inl (Plain ''retry policy invalid'')
      else Inr \<lparr>rb_policy = p, rb_attempts = 0, rb_cost = 0\<rparr>)"

definition NextRetry :: "(int \<Rightarrow> int) \<Rightarrow> int \<Rightarrow> (RetryBudget, err, int) op" where
  "NextRetry stretch cost b =
     (let p = rb_policy b
      in if cost < 0 \<or> cost > rp_MaximumCostMicros p \<or> rb_attempts b \<ge> rp_MaximumAttempts p \<or> rb_cost b > rp_MaximumCostMicros p - cost
         then (Inl (problem CodeLimitExceeded), b)
         else let scale = 2 ^ nat (min (rb_attempts b) 20);
                  delay = (if rp_Base p \<le> rp_Maximum p div scale then rp_Base p * scale else rp_Maximum p);
                  delay = (if delay > rp_Maximum p then rp_Maximum p else delay);
                  delay = stretch delay
              in (Inr (if delay > rp_Maximum p then rp_Maximum p else delay),
                  b\<lparr>rb_attempts := rb_attempts b + 1, rb_cost := rb_cost b + cost\<rparr>))"

section \<open>Circuits\<close>

record Circuit =
  ct_threshold :: int
  ct_cooldown :: int
  ct_failures :: int
  ct_openedAt :: time

definition NewCircuit :: "int \<Rightarrow> int \<Rightarrow> err + Circuit" where
  "NewCircuit threshold cooldown =
     (if threshold < 1 \<or> threshold > 1000 \<or> cooldown \<le> 0 \<or> cooldown > 24 * 3600 * Second
      then Inl (Plain ''circuit config invalid'')
      else Inr \<lparr>ct_threshold = threshold, ct_cooldown = cooldown, ct_failures = 0, ct_openedAt = 0\<rparr>)"

definition Allow :: "time \<Rightarrow> Circuit \<Rightarrow> err option \<times> Circuit" where
  "Allow now c =
     (if now = 0 then (Some (problem CodeCircuitOpen), c)
      else if ct_openedAt c \<noteq> 0 \<and> now - ct_openedAt c < ct_cooldown c then (Some (problem CodeCircuitOpen), c)
      else if ct_openedAt c \<noteq> 0 then (None, c\<lparr>ct_openedAt := 0, ct_failures := 0\<rparr>)
      else (None, c))"

definition CircuitFailure :: "time \<Rightarrow> Circuit \<Rightarrow> Circuit" where
  "CircuitFailure now c =
     (let c = c\<lparr>ct_failures := ct_failures c + 1\<rparr>
      in if ct_failures c \<ge> ct_threshold c \<and> ct_openedAt c = 0 then c\<lparr>ct_openedAt := now\<rparr> else c)"

definition CircuitSuccess :: "Circuit \<Rightarrow> Circuit" where
  "CircuitSuccess c = c\<lparr>ct_failures := 0, ct_openedAt := 0\<rparr>"


section \<open>The invariant\<close>

abbreviation key_of :: "Request \<Rightarrow> string" where
  "key_of v \<equiv> requestKey (q_WorkspaceID v) (q_RunID v)"

definition counts :: "string \<Rightarrow> request_record \<Rightarrow> int" where
  "counts state r = (if rc_state r = state then 1 else 0)"

definition counts_in :: "string \<Rightarrow> string \<Rightarrow> request_record \<Rightarrow> int" where
  "counts_in state w r = (if rc_state r = state \<and> q_WorkspaceID (rc_request r) = w then 1 else 0)"

text \<open>How many runs are in a state, in all and of one workspace.\<close>

abbreviation tally :: "string \<Rightarrow> Manager \<Rightarrow> int" where
  "tally state m \<equiv> gm_sum (counts state) (mg_records m)"

abbreviation tally_in :: "string \<Rightarrow> string \<Rightarrow> Manager \<Rightarrow> int" where
  "tally_in state w m \<equiv> gm_sum (counts_in state w) (mg_records m)"

definition record_inv :: "string \<Rightarrow> request_record \<Rightarrow> bool" where
  "record_inv k r \<longleftrightarrow> k = key_of (rc_request r) \<and> validIdentity (q_WorkspaceID (rc_request r)) \<and> validIdentity (q_RunID (rc_request r))"

definition waiting :: "Request \<Rightarrow> Manager \<Rightarrow> bool" where
  "waiting v m \<longleftrightarrow> gm_get (mg_records m) (key_of v) = Some \<lparr>rc_request = v, rc_state = ''queued''\<rparr>"

definition adm_inv :: "Manager \<Rightarrow> bool" where
  "adm_inv m \<longleftrightarrow> gm_ok (mg_records m) \<and> gm_all record_inv (mg_records m) \<and>
     (\<forall>w. active_of m w = tally_in ''active'' w m) \<and> mg_global m = tally ''active'' m \<and>
     mg_queuedTotal m = tally ''queued'' m \<and>
     (\<forall>w. distinct (queued_of m w) \<and> (\<forall>v. v \<in> set (queued_of m w) \<longleftrightarrow> q_WorkspaceID v = w \<and> waiting v m)) \<and>
     distinct (mg_order m) \<and> (\<forall>w. w \<in> set (mg_order m) \<longleftrightarrow> queued_of m w \<noteq> []) \<and>
     (\<forall>w. int (length (queued_of m w)) = tally_in ''queued'' w m)"

definition within :: "Manager \<Rightarrow> bool" where
  "within m \<longleftrightarrow> mg_global m \<le> GlobalActive (mg_limits m) \<and> mg_queuedTotal m \<le> GlobalQueued (mg_limits m) \<and>
     (\<forall>w. active_of m w \<le> WorkspaceActive (mg_limits m) \<and> int (length (queued_of m w)) \<le> WorkspaceQueued (mg_limits m))"

text \<open>No capacity is idle: a queued request waits for the whole service, or for its workspace.\<close>

definition busy :: "Manager \<Rightarrow> bool" where
  "busy m \<longleftrightarrow> mg_global m = GlobalActive (mg_limits m) \<or>
     (\<forall>w \<in> set (mg_order m). active_of m w = WorkspaceActive (mg_limits m))"

lemma counts_simps [simp]:
  "counts state \<lparr>rc_request = v, rc_state = state'\<rparr> = (if state' = state then 1 else 0)"
  "counts_in state w \<lparr>rc_request = v, rc_state = state'\<rparr> = (if state' = state \<and> q_WorkspaceID v = w then 1 else 0)"
  by (simp_all add: counts_def counts_in_def)

lemma activate_simps [simp]: "mg_records (activate w m) = mg_records m" "mg_limits (activate w m) = mg_limits m"
  "mg_global (activate w m) = mg_global m + 1" "active_of (activate w m) w' = (if w' = w then active_of m w + 1 else active_of m w')"
  "queued_of (activate w m) = queued_of m" "mg_queuedTotal (activate w m) = mg_queuedTotal m" "mg_order (activate w m) = mg_order m"
  "mg_cursor (activate w m) = mg_cursor m"
  by (auto simp: activate_def active_of_def queued_of_def gm_get_put)

lemma put_record_simps [simp]: "mg_limits (put_record v s m) = mg_limits m" "mg_global (put_record v s m) = mg_global m"
  "active_of (put_record v s m) = active_of m" "queued_of (put_record v s m) = queued_of m"
  "mg_queuedTotal (put_record v s m) = mg_queuedTotal m" "mg_order (put_record v s m) = mg_order m"
  "mg_cursor (put_record v s m) = mg_cursor m"
  "mg_records (put_record v s m) = gm_put (key_of v) \<lparr>rc_request = v, rc_state = s\<rparr> (mg_records m)"
  by (auto simp: put_record_def active_of_def queued_of_def)

lemma durable_simps [simp]: "active_of (m\<lparr>mg_durable := d\<rparr>) = active_of m" "queued_of (m\<lparr>mg_durable := d\<rparr>) = queued_of m"
  "active_of (m\<lparr>mg_cursor := c\<rparr>) = active_of m" "queued_of (m\<lparr>mg_cursor := c\<rparr>) = queued_of m"
  "active_of (m\<lparr>mg_records := rs\<rparr>) = active_of m" "queued_of (m\<lparr>mg_records := rs\<rparr>) = queued_of m"
  by (auto simp: active_of_def queued_of_def)

lemma enqueue_simps [simp]: "mg_records (enqueue v m) = mg_records m" "mg_limits (enqueue v m) = mg_limits m"
  "mg_global (enqueue v m) = mg_global m" "active_of (enqueue v m) = active_of m"
  "queued_of (enqueue v m) w = (if w = q_WorkspaceID v then queued_of m w @ [v] else queued_of m w)"
  "mg_queuedTotal (enqueue v m) = mg_queuedTotal m + 1"
  "mg_order (enqueue v m) = (if queued_of m (q_WorkspaceID v) = [] then mg_order m @ [q_WorkspaceID v] else mg_order m)"
  by (auto simp: enqueue_def active_of_def queued_of_def gm_get_put Let_def)

lemma adm_invD:
  assumes "adm_inv m"
  shows "gm_ok (mg_records m)" "gm_all record_inv (mg_records m)" "active_of m w = tally_in ''active'' w m"
    "mg_global m = tally ''active'' m" "mg_queuedTotal m = tally ''queued'' m" "distinct (queued_of m w)"
    "v \<in> set (queued_of m w) \<longleftrightarrow> q_WorkspaceID v = w \<and> waiting v m" "distinct (mg_order m)"
    "w \<in> set (mg_order m) \<longleftrightarrow> queued_of m w \<noteq> []" "int (length (queued_of m w)) = tally_in ''queued'' w m"
  using assms by (simp_all add: adm_inv_def)

lemma waiting_put:
  "waiting v (put_record v' s m) \<longleftrightarrow> (if key_of v = key_of v' then v = v' \<and> s = ''queued'' else waiting v m)"
  by (auto simp: waiting_def gm_get_put)

lemma waiting_same [simp]: "waiting v (m\<lparr>mg_durable := d\<rparr>) = waiting v m" "waiting v (m\<lparr>mg_cursor := c\<rparr>) = waiting v m"
  "waiting v (activate w m) = waiting v m" "waiting v (enqueue v' m) = waiting v m"
  by (simp_all add: waiting_def)

lemma Admit_inv:
  assumes "adm_inv m" and "within m" and "busy m" and "Admit v m = (d, m')"
  shows "adm_inv m' \<and> within m' \<and> busy m' \<and> mg_limits m' = mg_limits m"
proof (cases "m' = m")
  case False
  let ?w = "q_WorkspaceID v"
  from assms(4) False have new: "gm_get (mg_records m) (key_of v) = None"
    and valid: "validIdentity ?w" "validIdentity (q_RunID v)"
    by (auto simp: Admit_def split: if_splits option.splits)
  have fresh: "\<not> waiting u m" if "key_of u = key_of v" for u using new that by (simp add: waiting_def)
  note D = adm_invD [OF assms(1)]
  have none: "\<not> waiting u m" if "queued_of m (q_WorkspaceID u) = []" for u using D(7) [of u "q_WorkspaceID u"] that by simp
  have ok: "gm_ok (gm_put (key_of v) x (mg_records m))" for x using D(1) by (rule gm_ok_put)
  have all: "gm_all record_inv (gm_put (key_of v) \<lparr>rc_request = v, rc_state = s\<rparr> (mg_records m))" for s
    using D(2) by (rule gm_all_put) (simp add: record_inv_def valid)
  from assms(4) False new valid consider
      (starts) "mg_global m < GlobalActive (mg_limits m)" "active_of m ?w < WorkspaceActive (mg_limits m)"
        "m' = put_record v ''active'' ((activate ?w m)\<lparr>mg_durable := mg_durable m + 1\<rparr>)"
    | (queues) "\<not> (mg_global m < GlobalActive (mg_limits m) \<and> active_of m ?w < WorkspaceActive (mg_limits m))"
        "mg_queuedTotal m < GlobalQueued (mg_limits m)" "int (length (queued_of m ?w)) < WorkspaceQueued (mg_limits m)"
        "m' = put_record v ''queued'' ((enqueue v m)\<lparr>mg_durable := mg_durable m + 1\<rparr>)"
    by (auto simp: Admit_def split: if_splits)
  then show ?thesis
  proof cases
    case starts
    then have "?w \<notin> set (mg_order m)" using assms(3) by (auto simp: busy_def)
    then have "busy m'" using assms(3) starts by (auto simp: busy_def)
    moreover have "within m'" using assms(2) starts by (auto simp: within_def)
    moreover have "adm_inv m'"
      unfolding adm_inv_def starts(3)
      using D ok all fresh none by (auto simp: gm_sum_put_new [OF new] waiting_put)
    ultimately show ?thesis using starts by simp
  next
    case queues
    have "within m'" using assms(2) queues by (auto simp: within_def)
    moreover have "busy m'" using assms(2,3) queues by (auto simp: busy_def within_def intro: antisym)
    moreover have "adm_inv m'"
      unfolding adm_inv_def queues(4)
      using D ok all fresh none by (auto simp: gm_sum_put_new [OF new] waiting_put)
    ultimately show ?thesis using queues by simp
  qed
qed (use assms in simp)


lemma start_record_put: "waiting v m \<Longrightarrow> start_record v m = put_record v ''active'' m"
  by (simp add: start_record_def put_record_def waiting_def Let_def)

definition eligible :: "Manager \<Rightarrow> string \<Rightarrow> bool" where
  "eligible m w \<longleftrightarrow> active_of m w < WorkspaceActive (mg_limits m) \<and> queued_of m w \<noteq> []"

lemma remove_nth:
  assumes "distinct xs" and "c < length xs"
  shows "distinct (take c xs @ drop (Suc c) xs) \<and> set (take c xs @ drop (Suc c) xs) = set xs - {xs ! c}"
proof -
  have "xs = take c xs @ xs ! c # drop (Suc c) xs" using assms(2) by (rule id_take_nth_drop)
  then have "distinct (take c xs @ xs ! c # drop (Suc c) xs)" "set xs = set (take c xs @ xs ! c # drop (Suc c) xs)"
    using assms(1) by simp_all
  then show ?thesis by auto
qed

lemma serve_inv:
  assumes "adm_inv m" and c: "c < length (mg_order m)" and serve: "serve c m = (v, m')"
  shows "adm_inv m' \<and> mg_limits m' = mg_limits m \<and> mg_global m' = mg_global m + 1 \<and> mg_queuedTotal m' = mg_queuedTotal m - 1 \<and>
    (\<forall>w. active_of m' w = (if w = mg_order m ! c then active_of m w + 1 else active_of m w)) \<and>
    (\<forall>w. queued_of m' w = (if w = mg_order m ! c then tl (queued_of m w) else queued_of m w)) \<and>
    set (mg_order m') \<subseteq> set (mg_order m) \<and> waiting v m \<and> q_WorkspaceID v = mg_order m ! c \<and>
    mg_records m' = gm_put (key_of v) \<lparr>rc_request = v, rc_state = ''active''\<rparr> (mg_records m)"
proof -
  note D = adm_invD [OF assms(1)]
  let ?w = "mg_order m ! c"
  have w: "?w \<in> set (mg_order m)" using c by simp
  then obtain rest where q: "queued_of m ?w = v # rest" using serve D(9) [of ?w]
    by (cases "queued_of m ?w") (auto simp: serve_def Let_def)
  then have v: "waiting v m" "q_WorkspaceID v = ?w" using D(7) [of v ?w] by auto
  have rec: "gm_get (mg_records m) (key_of v) = Some \<lparr>rc_request = v, rc_state = ''queued''\<rparr>" using v by (simp add: waiting_def)
  define order where "order = (if rest = [] then take c (mg_order m) @ drop (Suc c) (mg_order m) else mg_order m)"
  define m1 where "m1 = m\<lparr>mg_queued := gm_put ?w rest (mg_queued m), mg_queuedTotal := mg_queuedTotal m - 1, mg_order := order,
      mg_cursor := (if rest \<noteq> [] then c + 1 else if order = [] then 0 else c)\<rparr>"
  have "waiting v (activate ?w m1)" using v by (simp add: waiting_def m1_def)
  moreover have "serve c m = (v, start_record v (activate ?w m1))"
    unfolding serve_def Let_def q m1_def order_def by simp
  ultimately have m': "m' = put_record v ''active'' (activate ?w m1)" using serve by (simp add: start_record_put)
  have m1: "mg_records m1 = mg_records m" "mg_limits m1 = mg_limits m" "mg_global m1 = mg_global m" "active_of m1 = active_of m"
    "queued_of m1 w = (if w = ?w then rest else queued_of m w)" "mg_queuedTotal m1 = mg_queuedTotal m - 1" "mg_order m1 = order" for w
    by (auto simp: m1_def active_of_def queued_of_def gm_get_put)
  have order: "distinct order" "set order = (if rest = [] then set (mg_order m) - {?w} else set (mg_order m))"
    using D(8) remove_nth [OF D(8) c] by (simp_all add: order_def)
  have same: "u = v" if "waiting u m" "key_of u = key_of v" for u using that v(1) by (simp add: waiting_def)
  have wait: "waiting u m' \<longleftrightarrow> waiting u m \<and> u \<noteq> v" for u
  proof -
    have "waiting u (activate ?w m1) = waiting u m" by (simp add: waiting_def m1)
    then show ?thesis using same by (auto simp: m' waiting_put)
  qed
  have "record_inv (key_of v) \<lparr>rc_request = v, rc_state = s\<rparr>" for s
    using gm_allD [OF D(2) rec] by (simp add: record_inv_def)
  then have "gm_all record_inv (mg_records m')" using D(2) by (simp add: m' m1 gm_all_put)
  moreover have "gm_ok (mg_records m')" using D(1) by (simp add: m' m1 gm_ok_put)
  moreover have "active_of m' w = tally_in ''active'' w m'" "mg_global m' = tally ''active'' m'"
    "mg_queuedTotal m' = tally ''queued'' m'" for w
    using D(3) [of w] D(4,5) by (auto simp: m' m1 gm_sum_put_old [OF rec] v(2) [symmetric])
  moreover have "distinct (queued_of m' w)" "u \<in> set (queued_of m' w) \<longleftrightarrow> q_WorkspaceID u = w \<and> waiting u m'" for u w
    using D(6) [of w] D(7) [of u w] q v(2) by (auto simp: m' m1 wait [unfolded m'])
  moreover have "distinct (mg_order m')" "w \<in> set (mg_order m') \<longleftrightarrow> queued_of m' w \<noteq> []" for w
    using order D(9) [of w] q by (auto simp: m' m1)
  moreover have "int (length (queued_of m' w)) = tally_in ''queued'' w m'" for w
    using D(10) [of w] q by (auto simp: m' m1 gm_sum_put_old [OF rec] v(2) [symmetric])
  ultimately have "adm_inv m'" by (simp add: adm_inv_def)
  then show ?thesis using m1 v q order by (auto simp: m' split: if_splits)
qed


lemma scan_cases:
  assumes "mg_order m \<noteq> []" and "scan left m = (x, m')"
  shows "(\<exists>c. x = None \<and> m' = m\<lparr>mg_cursor := c\<rparr> \<and> (\<forall>i < left. \<not> eligible m (mg_order m ! ((mg_cursor m + i) mod length (mg_order m))))) \<or>
    (\<exists>c v. c < length (mg_order m) \<and> eligible m (mg_order m ! c) \<and> serve c m = (v, m') \<and> x = Some v)"
  using assms
proof (induction left arbitrary: m)
  case 0
  then show ?case by (auto intro: exI [of _ "mg_cursor m"])
next
  case (Suc left)
  let ?c = "mg_cursor m mod length (mg_order m)"
  show ?case
  proof (cases "eligible m (mg_order m ! ?c)")
    case True
    moreover from True Suc.prems obtain v where "serve ?c m = (v, m')" "x = Some v"
      by (auto simp: eligible_def Let_def split: if_splits prod.splits)
    moreover have "?c < length (mg_order m)" using Suc.prems by simp
    ultimately show ?thesis by blast
  next
    case False
    let ?m = "m\<lparr>mg_cursor := Suc ?c\<rparr>"
    have scan: "scan left ?m = (x, m')" using False Suc.prems by (auto simp: eligible_def Let_def split: if_splits)
    have shift: "Suc (?c + i) mod length (mg_order m) = Suc (mg_cursor m + i) mod length (mg_order m)" for i
      by (simp only: add_Suc_right [symmetric] mod_add_left_eq)
    have same: "eligible ?m = eligible m" by (simp add: eligible_def fun_eq_iff)
    have served: "serve c ?m = serve c m" for c by (simp add: serve_def queued_of_def Let_def)
    from Suc.IH [OF _ scan] Suc.prems(1) show ?thesis
      using False by (auto simp: same served shift less_Suc_eq_0_disj)
  qed
qed

lemma mod_covers:
  assumes "j < n"
  shows "\<exists>i < n. (c + i) mod n = (j :: nat)"
proof (intro exI conjI)
  let ?i = "(j + n - c mod n) mod n"
  show "?i < n" using assms by simp
  have "c mod n < n" using assms by simp
  have "(c + ?i) mod n = (c mod n + (j + n - c mod n)) mod n" by (simp add: mod_simps)
  also have "c mod n + (j + n - c mod n) = j + n" using \<open>c mod n < n\<close> by simp
  finally show "(c + ?i) mod n = j" using assms by simp
qed

text \<open>What \<open>next\<close> does, on a manager that may have idle capacity.\<close>

lemma next_request_inv:
  assumes "adm_inv m" and "within m" and "next_request m = (x, m')"
  shows "adm_inv m' \<and> within m' \<and> mg_limits m' = mg_limits m \<and>
    (case x of
       None \<Rightarrow> mg_records m' = mg_records m \<and> busy m'
     | Some v \<Rightarrow> waiting v m \<and> mg_records m' = gm_put (key_of v) \<lparr>rc_request = v, rc_state = ''active''\<rparr> (mg_records m) \<and>
         mg_global m' = mg_global m + 1 \<and> active_of m (q_WorkspaceID v) < WorkspaceActive (mg_limits m) \<and>
         (\<forall>w. active_of m' w = (if w = q_WorkspaceID v then active_of m w + 1 else active_of m w)) \<and>
         set (mg_order m') \<subseteq> set (mg_order m) \<and> q_WorkspaceID v \<in> set (mg_order m))"
proof (cases "mg_global m \<ge> GlobalActive (mg_limits m) \<or> mg_order m = []")
  case True
  then show ?thesis using assms by (auto simp: next_request_def busy_def within_def)
next
  case False
  then have scan: "scan (length (mg_order m)) m = (x, m')" and order: "mg_order m \<noteq> []"
    using assms(3) by (auto simp: next_request_def split: if_splits)
  from scan_cases [OF order scan] consider
      (idle) c where "x = None" "m' = m\<lparr>mg_cursor := c\<rparr>"
        "\<forall>i < length (mg_order m). \<not> eligible m (mg_order m ! ((mg_cursor m + i) mod length (mg_order m)))"
    | (served) c v where "c < length (mg_order m)" "eligible m (mg_order m ! c)" "serve c m = (v, m')" "x = Some v"
    by blast
  then show ?thesis
  proof cases
    case idle
    have "active_of m w = WorkspaceActive (mg_limits m)" if w: "w \<in> set (mg_order m)" for w
    proof -
      obtain j where j: "j < length (mg_order m)" "w = mg_order m ! j" using w by (auto simp: in_set_conv_nth)
      then have "\<not> eligible m w" using idle(3) mod_covers [OF j(1), of "mg_cursor m"] by force
      moreover have "queued_of m w \<noteq> []" using w assms(1) by (simp add: adm_invD)
      ultimately show ?thesis using assms(2) by (auto simp: eligible_def within_def intro: antisym)
    qed
    moreover have "adm_inv m'" using assms(1) by (simp add: adm_inv_def idle)
    ultimately show ?thesis using assms(2) idle by (simp add: busy_def within_def)
  next
    case served
    note S = serve_inv [OF assms(1) served(1,3)]
    have "int (length (queued_of m w)) \<le> WorkspaceQueued (mg_limits m)" for w using assms(2) by (simp add: within_def)
    then have "int (length (queued_of m w) - Suc 0) \<le> WorkspaceQueued (mg_limits m)" for w
      using diff_le_self [of "length (queued_of m w)" "Suc 0"] by (meson of_nat_mono order_trans)
    then have "within m'" using S assms(2) served(2) False by (auto simp: within_def eligible_def)
    then show ?thesis using S served by (auto simp: eligible_def)
  qed
qed

lemma validIdentity_nul:
  assumes "validIdentity s" shows "NUL \<notin> set s"
proof
  assume nul: "NUL \<in> set s"
  have "\<not> alphanumeric NUL" by (simp add: alphanumeric_def is_upper_def is_lower_def is_digit_def less_eq_char_def NUL_def)
  moreover have "NUL \<notin> set ''._:-''" by (simp add: NUL_def)
  moreover from assms obtain c cs where "s = c # cs" "alphanumeric c" "\<forall>d \<in> set cs. alphanumeric d \<or> d \<in> set ''._:-''"
    by (cases s) (simp_all add: validIdentity_def list_all_iff)
  ultimately show False using nul by (metis set_ConsD)
qed

lemma requestKey_inject:
  assumes "validIdentity w" and "validIdentity r" and "requestKey w' r' = requestKey w r"
  shows "w' = w \<and> r' = r"
proof -
  have w: "NUL \<notin> set w" "NUL \<notin> set r" using assms(1,2) by (simp_all add: validIdentity_nul)
  from assms(3) have eq: "w' @ NUL # r' = w @ NUL # r" by (simp add: requestKey_def)
  then have "count_list (w' @ NUL # r') NUL = count_list (w @ NUL # r) NUL" by simp
  then have "NUL \<notin> set w'" using w by (simp add: count_list_0_iff)
  then show ?thesis using append_sep_inject [of NUL w' w r' r] eq w(1) by blast
qed

text \<open>Completing an active run is to retire it, and then \<open>next\<close>.\<close>

definition retire :: "Request \<Rightarrow> Manager \<Rightarrow> Manager" where
  "retire v m = m\<lparr>mg_records := gm_put (key_of v) \<lparr>rc_request = v, rc_state = ''complete''\<rparr> (mg_records m),
     mg_active := gm_put (q_WorkspaceID v) (active_of m (q_WorkspaceID v) - 1) (mg_active m), mg_global := mg_global m - 1\<rparr>"

definition running :: "Request \<Rightarrow> Manager \<Rightarrow> bool" where
  "running v m \<longleftrightarrow> gm_get (mg_records m) (key_of v) = Some \<lparr>rc_request = v, rc_state = ''active''\<rparr>"

lemma running_active:
  assumes "adm_inv m" and "running v m"
  shows "0 < active_of m (q_WorkspaceID v)"
proof -
  have "counts_in ''active'' (q_WorkspaceID v) \<lparr>rc_request = v, rc_state = ''active''\<rparr> \<le> tally_in ''active'' (q_WorkspaceID v) m"
    using assms(2) by (intro gm_sum_member_le) (auto simp: running_def counts_in_def)
  then show ?thesis using adm_invD(3) [OF assms(1), of "q_WorkspaceID v"] by simp
qed

lemma Complete_cases:
  assumes "adm_inv m"
  obtains (no) "Complete workspace run m = (None, m)" "\<And>v. running v m \<Longrightarrow> \<not> (q_WorkspaceID v = workspace \<and> q_RunID v = run)"
  | (yes) v where "running v m" "q_WorkspaceID v = workspace" "q_RunID v = run"
      "Complete workspace run m = next_request (retire v m)"
proof (cases "gm_get (mg_records m) (requestKey workspace run)")
  case None
  then show ?thesis by (intro no) (auto simp: Complete_def running_def)
next
  case (Some prior)
  have inv: "record_inv (requestKey workspace run) prior" using gm_allD [OF adm_invD(2) [OF assms] Some] .
  then have id: "workspace = q_WorkspaceID (rc_request prior)" "run = q_RunID (rc_request prior)"
    using requestKey_inject by (auto simp: record_inv_def)
  show ?thesis
  proof (cases "rc_state prior = ''active''")
    case True
    then have run: "running (rc_request prior) m" using Some id by (simp add: running_def)
    from running_active [OF assms this] have "Complete workspace run m = next_request (retire (rc_request prior) m)"
      using True Some id by (cases prior) (simp add: Complete_def retire_def Let_def)
    then show ?thesis using run id by (intro yes [of "rc_request prior"]) simp_all
  next
    case False
    then show ?thesis using Some by (intro no) (auto simp: Complete_def running_def)
  qed
qed

lemma retire_simps [simp]:
  "mg_records (retire v m) = gm_put (key_of v) \<lparr>rc_request = v, rc_state = ''complete''\<rparr> (mg_records m)"
  "active_of (retire v m) w = (if w = q_WorkspaceID v then active_of m w - 1 else active_of m w)"
  "mg_global (retire v m) = mg_global m - 1" "queued_of (retire v m) = queued_of m" "mg_queuedTotal (retire v m) = mg_queuedTotal m"
  "mg_order (retire v m) = mg_order m" "mg_limits (retire v m) = mg_limits m" "mg_cursor (retire v m) = mg_cursor m"
  by (auto simp: retire_def active_of_def queued_of_def gm_get_put)

lemma retire_inv:
  assumes "adm_inv m" and "within m" and "running v m"
  shows "adm_inv (retire v m) \<and> within (retire v m) \<and> waiting u (retire v m) = waiting u m \<and> mg_limits (retire v m) = mg_limits m \<and>
    mg_global (retire v m) = mg_global m - 1 \<and> mg_order (retire v m) = mg_order m \<and>
    (\<forall>w. active_of (retire v m) w = (if w = q_WorkspaceID v then active_of m w - 1 else active_of m w))"
proof -
  note D = adm_invD [OF assms(1)]
  have rec: "gm_get (mg_records m) (key_of v) = Some \<lparr>rc_request = v, rc_state = ''active''\<rparr>" using assms(3) by (simp add: running_def)
  have wait: "waiting u (retire v m) = waiting u m" for u using rec by (auto simp: waiting_def gm_get_put)
  have "record_inv (key_of v) \<lparr>rc_request = v, rc_state = s\<rparr>" for s
    using gm_allD [OF D(2) rec] by (simp add: record_inv_def)
  then have "gm_all record_inv (mg_records (retire v m))" "gm_ok (mg_records (retire v m))"
    using D(1,2) by (simp_all add: gm_all_put gm_ok_put)
  moreover have "active_of (retire v m) w = tally_in ''active'' w (retire v m)" "mg_global (retire v m) = tally ''active'' (retire v m)"
    "mg_queuedTotal (retire v m) = tally ''queued'' (retire v m)" for w
    using D(3) [of w] D(4,5) by (auto simp: gm_sum_put_old [OF rec])
  moreover have "int (length (queued_of (retire v m) w)) = tally_in ''queued'' w (retire v m)" for w
    using D(10) [of w] by (simp add: gm_sum_put_old [OF rec])
  ultimately have "adm_inv (retire v m)" using D(6-9) by (simp add: adm_inv_def wait)
  moreover have "active_of m w - 1 \<le> WorkspaceActive (mg_limits m)" for w
    using assms(2) by (auto simp: within_def intro: order_trans [of _ "active_of m w"])
  then have "within (retire v m)" using assms(2) by (auto simp: within_def)
  ultimately show ?thesis using wait by simp
qed

lemma Complete_inv:
  assumes "adm_inv m" and "within m" and "busy m" and "Complete workspace run m = (x, m')"
  shows "adm_inv m' \<and> within m' \<and> busy m' \<and> mg_limits m' = mg_limits m"
proof (rule Complete_cases [OF assms(1), of workspace run])
  assume "Complete workspace run m = (None, m)"
  then show ?thesis using assms by simp
next
  fix v assume v: "running v m" and "Complete workspace run m = next_request (retire v m)"
  then have served: "next_request (retire v m) = (x, m')" using assms(4) by simp
  have R: "adm_inv (retire v m)" "within (retire v m)" "mg_limits (retire v m) = mg_limits m" "mg_order (retire v m) = mg_order m"
    "mg_global (retire v m) = mg_global m - 1"
    "active_of (retire v m) w = (if w = q_WorkspaceID v then active_of m w - 1 else active_of m w)" for w
    using retire_inv [OF assms(1,2) v] by auto
  note N = next_request_inv [OF R(1,2) served, unfolded R(3,4)]
  from N have limits: "mg_limits m' = mg_limits m" by blast
  have "busy m'"
  proof (cases x)
    case None
    then show ?thesis using N by simp
  next
    case (Some u)
    from N Some have room: "active_of (retire v m) (q_WorkspaceID u) < WorkspaceActive (mg_limits m)"
      and global: "mg_global m' = mg_global m" and u: "q_WorkspaceID u \<in> set (mg_order m)"
      and sub: "set (mg_order m') \<subseteq> set (mg_order m)"
      and act: "\<And>w. active_of m' w = (if w = q_WorkspaceID u then active_of (retire v m) w + 1 else active_of (retire v m) w)"
      by (simp_all add: R(5))
    show ?thesis
    proof (cases "mg_global m = GlobalActive (mg_limits m)")
      case True
      then show ?thesis by (simp add: busy_def global limits)
    next
      case False
      then have full: "active_of m w = WorkspaceActive (mg_limits m)" if "w \<in> set (mg_order m)" for w
        using assms(3) that by (auto simp: busy_def)
      with room u have "q_WorkspaceID u = q_WorkspaceID v" by (auto simp: R(6) split: if_splits)
      then have "active_of m' w = active_of m w" for w by (simp add: act R(6))
      then show ?thesis using full sub by (auto simp: busy_def limits)
    qed
  qed
  then show ?thesis using N by blast
qed

section \<open>Every reachable manager\<close>

inductive adm_reach :: "Limits \<Rightarrow> Manager \<Rightarrow> bool" for l where
  adm_new: "NewManager l = Inr m \<Longrightarrow> adm_reach l m"
| adm_admit: "adm_reach l m \<Longrightarrow> adm_reach l (snd (Admit v m))"
| adm_complete: "adm_reach l m \<Longrightarrow> adm_reach l (snd (Complete workspace run m))"

lemma NewManager_inv: "NewManager l = Inr m \<Longrightarrow> adm_inv m \<and> within m \<and> busy m \<and> mg_limits m = l \<and> 1 \<le> GlobalActive l \<and> 1 \<le> WorkspaceActive l"
  by (auto simp: NewManager_def Limits_Validate_def adm_inv_def within_def busy_def active_of_def queued_of_def waiting_def
      split: option.splits if_splits)

lemma adm_reach_inv: "adm_reach l m \<Longrightarrow> adm_inv m \<and> within m \<and> busy m \<and> mg_limits m = l \<and> 1 \<le> GlobalActive l \<and> 1 \<le> WorkspaceActive l"
proof (induction rule: adm_reach.induct)
  case (adm_new m)
  then show ?case by (rule NewManager_inv)
next
  case (adm_admit m v)
  then show ?case using Admit_inv [of m v] by (cases "Admit v m") auto
next
  case (adm_complete m workspace run)
  then show ?case using Complete_inv [of m workspace run] by (cases "Complete workspace run m") auto
qed

text \<open>Completions one after the other, and the requests they start.\<close>

primrec drain :: "(string \<times> string) list \<Rightarrow> Manager \<Rightarrow> Request list \<times> Manager" where
  "drain [] m = ([], m)"
| "drain (c # cs) m = (case Complete (fst c) (snd c) m of (x, m') \<Rightarrow>
     (case drain cs m' of (vs, m'') \<Rightarrow> ((case x of None \<Rightarrow> vs | Some v \<Rightarrow> v # vs), m'')))"

lemma some_running:
  assumes "adm_inv m" and "0 < tally ''active'' m"
  shows "\<exists>v. running v m"
proof -
  have "\<exists>k r. (k, r) \<in> set (mg_records m) \<and> rc_state r = ''active''"
  proof (rule ccontr)
    assume "\<not> ?thesis"
    then have "gm_sum (counts ''active'') (mg_records m) = gm_sum (\<lambda>r. 0) (mg_records m)"
      by (intro gm_sum_cong) (auto simp: counts_def)
    then show False using assms(2) by (simp add: gm_sum_def case_prod_unfold)
  qed
  then obtain k r where r: "gm_get (mg_records m) k = Some r" "rc_state r = ''active''"
    using adm_invD(1) [OF assms(1)] by (auto simp: gm_get_iff)
  then have "k = key_of (rc_request r)" using gm_allD [OF adm_invD(2) [OF assms(1)] r(1)] by (simp add: record_inv_def)
  then have "running (rc_request r) m" using r by (cases r) (simp add: running_def)
  then show ?thesis by blast
qed

lemma tally_nonneg: "0 \<le> tally state m" "0 \<le> tally_in state w m"
  by (auto intro!: gm_sum_nonneg simp: counts_def counts_in_def)

lemma waiting_counted: "waiting v m \<Longrightarrow> 0 < tally ''queued'' m"
proof -
  assume "waiting v m"
  then have "counts ''queued'' \<lparr>rc_request = v, rc_state = ''queued''\<rparr> \<le> tally ''queued'' m"
    by (intro gm_sum_member_le) (auto simp: waiting_def counts_def)
  then show ?thesis by simp
qed

text \<open>Completing a running request takes one from the runs that are active or queued, and starts at most one that waits.\<close>

lemma waiting_unique: "waiting u m \<Longrightarrow> waiting v m \<Longrightarrow> key_of u = key_of v \<Longrightarrow> u = v"
  by (simp add: waiting_def)

lemma Complete_running:
  assumes m: "adm_inv m" "within m" and v: "running v m" and "Complete (q_WorkspaceID v) (q_RunID v) m = (x, m')"
  shows "tally ''active'' m' + tally ''queued'' m' = tally ''active'' m + tally ''queued'' m - 1 \<and>
    (\<forall>u. waiting u m' \<longleftrightarrow> waiting u m \<and> x \<noteq> Some u) \<and> (\<forall>u. x = Some u \<longrightarrow> waiting u m)"
proof -
  have "Complete (q_WorkspaceID v) (q_RunID v) m = next_request (retire v m)"
    by (rule Complete_cases [OF m(1), of "q_WorkspaceID v" "q_RunID v"])
      (use v in \<open>auto simp: running_def\<close>)
  with assms(4) have served: "next_request (retire v m) = (x, m')" by simp
  note R = retire_inv [OF m v]
  have rec: "gm_get (mg_records m) (key_of v) = Some \<lparr>rc_request = v, rc_state = ''active''\<rparr>" using v by (simp add: running_def)
  have sums: "tally ''active'' (retire v m) = tally ''active'' m - 1" "tally ''queued'' (retire v m) = tally ''queued'' m"
    using rec by (simp_all add: retire_def gm_sum_put_old)
  have wait: "waiting u (retire v m) = waiting u m" for u using retire_inv [OF m v, of u] by blast
  from R have "adm_inv (retire v m)" "within (retire v m)" by blast+
  note N = next_request_inv [OF this served]
  show ?thesis
  proof (cases x)
    case None
    then have "mg_records m' = mg_records (retire v m)" using N by simp
    then show ?thesis using sums wait None by (simp add: waiting_def)
  next
    case (Some u)
    then have u: "waiting u (retire v m)" "mg_records m' = gm_put (key_of u) \<lparr>rc_request = u, rc_state = ''active''\<rparr> (mg_records (retire v m))"
      using N by simp_all
    have "waiting w m' \<longleftrightarrow> waiting w (retire v m) \<and> w \<noteq> u" for w
    proof -
      have "waiting w m' = waiting w (put_record u ''active'' (retire v m))" by (simp add: waiting_def u(2))
      moreover have "key_of w = key_of u \<Longrightarrow> waiting w (retire v m) \<Longrightarrow> w = u" using u(1) waiting_unique by blast
      ultimately show ?thesis by (auto simp: waiting_put)
    qed
    moreover have "tally ''active'' m' = tally ''active'' (retire v m) + 1" "tally ''queued'' m' = tally ''queued'' (retire v m) - 1"
      by (simp_all add: u(2) gm_sum_put_old [OF u(1) [unfolded waiting_def]] del: retire_simps)
    ultimately show ?thesis using sums wait [of u] wait u(1) Some by auto
  qed
qed

lemma drains:
  assumes "adm_inv m" "within m" "busy m" "1 \<le> GlobalActive (mg_limits m)" "1 \<le> WorkspaceActive (mg_limits m)"
  shows "\<exists>cs vs m'. drain cs m = (vs, m') \<and> tally ''active'' m' = 0 \<and> tally ''queued'' m' = 0 \<and>
    int (length cs) = tally ''active'' m + tally ''queued'' m \<and> distinct vs \<and> set vs = {v. waiting v m}"
  using assms
proof (induction "nat (tally ''active'' m + tally ''queued'' m)" arbitrary: m rule: less_induct)
  case less
  show ?case
  proof (cases "0 < tally ''active'' m")
    case True
    then obtain v where v: "running v m" using some_running [OF less.prems(1)] by blast
    obtain x m1 where c: "Complete (q_WorkspaceID v) (q_RunID v) m = (x, m1)" by (cases "Complete (q_WorkspaceID v) (q_RunID v) m")
    note C = Complete_running [OF less.prems(1,2) v c] and I = Complete_inv [OF less.prems(1-3) c]
    have "nat (tally ''active'' m1 + tally ''queued'' m1) < nat (tally ''active'' m + tally ''queued'' m)"
      using C True tally_nonneg(1) [of "''queued''" m] by simp
    from less.hyps [OF this] I less.prems(4,5) obtain cs vs m' where
      d: "drain cs m1 = (vs, m')" "tally ''active'' m' = 0" "tally ''queued'' m' = 0"
        "int (length cs) = tally ''active'' m1 + tally ''queued'' m1" "distinct vs" "set vs = {v. waiting v m1}" by auto
    let ?vs = "case x of None \<Rightarrow> vs | Some u \<Rightarrow> u # vs"
    have "drain ((q_WorkspaceID v, q_RunID v) # cs) m = (?vs, m')" using c d(1) by simp
    moreover have "distinct ?vs" "set ?vs = {v. waiting v m}" using C d(5,6) by (auto split: option.split)
    moreover have "int (length ((q_WorkspaceID v, q_RunID v) # cs)) = tally ''active'' m + tally ''queued'' m"
      using C d(4) by simp
    ultimately show ?thesis using d(2,3) by blast
  next
    case False
    then have none: "tally ''active'' m = 0" using tally_nonneg(1) [of "''active''" m] by simp
    note D = adm_invD [OF less.prems(1)]
    have "mg_order m = []"
    proof (rule ccontr)
      assume "mg_order m \<noteq> []"
      then obtain w where "w \<in> set (mg_order m)" by (cases "mg_order m") auto
      then have "active_of m w = WorkspaceActive (mg_limits m)"
        using less.prems(3,4) none D(4) by (auto simp: busy_def)
      moreover have "tally_in ''active'' w m \<le> tally ''active'' m"
        by (rule gm_sum_mono) (auto simp: counts_def counts_in_def)
      ultimately show False using less.prems(5) none D(3) [of w] by simp
    qed
    then have queues: "queued_of m w = []" for w using D(9) [of w] by simp
    have idle: "\<not> waiting v m" for v using D(7) [of v "q_WorkspaceID v"] queues by simp
    have "tally ''queued'' m = gm_sum (\<lambda>r. 0) (mg_records m)"
    proof (rule gm_sum_cong)
      fix k r assume "(k, r) \<in> set (mg_records m)"
      then have "gm_get (mg_records m) k = Some r" using D(1) by (simp add: gm_get_iff)
      moreover from this have "k = key_of (rc_request r)" using gm_allD [OF D(2)] by (simp add: record_inv_def)
      ultimately show "counts ''queued'' r = 0"
        using idle [of "rc_request r"] by (cases r) (auto simp: counts_def waiting_def)
    qed
    then have "tally ''queued'' m = 0" by (simp add: gm_sum_def case_prod_unfold)
    then show ?thesis using none idle by (intro exI [of _ "[]"]) simp
  qed
qed

section \<open>Starvation\<close>

definition fair_limits :: Limits where
  "fair_limits = \<lparr>b_ChildDepth = 1, b_ChildFanout = 1, b_Turns = 1, b_Tools = 1, b_Repairs = 1, b_Retries = 1,
     b_ContextTokens = 1, b_InputTokens = 1, b_OutputTokens = 1, b_EventBytes = 1, b_ArtifactBytes = 1, b_SSEConnections = 1,
     GlobalActive = 1, GlobalQueued = 8, WorkspaceActive = 1, WorkspaceQueued = 4\<rparr>"

definition request_of :: "string \<Rightarrow> string \<Rightarrow> Request" where
  "request_of w r = zero_request\<lparr>q_WorkspaceID := w, q_RunID := r\<rparr>"

definition late :: "nat \<Rightarrow> Request" where
  "late n = request_of ''b'' (CHR ''r'' # nat_digits n)"

definition old :: Request where
  "old = request_of ''a'' ''third''"

text \<open>Workspace \<open>a\<close> has one run active and two queued; then the requests of \<open>b\<close> come one by one.\<close>

primrec overtaken :: "nat \<Rightarrow> Manager" where
  "overtaken 0 =
     (case NewManager fair_limits of Inr m \<Rightarrow>
        (let m = snd (Admit (request_of ''a'' ''first'') m);
             m = snd (Admit (request_of ''a'' ''second'') m);
             m = snd (Admit old m);
             m = snd (Admit (late 0) m);
             m = snd (Complete ''a'' ''first'' m)
         in snd (Complete ''a'' ''second'' m)))"
| "overtaken (Suc n) = snd (Complete ''b'' (q_RunID (late n)) (snd (Admit (late (Suc n)) (overtaken n))))"

definition behind :: "nat \<Rightarrow> Manager \<Rightarrow> bool" where
  "behind n m \<longleftrightarrow> mg_limits m = fair_limits \<and> mg_global m = 1 \<and> mg_queuedTotal m = 1 \<and> active_of m ''b'' = 1 \<and>
     mg_order m = [''a''] \<and> mg_cursor m = 1 \<and> queued_of m ''a'' = [old] \<and> queued_of m ''b'' = [] \<and>
     gm_get (mg_records m) (key_of (late n)) = Some \<lparr>rc_request = late n, rc_state = ''active''\<rparr> \<and>
     (\<forall>j > n. gm_get (mg_records m) (key_of (late j)) = None)"

lemma requestKey_same [simp]: "requestKey w r = requestKey w r' \<longleftrightarrow> r = r'"
  by (simp add: requestKey_def)

lemma late_simps [simp]: "q_WorkspaceID (late n) = ''b''" "late m = late n \<longleftrightarrow> m = n" "q_RunID (late m) = q_RunID (late n) \<longleftrightarrow> m = n"
  by (auto simp: late_def request_of_def requestKey_def zero_request_def dest: nat_digits_inject)

lemma late_valid: "n < 10 ^ 100 \<Longrightarrow> validIdentity (q_RunID (late n))"
  using nat_digits_length [of 100 n] nat_digits_num [of n]
  by (auto simp: late_def request_of_def validIdentity_def alphanumeric_def is_num_def list_all_iff is_lower_def less_eq_char_def)

lemma late_fits: "mg_limits m = fair_limits \<Longrightarrow> \<not> exceeds m (late n)"
  by (simp add: exceeds_def bounds_of_def late_def request_of_def zero_request_def fair_limits_def)

lemma overtaken_start: "behind 0 (overtaken 0)"
proof -
  have keys: "map fst (mg_records (overtaken 0)) = [key_of (request_of ''a'' ''first''), key_of (request_of ''a'' ''second''), key_of old, key_of (late 0)]"
    by code_simp
  have other: "key_of (late j) \<noteq> requestKey ''a'' r" for j r by (simp add: requestKey_def)
  have "gm_get (mg_records (overtaken 0)) (key_of (late j)) = None" if "j > 0" for j
  proof -
    have "key_of (late j) \<notin> set (map fst (mg_records (overtaken 0)))"
      unfolding keys using that other by (simp add: old_def request_of_def zero_request_def)
    then show ?thesis by (simp add: map_of_eq_None_iff)
  qed
  moreover have "mg_limits (overtaken 0) = fair_limits" "mg_global (overtaken 0) = 1" "mg_queuedTotal (overtaken 0) = 1"
    "active_of (overtaken 0) ''b'' = 1" "mg_order (overtaken 0) = [''a'']" "mg_cursor (overtaken 0) = 1"
    "queued_of (overtaken 0) ''a'' = [old]" "queued_of (overtaken 0) ''b'' = []"
    "gm_get (mg_records (overtaken 0)) (key_of (late 0)) = Some \<lparr>rc_request = late 0, rc_state = ''active''\<rparr>"
    by code_simp+
  ultimately show ?thesis by (simp add: behind_def)
qed

lemma overtaken_step:
  assumes m: "behind n m" and n: "Suc n < 10 ^ 100"
  shows "\<exists>m'. Complete ''b'' (q_RunID (late n)) (snd (Admit (late (Suc n)) m)) = (Some (late (Suc n)), m') \<and> behind (Suc n) m'"
proof -
  let ?v = "late (Suc n)"
  from m have m: "mg_limits m = fair_limits" "mg_global m = 1" "mg_queuedTotal m = 1" "active_of m ''b'' = 1" "mg_order m = [''a'']"
    "mg_cursor m = 1" "queued_of m ''a'' = [old]" "queued_of m ''b'' = []"
    "gm_get (mg_records m) (key_of (late n)) = Some \<lparr>rc_request = late n, rc_state = ''active''\<rparr>"
    "\<And>j. j > n \<Longrightarrow> gm_get (mg_records m) (key_of (late j)) = None"
    by (simp_all add: behind_def)
  define m1 where "m1 = put_record ?v ''queued'' ((enqueue ?v m)\<lparr>mg_durable := mg_durable m + 1\<rparr>)"
  have fair: "GlobalActive fair_limits = 1" "GlobalQueued fair_limits = 8" "WorkspaceActive fair_limits = 1" "WorkspaceQueued fair_limits = 4"
    by (simp_all add: fair_limits_def)
  have b: "validIdentity ''b''" by code_simp
  have "snd (Admit ?v m) = m1"
    using late_valid [OF n] late_fits [OF m(1), of "Suc n"] m(10) [of "Suc n"]
    by (simp add: Admit_def m(1-8) fair m1_def b)
  moreover have m1: "mg_limits m1 = fair_limits" "mg_global m1 = 1" "mg_queuedTotal m1 = 2" "active_of m1 = active_of m"
      "mg_order m1 = [''a'', ''b'']" "mg_cursor m1 = 1" "queued_of m1 w = (if w = ''b'' then [?v] else queued_of m w)"
      "mg_records m1 = gm_put (key_of ?v) \<lparr>rc_request = ?v, rc_state = ''queued''\<rparr> (mg_records m)" for w
    using m by (simp_all add: m1_def) (simp add: put_record_def enqueue_def Let_def)
  moreover have rec: "gm_get (mg_records m1) (requestKey ''b'' (q_RunID (late n))) = Some \<lparr>rc_request = late n, rc_state = ''active''\<rparr>"
    using m(9) by (simp add: m1(8) gm_get_put)
  define m2 where "m2 = retire (late n) m1"
  have m2: "mg_limits m2 = fair_limits" "mg_global m2 = 0" "mg_queuedTotal m2 = 2" "active_of m2 ''b'' = 0" "mg_order m2 = [''a'', ''b'']"
      "mg_cursor m2 = 1" "queued_of m2 = queued_of m1"
      "gm_get (mg_records m2) (key_of ?v) = Some \<lparr>rc_request = ?v, rc_state = ''queued''\<rparr>"
      "\<And>j. j > Suc n \<Longrightarrow> gm_get (mg_records m2) (key_of (late j)) = None"
    using m m1 by (simp_all add: m2_def gm_get_put)
  have "Complete ''b'' (q_RunID (late n)) m1 = next_request m2"
    using rec m(4) by (simp add: Complete_def m2_def retire_def m1(4) Let_def)
  moreover have "next_request m2 = (Some ?v, snd (serve 1 m2))"
    using m2 m1(7) by (simp add: next_request_def fair serve_def Let_def)
  moreover have "behind (Suc n) (snd (serve 1 m2))"
  proof -
    define m3 where "m3 = m2\<lparr>mg_queued := gm_put ''b'' [] (mg_queued m2), mg_queuedTotal := 1, mg_order := [''a''], mg_cursor := 1\<rparr>"
    have "snd (serve 1 m2) = start_record ?v (activate ''b'' m3)"
      using m2 m1(7) by (simp add: serve_def m3_def Let_def)
    moreover have "waiting ?v (activate ''b'' m3)" using m2(8) by (simp add: waiting_def m3_def)
    ultimately have "snd (serve 1 m2) = put_record ?v ''active'' (activate ''b'' m3)" by (simp only: start_record_put)
    moreover have "mg_limits m3 = fair_limits" "mg_global m3 = 0" "mg_queuedTotal m3 = 1" "active_of m3 = active_of m2"
      "mg_order m3 = [''a'']" "mg_cursor m3 = 1" "queued_of m3 w = (if w = ''b'' then [] else queued_of m w)" "mg_records m3 = mg_records m2" for w
      using m2 m1(7) by (auto simp: m3_def active_of_def queued_of_def gm_get_put fun_eq_iff)
    ultimately show ?thesis using m2(4,9) m(7) by (simp add: behind_def gm_get_put)
  qed
  ultimately show ?thesis by simp
qed

lemma overtaken_behind: "n < 10 ^ 100 \<Longrightarrow> behind n (overtaken n)"
proof (induction n)
  case 0
  show ?case by (rule overtaken_start)
next
  case (Suc n)
  then have "behind n (overtaken n)" by simp
  from overtaken_step [OF this Suc.prems] show ?case by auto
qed

lemma overtaken_reach: "adm_reach fair_limits (overtaken n)"
proof (induction n)
  case 0
  obtain m where m: "NewManager fair_limits = Inr m" by (simp add: NewManager_def Limits_Validate_def fair_limits_def)
  show ?case by (simp add: m Let_def) (intro adm_complete adm_admit adm_new m)
next
  case (Suc n)
  then show ?case by (simp add: adm_admit adm_complete)
qed

section \<open>Retries and circuits\<close>

text \<open>The attempts a budget grants, with the delay and the cost of each.\<close>

primrec attempts :: "((int \<Rightarrow> int) \<times> int) list \<Rightarrow> RetryBudget \<Rightarrow> (int \<times> int) list" where
  "attempts [] b = []"
| "attempts (c # cs) b =
     (case NextRetry (fst c) (snd c) b of
        (Inl e, b) \<Rightarrow> attempts cs b
      | (Inr delay, b) \<Rightarrow> (delay, snd c) # attempts cs b)"

lemma attempts_bounded:
  assumes "rb_attempts b \<le> rp_MaximumAttempts (rb_policy b)" and "rb_cost b \<le> rp_MaximumCostMicros (rb_policy b)"
  shows "int (length (attempts cs b)) \<le> rp_MaximumAttempts (rb_policy b) - rb_attempts b \<and>
    (\<Sum>(d, c) \<leftarrow> attempts cs b. c) \<le> rp_MaximumCostMicros (rb_policy b) - rb_cost b \<and>
    (\<forall>(d, c) \<in> set (attempts cs b). d \<le> rp_Maximum (rb_policy b) \<and> 0 \<le> c)"
  using assms
proof (induction cs arbitrary: b)
  case (Cons call cs)
  obtain x b' where n: "NextRetry (fst call) (snd call) b = (x, b')" by (cases "NextRetry (fst call) (snd call) b")
  show ?case
  proof (cases x)
    case (Inl e)
    then have "b' = b" using n by (auto simp: NextRetry_def Let_def split: if_splits)
    then show ?thesis using Cons n Inl by simp
  next
    case (Inr d)
    then have b': "rb_policy b' = rb_policy b" "rb_attempts b' = rb_attempts b + 1" "rb_cost b' = rb_cost b + snd call"
      "rb_attempts b < rp_MaximumAttempts (rb_policy b)" "rb_cost b + snd call \<le> rp_MaximumCostMicros (rb_policy b)"
      "d \<le> rp_Maximum (rb_policy b)" "0 \<le> snd call"
      using n by (auto simp: NextRetry_def Let_def split: if_splits)
    then show ?thesis using Cons.IH [of b'] n Inr by auto
  qed
qed simp

text \<open>A circuit that failures opened stays open for its cooldown, whatever fails meanwhile, and closes after it.\<close>

lemma circuit_opens:
  "ct_openedAt c = 0 \<Longrightarrow> ct_threshold c \<le> ct_failures c + 1 \<Longrightarrow> ct_openedAt (CircuitFailure now c) = now"
  by (simp add: CircuitFailure_def Let_def)

lemma circuit_cools:
  assumes "ct_openedAt c = t" and "t \<noteq> 0" and "now \<noteq> 0"
  shows "ct_openedAt (CircuitFailure now c) = t" "fst (Allow now c) \<noteq> None \<longleftrightarrow> now - t < ct_cooldown c"
    "ct_cooldown c \<le> now - t \<Longrightarrow> ct_failures (snd (Allow now c)) = 0 \<and> ct_openedAt (snd (Allow now c)) = 0"
  using assms by (auto simp: CircuitFailure_def Allow_def Let_def)

section \<open>Properties\<close>

text \<open>C29 (limits and use). Whatever requests arrive and whatever runs complete, the runs that are active and the
  requests that are queued stay within the limits, in all and per workspace; and no capacity is idle while a
  request waits: either the service or its workspace runs as many as it may.\<close>

theorem admission_is_tight:
  assumes "adm_reach l m"
  shows "tally ''active'' m \<le> GlobalActive l \<and> tally ''queued'' m \<le> GlobalQueued l \<and>
    tally_in ''active'' w m \<le> WorkspaceActive l \<and> tally_in ''queued'' w m \<le> WorkspaceQueued l \<and>
    (waiting v m \<longrightarrow> tally ''active'' m = GlobalActive l \<or> tally_in ''active'' (q_WorkspaceID v) m = WorkspaceActive l)"
proof -
  from adm_reach_inv [OF assms] have inv: "adm_inv m" and bounds: "within m" "busy m" and l: "mg_limits m = l" by auto
  note D = adm_invD [OF inv]
  have "waiting v m \<Longrightarrow> q_WorkspaceID v \<in> set (mg_order m)" using D(7) [of v "q_WorkspaceID v"] D(9) by force
  moreover have "tally_in ''active'' w m \<le> WorkspaceActive l \<and> tally_in ''queued'' w m \<le> WorkspaceQueued l"
    using bounds(1) l D(3) [of w] D(10) [of w] by (simp add: within_def) metis
  ultimately show ?thesis using bounds l D(3) [of "q_WorkspaceID v"] D(4,5) by (auto simp: within_def busy_def)
qed

theorem admission_is_tight_witness:
  "tally ''active'' (overtaken 3) \<le> 1 \<and> waiting old (overtaken 3) \<and> tally ''queued'' (overtaken 3) = 1 \<and>
   tally_in ''active'' ''b'' (overtaken 3) = 1"
proof -
  have "waiting old (overtaken 3)" by code_simp
  moreover have "tally ''queued'' (overtaken 3) = 1" "tally_in ''active'' ''b'' (overtaken 3) = 1" by code_simp+
  moreover have "tally ''active'' (overtaken 3) \<le> GlobalActive fair_limits"
    using admission_is_tight [OF overtaken_reach, of 3] by blast
  ultimately show ?thesis by (simp add: fair_limits_def)
qed

text \<open>From every reachable manager, completing active runs one after the other starts every queued
  request exactly once and ends with none active and none queued, after as many completions as there were runs
  active or queued.\<close>

theorem queue_drains_once:
  assumes "adm_reach l m"
  shows "\<exists>cs vs m'. drain cs m = (vs, m') \<and> tally ''active'' m' = 0 \<and> tally ''queued'' m' = 0 \<and>
    int (length cs) = tally ''active'' m + tally ''queued'' m \<and> distinct vs \<and> set vs = {v. waiting v m}"
  using adm_reach_inv [OF assms] by (intro drains) auto

theorem queue_drains_once_witness:
  "\<exists>cs vs m'. drain cs (overtaken 0) = (vs, m') \<and> tally ''queued'' m' = 0 \<and> length cs = 2 \<and> set vs = {v. waiting v (overtaken 0)}"
proof -
  have two: "tally ''active'' (overtaken 0) + tally ''queued'' (overtaken 0) = 2" by code_simp
  obtain cs vs m' where d: "drain cs (overtaken 0) = (vs, m')" "tally ''queued'' m' = 0"
      "int (length cs) = tally ''active'' (overtaken 0) + tally ''queued'' (overtaken 0)" "set vs = {v. waiting v (overtaken 0)}"
    using queue_drains_once [OF overtaken_reach [of 0]] by blast
  then have "length cs = 2" using two by simp
  with d show ?thesis by blast
qed

text \<open>C30 (newcomers overtake). The round robin is not fair: after it served a workspace the cursor may stand one past
  the last workspace with a queue, and the next workspace to queue is put there. A workspace whose request waits
  is passed over by one newcomer after the other, each queued after it and started before it.\<close>

theorem newcomers_overtake:
  assumes "Suc n < 10 ^ 100"
  shows "adm_reach fair_limits (overtaken n) \<and> waiting old (overtaken n) \<and>
    \<not> waiting (late (Suc n)) (overtaken n) \<and> dn_Queued (fst (Admit (late (Suc n)) (overtaken n))) \<and>
    fst (Complete ''b'' (q_RunID (late n)) (snd (Admit (late (Suc n)) (overtaken n)))) = Some (late (Suc n)) \<and>
    waiting old (overtaken (Suc n))"
proof -
  from assms have n: "n < 10 ^ 100" by simp
  note b = overtaken_behind [OF n] and b' = overtaken_behind [OF assms]
  have old: "waiting old (overtaken k)" if "k < 10 ^ 100" for k
    using overtaken_behind [OF that] adm_invD(7) [of "overtaken k" old "''a''"] adm_reach_inv [OF overtaken_reach [of k]]
    by (simp add: behind_def)
  have "\<not> waiting (late (Suc n)) (overtaken n)" using b by (simp add: behind_def waiting_def)
  moreover have "dn_Queued (fst (Admit (late (Suc n)) (overtaken n)))"
    using b late_valid [OF assms] late_fits [of "overtaken n" "Suc n"]
    by (simp add: behind_def Admit_def fair_limits_def validIdentity_def alphanumeric_def is_lower_def less_eq_char_def)
  ultimately show ?thesis using overtaken_step [OF b assms] overtaken_reach old [OF n] old [OF assms] by auto
qed

theorem newcomers_overtake_witness:
  "waiting old (overtaken 7) \<and> fst (Complete ''b'' ''r6'' (snd (Admit (late 7) (overtaken 6)))) = Some (late 7)"
proof -
  have "q_RunID (late 6) = ''r6''" by code_simp
  then show ?thesis using newcomers_overtake [of 6] by simp
qed

end
