(* ===== verification/Budget_Ledger.thy ===== *)
theory Budget_Ledger
  imports Problem "HOL-Library.Multiset"
begin

text \<open>
  The budget ledger (\<open>src/internal/budget/budget.go\<close>): the data of reservations, observations and
  settlements, and the reference ledger \<open>MemoryLedger\<close>, each method as one function of the ledger
  state (its body is one critical section under the ledger's lock). The lemmas show what each
  method keeps of the ledger invariant \<open>ledger_inv\<close>: well-formed holds, deduplicated additive usage,
  and the headroom of every root aggregate.
\<close>

section \<open>Data\<close>

type_synonym Generation = uint64

record Scope =
  WorkspaceID :: string
  ProjectID :: string

definition Scope_Valid :: "Scope \<Rightarrow> bool" where
  "Scope_Valid s \<longleftrightarrow> WorkspaceID s \<noteq> '''' \<and> ProjectID s \<noteq> ''''"

record Estimate =
  e_ReservationID :: string
  e_RootRunID :: string
  e_RunID :: string
  e_WorkspaceID :: string
  e_ProjectID :: string
  e_PolicyVersion :: string
  e_BudgetVersion :: string
  e_MaximumCostMicros :: int
  e_ExpiresAt :: time

definition Estimate_Scope :: "Estimate \<Rightarrow> Scope" where
  "Estimate_Scope e = \<lparr>WorkspaceID = e_WorkspaceID e, ProjectID = e_ProjectID e\<rparr>"

record Reservation =
  r_ID :: string
  r_RootRunID :: string
  r_RunID :: string
  r_WorkspaceID :: string
  r_ProjectID :: string
  r_PolicyVersion :: string
  r_BudgetVersion :: string
  r_UpperBoundMicros :: int
  r_ObservedMicros :: int
  r_Generation :: Generation
  r_AttemptFinal :: bool
  r_Released :: bool
  r_Expired :: bool
  r_Cancelled :: bool
  r_ExpiresAt :: time

definition Reservation_Scope :: "Reservation \<Rightarrow> Scope" where
  "Reservation_Scope r = \<lparr>WorkspaceID = r_WorkspaceID r, ProjectID = r_ProjectID r\<rparr>"

record Observation =
  o_ID :: string
  o_Scope :: Scope
  o_ReservationID :: string
  o_RootRunID :: string
  o_RunID :: string
  o_TaskID :: string
  o_AttemptID :: string
  o_RecoveryEpoch :: uint64
  o_ExecutionGeneration :: uint64
  o_MeterSequence :: uint64
  o_CostMicros :: int
  o_Final :: bool

record Settlement =
  s_Scope :: Scope
  s_ReservationID :: string
  s_Generation :: Generation
  s_FinalCost :: int
  s_ExpectedObservedMicros :: int
  s_ExpectedAttemptFinal :: bool
  s_Release :: bool
  s_Actor :: string

section \<open>Accounting arithmetic\<close>

definition maxMicros :: int where
  "maxMicros = 9223372036854775807"

definition addMicros :: "int \<Rightarrow> int \<Rightarrow> int option" where
  "addMicros left right =
     (if left < 0 \<or> right < 0 \<or> right > wrap64 (maxMicros - left) then None
      else Some (wrap64 (left + right)))"

fun rootHeld_from :: "int \<Rightarrow> Reservation list \<Rightarrow> int" where
  "rootHeld_from tot [] = tot"
| "rootHeld_from tot (value # values) =
     (if \<not> r_Released value
      then (case addMicros tot (r_UpperBoundMicros value) of
              None \<Rightarrow> maxMicros
            | Some tot' \<Rightarrow> rootHeld_from tot' values)
      else rootHeld_from tot values)"

definition rootHeld :: "Reservation list \<Rightarrow> int" where
  "rootHeld values = rootHeld_from 0 values"

fun rootObserved_from :: "int \<Rightarrow> Reservation list \<Rightarrow> int" where
  "rootObserved_from tot [] = tot"
| "rootObserved_from tot (value # values) =
     (case addMicros tot (r_ObservedMicros value) of
        None \<Rightarrow> maxMicros
      | Some tot' \<Rightarrow> rootObserved_from tot' values)"

definition rootObserved :: "Reservation list \<Rightarrow> int" where
  "rootObserved values = rootObserved_from 0 values"

definition budgetProblem :: "string \<Rightarrow> err" where
  "budgetProblem detail = problem_detail CodeBudgetDenied detail"

section \<open>Record identities\<close>

definition ExpiryObservationID :: "string \<Rightarrow> string" where
  "ExpiryObservationID rid = ''budget:expired:'' @ rid"

definition CancellationObservationID :: "string \<Rightarrow> string" where
  "CancellationObservationID rid = ''budget:cancelled:'' @ rid"

definition CancellationFinalityObservationID :: "string \<Rightarrow> string" where
  "CancellationFinalityObservationID rid = ''budget:cancelled-final:'' @ rid"

definition cancellationTaskID :: string where
  "cancellationTaskID = ''budget-cancellation''"

definition expiryTaskID :: string where
  "expiryTaskID = ''budget-expiry''"

definition scopedKey :: "Scope \<Rightarrow> string \<Rightarrow> string" where
  "scopedKey s rid = scoped_key (WorkspaceID s) (ProjectID s) rid"

definition observationKey :: "Scope \<Rightarrow> string \<Rightarrow> string" where
  "observationKey s rid = scoped_key (WorkspaceID s) (ProjectID s) rid"

section \<open>The generation authority\<close>

definition generationKey :: "string \<Rightarrow> string \<Rightarrow> string \<Rightarrow> string" where
  "generationKey w p root = scoped_key w p root"

type_synonym MemoryGenerations = "Generation gomap"

definition NewMemoryGenerations :: MemoryGenerations where
  "NewMemoryGenerations = []"

definition MemoryGenerations_Set :: "string \<Rightarrow> string \<Rightarrow> string \<Rightarrow> Generation \<Rightarrow> MemoryGenerations \<Rightarrow> MemoryGenerations" where
  "MemoryGenerations_Set w p root generation g = gm_put (generationKey w p root) generation g"

definition MemoryGenerations_Current :: "MemoryGenerations \<Rightarrow> string \<Rightarrow> string \<Rightarrow> string \<Rightarrow> err + Generation" where
  "MemoryGenerations_Current g w p root =
     (case gm_get g (generationKey w p root) of
        None \<Rightarrow> Inl (problem CodeResourceNotFound)
      | Some generation \<Rightarrow> Inr generation)"

section \<open>The memory ledger\<close>

text \<open>\<open>ml_now\<close> is what the ledger's own clock reads; the environment advances it between operations.\<close>

record MemoryLedger =
  ml_now :: time
  ml_values :: "Reservation gomap"
  ml_observations :: "Observation gomap"

definition NewMemoryLedger :: "time \<Rightarrow> MemoryLedger" where
  "NewMemoryLedger now = \<lparr>ml_now = now, ml_values = [], ml_observations = []\<rparr>"

definition fence_record :: "Scope \<Rightarrow> string \<Rightarrow> string \<Rightarrow> Reservation \<Rightarrow> Observation" where
  "fence_record scope identity taskID value =
     \<lparr>o_ID = identity, o_Scope = scope, o_ReservationID = r_ID value,
      o_RootRunID = r_RootRunID value, o_RunID = r_RunID value, o_TaskID = taskID,
      o_AttemptID = identity, o_RecoveryEpoch = 0, o_ExecutionGeneration = r_Generation value,
      o_MeterSequence = 0, o_CostMicros = 0, o_Final = False\<rparr>"

definition record_once :: "string \<Rightarrow> Observation \<Rightarrow> Observation gomap \<Rightarrow> Observation gomap" where
  "record_once k ob obs = (case gm_get obs k of None \<Rightarrow> gm_put k ob obs | Some _ \<Rightarrow> obs)"

definition in_root :: "Scope \<Rightarrow> string \<Rightarrow> Reservation \<Rightarrow> bool" where
  "in_root scope root v \<longleftrightarrow>
     r_WorkspaceID v = WorkspaceID scope \<and> r_ProjectID v = ProjectID scope \<and> r_RootRunID v = root"

text \<open>\<open>range l.values\<close> with \<open>l.values[key] = value\<close> for the visited key.\<close>

fun fence_loop :: "Scope \<Rightarrow> string \<Rightarrow> time \<Rightarrow> Reservation gomap \<Rightarrow> Observation gomap
    \<Rightarrow> Reservation gomap \<times> Observation gomap \<times> Reservation list" where
  "fence_loop scope root now [] obs = ([], obs, [])"
| "fence_loop scope root now ((key, value) # rest) obs =
     (if \<not> in_root scope root value \<or> r_Released value \<or> r_Expired value \<or> now < r_ExpiresAt value
      then (let (values, obs', fenced) = fence_loop scope root now rest obs
            in ((key, value) # values, obs', fenced))
      else (let value' = value\<lparr>r_Expired := True\<rparr>;
                identity = ExpiryObservationID (r_ID value');
                obs1 = record_once (observationKey scope identity)
                         (fence_record scope identity expiryTaskID value') obs;
                (values, obs', fenced) = fence_loop scope root now rest obs1
            in ((key, value') # values, obs', value' # fenced)))"

definition fenceExpiredLocked :: "Scope \<Rightarrow> string \<Rightarrow> time \<Rightarrow> MemoryLedger \<Rightarrow> Reservation list \<times> MemoryLedger" where
  "fenceExpiredLocked scope root now l =
     (if now = 0 then ([], l)
      else (let (values, obs, fenced) = fence_loop scope root now (ml_values l) (ml_observations l)
            in (sort_key r_ID fenced, l\<lparr>ml_values := values, ml_observations := obs\<rparr>)))"

text \<open>The headroom loop of \<open>Reserve\<close>: \<open>None\<close> is the invalid total.\<close>

fun held_total :: "Scope \<Rightarrow> string \<Rightarrow> int \<Rightarrow> Reservation gomap \<Rightarrow> int option" where
  "held_total scope root held [] = Some held"
| "held_total scope root held ((key, value) # rest) =
     (if \<not> in_root scope root value \<or> r_Released value
      then held_total scope root held rest
      else (case addMicros held (r_UpperBoundMicros value) of
              None \<Rightarrow> None
            | Some tot \<Rightarrow> held_total scope root tot rest))"

definition identity_drift :: "Reservation \<Rightarrow> Estimate \<Rightarrow> Generation \<Rightarrow> bool" where
  "identity_drift prior e generation \<longleftrightarrow>
     r_RootRunID prior \<noteq> e_RootRunID e \<or> r_RunID prior \<noteq> e_RunID e \<or>
     r_WorkspaceID prior \<noteq> e_WorkspaceID e \<or> r_ProjectID prior \<noteq> e_ProjectID e \<or>
     r_PolicyVersion prior \<noteq> e_PolicyVersion e \<or> r_BudgetVersion prior \<noteq> e_BudgetVersion e \<or>
     r_Generation prior \<noteq> generation \<or> r_UpperBoundMicros prior \<noteq> e_MaximumCostMicros e"

definition new_reservation :: "Estimate \<Rightarrow> Generation \<Rightarrow> Reservation" where
  "new_reservation e generation =
     \<lparr>r_ID = e_ReservationID e, r_RootRunID = e_RootRunID e, r_RunID = e_RunID e,
      r_WorkspaceID = e_WorkspaceID e, r_ProjectID = e_ProjectID e,
      r_PolicyVersion = e_PolicyVersion e, r_BudgetVersion = e_BudgetVersion e,
      r_UpperBoundMicros = e_MaximumCostMicros e, r_ObservedMicros = 0,
      r_Generation = generation, r_AttemptFinal = False, r_Released = False,
      r_Expired = False, r_Cancelled = False, r_ExpiresAt = e_ExpiresAt e\<rparr>"

definition mem_Reserve :: "Estimate \<Rightarrow> Generation \<Rightarrow> int \<Rightarrow> (MemoryLedger, err, Reservation) op" where
  "mem_Reserve e generation maximum l =
     (if e_ReservationID e = '''' \<or> \<not> Scope_Valid (Estimate_Scope e)
      then (Inl (Plain ''scoped reservation identity is required''), l)
      else if maximum < 1
      then (Inl (Plain ''a positive reserved-exposure bound is required''), l)
      else
        (let scope = Estimate_Scope e;
             key = scopedKey scope (e_ReservationID e);
             l = snd (fenceExpiredLocked scope (e_RootRunID e) (ml_now l) l)
         in case gm_get (ml_values l) key of
              Some prior \<Rightarrow>
                (if identity_drift prior e generation
                 then (Inl (problem CodeIdempotencyConflict), l)
                 else if r_Expired prior \<or> r_Cancelled prior \<or> r_Released prior
                 then (Inl (budgetProblem ''the reservation is fenced and must reconcile to authoritative finality''), l)
                 else (Inr prior, l))
            | None \<Rightarrow>
                (case held_total scope (e_RootRunID e) 0 (ml_values l) of
                   None \<Rightarrow> (Inl (budgetProblem ''held reservation total is invalid''), l)
                 | Some held \<Rightarrow>
                     (if held > wrap64 (maximum - e_MaximumCostMicros e)
                      then (Inl (budgetProblem ''budget headroom requires review''), l)
                      else (let value = new_reservation e generation
                            in (Inr value, l\<lparr>ml_values := gm_put key value (ml_values l)\<rparr>))))))"

definition mem_FenceExpired :: "Scope \<Rightarrow> string \<Rightarrow> time \<Rightarrow> (MemoryLedger, err, Reservation list) op" where
  "mem_FenceExpired scope root now l =
     (if \<not> Scope_Valid scope \<or> root = '''' \<or> now = 0
      then (Inl (budgetProblem ''expiry fencing requires a scoped root run and authoritative time''), l)
      else (let (fenced, l') = fenceExpiredLocked scope root now l in (Inr fenced, l')))"

definition mem_FenceCancelled :: "Scope \<Rightarrow> string \<Rightarrow> time \<Rightarrow> (MemoryLedger, err, Reservation) op" where
  "mem_FenceCancelled scope rid now l =
     (if \<not> Scope_Valid scope \<or> rid = '''' \<or> now = 0
      then (Inl (budgetProblem ''cancellation fencing requires a scoped reservation and authoritative time''), l)
      else
        (let key = scopedKey scope rid
         in case gm_get (ml_values l) key of
              None \<Rightarrow> (Inl (problem CodeResourceNotFound), l)
            | Some value \<Rightarrow>
                (if r_Cancelled value \<or> r_Released value then (Inr value, l)
                 else
                   (let value = value\<lparr>r_Cancelled := True\<rparr>;
                        identity = CancellationObservationID rid
                    in (Inr value,
                        l\<lparr>ml_values := gm_put key value (ml_values l),
                          ml_observations := record_once (observationKey scope identity)
                            (fence_record scope identity cancellationTaskID value)
                            (ml_observations l)\<rparr>)))))"

definition mem_Observe :: "Observation \<Rightarrow> (MemoryLedger, err, unit) op" where
  "mem_Observe value l =
     (if \<not> Scope_Valid (o_Scope value)
      then (Inl (budgetProblem ''observation scope is required''), l)
      else
        (case gm_get (ml_observations l) (observationKey (o_Scope value) (o_ID value)) of
           Some previous \<Rightarrow>
             (if previous \<noteq> value then (Inl (problem CodeIdempotencyConflict), l) else (Inr (), l))
         | None \<Rightarrow>
             (let key = scopedKey (o_Scope value) (o_ReservationID value)
              in case gm_get (ml_values l) key of
                   None \<Rightarrow> (Inl (budgetProblem ''observation reservation mismatch''), l)
                 | Some reservation \<Rightarrow>
                     (if r_RootRunID reservation \<noteq> o_RootRunID value
                      then (Inl (budgetProblem ''observation reservation mismatch''), l)
                      else if r_Released reservation
                        \<or> o_CostMicros value > wrap64 (r_UpperBoundMicros reservation - r_ObservedMicros reservation)
                      then (Inl (budgetProblem ''observed usage exceeds reservation''), l)
                      else
                        (let reservation = reservation
                               \<lparr>r_ObservedMicros := wrap64 (r_ObservedMicros reservation + o_CostMicros value),
                                r_AttemptFinal := r_AttemptFinal reservation \<or> o_Final value\<rparr>
                         in (Inr (),
                             l\<lparr>ml_values := gm_put key reservation (ml_values l),
                               ml_observations := gm_put (observationKey (o_Scope value) (o_ID value)) value
                                 (ml_observations l)\<rparr>))))))"

definition mem_Settle :: "Settlement \<Rightarrow> (MemoryLedger, err, Reservation) op" where
  "mem_Settle value l =
     (if \<not> Scope_Valid (s_Scope value)
      then (Inl (budgetProblem ''settlement scope is required''), l)
      else
        (let key = scopedKey (s_Scope value) (s_ReservationID value)
         in case gm_get (ml_values l) key of
              None \<Rightarrow> (Inl (problem CodeResourceNotFound), l)
            | Some reservation \<Rightarrow>
                (if r_Generation reservation \<noteq> s_Generation value \<or> \<not> r_AttemptFinal reservation
                 then (Inl (budgetProblem ''settlement fence failed''), l)
                 else if r_ObservedMicros reservation = s_FinalCost value
                   \<and> r_UpperBoundMicros reservation = s_FinalCost value
                   \<and> r_Released reservation = s_Release value
                 then (Inr reservation, l)
                 else if r_Released reservation
                 then (Inl (budgetProblem ''released budget reservation is immutable''), l)
                 else if r_ObservedMicros reservation \<noteq> s_ExpectedObservedMicros value
                   \<or> r_AttemptFinal reservation \<noteq> s_ExpectedAttemptFinal value
                 then (Inl (Conflict \<lparr>cf_ReservationID = s_ReservationID value,
                              cf_ObservedMicros = r_ObservedMicros reservation,
                              cf_AttemptFinal = r_AttemptFinal reservation\<rparr>), l)
                 else if s_FinalCost value < r_ObservedMicros reservation
                   \<or> s_FinalCost value > r_UpperBoundMicros reservation
                 then (Inl (budgetProblem ''final usage is inconsistent''), l)
                 else
                   (let reservation = reservation\<lparr>r_ObservedMicros := s_FinalCost value,
                          r_UpperBoundMicros := s_FinalCost value, r_Released := s_Release value\<rparr>
                    in (Inr reservation, l\<lparr>ml_values := gm_put key reservation (ml_values l)\<rparr>)))))"

definition mem_Reservation :: "Scope \<Rightarrow> string \<Rightarrow> (MemoryLedger, err, Reservation) op" where
  "mem_Reservation scope rid l =
     (if \<not> Scope_Valid scope
      then (Inl (budgetProblem ''reservation read requires workspace and project identity''), l)
      else case gm_get (ml_values l) (scopedKey scope rid) of
             None \<Rightarrow> (Inl (problem CodeResourceNotFound), l)
           | Some value \<Rightarrow> (Inr value, l))"

definition mem_RootReservations :: "Scope \<Rightarrow> string \<Rightarrow> (MemoryLedger, err, Reservation list) op" where
  "mem_RootReservations scope root l =
     (if \<not> Scope_Valid scope
      then (Inl (budgetProblem ''root aggregation requires workspace and project identity''), l)
      else (Inr (sort_key r_ID (filter (in_root scope root) (map snd (ml_values l)))), l))"

section \<open>The ledger invariant\<close>

definition res_wf :: "Reservation \<Rightarrow> bool" where
  "res_wf v \<longleftrightarrow> 0 \<le> r_ObservedMicros v \<and> r_ObservedMicros v \<le> r_UpperBoundMicros v \<and>
     r_UpperBoundMicros v \<le> maxMicros \<and>
     (r_Released v \<longrightarrow> r_AttemptFinal v \<and> r_ObservedMicros v = r_UpperBoundMicros v)"

definition charge :: "Scope \<Rightarrow> string \<Rightarrow> Reservation \<Rightarrow> int" where
  "charge scope root v = (if in_root scope root v \<and> \<not> r_Released v then r_UpperBoundMicros v else 0)"

text \<open>What the unreleased holds of one root aggregate reserve together.\<close>

definition exposure :: "Scope \<Rightarrow> string \<Rightarrow> MemoryLedger \<Rightarrow> int" where
  "exposure scope root l = gm_sum (charge scope root) (ml_values l)"

text \<open>The usage the recorded observations report for one reservation key.\<close>

definition cost_for :: "string \<Rightarrow> Observation \<Rightarrow> int" where
  "cost_for k ob = (if scopedKey (o_Scope ob) (o_ReservationID ob) = k then o_CostMicros ob else 0)"

definition recorded_cost :: "string \<Rightarrow> Observation gomap \<Rightarrow> int" where
  "recorded_cost k obs = gm_sum (cost_for k) obs"

definition observed_at :: "string \<Rightarrow> Reservation gomap \<Rightarrow> int" where
  "observed_at k m = (case gm_get m k of None \<Rightarrow> 0 | Some v \<Rightarrow> r_ObservedMicros v)"

definition ledger_inv :: "int \<Rightarrow> MemoryLedger \<Rightarrow> bool" where
  "ledger_inv M l \<longleftrightarrow>
     gm_ok (ml_values l) \<and> gm_ok (ml_observations l) \<and>
     gm_all (\<lambda>k v. k = scopedKey (Reservation_Scope v) (r_ID v) \<and> res_wf v) (ml_values l) \<and>
     (\<forall>scope root. exposure scope root l \<le> M) \<and>
     gm_all (\<lambda>k ob. 0 \<le> o_CostMicros ob) (ml_observations l) \<and>
     (\<forall>k. recorded_cost k (ml_observations l) \<le> observed_at k (ml_values l))"

text \<open>
  How a hold may evolve: its binding and generation are fixed, usage only grows, the bound only
  shrinks, finality and the fences are permanent, and a released hold never changes again.
\<close>

definition res_le :: "Reservation \<Rightarrow> Reservation \<Rightarrow> bool" where
  "res_le v v' \<longleftrightarrow>
     r_ID v' = r_ID v \<and> r_RootRunID v' = r_RootRunID v \<and> r_RunID v' = r_RunID v \<and>
     r_WorkspaceID v' = r_WorkspaceID v \<and> r_ProjectID v' = r_ProjectID v \<and>
     r_PolicyVersion v' = r_PolicyVersion v \<and> r_BudgetVersion v' = r_BudgetVersion v \<and>
     r_Generation v' = r_Generation v \<and> r_ExpiresAt v' = r_ExpiresAt v \<and>
     r_ObservedMicros v \<le> r_ObservedMicros v' \<and> r_UpperBoundMicros v' \<le> r_UpperBoundMicros v \<and>
     (r_AttemptFinal v \<longrightarrow> r_AttemptFinal v') \<and> (r_Expired v \<longrightarrow> r_Expired v') \<and>
     (r_Cancelled v \<longrightarrow> r_Cancelled v') \<and> (r_Released v \<longrightarrow> v' = v)"

definition ledger_le :: "MemoryLedger \<Rightarrow> MemoryLedger \<Rightarrow> bool" where
  "ledger_le l l' \<longleftrightarrow>
     (\<forall>k v. gm_get (ml_values l) k = Some v \<longrightarrow> (\<exists>v'. gm_get (ml_values l') k = Some v' \<and> res_le v v'))"

lemma res_le_refl [simp]: "res_le v v"
  by (simp add: res_le_def)

lemma res_le_trans: "res_le u v \<Longrightarrow> res_le v w \<Longrightarrow> res_le u w"
  by (auto simp: res_le_def)

lemma ledger_le_refl [simp]: "ledger_le l l"
  by (simp add: ledger_le_def)

lemma ledger_le_trans: "ledger_le l l' \<Longrightarrow> ledger_le l' l'' \<Longrightarrow> ledger_le l l''"
  unfolding ledger_le_def by (meson res_le_trans)

section \<open>Arithmetic of the totals\<close>

lemma addMicros_eq:
  assumes "0 \<le> x" "x \<le> maxMicros" "0 \<le> y" "y \<le> maxMicros"
  shows "addMicros x y = (if x + y \<le> maxMicros then Some (x + y) else None)"
proof -
  have "wrap64 (maxMicros - x) = maxMicros - x"
    by (rule wrap64_id) (use assms in \<open>simp add: in_int64_def maxMicros_def\<close>)
  moreover have "x + y \<le> maxMicros \<Longrightarrow> wrap64 (x + y) = x + y"
    by (rule wrap64_id) (use assms in \<open>simp add: in_int64_def maxMicros_def\<close>)
  ultimately show ?thesis using assms by (auto simp: addMicros_def)
qed

lemma addMicros_SomeD: "addMicros x y = Some z \<Longrightarrow> in_int64 x \<Longrightarrow> in_int64 y \<Longrightarrow> 0 \<le> x \<and> 0 \<le> y \<and> z = x + y \<and> z \<le> maxMicros"
proof -
  assume a: "addMicros x y = Some z" "in_int64 x" "in_int64 y"
  then have "0 \<le> x" "0 \<le> y" by (auto simp: addMicros_def split: if_splits)
  moreover have "x \<le> maxMicros" "y \<le> maxMicros" using a by (simp_all add: in_int64_def maxMicros_def)
  ultimately show ?thesis using a(1) by (simp add: addMicros_eq split: if_splits)
qed

text \<open>The headroom loop computes the exposure, or reports the overflow of it, whatever the iteration order.\<close>

lemma held_total_eq:
  assumes "\<And>k v. (k, v) \<in> set m \<Longrightarrow> res_wf v" and "0 \<le> held" and "held \<le> maxMicros"
  shows "held_total scope root held m =
    (if held + gm_sum (charge scope root) m \<le> maxMicros
     then Some (held + gm_sum (charge scope root) m) else None)"
  using assms
proof (induction m arbitrary: held)
  case Nil
  then show ?case by simp
next
  case (Cons kv m)
  obtain k v where kv: "kv = (k, v)" by (cases kv)
  from Cons.prems(1) [of k v] have wf: "res_wf v" by (simp add: kv)
  have rest: "0 \<le> gm_sum (charge scope root) m"
    by (rule gm_sum_nonneg) (use Cons.prems(1) in \<open>force simp: charge_def res_wf_def\<close>)
  have IH: "held_total scope root h m =
      (if h + gm_sum (charge scope root) m \<le> maxMicros
       then Some (h + gm_sum (charge scope root) m) else None)"
    if "0 \<le> h" "h \<le> maxMicros" for h
    by (rule Cons.IH) (use Cons.prems(1) that in auto)
  show ?case
  proof (cases "in_root scope root v \<and> \<not> r_Released v")
    case False
    then have "charge scope root v = 0" by (auto simp: charge_def)
    with False IH [OF Cons.prems(2,3)] show ?thesis by (auto simp: kv)
  next
    case True
    have "addMicros held (r_UpperBoundMicros v) =
      (if held + r_UpperBoundMicros v \<le> maxMicros then Some (held + r_UpperBoundMicros v) else None)"
      by (rule addMicros_eq) (use wf Cons.prems in \<open>auto simp: res_wf_def\<close>)
    moreover have "charge scope root v = r_UpperBoundMicros v" using True by (simp add: charge_def)
    moreover have "0 \<le> r_UpperBoundMicros v" using wf by (simp add: res_wf_def)
    ultimately show ?thesis
      using True rest IH [of "held + r_UpperBoundMicros v"] Cons.prems(2) by (auto simp: kv)
  qed
qed

section \<open>The expiry fence\<close>

definition elapsed :: "Scope \<Rightarrow> string \<Rightarrow> time \<Rightarrow> Reservation \<Rightarrow> bool" where
  "elapsed scope root now v \<longleftrightarrow>
     in_root scope root v \<and> \<not> r_Released v \<and> \<not> r_Expired v \<and> r_ExpiresAt v \<le> now"

definition fence1 :: "Scope \<Rightarrow> string \<Rightarrow> time \<Rightarrow> Reservation \<Rightarrow> Reservation" where
  "fence1 scope root now v = (if elapsed scope root now v then v\<lparr>r_Expired := True\<rparr> else v)"

lemma fence_loop_values: "fst (fence_loop scope root now m obs) = gm_map (fence1 scope root now) m"
  by (induction scope root now m obs rule: fence_loop.induct)
    (auto simp: gm_map_def fence1_def elapsed_def Let_def split: prod.splits)

lemma fence_loop_fenced:
  "snd (snd (fence_loop scope root now m obs)) =
     map (fence1 scope root now) (filter (elapsed scope root now) (map snd m))"
  by (induction scope root now m obs rule: fence_loop.induct)
    (auto simp: fence1_def elapsed_def Let_def split: prod.splits)

lemma charge_fence1 [simp]: "charge sc rt (fence1 scope root now v) = charge sc rt v"
  by (auto simp: charge_def fence1_def in_root_def)

lemma res_wf_fence1 [simp]: "res_wf (fence1 scope root now v) = res_wf v"
  by (simp add: res_wf_def fence1_def)

lemma fence1_fields [simp]:
  "r_ID (fence1 scope root now v) = r_ID v"
  "Reservation_Scope (fence1 scope root now v) = Reservation_Scope v"
  "r_ObservedMicros (fence1 scope root now v) = r_ObservedMicros v"
  "r_UpperBoundMicros (fence1 scope root now v) = r_UpperBoundMicros v"
  "r_RootRunID (fence1 scope root now v) = r_RootRunID v"
  "r_Released (fence1 scope root now v) = r_Released v"
  by (simp_all add: fence1_def Reservation_Scope_def)

lemma res_le_fence1: "res_le v (fence1 scope root now v)"
  by (simp add: res_le_def fence1_def elapsed_def)

section \<open>Preservation of the invariant\<close>

text \<open>Bookkeeping of the observation map: fences record observations that carry no cost.\<close>

definition obs_neutral :: "Observation gomap \<Rightarrow> Observation gomap \<Rightarrow> bool" where
  "obs_neutral obs obs' \<longleftrightarrow>
     (gm_ok obs \<longrightarrow> gm_ok obs') \<and>
     (gm_all (\<lambda>k ob. 0 \<le> o_CostMicros ob) obs \<longrightarrow> gm_all (\<lambda>k ob. 0 \<le> o_CostMicros ob) obs') \<and>
     (\<forall>j. recorded_cost j obs' = recorded_cost j obs)"

lemma obs_neutral_refl [simp]: "obs_neutral obs obs"
  by (simp add: obs_neutral_def)

lemma obs_neutral_trans: "obs_neutral a b \<Longrightarrow> obs_neutral b c \<Longrightarrow> obs_neutral a c"
  by (simp add: obs_neutral_def)

lemma record_once_neutral: "o_CostMicros ob = 0 \<Longrightarrow> obs_neutral obs (record_once k ob obs)"
  by (auto simp: obs_neutral_def record_once_def recorded_cost_def cost_for_def gm_ok_put gm_all_put
      gm_sum_put_new split: option.splits)

lemma fence_record_cost [simp]: "o_CostMicros (fence_record scope identity taskID v) = 0"
  by (simp add: fence_record_def)

lemma fence_loop_obs: "obs_neutral obs (fst (snd (fence_loop scope root now m obs)))"
proof (induction m arbitrary: obs)
  case (Cons kv m)
  have "obs_neutral obs (fst (snd (fence_loop scope root now m (record_once k (fence_record sc i t v) obs))))"
    for k sc i t v
    by (rule obs_neutral_trans [OF record_once_neutral Cons.IH]) simp
  with Cons.IH [of obs] show ?case by (cases kv) (simp add: Let_def case_prod_beta)
qed simp

lemma observed_at_put [simp]:
  "observed_at j (gm_put k v m) = (if k = j then r_ObservedMicros v else observed_at j m)"
  by (simp add: observed_at_def gm_get_put)

lemma observed_at_get: "gm_get m k = Some v \<Longrightarrow> observed_at k m = r_ObservedMicros v"
  by (simp add: observed_at_def)

lemma observed_at_fence [simp]: "observed_at j (gm_map (fence1 scope root now) m) = observed_at j m"
  by (simp add: observed_at_def gm_get_map split: option.splits)

lemma charge_res_le: "res_le v v' \<Longrightarrow> res_wf v \<Longrightarrow> charge sc rt v' \<le> charge sc rt v"
  by (auto simp: charge_def res_le_def res_wf_def in_root_def)

lemma charge_nonneg: "res_wf v \<Longrightarrow> 0 \<le> charge sc rt v"
  by (simp add: charge_def res_wf_def)

lemma ledger_invD:
  assumes "ledger_inv M l"
  shows "gm_ok (ml_values l)" "gm_ok (ml_observations l)"
    "\<And>k v. gm_get (ml_values l) k = Some v \<Longrightarrow> k = scopedKey (Reservation_Scope v) (r_ID v)"
    "\<And>k v. gm_get (ml_values l) k = Some v \<Longrightarrow> res_wf v"
    "\<And>scope root. exposure scope root l \<le> M"
    "\<And>k. recorded_cost k (ml_observations l) \<le> observed_at k (ml_values l)"
  using assms by (auto simp: ledger_inv_def gm_all_def)

lemma ledger_inv_member: "ledger_inv M l \<Longrightarrow> (k, v) \<in> set (ml_values l) \<Longrightarrow> res_wf v"
  by (metis gm_get_iff ledger_invD(1,4))

text \<open>Replacing one hold by a later state of it keeps the invariant.\<close>

lemma ledger_inv_update:
  assumes inv: "ledger_inv M l" and get: "gm_get (ml_values l) k = Some v"
    and le: "res_le v v'" and wf: "res_wf v'"
    and obs: "gm_ok obs" "gm_all (\<lambda>k ob. 0 \<le> o_CostMicros ob) obs"
      "\<And>j. recorded_cost j obs \<le> observed_at j (gm_put k v' (ml_values l))"
  shows "ledger_inv M (l\<lparr>ml_values := gm_put k v' (ml_values l), ml_observations := obs\<rparr>)"
    (is "ledger_inv M ?l")
proof -
  have "exposure sc rt ?l \<le> M" for sc rt
  proof -
    have "exposure sc rt ?l = exposure sc rt l - charge sc rt v + charge sc rt v'"
      by (simp add: exposure_def gm_sum_put_old [OF get])
    moreover have "charge sc rt v' \<le> charge sc rt v"
      by (rule charge_res_le [OF le ledger_invD(4) [OF inv get]])
    ultimately show ?thesis using ledger_invD(5) [OF inv, of sc rt] by linarith
  qed
  moreover have "k = scopedKey (Reservation_Scope v') (r_ID v')"
    using ledger_invD(3) [OF inv get] le by (simp add: res_le_def Reservation_Scope_def)
  ultimately show ?thesis
    using inv wf obs by (simp add: ledger_inv_def gm_ok_put gm_all_put)
qed

lemma ledger_le_update:
  assumes "gm_get (ml_values l) k = Some v" and "res_le v v'"
  shows "ledger_le l (l\<lparr>ml_values := gm_put k v' (ml_values l), ml_observations := obs\<rparr>)"
  using assms by (auto simp: ledger_le_def gm_get_put)

lemma update_values_only [simp]:
  "l\<lparr>ml_values := m, ml_observations := ml_observations l\<rparr> = l\<lparr>ml_values := m\<rparr>"
  by simp

lemma fenceExpiredLocked_state:
  "ml_values (snd (fenceExpiredLocked scope root now l)) =
     (if now = 0 then ml_values l else gm_map (fence1 scope root now) (ml_values l))"
  "obs_neutral (ml_observations l) (ml_observations (snd (fenceExpiredLocked scope root now l)))"
  "ml_now (snd (fenceExpiredLocked scope root now l)) = ml_now l"
  using fence_loop_values [of scope root now "ml_values l" "ml_observations l"]
    fence_loop_obs [of "ml_observations l" scope root now "ml_values l"]
  by (auto simp: fenceExpiredLocked_def split: prod.splits)

lemma fenceExpiredLocked_inv:
  assumes "ledger_inv M l"
  shows "ledger_inv M (snd (fenceExpiredLocked scope root now l))"
proof -
  let ?l = "snd (fenceExpiredLocked scope root now l)"
  have obs: "obs_neutral (ml_observations l) (ml_observations ?l)"
    by (rule fenceExpiredLocked_state)
  have "exposure sc rt ?l = exposure sc rt l" for sc rt
    by (simp add: exposure_def fenceExpiredLocked_state gm_sum_map)
  moreover have "gm_all (\<lambda>k v. k = scopedKey (Reservation_Scope v) (r_ID v) \<and> res_wf v) (ml_values ?l)"
    using assms by (auto simp: ledger_inv_def gm_all_def fenceExpiredLocked_state gm_get_map)
  ultimately show ?thesis
    using assms obs by (simp add: ledger_inv_def obs_neutral_def fenceExpiredLocked_state gm_ok_map)
qed

lemma fenceExpiredLocked_le: "ledger_le l (snd (fenceExpiredLocked scope root now l))"
  by (auto simp: ledger_le_def fenceExpiredLocked_state gm_get_map res_le_fence1)

section \<open>Every method keeps the invariant and only evolves holds\<close>

lemma mem_Reserve_unfold:
  assumes "e_ReservationID e \<noteq> ''''" "Scope_Valid (Estimate_Scope e)" "1 \<le> M"
  obtains (error) x where "mem_Reserve e g M l = (Inl x, snd (fenceExpiredLocked (Estimate_Scope e) (e_RootRunID e) (ml_now l) l))"
  | (replay) prior where
      "mem_Reserve e g M l = (Inr prior, snd (fenceExpiredLocked (Estimate_Scope e) (e_RootRunID e) (ml_now l) l))"
      "gm_get (ml_values (snd (fenceExpiredLocked (Estimate_Scope e) (e_RootRunID e) (ml_now l) l)))
         (scopedKey (Estimate_Scope e) (e_ReservationID e)) = Some prior"
      "\<not> identity_drift prior e g" "\<not> r_Expired prior" "\<not> r_Cancelled prior" "\<not> r_Released prior"
  | (fresh) l' held where "l' = snd (fenceExpiredLocked (Estimate_Scope e) (e_RootRunID e) (ml_now l) l)"
      "gm_get (ml_values l') (scopedKey (Estimate_Scope e) (e_ReservationID e)) = None"
      "held_total (Estimate_Scope e) (e_RootRunID e) 0 (ml_values l') = Some held"
      "held \<le> wrap64 (M - e_MaximumCostMicros e)"
      "mem_Reserve e g M l = (Inr (new_reservation e g),
         l'\<lparr>ml_values := gm_put (scopedKey (Estimate_Scope e) (e_ReservationID e)) (new_reservation e g) (ml_values l')\<rparr>)"
proof -
  define f where "f = snd (fenceExpiredLocked (Estimate_Scope e) (e_RootRunID e) (ml_now l) l)"
  show thesis
    using assms error replay fresh [of f] unfolding mem_Reserve_def Let_def f_def [symmetric]
    by (cases "gm_get (ml_values f) (scopedKey (Estimate_Scope e) (e_ReservationID e))";
        cases "held_total (Estimate_Scope e) (e_RootRunID e) 0 (ml_values f)")
      (fastforce split: if_splits)+
qed

lemma in_root_new [simp]:
  "in_root sc rt (new_reservation e g) \<longleftrightarrow> sc = Estimate_Scope e \<and> rt = e_RootRunID e"
  by (cases sc) (auto simp: in_root_def new_reservation_def Estimate_Scope_def)

lemma new_reservation_fields [simp]:
  "r_ID (new_reservation e g) = e_ReservationID e" "r_ObservedMicros (new_reservation e g) = 0"
  "r_UpperBoundMicros (new_reservation e g) = e_MaximumCostMicros e"
  "\<not> r_Released (new_reservation e g)" "r_Generation (new_reservation e g) = g"
  "Reservation_Scope (new_reservation e g) = Estimate_Scope e"
  "\<not> r_AttemptFinal (new_reservation e g)" "\<not> r_Expired (new_reservation e g)"
  "\<not> r_Cancelled (new_reservation e g)"
  by (simp_all add: new_reservation_def Reservation_Scope_def Estimate_Scope_def)

lemma held_le_headroom:
  assumes inv: "ledger_inv M l" and M: "1 \<le> M" "M \<le> maxMicros"
    and cost: "1 \<le> c" "c \<le> maxMicros"
    and held: "held_total scope root 0 (ml_values l) = Some held" "held \<le> wrap64 (M - c)"
  shows "held = exposure scope root l" and "held + c \<le> M"
proof -
  have "held_total scope root 0 (ml_values l) =
    (if exposure scope root l \<le> maxMicros then Some (exposure scope root l) else None)"
    using held_total_eq [of "ml_values l" 0 scope root] ledger_inv_member [OF inv]
    by (simp add: exposure_def maxMicros_def)
  with held(1) show "held = exposure scope root l" by (auto split: if_splits)
  have "wrap64 (M - c) = M - c"
    by (rule wrap64_id) (use M cost in \<open>simp add: in_int64_def maxMicros_def\<close>)
  with held(2) show "held + c \<le> M" by simp
qed

lemma mem_Reserve_inv:
  assumes inv: "ledger_inv M l" and M: "1 \<le> M" "M \<le> maxMicros"
    and cost: "1 \<le> e_MaximumCostMicros e" "e_MaximumCostMicros e \<le> maxMicros"
  shows "ledger_inv M (snd (mem_Reserve e g M l)) \<and> ledger_le l (snd (mem_Reserve e g M l))"
proof (cases "e_ReservationID e = '''' \<or> \<not> Scope_Valid (Estimate_Scope e)")
  case True
  then show ?thesis using inv by (auto simp: mem_Reserve_def)
next
  case False
  let ?key = "scopedKey (Estimate_Scope e) (e_ReservationID e)"
  let ?f = "snd (fenceExpiredLocked (Estimate_Scope e) (e_RootRunID e) (ml_now l) l)"
  have finv: "ledger_inv M ?f" and fle: "ledger_le l ?f"
    using inv by (simp_all add: fenceExpiredLocked_inv fenceExpiredLocked_le)
  from False have "e_ReservationID e \<noteq> ''''" "Scope_Valid (Estimate_Scope e)" by auto
  then show ?thesis using M(1)
  proof (cases rule: mem_Reserve_unfold [of e M g l])
    case (fresh l' held)
    let ?l = "l'\<lparr>ml_values := gm_put ?key (new_reservation e g) (ml_values l')\<rparr>"
    have inv': "ledger_inv M l'" using finv fresh(1) by simp
    have room: "exposure (Estimate_Scope e) (e_RootRunID e) l' + e_MaximumCostMicros e \<le> M"
      using held_le_headroom [OF inv' M cost fresh(3,4)] by simp
    have "exposure sc rt ?l \<le> M" for sc rt
      using room ledger_invD(5) [OF inv', of sc rt]
      by (auto simp: exposure_def gm_sum_put_new [OF fresh(2)] charge_def)
    moreover have "recorded_cost k (ml_observations l') \<le> observed_at k (ml_values ?l)" for k
      using ledger_invD(6) [OF inv', of k] fresh(2) by (auto simp: observed_at_def gm_get_put)
    moreover have "res_wf (new_reservation e g)" using cost by (simp add: res_wf_def)
    ultimately have "ledger_inv M ?l"
      using inv' by (simp add: ledger_inv_def gm_ok_put gm_all_put)
    moreover have "ledger_le l' ?l"
      using fresh(2) by (auto simp: ledger_le_def gm_get_put)
    ultimately show ?thesis using fresh fle by (auto intro: ledger_le_trans)
  qed (use finv fle in auto)
qed

lemma mem_FenceExpired_inv:
  "ledger_inv M l \<Longrightarrow> ledger_inv M (snd (mem_FenceExpired scope root now l)) \<and>
     ledger_le l (snd (mem_FenceExpired scope root now l))"
  using fenceExpiredLocked_inv [of M l scope root now] fenceExpiredLocked_le [of l scope root now]
  by (auto simp: mem_FenceExpired_def split: prod.splits)

lemma mem_FenceCancelled_inv:
  assumes inv: "ledger_inv M l"
  shows "ledger_inv M (snd (mem_FenceCancelled scope rid now l)) \<and>
     ledger_le l (snd (mem_FenceCancelled scope rid now l))"
proof (cases "gm_get (ml_values l) (scopedKey scope rid)")
  case None
  then show ?thesis using inv by (simp add: mem_FenceCancelled_def Let_def)
next
  case (Some v)
  let ?v = "v\<lparr>r_Cancelled := True\<rparr>" and ?k = "scopedKey scope rid"
  let ?obs = "record_once (observationKey scope (CancellationObservationID rid))
      (fence_record scope (CancellationObservationID rid) cancellationTaskID ?v) (ml_observations l)"
  have obs: "obs_neutral (ml_observations l) ?obs" by (rule record_once_neutral) simp
  show ?thesis
  proof (cases "r_Cancelled v \<or> r_Released v")
    case True
    then show ?thesis using Some inv by (auto simp: mem_FenceCancelled_def Let_def)
  next
    case False
    then have le: "res_le v ?v" by (simp add: res_le_def)
    have wf: "res_wf ?v" using ledger_invD(4) [OF inv Some] by (simp add: res_wf_def)
    have "recorded_cost j ?obs \<le> observed_at j (gm_put ?k ?v (ml_values l))" for j
      using obs ledger_invD(6) [OF inv, of j] Some by (auto simp: obs_neutral_def observed_at_def gm_get_put)
    then have "ledger_inv M (l\<lparr>ml_values := gm_put ?k ?v (ml_values l), ml_observations := ?obs\<rparr>)"
      using inv obs by (intro ledger_inv_update [OF inv Some le wf]) (auto simp: obs_neutral_def ledger_inv_def)
    with inv ledger_le_update [OF Some le, of ?obs] Some False show ?thesis
      by (auto simp: mem_FenceCancelled_def Let_def)
  qed
qed

lemma mem_Observe_cases:
  obtains (unchanged) "snd (mem_Observe ob l) = l"
  | (recorded) v where "gm_get (ml_values l) (scopedKey (o_Scope ob) (o_ReservationID ob)) = Some v"
      "gm_get (ml_observations l) (observationKey (o_Scope ob) (o_ID ob)) = None"
      "\<not> r_Released v" "r_RootRunID v = o_RootRunID ob" "Scope_Valid (o_Scope ob)"
      "o_CostMicros ob \<le> wrap64 (r_UpperBoundMicros v - r_ObservedMicros v)"
      "mem_Observe ob l = (Inr (), l\<lparr>ml_values := gm_put (scopedKey (o_Scope ob) (o_ReservationID ob))
           (v\<lparr>r_ObservedMicros := wrap64 (r_ObservedMicros v + o_CostMicros ob),
              r_AttemptFinal := r_AttemptFinal v \<or> o_Final ob\<rparr>) (ml_values l),
         ml_observations := gm_put (observationKey (o_Scope ob) (o_ID ob)) ob (ml_observations l)\<rparr>)"
  using that unfolding mem_Observe_def Let_def
  by (cases "gm_get (ml_observations l) (observationKey (o_Scope ob) (o_ID ob))";
      cases "gm_get (ml_values l) (scopedKey (o_Scope ob) (o_ReservationID ob))")
    (fastforce split: if_splits)+

lemma observe_arith:
  assumes wf: "res_wf v" and cost: "0 \<le> c"
    and le: "c \<le> wrap64 (r_UpperBoundMicros v - r_ObservedMicros v)"
  shows "r_ObservedMicros v + c \<le> r_UpperBoundMicros v"
    and "wrap64 (r_ObservedMicros v + c) = r_ObservedMicros v + c"
proof -
  have "wrap64 (r_UpperBoundMicros v - r_ObservedMicros v) = r_UpperBoundMicros v - r_ObservedMicros v"
    by (rule wrap64_id) (use wf in \<open>simp add: res_wf_def in_int64_def maxMicros_def\<close>)
  with le show room: "r_ObservedMicros v + c \<le> r_UpperBoundMicros v" by simp
  show "wrap64 (r_ObservedMicros v + c) = r_ObservedMicros v + c"
    by (rule wrap64_id) (use wf room cost in \<open>simp add: res_wf_def in_int64_def maxMicros_def\<close>)
qed

lemma mem_Observe_inv:
  assumes inv: "ledger_inv M l" and cost: "0 \<le> o_CostMicros ob"
  shows "ledger_inv M (snd (mem_Observe ob l)) \<and> ledger_le l (snd (mem_Observe ob l))"
proof (cases rule: mem_Observe_cases [of ob l])
  case unchanged
  then show ?thesis using inv by simp
next
  case (recorded v)
  let ?k = "scopedKey (o_Scope ob) (o_ReservationID ob)" and ?ok = "observationKey (o_Scope ob) (o_ID ob)"
  define v' where "v' = v\<lparr>r_ObservedMicros := r_ObservedMicros v + o_CostMicros ob,
      r_AttemptFinal := r_AttemptFinal v \<or> o_Final ob\<rparr>"
  have wfv: "res_wf v" by (rule ledger_invD(4) [OF inv recorded(1)])
  note arith = observe_arith [OF wfv cost recorded(6)]
  have rle: "res_le v v'" using recorded(3) cost by (simp add: res_le_def v'_def)
  have wf: "res_wf v'" using wfv recorded(3) arith(1) cost by (simp add: res_wf_def v'_def)
  have "recorded_cost j (gm_put ?ok ob (ml_observations l)) \<le> observed_at j (gm_put ?k v' (ml_values l))" for j
    using ledger_invD(6) [OF inv, of j] recorded(1,2) cost
    by (auto simp: recorded_cost_def gm_sum_put_new cost_for_def observed_at_get v'_def)
  then have "ledger_inv M (l\<lparr>ml_values := gm_put ?k v' (ml_values l),
      ml_observations := gm_put ?ok ob (ml_observations l)\<rparr>)"
    using inv cost
    by (intro ledger_inv_update [OF inv recorded(1) rle wf]) (auto simp: ledger_inv_def gm_ok_put gm_all_put)
  then show ?thesis
    using ledger_le_update [OF recorded(1) rle] recorded(7) by (simp add: v'_def arith(2))
qed

lemma mem_Settle_cases:
  obtains (unchanged) "snd (mem_Settle st l) = l"
  | (settled) v v' where "gm_get (ml_values l) (scopedKey (s_Scope st) (s_ReservationID st)) = Some v"
      "r_AttemptFinal v" "\<not> r_Released v" "r_Generation v = s_Generation st"
      "r_ObservedMicros v = s_ExpectedObservedMicros st"
      "r_ObservedMicros v \<le> s_FinalCost st" "s_FinalCost st \<le> r_UpperBoundMicros v"
      "v' = v\<lparr>r_ObservedMicros := s_FinalCost st, r_UpperBoundMicros := s_FinalCost st, r_Released := s_Release st\<rparr>"
      "mem_Settle st l = (Inr v', l\<lparr>ml_values := gm_put (scopedKey (s_Scope st) (s_ReservationID st)) v' (ml_values l)\<rparr>)"
  using that unfolding mem_Settle_def Let_def
  by (cases "gm_get (ml_values l) (scopedKey (s_Scope st) (s_ReservationID st))")
    (fastforce split: if_splits)+

lemma mem_Settle_inv:
  assumes inv: "ledger_inv M l"
  shows "ledger_inv M (snd (mem_Settle st l)) \<and> ledger_le l (snd (mem_Settle st l))"
proof (cases rule: mem_Settle_cases [of st l])
  case (settled v v')
  have wfv: "res_wf v" by (rule ledger_invD(4) [OF inv settled(1)])
  have le: "res_le v v'" and wf: "res_wf v'"
    using settled wfv by (auto simp: res_le_def res_wf_def)
  have "recorded_cost j (ml_observations l)
      \<le> observed_at j (gm_put (scopedKey (s_Scope st) (s_ReservationID st)) v' (ml_values l))" for j
    using ledger_invD(6) [OF inv, of j] settled by (auto simp: observed_at_get)
  with ledger_inv_update [OF inv settled(1) le wf, of "ml_observations l"] inv
    ledger_le_update [OF settled(1) le, of "ml_observations l"] settled(9) show ?thesis
    by (auto simp: ledger_inv_def)
qed (use inv in simp)

lemma mem_reads [simp]:
  "snd (mem_Reservation scope rid l) = l" "snd (mem_RootReservations scope root l) = l"
  by (simp_all add: mem_Reservation_def mem_RootReservations_def split: option.splits)

lemma NewMemoryLedger_inv: "0 \<le> M \<Longrightarrow> ledger_inv M (NewMemoryLedger now)"
  by (simp add: ledger_inv_def NewMemoryLedger_def exposure_def recorded_cost_def observed_at_def)

section \<open>Interleavings of the ledger's critical sections\<close>

text \<open>
  Every method body runs under the ledger's lock, so a concurrent execution is a sequence of
  whole method bodies in some order, with the clock moving in between. A reservation is made with
  the policy's bound \<open>M\<close> and a positive bounded estimate and an observation carries a non-negative cost:
  both are what the controller checks before it calls the ledger.
\<close>

inductive ledger_step :: "int \<Rightarrow> MemoryLedger \<Rightarrow> MemoryLedger \<Rightarrow> bool" for M where
  tick: "ledger_step M l (l\<lparr>ml_now := t\<rparr>)"
| reserve: "1 \<le> e_MaximumCostMicros e \<Longrightarrow> e_MaximumCostMicros e \<le> maxMicros \<Longrightarrow>
     ledger_step M l (snd (mem_Reserve e g M l))"
| fence_expired: "ledger_step M l (snd (mem_FenceExpired scope root now l))"
| fence_cancelled: "ledger_step M l (snd (mem_FenceCancelled scope rid now l))"
| observe: "0 \<le> o_CostMicros ob \<Longrightarrow> ledger_step M l (snd (mem_Observe ob l))"
| settle: "ledger_step M l (snd (mem_Settle st l))"

inductive ledger_steps :: "int \<Rightarrow> MemoryLedger \<Rightarrow> MemoryLedger \<Rightarrow> bool" for M where
  none: "ledger_steps M l l"
| more: "ledger_steps M l l' \<Longrightarrow> ledger_step M l' l'' \<Longrightarrow> ledger_steps M l l''"

lemma ledger_step_inv:
  assumes "ledger_step M l l'" and "1 \<le> M" "M \<le> maxMicros" and "ledger_inv M l"
  shows "ledger_inv M l' \<and> ledger_le l l'"
  using assms
proof (cases rule: ledger_step.cases)
  case (tick t)
  then show ?thesis using assms by (simp add: ledger_inv_def exposure_def ledger_le_def)
next
  case (reserve e g)
  then show ?thesis using assms mem_Reserve_inv by simp
next
  case (observe ob)
  then show ?thesis using assms mem_Observe_inv by simp
qed (use assms mem_FenceExpired_inv mem_FenceCancelled_inv mem_Settle_inv in simp_all)

lemma ledger_steps_inv:
  assumes "ledger_steps M l l'" and "1 \<le> M" "M \<le> maxMicros" and "ledger_inv M l"
  shows "ledger_inv M l' \<and> ledger_le l l'"
  using assms
proof (induction rule: ledger_steps.induct)
  case (more l l' l'')
  then have "ledger_inv M l'" "ledger_le l l'" by simp_all
  with ledger_step_inv [OF more.hyps(2)] more.prems show ?case by (blast intro: ledger_le_trans)
qed simp

lemma ledger_steps_trans: "ledger_steps M l l' \<Longrightarrow> ledger_step M l' l'' \<Longrightarrow> ledger_steps M l l''"
  by (rule ledger_steps.more)

lemmas ledger_step_intros = ledger_step.intros ledger_steps.intros

section \<open>What the reads report\<close>

lemma sum_list_sort_key: "sum_list (map f (sort_key k xs)) = sum_list (map (f :: 'a \<Rightarrow> int) xs)"
  by (metis mset_map mset_sort sum_mset_sum_list)

lemma rootHeld_from_eq:
  assumes "\<forall>v \<in> set vs. res_wf v" "0 \<le> t" "t \<le> maxMicros"
  shows "rootHeld_from t vs =
    (let s = t + sum_list (map (\<lambda>v. if r_Released v then 0 else r_UpperBoundMicros v) vs)
     in if s \<le> maxMicros then s else maxMicros)"
  using assms
proof (induction vs arbitrary: t)
  case (Cons v vs)
  have nn: "0 \<le> sum_list (map (\<lambda>v. if r_Released v then 0 else r_UpperBoundMicros v) vs)"
    by (rule sum_list_nonneg) (use Cons.prems(1) in \<open>force simp: res_wf_def\<close>)
  have wf: "0 \<le> r_UpperBoundMicros v" "r_UpperBoundMicros v \<le> maxMicros"
    using Cons.prems(1) by (auto simp: res_wf_def)
  have add: "addMicros t (r_UpperBoundMicros v) =
      (if t + r_UpperBoundMicros v \<le> maxMicros then Some (t + r_UpperBoundMicros v) else None)"
    by (rule addMicros_eq) (use wf Cons.prems in auto)
  have IH: "rootHeld_from u vs =
    (let s = u + sum_list (map (\<lambda>v. if r_Released v then 0 else r_UpperBoundMicros v) vs)
     in if s \<le> maxMicros then s else maxMicros)" if "0 \<le> u" "u \<le> maxMicros" for u
    by (rule Cons.IH) (use Cons.prems that in auto)
  show ?case
    using IH [of t] IH [of "t + r_UpperBoundMicros v"] add nn wf Cons.prems(2,3)
    by (auto simp: Let_def)
qed (simp add: Let_def)

lemma filter_charge:
  "sum_list (map (\<lambda>v. if r_Released v then 0 else r_UpperBoundMicros v) (filter (in_root scope root) (map snd m)))
     = gm_sum (charge scope root) m"
  by (induction m) (auto simp: gm_sum_def charge_def)

text \<open>The held total the controller publishes is the true exposure of the root aggregate.\<close>

lemma rootHeld_exposure:
  assumes inv: "ledger_inv M l" and M: "M \<le> maxMicros"
    and read: "mem_RootReservations scope root l = (Inr rs, l')"
  shows "rootHeld rs = exposure scope root l"
proof -
  have rs: "rs = sort_key r_ID (filter (in_root scope root) (map snd (ml_values l)))"
    using read by (auto simp: mem_RootReservations_def split: if_splits)
  have "\<forall>v \<in> set rs. res_wf v" using ledger_inv_member [OF inv] by (auto simp: rs)
  then have "rootHeld rs = (let s = exposure scope root l in if s \<le> maxMicros then s else maxMicros)"
    by (simp add: rootHeld_def rootHeld_from_eq maxMicros_def exposure_def filter_charge [symmetric]
        rs sum_list_sort_key)
  moreover have "exposure scope root l \<le> maxMicros"
    using ledger_invD(5) [OF inv, of scope root] M by linarith
  ultimately show ?thesis by (simp add: Let_def)
qed

section \<open>Properties of the ledger\<close>

text \<open>C15 (headroom). However reservations, fences, observations and settlements of concurrent callers
  interleave from a fresh ledger, the unreleased holds of a root aggregate never reserve more than the
  policy's bound, and the held total read back is exactly what they reserve.\<close>

theorem headroom_never_exceeded:
  assumes "ledger_steps M (NewMemoryLedger now) l" and "1 \<le> M" and "M \<le> maxMicros"
    and "mem_RootReservations scope root l = (Inr rs, l')"
  shows "exposure scope root l \<le> M \<and> rootHeld rs = exposure scope root l"
proof -
  have inv: "ledger_inv M l"
    using ledger_steps_inv [OF assms(1-3) NewMemoryLedger_inv] assms(2) by simp
  then show ?thesis using ledger_invD(5) [OF inv] rootHeld_exposure [OF inv assms(3,4)] by simp
qed

definition est1 :: "string \<Rightarrow> int \<Rightarrow> Estimate" where
  "est1 rid cost = \<lparr>e_ReservationID = rid, e_RootRunID = ''root'', e_RunID = ''run'',
     e_WorkspaceID = ''w'', e_ProjectID = ''p'', e_PolicyVersion = ''v1'', e_BudgetVersion = ''b1'',
     e_MaximumCostMicros = cost, e_ExpiresAt = 100\<rparr>"

definition scope1 :: Scope where
  "scope1 = \<lparr>WorkspaceID = ''w'', ProjectID = ''p''\<rparr>"

definition ledger1 :: MemoryLedger where
  "ledger1 = snd (mem_Reserve (est1 ''r1'' 60) 1 100 (NewMemoryLedger 5))"

lemma est1_simps [simp]:
  "e_ReservationID (est1 rid c) = rid" "e_RootRunID (est1 rid c) = ''root''"
  "e_MaximumCostMicros (est1 rid c) = c" "e_ExpiresAt (est1 rid c) = 100" "e_RunID (est1 rid c) = ''run''"
  "Estimate_Scope (est1 rid c) = scope1" "Scope_Valid scope1"
  by (simp_all add: Scope_Valid_def scope1_def Estimate_Scope_def est1_def)

lemma ledger1_steps: "ledger_steps 100 (NewMemoryLedger 5) ledger1"
  unfolding ledger1_def
  by (rule ledger_steps.more [OF ledger_steps.none], rule ledger_step.reserve)
    (simp_all add: maxMicros_def)

lemma ledger1_eq: "ledger1 = \<lparr>ml_now = 5, ml_values = [(scopedKey scope1 ''r1'', new_reservation (est1 ''r1'' 60) 1)],
    ml_observations = []\<rparr>"
  by (simp add: ledger1_def mem_Reserve_def Let_def fenceExpiredLocked_def NewMemoryLedger_def wrap64_def)

lemma in_root1 [simp]: "in_root scope1 ''root'' (new_reservation (est1 r c) g)"
  by simp

theorem headroom_never_exceeded_witness:
  "exposure scope1 ''root'' ledger1 \<le> 100
   \<and> rootHeld [new_reservation (est1 ''r1'' 60) 1] = exposure scope1 ''root'' ledger1
   \<and> exposure scope1 ''root'' ledger1 = 60"
proof -
  have read: "mem_RootReservations scope1 ''root'' ledger1 = (Inr [new_reservation (est1 ''r1'' 60) 1], ledger1)"
    by (simp add: mem_RootReservations_def ledger1_eq)
  have "exposure scope1 ''root'' ledger1 = 60"
    by (simp add: exposure_def ledger1_eq charge_def)
  then show ?thesis
    using headroom_never_exceeded [OF ledger1_steps _ _ read] by (simp add: maxMicros_def)
qed

text \<open>Along every interleaving a hold keeps its binding and
  generation, its usage only grows and its bound only shrinks, finality and the expiry and
  cancellation fences are permanent, a released hold never changes, and no hold disappears.\<close>

theorem holds_only_evolve:
  assumes "ledger_steps M (NewMemoryLedger now) l" and "ledger_steps M l l'"
    and "1 \<le> M" and "M \<le> maxMicros" and "gm_get (ml_values l) k = Some v"
  shows "\<exists>v'. gm_get (ml_values l') k = Some v' \<and> res_le v v'"
proof -
  have "ledger_inv M l"
    using ledger_steps_inv [OF assms(1,3,4) NewMemoryLedger_inv] assms(3) by simp
  then have "ledger_le l l'" using ledger_steps_inv [OF assms(2-4)] by simp
  with assms(5) show ?thesis by (simp add: ledger_le_def)
qed

theorem holds_only_evolve_witness:
  "\<exists>v'. gm_get (ml_values (snd (mem_FenceCancelled scope1 ''r1'' 6 ledger1))) (scopedKey scope1 ''r1'') = Some v'
     \<and> res_le (new_reservation (est1 ''r1'' 60) 1) v'"
proof (rule holds_only_evolve [OF ledger1_steps])
  show "ledger_steps 100 ledger1 (snd (mem_FenceCancelled scope1 ''r1'' 6 ledger1))"
    by (rule ledger_steps.more [OF ledger_steps.none ledger_step.fence_cancelled])
  show "gm_get (ml_values ledger1) (scopedKey scope1 ''r1'') = Some (new_reservation (est1 ''r1'' 60) 1)"
    by (simp add: ledger1_eq)
qed (simp_all add: maxMicros_def)

text \<open>In every reachable ledger, the usage the recorded observations report for
  a hold is at most the hold's observed usage, which is at most its bound: no settlement and no fence
  discards usage an attempt reported.\<close>

theorem recorded_usage_is_held:
  assumes "ledger_steps M (NewMemoryLedger now) l" and "1 \<le> M" and "M \<le> maxMicros"
    and "gm_get (ml_values l) k = Some v"
  shows "recorded_cost k (ml_observations l) \<le> r_ObservedMicros v
    \<and> r_ObservedMicros v \<le> r_UpperBoundMicros v"
proof -
  have inv: "ledger_inv M l"
    using ledger_steps_inv [OF assms(1-3) NewMemoryLedger_inv] assms(2) by simp
  then show ?thesis
    using ledger_invD(4,6) [OF inv] assms(4) by (metis observed_at_get res_wf_def)
qed

theorem recorded_usage_is_held_witness:
  "recorded_cost (scopedKey scope1 ''r1'') (ml_observations ledger1) \<le> 0"
  using recorded_usage_is_held [OF ledger1_steps, of "scopedKey scope1 ''r1''" "new_reservation (est1 ''r1'' 60) 1"]
  by (simp add: maxMicros_def ledger1_eq)

text \<open>A settlement computed from a read that later usage has overtaken never
  overwrites that usage: whatever else happened to the ledger since the read, the settlement leaves it
  unchanged, and where it is refused for being stale the refusal is the retryable conflict.\<close>

theorem stale_settlement_never_writes:
  assumes "mem_Reservation (s_Scope st) (s_ReservationID st) l = (Inr v, l)"
    and "s_ExpectedObservedMicros st = r_ObservedMicros v"
    and "gm_get (ml_values l') (scopedKey (s_Scope st) (s_ReservationID st)) = Some v'"
    and "r_ObservedMicros v < r_ObservedMicros v'"
  shows "snd (mem_Settle st l') = l' \<and>
    (r_AttemptFinal v' \<and> \<not> r_Released v' \<and> r_Generation v' = s_Generation st \<and>
       \<not> (r_UpperBoundMicros v' = s_FinalCost st \<and> r_ObservedMicros v' = s_FinalCost st \<and> \<not> s_Release st) \<longrightarrow>
     fst (mem_Settle st l') = Inl (Conflict \<lparr>cf_ReservationID = s_ReservationID st,
        cf_ObservedMicros = r_ObservedMicros v', cf_AttemptFinal = True\<rparr>))"
proof (rule conjI)
  show "snd (mem_Settle st l') = l'"
    by (cases rule: mem_Settle_cases [of st l']) (use assms in auto)
  have "Scope_Valid (s_Scope st)" using assms(1) by (auto simp: mem_Reservation_def split: if_splits)
  then show "r_AttemptFinal v' \<and> \<not> r_Released v' \<and> r_Generation v' = s_Generation st \<and>
      \<not> (r_UpperBoundMicros v' = s_FinalCost st \<and> r_ObservedMicros v' = s_FinalCost st \<and> \<not> s_Release st) \<longrightarrow>
    fst (mem_Settle st l') = Inl (Conflict \<lparr>cf_ReservationID = s_ReservationID st,
      cf_ObservedMicros = r_ObservedMicros v', cf_AttemptFinal = True\<rparr>)"
    using assms by (auto simp: mem_Settle_def Let_def)
qed

definition obs1 :: "string \<Rightarrow> int \<Rightarrow> bool \<Rightarrow> Observation" where
  "obs1 oid cost final = \<lparr>o_ID = oid, o_Scope = scope1, o_ReservationID = ''r1'', o_RootRunID = ''root'',
     o_RunID = ''run'', o_TaskID = ''task'', o_AttemptID = ''att'', o_RecoveryEpoch = 0,
     o_ExecutionGeneration = 1, o_MeterSequence = 0, o_CostMicros = cost, o_Final = final\<rparr>"

definition settle1 :: "int \<Rightarrow> int \<Rightarrow> Settlement" where
  "settle1 cost expected = \<lparr>s_Scope = scope1, s_ReservationID = ''r1'', s_Generation = 1, s_FinalCost = cost,
     s_ExpectedObservedMicros = expected, s_ExpectedAttemptFinal = True, s_Release = True, s_Actor = ''budget-controller''\<rparr>"

lemma obs1_simps [simp]:
  "o_ID (obs1 i c f) = i" "o_Scope (obs1 i c f) = scope1" "o_ReservationID (obs1 i c f) = ''r1''"
  "o_RootRunID (obs1 i c f) = ''root''" "o_CostMicros (obs1 i c f) = c" "o_Final (obs1 i c f) = f"
  by (simp_all add: obs1_def)

lemma new_reservation_root [simp]: "r_RootRunID (new_reservation e g) = e_RootRunID e"
  by (simp add: new_reservation_def)

lemma obs1_ledger1 [simp]:
  "snd (mem_Observe (obs1 oid 7 True) ledger1) =
    \<lparr>ml_now = 5, ml_values = [(scopedKey scope1 ''r1'', (new_reservation (est1 ''r1'' 60) 1)
       \<lparr>r_ObservedMicros := 7, r_AttemptFinal := True\<rparr>)],
     ml_observations = [(observationKey scope1 oid, obs1 oid 7 True)]\<rparr>"
  by (simp add: mem_Observe_def ledger1_eq wrap64_def Let_def)

theorem stale_settlement_never_writes_witness:
  "snd (mem_Settle (settle1 0 0) (snd (mem_Observe (obs1 ''o1'' 7 True) ledger1)))
     = snd (mem_Observe (obs1 ''o1'' 7 True) ledger1)
   \<and> fst (mem_Settle (settle1 0 0) (snd (mem_Observe (obs1 ''o1'' 7 True) ledger1)))
     = Inl (Conflict \<lparr>cf_ReservationID = ''r1'', cf_ObservedMicros = 7, cf_AttemptFinal = True\<rparr>)"
proof -
  let ?v = "new_reservation (est1 ''r1'' 60) 1"
  have "mem_Reservation (s_Scope (settle1 0 0)) (s_ReservationID (settle1 0 0)) ledger1 = (Inr ?v, ledger1)"
    by (simp add: mem_Reservation_def settle1_def ledger1_eq)
  from stale_settlement_never_writes [OF this, of "snd (mem_Observe (obs1 ''o1'' 7 True) ledger1)"
      "?v\<lparr>r_ObservedMicros := 7, r_AttemptFinal := True\<rparr>"]
  show ?thesis by (simp add: settle1_def)
qed

lemma exposure_fence [simp]: "exposure sc rt (snd (fenceExpiredLocked scope root now l)) = exposure sc rt l"
  by (simp add: exposure_def fenceExpiredLocked_state gm_sum_map)

lemma get_fence:
  "gm_get (ml_values (snd (fenceExpiredLocked scope root now l))) k =
     map_option (if now = 0 then id else fence1 scope root now) (gm_get (ml_values l) k)"
  by (simp add: fenceExpiredLocked_state gm_get_map option.map_id0)

text \<open>While a hold is live, replaying the reservation that made it answers the same hold and
  reserves nothing more; once the hold is expired, cancelled or released the replay is refused, whatever
  the policy's bound is by then, and in every case the root's exposure is unchanged.\<close>

theorem reserve_replay_converges:
  assumes "gm_get (ml_values l) (scopedKey (Estimate_Scope e) (e_ReservationID e)) = Some v"
    and "\<not> identity_drift v e g" and "Scope_Valid (Estimate_Scope e)" and "e_ReservationID e \<noteq> ''''" and "1 \<le> M"
  shows "exposure sc rt (snd (mem_Reserve e g M l)) = exposure sc rt l \<and>
    fst (mem_Reserve e g M l) =
      (if r_Expired v \<or> r_Cancelled v \<or> r_Released v \<or> (ml_now l \<noteq> 0 \<and> r_ExpiresAt v \<le> ml_now l)
       then Inl (budgetProblem ''the reservation is fenced and must reconcile to authoritative finality'')
       else Inr v)"
proof -
  let ?f = "snd (fenceExpiredLocked (Estimate_Scope e) (e_RootRunID e) (ml_now l) l)"
  let ?v = "if ml_now l = 0 then v else fence1 (Estimate_Scope e) (e_RootRunID e) (ml_now l) v"
  have get: "gm_get (ml_values ?f) (scopedKey (Estimate_Scope e) (e_ReservationID e)) = Some ?v"
    using assms(1) by (simp add: get_fence)
  have drift: "identity_drift ?v e g = identity_drift v e g"
    by (simp add: identity_drift_def fence1_def)
  have root: "in_root (Estimate_Scope e) (e_RootRunID e) v"
    using assms(2) by (simp add: identity_drift_def in_root_def Estimate_Scope_def)
  then have fenced: "r_Expired ?v \<longleftrightarrow> r_Expired v \<or> (ml_now l \<noteq> 0 \<and> \<not> r_Released v \<and> r_ExpiresAt v \<le> ml_now l)"
    by (auto simp: fence1_def elapsed_def)
  have same: "r_Cancelled ?v = r_Cancelled v" "r_Released ?v = r_Released v"
    by (simp_all add: fence1_def)
  have live: "\<not> r_Expired ?v \<Longrightarrow> ?v = v" by (auto simp: fence1_def)
  have res: "mem_Reserve e g M l = (if r_Expired ?v \<or> r_Cancelled ?v \<or> r_Released ?v
     then (Inl (budgetProblem ''the reservation is fenced and must reconcile to authoritative finality''), ?f)
     else (Inr ?v, ?f))"
    using assms(2-5) get drift by (simp add: mem_Reserve_def Let_def)
  show ?thesis unfolding res using fenced same live by auto
qed

theorem reserve_replay_converges_witness:
  "exposure scope1 ''root'' (snd (mem_Reserve (est1 ''r1'' 60) 1 100 ledger1)) = exposure scope1 ''root'' ledger1 \<and>
   fst (mem_Reserve (est1 ''r1'' 60) 1 100 ledger1) = Inr (new_reservation (est1 ''r1'' 60) 1)"
proof -
  have get: "gm_get (ml_values ledger1) (scopedKey (Estimate_Scope (est1 ''r1'' 60)) (e_ReservationID (est1 ''r1'' 60)))
      = Some (new_reservation (est1 ''r1'' 60) 1)"
    by (simp add: ledger1_eq)
  have drift: "\<not> identity_drift (new_reservation (est1 ''r1'' 60) 1) (est1 ''r1'' 60) 1"
    by (simp add: identity_drift_def new_reservation_def)
  show ?thesis using reserve_replay_converges [OF get drift, of 100 scope1 "''root''"]
    by (simp add: ledger1_eq) (simp add: new_reservation_def)
qed

text \<open>An accepted observation delivered again, even after the ledger moved
  on, is acknowledged and counts nothing; the same identity with different content is a conflict that
  changes nothing.\<close>

theorem observe_deduplicates:
  assumes "mem_Observe ob l = (Inr (), l1)" and "gm_get (ml_observations l2) (observationKey (o_Scope ob) (o_ID ob))
      = gm_get (ml_observations l1) (observationKey (o_Scope ob) (o_ID ob))"
    and "o_Scope ob' = o_Scope ob" and "o_ID ob' = o_ID ob"
  shows "mem_Observe ob' l2 = (if ob' = ob then Inr () else Inl (problem CodeIdempotencyConflict), l2)"
proof -
  have valid: "Scope_Valid (o_Scope ob)" using assms(1) by (auto simp: mem_Observe_def split: if_splits)
  have "gm_get (ml_observations l1) (observationKey (o_Scope ob) (o_ID ob)) = Some ob"
    using assms(1) by (auto simp: mem_Observe_def Let_def gm_get_put split: option.splits if_splits)
  then show ?thesis using valid assms(2-4) by (auto simp: mem_Observe_def)
qed

theorem observe_deduplicates_witness:
  "mem_Observe (obs1 ''o1'' 8 True) (snd (mem_Observe (obs1 ''o1'' 7 True) ledger1))
     = (Inl (problem CodeIdempotencyConflict), snd (mem_Observe (obs1 ''o1'' 7 True) ledger1))"
proof -
  have "mem_Observe (obs1 ''o1'' 7 True) ledger1 = (Inr (), snd (mem_Observe (obs1 ''o1'' 7 True) ledger1))"
    by (simp add: prod_eq_iff) (simp add: mem_Observe_def ledger1_eq wrap64_def Let_def)
  from observe_deduplicates [OF this refl, of "obs1 ''o1'' 8 True"] show ?thesis
    by (simp add: obs1_def)
qed

definition scope_nul_free :: "Scope \<Rightarrow> bool" where
  "scope_nul_free s \<longleftrightarrow> nul_free (WorkspaceID s) \<and> nul_free (ProjectID s)"

text \<open>In every reachable ledger, a reservation read inside a tenant scope answers
  only a hold of that workspace and project with the requested identity, provided tenant identities
  contain no NUL byte.\<close>

theorem reservation_read_is_tenant_scoped:
  assumes "ledger_steps M (NewMemoryLedger now) l" and "1 \<le> M" and "M \<le> maxMicros"
    and "mem_Reservation scope rid l = (Inr v, l')"
    and "scope_nul_free scope" and "scope_nul_free (Reservation_Scope v)"
  shows "Reservation_Scope v = scope \<and> r_ID v = rid"
proof -
  have inv: "ledger_inv M l"
    using ledger_steps_inv [OF assms(1-3) NewMemoryLedger_inv] assms(2) by simp
  have "gm_get (ml_values l) (scopedKey scope rid) = Some v"
    using assms(4) by (auto simp: mem_Reservation_def split: if_splits option.splits)
  from ledger_invD(3) [OF inv this] show ?thesis
    using assms(5,6) by (cases scope) (auto simp: scopedKey_def scope_nul_free_def scoped_key_inject Reservation_Scope_def)
qed

theorem reservation_read_is_tenant_scoped_witness:
  "Reservation_Scope (new_reservation (est1 ''r1'' 60) 1) = scope1 \<and> r_ID (new_reservation (est1 ''r1'' 60) 1) = ''r1''"
proof (rule reservation_read_is_tenant_scoped [OF ledger1_steps])
  show "mem_Reservation scope1 ''r1'' ledger1 = (Inr (new_reservation (est1 ''r1'' 60) 1), ledger1)"
    by (simp add: mem_Reservation_def ledger1_eq)
qed (simp_all add: maxMicros_def scope_nul_free_def scope1_def nul_free_def NUL_def)

definition est_nul :: Estimate where
  "est_nul = (est1 (''p2'' @ [NUL] @ ''r'') 60)\<lparr>e_WorkspaceID := ''w'', e_ProjectID := ''p1''\<rparr>"

text \<open>With a NUL byte in an identity the joined key is ambiguous:
  there is a reachable ledger in which one tenant's read answers another tenant's hold.\<close>

theorem nul_identity_crosses_tenants:
  "\<exists>l v scope rid. ledger_steps 100 (NewMemoryLedger 5) l \<and> mem_Reservation scope rid l = (Inr v, l)
     \<and> Scope_Valid scope \<and> Reservation_Scope v \<noteq> scope"
proof (intro exI conjI)
  let ?l = "snd (mem_Reserve est_nul 1 100 (NewMemoryLedger 5))"
  let ?scope = "\<lparr>WorkspaceID = ''w'', ProjectID = ''p1'' @ [NUL] @ ''p2''\<rparr>"
  show "ledger_steps 100 (NewMemoryLedger 5) ?l"
    by (rule ledger_steps.more [OF ledger_steps.none ledger_step.reserve])
      (simp_all add: est_nul_def maxMicros_def)
  have l: "?l = \<lparr>ml_now = 5, ml_values = [(scopedKey (Estimate_Scope est_nul) (e_ReservationID est_nul),
      new_reservation est_nul 1)], ml_observations = []\<rparr>"
    by (simp add: mem_Reserve_def Let_def fenceExpiredLocked_def NewMemoryLedger_def wrap64_def
        est_nul_def Estimate_Scope_def Scope_Valid_def)
  have key: "scopedKey ?scope ''r'' = scopedKey (Estimate_Scope est_nul) (e_ReservationID est_nul)"
    by (simp add: scopedKey_def scoped_key_def Estimate_Scope_def est_nul_def)
  show "mem_Reservation ?scope ''r'' ?l = (Inr (new_reservation est_nul 1), ?l)"
    unfolding l mem_Reservation_def key by (simp add: Scope_Valid_def)
  show "Scope_Valid ?scope" by (simp add: Scope_Valid_def)
  show "Reservation_Scope (new_reservation est_nul 1) \<noteq> ?scope"
    by (simp add: Estimate_Scope_def est_nul_def)
qed

end
