(* ===== verification/Budget_Controller.thy ===== *)
theory Budget_Controller
  imports Budget_Ledger
begin

text \<open>
  The budget controller (\<open>src/internal/budget/budget.go\<close>), which every caller of the ledger goes
  through: the \<open>Ledger\<close> interface as a record of operations, the controller's methods over any such
  record, and the contract the controller relies on as the locale \<open>ledger_contract\<close>, interpreted on the
  memory ledger alone and on the memory ledger with other goroutines' critical sections running
  between the controller's calls.
\<close>

section \<open>The interfaces\<close>

record 's LedgerOps =
  L_Reserve :: "Estimate \<Rightarrow> Generation \<Rightarrow> int \<Rightarrow> ('s, err, Reservation) op"
  L_Observe :: "Observation \<Rightarrow> ('s, err, unit) op"
  L_Settle :: "Settlement \<Rightarrow> ('s, err, Reservation) op"
  L_FenceCancelled :: "Scope \<Rightarrow> string \<Rightarrow> time \<Rightarrow> ('s, err, Reservation) op"
  L_Reservation :: "Scope \<Rightarrow> string \<Rightarrow> ('s, err, Reservation) op"
  L_RootReservations :: "Scope \<Rightarrow> string \<Rightarrow> ('s, err, Reservation list) op"
  L_FenceExpired :: "Scope \<Rightarrow> string \<Rightarrow> time \<Rightarrow> ('s, err, Reservation list) op"

record HeadroomPolicy =
  MaximumReservedMicros :: int
  ReviewAtBasisPoints :: int

definition HeadroomPolicy_Validate :: "HeadroomPolicy \<Rightarrow> err option" where
  "HeadroomPolicy_Validate p =
     (if MaximumReservedMicros p < 1 \<or> ReviewAtBasisPoints p < 1 \<or> ReviewAtBasisPoints p > 10000
      then Some (Plain ''budget headroom policy is invalid'') else None)"

text \<open>
  \<open>c_generations\<close> and \<open>c_now\<close> are what the generation authority and the clock answer during one
  method; every method consults each of them at most once. What the controller publishes to its
  exposure sink is appended to \<open>w_exposed\<close>; the sink's own failure is ignored by the source.
\<close>

record 's Controller =
  c_ledger :: "'s LedgerOps"
  c_generations :: "string \<Rightarrow> string \<Rightarrow> string \<Rightarrow> err + Generation"
  c_now :: time
  c_policy :: HeadroomPolicy

record Exposure =
  x_RootRunID :: string
  x_Held :: int
  x_Observed :: int
  x_Review :: bool

record 's World =
  w_ledger :: 's
  w_exposed :: "Exposure list"

definition NewController :: "'s LedgerOps \<Rightarrow> (string \<Rightarrow> string \<Rightarrow> string \<Rightarrow> err + Generation) \<Rightarrow> time
    \<Rightarrow> HeadroomPolicy \<Rightarrow> err + 's Controller" where
  "NewController ledger generations now policy =
     (if HeadroomPolicy_Validate policy \<noteq> None
      then Inl (Plain ''budget controller dependencies are invalid'')
      else Inr \<lparr>c_ledger = ledger, c_generations = generations, c_now = now, c_policy = policy\<rparr>)"

text \<open>A call through the ledger interface.\<close>

definition call :: "('s, err, 'a) op \<Rightarrow> ('s World, err, 'a) op" where
  "call f w = (let (r, s) = f (w_ledger w) in (r, w\<lparr>w_ledger := s\<rparr>))"

definition fails :: "err \<Rightarrow> ('s, err, 'a) op" where
  "fails e w = (Inl e, w)"

definition returns :: "'a \<Rightarrow> ('s, err, 'a) op" where
  "returns x w = (Inr x, w)"

definition map_err :: "(err \<Rightarrow> err) \<Rightarrow> ('s, err, 'a) op \<Rightarrow> ('s, err, 'a) op" where
  "map_err h f w = (case f w of (Inl e, w') \<Rightarrow> (Inl (h e), w') | (Inr x, w') \<Rightarrow> (Inr x, w'))"

section \<open>The controller's methods\<close>

definition current :: "'s Controller \<Rightarrow> Scope \<Rightarrow> string \<Rightarrow> err + Generation" where
  "current c scope root =
     (case c_generations c (WorkspaceID scope) (ProjectID scope) root of
        Inl e \<Rightarrow> Inl (Wrapped ''resolve budget generation'' e)
      | Inr g \<Rightarrow> Inr g)"

definition review :: "'s Controller \<Rightarrow> int \<Rightarrow> bool" where
  "review c held =
     (let whole = go_quot (MaximumReservedMicros (c_policy c)) 10000;
          remainder = go_rem (MaximumReservedMicros (c_policy c)) 10000;
          bp = ReviewAtBasisPoints (c_policy c);
          threshold = wrap64 (wrap64 (whole * bp) + go_quot (wrap64 (wrap64 (remainder * bp) + 9999)) 10000)
      in held \<ge> threshold)"

definition reportExposure :: "'s Controller \<Rightarrow> Scope \<Rightarrow> string \<Rightarrow> 's World \<Rightarrow> 's World" where
  "reportExposure c scope root w =
     (case call (L_RootReservations (c_ledger c) scope root) w of
        (Inl e, w') \<Rightarrow> w'
      | (Inr reservations, w') \<Rightarrow>
          (let held = rootHeld reservations
           in w'\<lparr>w_exposed := w_exposed w' @ [\<lparr>x_RootRunID = root, x_Held = held,
                x_Observed = rootObserved reservations, x_Review = review c held\<rparr>]\<rparr>))"

text \<open>\<open>c.reportExposure(...); return value, nil\<close>.\<close>

definition reporting :: "'s Controller \<Rightarrow> Scope \<Rightarrow> string \<Rightarrow> 'a \<Rightarrow> ('s World, err, 'a) op" where
  "reporting c scope root x w = (Inr x, reportExposure c scope root w)"

definition estimate_invalid :: "'s Controller \<Rightarrow> Estimate \<Rightarrow> Generation \<Rightarrow> bool" where
  "estimate_invalid c e generation \<longleftrightarrow>
     e_ReservationID e = '''' \<or> e_RootRunID e = '''' \<or> e_RunID e = '''' \<or> \<not> Scope_Valid (Estimate_Scope e) \<or>
     e_PolicyVersion e = '''' \<or> e_BudgetVersion e = '''' \<or> e_MaximumCostMicros e < 1 \<or>
     c_now c = 0 \<or> e_ExpiresAt e = 0 \<or> generation = 0"

definition binding_invalid :: "Reservation \<Rightarrow> Estimate \<Rightarrow> Generation \<Rightarrow> bool" where
  "binding_invalid r e generation \<longleftrightarrow>
     r_ID r \<noteq> e_ReservationID e \<or> r_RootRunID r \<noteq> e_RootRunID e \<or> r_RunID r \<noteq> e_RunID e \<or>
     r_WorkspaceID r \<noteq> e_WorkspaceID e \<or> r_ProjectID r \<noteq> e_ProjectID e \<or>
     r_PolicyVersion r \<noteq> e_PolicyVersion e \<or> r_BudgetVersion r \<noteq> e_BudgetVersion e \<or>
     r_Generation r \<noteq> generation \<or> r_UpperBoundMicros r \<noteq> e_MaximumCostMicros e \<or>
     r_ExpiresAt r = 0 \<or> r_Released r"

definition reserve :: "'s Controller \<Rightarrow> Estimate \<Rightarrow> Generation \<Rightarrow> ('s World, err, Reservation) op" where
  "reserve c e generation w =
     (if estimate_invalid c e generation then (Inl (budgetProblem ''reservation estimate is invalid''), w)
      else case current c (Estimate_Scope e) (e_RootRunID e) of
        Inl er \<Rightarrow> (Inl er, w)
      | Inr cur \<Rightarrow>
          (if generation \<noteq> cur
           then (Inl (budgetProblem ''reservation generation is not the active budget generation''), w)
           else case call (L_Reserve (c_ledger c) e generation (MaximumReservedMicros (c_policy c))) w of
             (Inl er, w') \<Rightarrow>
               (Inl (if as_Details er \<noteq> None then er
                     else budgetProblem ''authoritative reservation failed''), w')
           | (Inr reserved, w') \<Rightarrow>
               (if r_ID reserved = '''' then (Inl (Plain ''ledger returned empty reservation identity''), w')
                else if binding_invalid reserved e generation
                then (Inl (budgetProblem ''authoritative reservation binding is invalid''), w')
                else (Inr reserved, reportExposure c (Estimate_Scope e) (e_RootRunID e) w'))))"

definition ReserveInitial :: "'s Controller \<Rightarrow> Estimate \<Rightarrow> Generation \<Rightarrow> ('s World, err, Reservation) op" where
  "ReserveInitial c e generation = reserve c e generation"

definition ReserveReplacement :: "'s Controller \<Rightarrow> Estimate \<Rightarrow> Generation \<Rightarrow> string \<Rightarrow> ('s World, err, Reservation) op" where
  "ReserveReplacement c e generation prior w =
     (if \<not> Scope_Valid (Estimate_Scope e) then (Inl (budgetProblem ''reservation estimate is invalid''), w)
      else case call (L_Reservation (c_ledger c) (Estimate_Scope e) prior) w of
        (Inl er, w') \<Rightarrow>
          (Inl (budgetProblem ''prior reservation must remain open for replacement or fallback''), w')
      | (Inr previous, w') \<Rightarrow>
          (if r_Released previous \<or> r_RootRunID previous \<noteq> e_RootRunID e
             \<or> r_WorkspaceID previous \<noteq> e_WorkspaceID e \<or> r_ProjectID previous \<noteq> e_ProjectID e
           then (Inl (budgetProblem ''prior reservation must remain open for replacement or fallback''), w')
           else reserve c e generation w'))"

definition dispatch_refused :: "'s Controller \<Rightarrow> Reservation \<Rightarrow> Generation \<Rightarrow> bool" where
  "dispatch_refused c v generation \<longleftrightarrow>
     r_Released v \<or> r_Expired v \<or> r_Cancelled v \<or> r_Generation v \<noteq> generation \<or> c_now c = 0 \<or>
     \<not> c_now c < r_ExpiresAt v"

text \<open>The dispatch function is the caller's, an effect on the same world; \<open>None\<close> is the nil function.\<close>

definition Dispatch :: "'s Controller \<Rightarrow> Scope \<Rightarrow> string \<Rightarrow> Generation
    \<Rightarrow> (Reservation \<Rightarrow> ('s World, err, unit) op) option \<Rightarrow> ('s World, err, unit) op" where
  "Dispatch c scope rid generation dispatch w =
     (case dispatch of None \<Rightarrow> (Inl (Plain ''dispatch function is required''), w)
      | Some run \<Rightarrow>
        (if \<not> Scope_Valid scope then (Inl (budgetProblem ''expensive dispatch lacks a scoped reservation''), w)
         else case call (L_Reservation (c_ledger c) scope rid) w of
           (Inl er, w') \<Rightarrow> (Inl (budgetProblem ''expensive dispatch lacks a current reservation''), w')
         | (Inr v, w') \<Rightarrow>
             (if dispatch_refused c v generation
              then (Inl (budgetProblem ''expensive dispatch lacks a current reservation''), w')
              else case current c (Reservation_Scope v) (r_RootRunID v) of
                Inl er \<Rightarrow> (Inl er, w')
              | Inr cur \<Rightarrow>
                  (if generation \<noteq> cur
                   then (Inl (budgetProblem ''expensive dispatch lacks a current reservation''), w')
                   else run v w'))))"

definition Controller_Observe :: "'s Controller \<Rightarrow> Observation \<Rightarrow> ('s World, err, unit) op" where
  "Controller_Observe c ob =
     (if o_ID ob = '''' \<or> \<not> Scope_Valid (o_Scope ob) \<or> o_ReservationID ob = '''' \<or> o_RootRunID ob = '''' \<or>
         o_RunID ob = '''' \<or> o_TaskID ob = '''' \<or> o_AttemptID ob = '''' \<or> o_CostMicros ob < 0
      then fails (budgetProblem ''usage observation is invalid'')
      else call (L_Observe (c_ledger c) ob))"

definition Controller_Reservation :: "'s Controller \<Rightarrow> Scope \<Rightarrow> string \<Rightarrow> ('s World, err, Reservation) op" where
  "Controller_Reservation c scope rid =
     (if \<not> Scope_Valid scope
      then fails (budgetProblem ''reservation read requires workspace and project identity'')
      else call (L_Reservation (c_ledger c) scope rid))"

definition Controller_FenceExpired :: "'s Controller \<Rightarrow> Scope \<Rightarrow> string \<Rightarrow> ('s World, err, Reservation list) op" where
  "Controller_FenceExpired c scope root =
     (if \<not> Scope_Valid scope \<or> root = '''' \<or> c_now c = 0
      then fails (budgetProblem ''expiry fencing requires a scoped root run and authoritative time'')
      else andThen (call (L_FenceExpired (c_ledger c) scope root (c_now c)))
             (reporting c scope root))"

definition SettlementActor :: string where
  "SettlementActor = ''budget-controller''"

definition settlementConflictRounds :: nat where
  "settlementConflictRounds = 8"

definition observed_settlement :: "Scope \<Rightarrow> Reservation \<Rightarrow> bool \<Rightarrow> string \<Rightarrow> Settlement" where
  "observed_settlement scope v release actor =
     \<lparr>s_Scope = scope, s_ReservationID = r_ID v, s_Generation = r_Generation v,
      s_FinalCost = r_ObservedMicros v, s_ExpectedObservedMicros = r_ObservedMicros v,
      s_ExpectedAttemptFinal = r_AttemptFinal v, s_Release = release, s_Actor = actor\<rparr>"

text \<open>The loop of \<open>settleObserved\<close>; the first argument is the rounds that are left.\<close>

fun settle_rounds :: "nat \<Rightarrow> 's Controller \<Rightarrow> Scope \<Rightarrow> Reservation \<Rightarrow> bool \<Rightarrow> string \<Rightarrow> ('s World, err, Reservation) op" where
  "settle_rounds 0 c scope cur release actor w =
     (Inl (Conflict \<lparr>cf_ReservationID = r_ID cur, cf_ObservedMicros = r_ObservedMicros cur,
             cf_AttemptFinal = r_AttemptFinal cur\<rparr>), w)"
| "settle_rounds (Suc rounds) c scope cur release actor w =
     (case call (L_Settle (c_ledger c) (observed_settlement scope cur release actor)) w of
        (Inr settled, w') \<Rightarrow> (Inr settled, w')
      | (Inl er, w') \<Rightarrow>
          (if as_Conflict er = None then (Inl (Wrapped (''settle reservation '' @ r_ID cur) er), w')
           else case call (L_Reservation (c_ledger c) scope (r_ID cur)) w' of
             (Inl readErr, w'') \<Rightarrow>
               (Inl (Wrapped (''re-read reservation '' @ r_ID cur @ '' after settlement conflict'') readErr), w'')
           | (Inr reread, w'') \<Rightarrow> settle_rounds rounds c scope reread release actor w''))"

definition settleObserved :: "'s Controller \<Rightarrow> Scope \<Rightarrow> Reservation \<Rightarrow> bool \<Rightarrow> string \<Rightarrow> ('s World, err, Reservation) op" where
  "settleObserved c scope v release actor = settle_rounds settlementConflictRounds c scope v release actor"

definition settleSuperseded :: "'s Controller \<Rightarrow> Scope \<Rightarrow> Reservation \<Rightarrow> string \<Rightarrow> ('s World, err, Reservation \<times> bool) op" where
  "settleSuperseded c scope v actor w =
     (if r_Released v \<or> \<not> r_AttemptFinal v \<or> r_UpperBoundMicros v = r_ObservedMicros v
      then (Inr (v, False), w)
      else case settleObserved c scope v False actor w of
        (Inl er, w') \<Rightarrow> (Inl (Wrapped (''settle superseded reservation '' @ r_ID v) er), w')
      | (Inr settled, w') \<Rightarrow> (Inr (settled, True), w'))"

definition stale_actor :: err where
  "stale_actor = budgetProblem ''stale or unauthorized reservation settlement''"

definition Reconcile :: "'s Controller \<Rightarrow> Scope \<Rightarrow> string \<Rightarrow> Generation \<Rightarrow> int option \<Rightarrow> bool \<Rightarrow> string
    \<Rightarrow> ('s World, err, Reservation) op" where
  "Reconcile c scope rid generation finalCost release actor w =
     (if \<not> Scope_Valid scope
      then (Inl (budgetProblem ''settlement requires workspace and project identity''), w)
      else case call (L_Reservation (c_ledger c) scope rid) w of
        (Inl er, w') \<Rightarrow> (Inl er, w')
      | (Inr v, w') \<Rightarrow>
        (case current c (Reservation_Scope v) (r_RootRunID v) of
           Inl er \<Rightarrow> (Inl er, w')
         | Inr cur \<Rightarrow>
           (if actor \<noteq> SettlementActor \<or> generation = 0 \<or> generation \<noteq> r_Generation v \<or> generation > cur
            then (Inl stale_actor, w')
            else if \<not> r_AttemptFinal v
            then (Inl (budgetProblem ''reservation cannot reconcile before attempt finality''), w')
            else if generation < cur
            then
              (if (case finalCost of None \<Rightarrow> False | Some fc \<Rightarrow> fc \<noteq> r_ObservedMicros v)
               then (Inl (budgetProblem ''a superseded generation settles only at its observed usage''), w')
               else andThen (settleSuperseded c scope v actor)
                      (\<lambda>(settled, changed). reporting c scope (r_RootRunID v) settled) w')
            else
              (let settle = (\<lambda>cost. andThen
                     (call (L_Settle (c_ledger c)
                        \<lparr>s_Scope = scope, s_ReservationID = rid, s_Generation = generation,
                         s_FinalCost = cost, s_ExpectedObservedMicros = r_ObservedMicros v,
                         s_ExpectedAttemptFinal = r_AttemptFinal v, s_Release = release, s_Actor = actor\<rparr>))
                     (reporting c scope (r_RootRunID v)))
               in case finalCost of
                    None \<Rightarrow> settle (r_UpperBoundMicros v) w'
                  | Some fc \<Rightarrow>
                      (if fc < 0 \<or> fc > r_UpperBoundMicros v
                       then (Inl (budgetProblem ''final usage is inconsistent''), w')
                       else if fc < r_ObservedMicros v
                       then (Inl (Conflict \<lparr>cf_ReservationID = rid, cf_ObservedMicros = r_ObservedMicros v,
                                    cf_AttemptFinal = r_AttemptFinal v\<rparr>), w')
                       else settle fc w')))))"

section \<open>Sweeps\<close>

text \<open>
  A sweep visits the holds the root read answered and collects what its step reports; the first
  failing step ends it. \<open>sweep\<close> is that loop, shared by the four sweeps of the source.
\<close>

fun sweep :: "(Reservation \<Rightarrow> ('w, err, Reservation option) op) \<Rightarrow> Reservation list \<Rightarrow> Reservation list
    \<Rightarrow> ('w, err, Reservation list) op" where
  "sweep visit acc [] w = (Inr acc, w)"
| "sweep visit acc (v # vs) w =
     (case visit v w of
        (Inl er, w') \<Rightarrow> (Inl er, w')
      | (Inr None, w') \<Rightarrow> sweep visit acc vs w'
      | (Inr (Some value), w') \<Rightarrow> sweep visit (acc @ [value]) vs w')"

text \<open>\<open>if len(settled) > 0 { c.reportExposure(...) }; return settled, nil\<close>.\<close>

definition report_some :: "'s Controller \<Rightarrow> Scope \<Rightarrow> string \<Rightarrow> Reservation list \<Rightarrow> ('s World, err, Reservation list) op" where
  "report_some c scope root vs w = (Inr vs, if vs \<noteq> [] then reportExposure c scope root w else w)"

definition superseded_visit :: "'s Controller \<Rightarrow> Scope \<Rightarrow> Generation \<Rightarrow> string \<Rightarrow> Reservation
    \<Rightarrow> ('s World, err, Reservation option) op" where
  "superseded_visit c scope active actor v w =
     (if r_Generation v \<ge> active then (Inr None, w)
      else case settleSuperseded c scope v actor w of
        (Inl er, w') \<Rightarrow> (Inl er, w')
      | (Inr (value, changed), w') \<Rightarrow> (Inr (if changed then Some value else None), w'))"

definition sweepSuperseded :: "'s Controller \<Rightarrow> Scope \<Rightarrow> string \<Rightarrow> Generation \<Rightarrow> string
    \<Rightarrow> ('s World, err, Reservation list) op" where
  "sweepSuperseded c scope root active actor =
     andThen (call (L_RootReservations (c_ledger c) scope root))
       (\<lambda>held. andThen (sweep (superseded_visit c scope active actor) [] held)
         (report_some c scope root))"

definition ReconcileSuperseded :: "'s Controller \<Rightarrow> Scope \<Rightarrow> string \<Rightarrow> Generation \<Rightarrow> string
    \<Rightarrow> ('s World, err, Reservation list) op" where
  "ReconcileSuperseded c scope root cur actor =
     (if \<not> Scope_Valid scope \<or> root = ''''
      then fails (budgetProblem ''superseded settlement requires a scoped root run'')
      else if actor \<noteq> SettlementActor \<or> cur = 0 then fails stale_actor
      else case current c scope root of
        Inl er \<Rightarrow> fails er
      | Inr active \<Rightarrow>
          (if cur \<noteq> active then fails stale_actor
           else sweepSuperseded c scope root active actor))"

definition RecoverSupersededFinality :: "'s Controller \<Rightarrow> Scope \<Rightarrow> string \<Rightarrow> string
    \<Rightarrow> ('s World, err, Reservation list) op" where
  "RecoverSupersededFinality c scope root actor =
     (if \<not> Scope_Valid scope \<or> root = ''''
      then fails (budgetProblem ''superseded settlement requires a scoped root run'')
      else if actor \<noteq> SettlementActor then fails stale_actor
      else case current c scope root of
        Inl er \<Rightarrow> fails er
      | Inr active \<Rightarrow>
          (if active = 0 then fails stale_actor
           else sweepSuperseded c scope root active actor))"

section \<open>Cancellation\<close>

definition Controller_FenceCancelled :: "'s Controller \<Rightarrow> Scope \<Rightarrow> string \<Rightarrow> ('s World, err, Reservation) op" where
  "Controller_FenceCancelled c scope rid =
     (if \<not> Scope_Valid scope \<or> rid = '''' \<or> c_now c = 0
      then fails (budgetProblem ''cancellation fencing requires a scoped reservation and authoritative time'')
      else andThen (call (L_FenceCancelled (c_ledger c) scope rid (c_now c)))
             (\<lambda>fenced. reporting c scope (r_RootRunID fenced) fenced))"

definition cancel_visit :: "'s Controller \<Rightarrow> Scope \<Rightarrow> string \<Rightarrow> Reservation \<Rightarrow> ('s World, err, Reservation option) op" where
  "cancel_visit c scope run v w =
     (if r_RunID v \<noteq> run \<or> r_Released v \<or> r_Cancelled v then (Inr None, w)
      else case call (L_FenceCancelled (c_ledger c) scope (r_ID v) (c_now c)) w of
        (Inl er, w') \<Rightarrow> (Inl (Wrapped (''fence cancelled reservation '' @ r_ID v) er), w')
      | (Inr value, w') \<Rightarrow> (Inr (Some value), w'))"

definition FenceCancelledRun :: "'s Controller \<Rightarrow> Scope \<Rightarrow> string \<Rightarrow> string \<Rightarrow> ('s World, err, Reservation list) op" where
  "FenceCancelledRun c scope root run =
     (if \<not> Scope_Valid scope \<or> root = '''' \<or> run = '''' \<or> c_now c = 0
      then fails (budgetProblem ''cancellation fencing requires a scoped run'')
      else andThen (call (L_RootReservations (c_ledger c) scope root))
             (\<lambda>held. andThen (sweep (cancel_visit c scope run) [] held)
               (report_some c scope root)))"

definition OutstandingCancelledHolds :: "'s Controller \<Rightarrow> Scope \<Rightarrow> string \<Rightarrow> ('s World, err, bool) op" where
  "OutstandingCancelledHolds c scope root =
     (if \<not> Scope_Valid scope \<or> root = ''''
      then fails (budgetProblem ''outstanding cancelled hold lookup requires a scoped root run'')
      else andThen (call (L_RootReservations (c_ledger c) scope root))
             (\<lambda>held. returns (list_ex (\<lambda>v. r_Cancelled v \<and> \<not> r_Released v) held)))"

definition recover_visit :: "'s Controller \<Rightarrow> Scope \<Rightarrow> string \<Rightarrow> Reservation \<Rightarrow> ('s World, err, Reservation option) op" where
  "recover_visit c scope actor v w =
     (if \<not> r_Cancelled v \<or> r_Released v \<or> \<not> r_AttemptFinal v then (Inr None, w)
      else case settleObserved c scope v True actor w of
        (Inl er, w') \<Rightarrow> (Inl er, w')
      | (Inr value, w') \<Rightarrow> (Inr (Some value), w'))"

definition RecoverCancelledFinality :: "'s Controller \<Rightarrow> Scope \<Rightarrow> string \<Rightarrow> string \<Rightarrow> ('s World, err, Reservation list) op" where
  "RecoverCancelledFinality c scope root actor =
     (if \<not> Scope_Valid scope \<or> root = ''''
      then fails (budgetProblem ''cancellation settlement requires a scoped root run'')
      else if actor \<noteq> SettlementActor then fails stale_actor
      else andThen (call (L_RootReservations (c_ledger c) scope root))
             (\<lambda>held. andThen (sweep (recover_visit c scope actor) [] held)
               (report_some c scope root)))"

definition finality_record :: "Scope \<Rightarrow> Reservation \<Rightarrow> Observation" where
  "finality_record scope v =
     (let identity = CancellationFinalityObservationID (r_ID v)
      in \<lparr>o_ID = identity, o_Scope = scope, o_ReservationID = r_ID v, o_RootRunID = r_RootRunID v,
          o_RunID = r_RunID v, o_TaskID = cancellationTaskID, o_AttemptID = identity,
          o_RecoveryEpoch = 0, o_ExecutionGeneration = r_Generation v, o_MeterSequence = 0,
          o_CostMicros = 0, o_Final = True\<rparr>)"

definition conclude_visit :: "'s Controller \<Rightarrow> Scope \<Rightarrow> string \<Rightarrow> Reservation \<Rightarrow> ('s World, err, Reservation option) op" where
  "conclude_visit c scope run v w =
     (if r_RunID v \<noteq> run \<or> r_Released v \<or> \<not> r_Cancelled v \<or> r_AttemptFinal v then (Inr None, w)
      else case call (L_Observe (c_ledger c) (finality_record scope v)) w of
        (Inl er, w') \<Rightarrow> (Inl (Wrapped (''record cancelled attempt finality for reservation '' @ r_ID v) er), w')
      | (Inr u, w') \<Rightarrow> (Inr None, w'))"

definition ConcludeCancelledRun :: "'s Controller \<Rightarrow> Scope \<Rightarrow> string \<Rightarrow> string \<Rightarrow> string
    \<Rightarrow> ('s World, err, Reservation list) op" where
  "ConcludeCancelledRun c scope root run actor =
     (if \<not> Scope_Valid scope \<or> root = '''' \<or> run = ''''
      then fails (budgetProblem ''cancellation settlement requires a scoped run'')
      else if actor \<noteq> SettlementActor then fails stale_actor
      else andThen (call (L_RootReservations (c_ledger c) scope root))
             (\<lambda>held. andThen (sweep (conclude_visit c scope run) [] held)
               (\<lambda>_. RecoverCancelledFinality c scope root actor)))"

section \<open>The root total\<close>

fun root_total :: "int \<Rightarrow> Reservation list \<Rightarrow> int option" where
  "root_total tot [] = Some tot"
| "root_total tot (v # vs) =
     (case addMicros tot (if r_AttemptFinal v then r_ObservedMicros v else r_UpperBoundMicros v) of
        None \<Rightarrow> None
      | Some tot' \<Rightarrow> root_total tot' vs)"

definition RootTotal :: "'s Controller \<Rightarrow> Scope \<Rightarrow> string \<Rightarrow> ('s World, err, int) op" where
  "RootTotal c scope root =
     (if \<not> Scope_Valid scope
      then fails (budgetProblem ''root total requires workspace and project identity'')
      else andThen (call (L_RootReservations (c_ledger c) scope root))
             (\<lambda>values. case root_total 0 values of
                None \<Rightarrow> fails (budgetProblem ''root usage total overflowed'')
              | Some tot \<Rightarrow> returns tot))"

section \<open>The ledger contract\<close>

text \<open>
  \<open>hold s scope rid\<close> is the hold a ledger state has under an identity; \<open>good\<close> is the ledger's own
  invariant. \<open>evolves\<close> says that every hold is still there and moved only the way \<open>res_le\<close> allows.
\<close>

definition evolves :: "('s \<Rightarrow> Scope \<Rightarrow> string \<Rightarrow> Reservation option) \<Rightarrow> 's \<Rightarrow> 's \<Rightarrow> bool" where
  "evolves hold s t \<longleftrightarrow>
     (\<forall>scope rid v. hold s scope rid = Some v \<longrightarrow> (\<exists>v'. hold t scope rid = Some v' \<and> res_le v v'))"

lemma evolves_refl [simp]: "evolves hold s s"
  by (auto simp: evolves_def)

lemma evolves_trans: "evolves hold s t \<Longrightarrow> evolves hold t u \<Longrightarrow> evolves hold s u"
  unfolding evolves_def by (meson res_le_trans)

text \<open>An operation of the controller that keeps the ledger good and only evolves its holds.\<close>

definition kept :: "('s \<Rightarrow> bool) \<Rightarrow> ('s \<Rightarrow> Scope \<Rightarrow> string \<Rightarrow> Reservation option) \<Rightarrow> ('s World, err, 'a) op \<Rightarrow> bool" where
  "kept good hold f \<longleftrightarrow>
     (\<forall>w. good (w_ledger w) \<longrightarrow>
        good (w_ledger (snd (f w))) \<and> evolves hold (w_ledger w) (w_ledger (snd (f w))))"

lemma keptD: "kept good hold f \<Longrightarrow> good (w_ledger w) \<Longrightarrow> f w = (r, w') \<Longrightarrow>
    good (w_ledger w') \<and> evolves hold (w_ledger w) (w_ledger w')"
  by (metis kept_def snd_conv)

lemma keptI:
  assumes "\<And>w r w'. good (w_ledger w) \<Longrightarrow> f w = (r, w') \<Longrightarrow>
    good (w_ledger w') \<and> evolves hold (w_ledger w) (w_ledger w')"
  shows "kept good hold f"
  unfolding kept_def using assms by (metis prod.collapse)

lemma kept_fails [simp]: "kept good hold (fails e)"
  by (simp add: kept_def fails_def)

lemma kept_returns [simp]: "kept good hold (returns x)"
  by (simp add: kept_def returns_def)

lemma kept_call:
  assumes "\<And>s r t. good s \<Longrightarrow> f s = (r, t) \<Longrightarrow> good t \<and> evolves hold s t"
  shows "kept good hold (call f)"
  by (rule keptI) (use assms in \<open>auto simp: call_def split: prod.splits\<close>)

lemma kept_andThen:
  assumes "kept good hold f" and "\<And>x. kept good hold (g x)"
  shows "kept good hold (andThen f g)"
proof (rule keptI)
  fix w w' :: "'a World" and r
  assume w: "good (w_ledger w)" and run: "andThen f g w = (r, w')"
  obtain rf wf where f: "f w = (rf, wf)" by (cases "f w")
  note 1 = keptD [OF assms(1) w f]
  show "good (w_ledger w') \<and> evolves hold (w_ledger w) (w_ledger w')"
  proof (cases rf)
    case (Inl e)
    then show ?thesis using 1 run by (simp add: andThen_def f)
  next
    case (Inr x)
    then have "g x wf = (r, w')" using run by (simp add: andThen_def f)
    from keptD [OF assms(2) _ this] 1 show ?thesis by (blast intro: evolves_trans)
  qed
qed

lemma kept_sweep:
  assumes "\<And>v. kept good hold (visit v)"
  shows "kept good hold (sweep visit acc vs)"
proof (induction vs arbitrary: acc)
  case (Cons v vs)
  show ?case
  proof (rule keptI)
    fix w w' :: "'a World" and r
    assume w: "good (w_ledger w)" and run: "sweep visit acc (v # vs) w = (r, w')"
    obtain rf wf where f: "visit v w = (rf, wf)" by (cases "visit v w")
    note 1 = keptD [OF assms w f]
    then have "w' = wf \<or> (\<exists>acc'. sweep visit acc' vs wf = (r, w'))"
      using run by (auto simp: f split: sum.splits option.splits)
    with 1 keptD [OF Cons.IH] show "good (w_ledger w') \<and> evolves hold (w_ledger w) (w_ledger w')"
      by (blast intro: evolves_trans)
  qed
qed (simp add: kept_def)

locale ledger_contract =
  fixes L :: "'s LedgerOps" and good :: "'s \<Rightarrow> bool"
    and hold :: "'s \<Rightarrow> Scope \<Rightarrow> string \<Rightarrow> Reservation option" and M :: int
  assumes reserve_law: "good s \<Longrightarrow> 1 \<le> e_MaximumCostMicros e \<Longrightarrow> e_MaximumCostMicros e \<le> maxMicros \<Longrightarrow>
      L_Reserve L e g M s = (r, t) \<Longrightarrow> good t \<and> evolves hold s t \<and>
      (\<forall>v. r = Inr v \<longrightarrow> hold t (Estimate_Scope e) (e_ReservationID e) = Some v \<and>
         \<not> r_Expired v \<and> \<not> r_Cancelled v \<and> \<not> r_Released v)"
    and observe_law: "good s \<Longrightarrow> 0 \<le> o_CostMicros ob \<Longrightarrow> L_Observe L ob s = (ro, t) \<Longrightarrow>
      good t \<and> evolves hold s t"
    and settle_law: "good s \<Longrightarrow> L_Settle L st s = (r, t) \<Longrightarrow> good t \<and> evolves hold s t \<and>
      (\<forall>v. r = Inr v \<longrightarrow> hold t (s_Scope st) (s_ReservationID st) = Some v \<and> r_AttemptFinal v \<and>
         r_ObservedMicros v = s_FinalCost st \<and> r_UpperBoundMicros v = s_FinalCost st \<and>
         r_Released v = s_Release st \<and> r_Generation v = s_Generation st)"
    and fence_cancelled_law: "good s \<Longrightarrow> L_FenceCancelled L scope rid now s = (r, t) \<Longrightarrow>
      good t \<and> evolves hold s t \<and>
      (\<forall>v. r = Inr v \<longrightarrow> hold t scope rid = Some v \<and> (r_Cancelled v \<or> r_Released v))"
    and fence_expired_law: "good s \<Longrightarrow> L_FenceExpired L scope root now s = (rs, t) \<Longrightarrow>
      good t \<and> evolves hold s t"
    and read_law: "good s \<Longrightarrow> L_Reservation L scope rid s = (r, t) \<Longrightarrow> good t \<and> evolves hold s t \<and>
      (\<forall>v. r = Inr v \<longrightarrow> hold t scope rid = Some v)"
    and roots_law: "good s \<Longrightarrow> L_RootReservations L scope root s = (rs, t) \<Longrightarrow> good t \<and> evolves hold s t \<and>
      (\<forall>vs. rs = Inr vs \<longrightarrow> (\<forall>v \<in> set vs. hold t scope (r_ID v) = Some v \<and> in_root scope root v))"
begin

abbreviation keeps_ledger :: "('s World, err, 'a) op \<Rightarrow> bool" where
  "keeps_ledger \<equiv> kept good hold"

lemma kept_calls:
  "1 \<le> e_MaximumCostMicros e \<Longrightarrow> e_MaximumCostMicros e \<le> maxMicros \<Longrightarrow> keeps_ledger (call (L_Reserve L e g M))"
  "0 \<le> o_CostMicros ob \<Longrightarrow> keeps_ledger (call (L_Observe L ob))"
  "keeps_ledger (call (L_Settle L st))" "keeps_ledger (call (L_FenceCancelled L scope rid now))"
  "keeps_ledger (call (L_FenceExpired L scope root now))" "keeps_ledger (call (L_Reservation L scope rid))"
  "keeps_ledger (call (L_RootReservations L scope root))"
  by (rule kept_call; blast dest: reserve_law observe_law settle_law fence_cancelled_law
      fence_expired_law read_law roots_law)+

lemma kept_reportExposure:
  assumes "c_ledger c = L" and good: "good (w_ledger w)"
  shows "good (w_ledger (reportExposure c scope root w)) \<and>
    evolves hold (w_ledger w) (w_ledger (reportExposure c scope root w))"
proof -
  obtain r w' where read: "call (L_RootReservations L scope root) w = (r, w')"
    by (cases "call (L_RootReservations L scope root) w")
  from keptD [OF kept_calls(7) good read] show ?thesis
    by (auto simp: reportExposure_def assms(1) read Let_def split: sum.splits)
qed

lemma kept_reporting:
  assumes "c_ledger c = L"
  shows "keeps_ledger (reporting c scope root x)" and "keeps_ledger (report_some c scope root vs)"
  using kept_reportExposure [OF assms] by (auto simp: kept_def reporting_def report_some_def)

lemma kept_settle_rounds:
  assumes "c_ledger c = L"
  shows "keeps_ledger (settle_rounds n c scope v release actor)"
proof (induction n arbitrary: v)
  case (Suc n)
  show ?case
  proof (rule keptI)
    fix w w' :: "'s World" and r
    assume w: "good (w_ledger w)" and run: "settle_rounds (Suc n) c scope v release actor w = (r, w')"
    obtain rs ws where s: "call (L_Settle L (observed_settlement scope v release actor)) w = (rs, ws)"
      by (cases "call (L_Settle L (observed_settlement scope v release actor)) w")
    obtain rr wr where g: "call (L_Reservation L scope (r_ID v)) ws = (rr, wr)"
      by (cases "call (L_Reservation L scope (r_ID v)) ws")
    note 1 = keptD [OF kept_calls(3) w s]
    then have 2: "good (w_ledger wr)" "evolves hold (w_ledger w) (w_ledger wr)"
      using keptD [OF kept_calls(6) _ g] by (auto intro: evolves_trans)
    have "w' = ws \<or> w' = wr \<or> (\<exists>u. settle_rounds n c scope u release actor wr = (r, w'))"
      using run by (auto simp: assms s g split: sum.splits if_splits)
    with 1 2 keptD [OF Suc.IH] show "good (w_ledger w') \<and> evolves hold (w_ledger w) (w_ledger w')"
      by (blast intro: evolves_trans)
  qed
qed (simp add: kept_def)

end

context ledger_contract
begin

text \<open>Every method of the controller keeps the ledger good and only evolves its holds.\<close>

lemma kept_reserve:
  assumes "c_ledger c = L" and "MaximumReservedMicros (c_policy c) = M" and "e_MaximumCostMicros e \<le> maxMicros"
  shows "keeps_ledger (reserve c e g)"
proof (rule keptI)
  fix w w' :: "'s World" and r
  assume w: "good (w_ledger w)" and run: "reserve c e g w = (r, w')"
  obtain rl wl where l: "call (L_Reserve L e g M) w = (rl, wl)" by (cases "call (L_Reserve L e g M) w")
  have "w' = w \<or> (\<not> estimate_invalid c e g \<and> (w' = wl \<or> w' = reportExposure c (Estimate_Scope e) (e_RootRunID e) wl))"
    using run by (auto simp: reserve_def assms l split: sum.splits if_splits)
  then show "good (w_ledger w') \<and> evolves hold (w_ledger w) (w_ledger w')"
  proof (elim disjE conjE)
    assume v: "\<not> estimate_invalid c e g"
    then have wl: "good (w_ledger wl)" "evolves hold (w_ledger w) (w_ledger wl)"
      using keptD [OF kept_calls(1) w l] assms(3) by (simp_all add: estimate_invalid_def)
    then show "good (w_ledger w') \<and> evolves hold (w_ledger w) (w_ledger w')" if "w' = wl" using that by simp
    have "good (w_ledger w') \<and> evolves hold (w_ledger wl) (w_ledger w')"
      if "w' = reportExposure c (Estimate_Scope e) (e_RootRunID e) wl"
      using kept_reportExposure [OF assms(1) wl(1)] that by simp
    with wl(2) show "good (w_ledger w') \<and> evolves hold (w_ledger w) (w_ledger w')"
      if "w' = reportExposure c (Estimate_Scope e) (e_RootRunID e) wl"
      using that by (blast intro: evolves_trans)
  qed (use w in simp)
qed

lemma kept_settleSuperseded:
  assumes "c_ledger c = L"
  shows "keeps_ledger (settleSuperseded c scope v actor)"
  by (rule keptI) (auto simp: settleSuperseded_def settleObserved_def split: if_splits prod.splits sum.splits
      dest: keptD [OF kept_settle_rounds [OF assms]])

lemma kept_visits:
  assumes "c_ledger c = L"
  shows "keeps_ledger (superseded_visit c scope active actor v)" and "keeps_ledger (cancel_visit c scope run v)"
    and "keeps_ledger (recover_visit c scope actor v)" and "keeps_ledger (conclude_visit c scope run v)"
proof -
  have cost: "0 \<le> o_CostMicros (finality_record scope v)" by (simp add: finality_record_def Let_def)
  show "keeps_ledger (superseded_visit c scope active actor v)"
    by (rule keptI) (auto simp: superseded_visit_def split: if_splits prod.splits sum.splits
        dest: keptD [OF kept_settleSuperseded [OF assms]])
  show "keeps_ledger (cancel_visit c scope run v)"
    by (rule keptI) (auto simp: cancel_visit_def assms split: if_splits prod.splits sum.splits
        dest: keptD [OF kept_calls(4)])
  show "keeps_ledger (recover_visit c scope actor v)"
    by (rule keptI) (auto simp: recover_visit_def settleObserved_def split: if_splits prod.splits sum.splits
        dest: keptD [OF kept_settle_rounds [OF assms]])
  show "keeps_ledger (conclude_visit c scope run v)"
    by (rule keptI) (auto simp: conclude_visit_def assms split: if_splits prod.splits sum.splits
        dest: keptD [OF kept_calls(2) [OF cost]])
qed

lemma kept_sweeps:
  assumes "c_ledger c = L"
  shows "keeps_ledger (sweepSuperseded c scope root active actor)"
    and "keeps_ledger (FenceCancelledRun c scope root run)"
    and "keeps_ledger (RecoverCancelledFinality c scope root actor)"
    and "keeps_ledger (ConcludeCancelledRun c scope root run actor)"
proof -
  note rules = kept_andThen kept_calls(7) kept_sweep kept_visits [OF assms] kept_reporting [OF assms]
  show "keeps_ledger (sweepSuperseded c scope root active actor)"
    unfolding sweepSuperseded_def assms by (intro rules)
  show "keeps_ledger (FenceCancelledRun c scope root run)"
    by (auto simp: FenceCancelledRun_def assms intro!: rules)
  show rec: "keeps_ledger (RecoverCancelledFinality c scope root actor)" for actor
    by (auto simp: RecoverCancelledFinality_def assms intro!: rules)
  show "keeps_ledger (ConcludeCancelledRun c scope root run actor)"
    by (auto simp: ConcludeCancelledRun_def assms intro!: rules rec)
qed

lemma kept_settlements:
  assumes "c_ledger c = L"
  shows "keeps_ledger (ReconcileSuperseded c scope root g actor)"
    and "keeps_ledger (RecoverSupersededFinality c scope root actor)"
    and "keeps_ledger (Controller_FenceCancelled c scope rid)"
    and "keeps_ledger (Controller_FenceExpired c scope root)"
    and "keeps_ledger (Controller_Observe c ob)"
    and "keeps_ledger (OutstandingCancelledHolds c scope root)"
  using kept_sweeps(1) [OF assms]
  by (auto simp: ReconcileSuperseded_def RecoverSupersededFinality_def Controller_FenceCancelled_def
      Controller_FenceExpired_def Controller_Observe_def OutstandingCancelledHolds_def assms
      intro!: kept_andThen kept_calls kept_reporting split: sum.split)

text \<open>A settlement that succeeds settled a final attempt at exactly the reported cost.\<close>

lemma settle_rounds_result:
  assumes "c_ledger c = L" and "good (w_ledger w)"
    and "settle_rounds n c scope v release actor w = (Inr u, w')"
  shows "r_AttemptFinal u \<and> r_ObservedMicros u = r_UpperBoundMicros u \<and> r_Released u = release"
  using assms(2,3)
proof (induction n arbitrary: v w)
  case (Suc n)
    obtain rs ws where s: "call (L_Settle L (observed_settlement scope v release actor)) w = (rs, ws)"
      by (cases "call (L_Settle L (observed_settlement scope v release actor)) w")
    obtain rr wr where g: "call (L_Reservation L scope (r_ID v)) ws = (rr, wr)"
      by (cases "call (L_Reservation L scope (r_ID v)) ws")
    show ?case
    proof (cases rs)
      case (Inr x)
      then have "u = x" using Suc.prems(2) by (simp add: assms(1) s)
      moreover obtain t where "L_Settle L (observed_settlement scope v release actor) (w_ledger w) = (Inr x, t)"
        using s Inr by (auto simp: call_def split: prod.splits)
      ultimately show ?thesis
        using settle_law [OF Suc.prems(1)] by (simp add: observed_settlement_def)
    next
      case (Inl e)
      have "good (w_ledger wr)"
        using keptD [OF kept_calls(3) Suc.prems(1) s] keptD [OF kept_calls(6) _ g] by blast
      then show ?thesis
        using Suc.prems(2) Suc.IH Inl by (auto simp: assms(1) s g split: if_splits sum.splits)
    qed
qed simp

text \<open>What stands between a caller and its dispatch function.\<close>

lemma Dispatch_runs_only_live:
  assumes "c_ledger c = L" and "good (w_ledger w)"
    and "Dispatch c scope rid g (Some run) w = (r, w')"
  shows "(\<exists>er. r = Inl er \<and> (\<forall>run'. Dispatch c scope rid g (Some run') w = (r, w'))) \<or>
    (\<exists>v w1. hold (w_ledger w1) scope rid = Some v \<and> good (w_ledger w1) \<and>
       evolves hold (w_ledger w) (w_ledger w1) \<and> \<not> dispatch_refused c v g \<and>
       current c (Reservation_Scope v) (r_RootRunID v) = Inr g \<and> run v w1 = (r, w'))"
proof -
  obtain rr wr where g: "call (L_Reservation L scope rid) w = (rr, wr)"
    by (cases "call (L_Reservation L scope rid) w")
  have ev: "good (w_ledger wr)" "evolves hold (w_ledger w) (w_ledger wr)"
    using keptD [OF kept_calls(6) assms(2) g] by simp_all
  have held: "hold (w_ledger wr) scope rid = Some v" if "rr = Inr v" for v
  proof -
    from g that have "L_Reservation L scope rid (w_ledger w) = (Inr v, w_ledger wr)"
      by (auto simp: call_def split: prod.splits)
    then show ?thesis using read_law [OF assms(2)] by simp
  qed
  show ?thesis
  proof (cases rr)
    case (Inl e)
    then show ?thesis using assms(3) by (auto simp: Dispatch_def assms(1) g split: if_splits)
  next
    case (Inr v)
    then show ?thesis
      using assms(3) ev held [OF Inr]
      by (auto simp: Dispatch_def assms(1) g split: if_splits sum.splits)
  qed
qed

text \<open>A fence is the end of a hold's authority, whatever happened to the ledger since.\<close>

lemma fenced_never_dispatches:
  assumes "c_ledger c = L" and "good (w_ledger w)" and "Scope_Valid scope"
    and "hold s scope rid = Some v" and "r_Cancelled v \<or> r_Expired v \<or> r_Released v"
    and "evolves hold s (w_ledger w)"
  shows "fst (Dispatch c scope rid g (Some run) w) = Inl (budgetProblem ''expensive dispatch lacks a current reservation'')
    \<and> snd (Dispatch c scope rid g (Some run) w) = snd (call (L_Reservation L scope rid) w)"
proof -
  obtain rr wr where g: "call (L_Reservation L scope rid) w = (rr, wr)"
    by (cases "call (L_Reservation L scope rid) w")
  show ?thesis
  proof (cases rr)
    case (Inl e)
    then show ?thesis using assms(3) by (simp add: Dispatch_def assms(1) g)
  next
    case (Inr u)
    obtain t where "L_Reservation L scope rid (w_ledger w) = (Inr u, t)"
      using g Inr by (auto simp: call_def split: prod.splits)
    then have "evolves hold (w_ledger w) t" "hold t scope rid = Some u"
      using read_law [OF assms(2)] by auto
    with assms(4,6) have "res_le v u"
      unfolding evolves_def by (metis option.inject res_le_trans)
    then have "dispatch_refused c u g"
      using assms(5) by (auto simp: dispatch_refused_def res_le_def)
    then show ?thesis using assms(3) by (simp add: Dispatch_def assms(1) g Inr)
  qed
qed

end

section \<open>The memory ledger keeps the contract\<close>

definition mem_ops :: "MemoryLedger LedgerOps" where
  "mem_ops = \<lparr>L_Reserve = mem_Reserve, L_Observe = mem_Observe, L_Settle = mem_Settle,
     L_FenceCancelled = mem_FenceCancelled, L_Reservation = mem_Reservation,
     L_RootReservations = mem_RootReservations, L_FenceExpired = mem_FenceExpired\<rparr>"

definition mem_hold :: "MemoryLedger \<Rightarrow> Scope \<Rightarrow> string \<Rightarrow> Reservation option" where
  "mem_hold l scope rid = gm_get (ml_values l) (scopedKey scope rid)"

lemma ledger_le_evolves: "ledger_le l l' \<Longrightarrow> evolves mem_hold l l'"
  by (simp add: ledger_le_def evolves_def mem_hold_def)

lemma mem_Reserve_result:
  assumes "mem_Reserve e g M l = (Inr v, t)"
  shows "mem_hold t (Estimate_Scope e) (e_ReservationID e) = Some v
    \<and> \<not> r_Expired v \<and> \<not> r_Cancelled v \<and> \<not> r_Released v"
proof -
  have "e_ReservationID e \<noteq> ''''" "Scope_Valid (Estimate_Scope e)" "1 \<le> M"
    using assms by (auto simp: mem_Reserve_def split: if_splits)
  then show ?thesis
    by (cases rule: mem_Reserve_unfold [of e M g l])
      (use assms in \<open>auto simp: mem_hold_def gm_get_put\<close>)
qed

lemma mem_Settle_result:
  assumes "mem_Settle st l = (Inr v, t)"
  shows "mem_hold t (s_Scope st) (s_ReservationID st) = Some v \<and> r_AttemptFinal v \<and>
    r_ObservedMicros v = s_FinalCost st \<and> r_UpperBoundMicros v = s_FinalCost st \<and>
    r_Released v = s_Release st \<and> r_Generation v = s_Generation st"
  using assms by (auto simp: mem_Settle_def Let_def mem_hold_def gm_get_put split: if_splits option.splits)

lemma mem_FenceCancelled_result:
  "mem_FenceCancelled scope rid now l = (Inr v, t) \<Longrightarrow>
     mem_hold t scope rid = Some v \<and> (r_Cancelled v \<or> r_Released v)"
  by (auto simp: mem_FenceCancelled_def Let_def mem_hold_def gm_get_put split: if_splits option.splits)

lemma mem_roots_result:
  assumes inv: "ledger_inv M l" and "mem_RootReservations scope root l = (Inr vs, t)" and "v \<in> set vs"
  shows "mem_hold t scope (r_ID v) = Some v \<and> in_root scope root v \<and> t = l"
proof -
  have t: "t = l" "in_root scope root v" and "v \<in> snd ` set (ml_values l)"
    using assms(2,3) by (auto simp: mem_RootReservations_def split: if_splits)
  then obtain k where "gm_get (ml_values l) k = Some v"
    using ledger_invD(1) [OF inv] by (auto simp: gm_get_iff)
  moreover from this have "k = scopedKey (Reservation_Scope v) (r_ID v)" by (rule ledger_invD(3) [OF inv])
  moreover have "Reservation_Scope v = scope"
    using t(2) by (cases scope) (simp add: in_root_def Reservation_Scope_def)
  ultimately show ?thesis using t by (simp add: mem_hold_def)
qed


text \<open>\<open>NewController\<close> refuses a bound below one, and the field is an \<open>int64\<close>.\<close>

definition mem_good :: "int \<Rightarrow> MemoryLedger \<Rightarrow> bool" where
  "mem_good M l \<longleftrightarrow> 1 \<le> M \<and> M \<le> maxMicros \<and> ledger_inv M l"

lemma mem_goodD: "mem_good M l \<Longrightarrow> ledger_inv M l" "mem_good M l \<Longrightarrow> 1 \<le> M" "mem_good M l \<Longrightarrow> M \<le> maxMicros"
  by (simp_all add: mem_good_def)

interpretation mem: ledger_contract mem_ops "mem_good M" mem_hold M for M
proof (unfold_locales, goal_cases)
  case (1 s e g r t)
  then show ?case
    using mem_Reserve_inv [OF mem_goodD [OF 1(1)] 1(2,3), of g] mem_Reserve_result [of e g M s _ t]
    by (auto simp: mem_ops_def mem_good_def ledger_le_evolves)
next
  case (2 s ob ro t)
  then show ?case using mem_Observe_inv [OF mem_goodD(1) [OF 2(1)] 2(2)]
    by (auto simp: mem_ops_def mem_good_def ledger_le_evolves)
next
  case (3 s st r t)
  then show ?case
    using mem_Settle_inv [OF mem_goodD(1) [OF 3(1)], of st] mem_Settle_result [of st s _ t]
    by (auto simp: mem_ops_def mem_good_def ledger_le_evolves)
next
  case (4 s scope rid now r t)
  then show ?case
    using mem_FenceCancelled_inv [OF mem_goodD(1) [OF 4(1)], of scope rid now]
      mem_FenceCancelled_result [of scope rid now s _ t]
    by (auto simp: mem_ops_def mem_good_def ledger_le_evolves)
next
  case (5 s scope root now rs t)
  then show ?case
    using mem_FenceExpired_inv [OF mem_goodD(1) [OF 5(1)], of scope root now]
    by (auto simp: mem_ops_def mem_good_def ledger_le_evolves)
next
  case (6 s scope rid r t)
  then show ?case by (auto simp: mem_ops_def mem_Reservation_def mem_hold_def split: if_splits option.splits)
next
  case (7 s scope root rs t)
  then have "t = s" using mem_reads(2) [of scope root s] by (simp add: mem_ops_def)
  then show ?case using 7 mem_roots_result [OF mem_goodD(1) [OF 7(1)]] by (auto simp: mem_ops_def)
qed

section \<open>Other goroutines between the controller's calls\<close>

text \<open>
  The lock is released between two calls of one controller method, so any number of other critical
  sections may run there. \<open>il_pending\<close> lists what the environment does before each of the next calls.
\<close>

record Interleaved =
  il_ledger :: MemoryLedger
  il_pending :: "(MemoryLedger \<Rightarrow> MemoryLedger) list"

definition interleave :: "(MemoryLedger, err, 'a) op \<Rightarrow> (Interleaved, err, 'a) op" where
  "interleave f s =
     (let l = (case il_pending s of [] \<Rightarrow> il_ledger s | env # rest \<Rightarrow> env (il_ledger s));
          (r, l') = f l
      in (r, \<lparr>il_ledger = l', il_pending = tl (il_pending s)\<rparr>))"

definition interleaved_ops :: "Interleaved LedgerOps" where
  "interleaved_ops = \<lparr>L_Reserve = (\<lambda>e g M. interleave (mem_Reserve e g M)),
     L_Observe = (\<lambda>ob. interleave (mem_Observe ob)), L_Settle = (\<lambda>st. interleave (mem_Settle st)),
     L_FenceCancelled = (\<lambda>scope rid now. interleave (mem_FenceCancelled scope rid now)),
     L_Reservation = (\<lambda>scope rid. interleave (mem_Reservation scope rid)),
     L_RootReservations = (\<lambda>scope root. interleave (mem_RootReservations scope root)),
     L_FenceExpired = (\<lambda>scope root now. interleave (mem_FenceExpired scope root now))\<rparr>"

definition il_good :: "int \<Rightarrow> Interleaved \<Rightarrow> bool" where
  "il_good M s \<longleftrightarrow> mem_good M (il_ledger s) \<and> (\<forall>env \<in> set (il_pending s). \<forall>l. ledger_steps M l (env l))"

definition il_hold :: "Interleaved \<Rightarrow> Scope \<Rightarrow> string \<Rightarrow> Reservation option" where
  "il_hold s scope rid = mem_hold (il_ledger s) scope rid"

lemma interleaveD:
  assumes "il_good M s" and "interleave f s = (r, t)"
  obtains l where "mem_good M l" "evolves mem_hold (il_ledger s) l" "f l = (r, il_ledger t)"
    "mem_good M (il_ledger t) \<Longrightarrow> il_good M t"
proof -
  define l where "l = (case il_pending s of [] \<Rightarrow> il_ledger s | env # rest \<Rightarrow> env (il_ledger s))"
  have run: "f l = (r, il_ledger t)" and pend: "il_pending t = tl (il_pending s)"
    using assms(2) by (auto simp: interleave_def l_def Let_def split: prod.splits)
  have "ledger_steps M (il_ledger s) l"
    using assms(1) by (auto simp: l_def il_good_def intro: ledger_steps.none split: list.split)
  then have "mem_good M l \<and> ledger_le (il_ledger s) l"
    using assms(1) ledger_steps_inv by (auto simp: il_good_def mem_good_def)
  moreover have "mem_good M (il_ledger t) \<Longrightarrow> il_good M t"
    using assms(1) by (cases "il_pending s") (auto simp: il_good_def pend)
  ultimately show thesis by (intro that [of l] run ledger_le_evolves) simp_all
qed

lemma interleave_law:
  assumes "il_good M s" and "interleave f s = (r, t)"
    and law: "\<And>l l'. mem_good M l \<Longrightarrow> f l = (r, l') \<Longrightarrow> mem_good M l' \<and> evolves mem_hold l l' \<and> P l'"
  shows "il_good M t \<and> evolves il_hold s t \<and> P (il_ledger t)"
proof -
  obtain l where l: "mem_good M l" "evolves mem_hold (il_ledger s) l" "f l = (r, il_ledger t)"
    "mem_good M (il_ledger t) \<Longrightarrow> il_good M t"
    using interleaveD [OF assms(1,2)] by metis
  from law [OF l(1,3)] l(2,4) show ?thesis
    by (auto simp: evolves_def il_hold_def) (meson res_le_trans)
qed

lemmas interleave_safe = interleave_law [where P = "\<lambda>_. True", simplified]

interpretation il: ledger_contract interleaved_ops "il_good M" il_hold M for M
proof (unfold_locales, goal_cases)
  case (1 s e g r t)
  then show ?case unfolding interleaved_ops_def il_hold_def [of t]
    by (intro interleave_law) (auto dest: mem.reserve_law [unfolded mem_ops_def, simplified])
next
  case (2 s ob ro t)
  then show ?case
    unfolding interleaved_ops_def
    by (intro interleave_safe) (auto dest: mem.observe_law [unfolded mem_ops_def, simplified])
next
  case (3 s st r t)
  then show ?case unfolding interleaved_ops_def il_hold_def [of t]
    by (intro interleave_law) (auto dest: mem.settle_law [unfolded mem_ops_def, simplified])
next
  case (4 s scope rid now r t)
  then show ?case unfolding interleaved_ops_def il_hold_def [of t]
    by (intro interleave_law) (auto dest: mem.fence_cancelled_law [unfolded mem_ops_def, simplified])
next
  case (5 s scope root now rs t)
  then show ?case
    unfolding interleaved_ops_def
    by (intro interleave_safe) (auto dest: mem.fence_expired_law [unfolded mem_ops_def, simplified])
next
  case (6 s scope rid r t)
  then show ?case unfolding interleaved_ops_def il_hold_def [of t]
    by (intro interleave_law) (auto dest: mem.read_law [unfolded mem_ops_def, simplified])
next
  case (7 s scope root rs t)
  then show ?case unfolding interleaved_ops_def il_hold_def [of t]
    by (intro interleave_law) (auto dest: mem.roots_law [unfolded mem_ops_def, simplified])
qed

section \<open>Properties of the controller\<close>

text \<open>C16 (fences end dispatch). Once a hold was fenced by a cancellation, no later dispatch of it runs,
  for any dispatch function, generation and clock, whatever settlements, observations, replays and
  fences other callers interleave in between and during the call.\<close>

theorem cancelled_hold_never_dispatches:
  assumes "mem_FenceCancelled scope rid now l = (Inr v, l1)" and "mem_good M l"
    and "ledger_steps M l1 (il_ledger (w_ledger w))"
    and "\<forall>env \<in> set (il_pending (w_ledger w)). \<forall>l. ledger_steps M l (env l)"
    and "c_ledger c = interleaved_ops" and "Scope_Valid scope"
  shows "fst (Dispatch c scope rid g (Some run) w) = Inl (budgetProblem ''expensive dispatch lacks a current reservation'')
    \<and> snd (Dispatch c scope rid g (Some run) w) = snd (call (L_Reservation interleaved_ops scope rid) w)"
proof (rule il.fenced_never_dispatches [OF assms(5) _ assms(6)])
  have g1: "mem_good M l1"
    using mem.fence_cancelled_law [of M l scope rid now] assms(1,2) by (simp add: mem_ops_def)
  then have "mem_good M (il_ledger (w_ledger w)) \<and> ledger_le l1 (il_ledger (w_ledger w))"
    using ledger_steps_inv [OF assms(3)] by (simp add: mem_good_def)
  then show "il_good M (w_ledger w)" "evolves il_hold \<lparr>il_ledger = l1, il_pending = []\<rparr> (w_ledger w)"
    using assms(4) ledger_le_evolves [of l1] by (auto simp: il_good_def evolves_def il_hold_def)
  show "il_hold \<lparr>il_ledger = l1, il_pending = []\<rparr> scope rid = Some v"
    "r_Cancelled v \<or> r_Expired v \<or> r_Released v"
    using mem_FenceCancelled_result [OF assms(1)] by (auto simp: il_hold_def)
qed

definition policy1 :: HeadroomPolicy where
  "policy1 = \<lparr>MaximumReservedMicros = 100, ReviewAtBasisPoints = 8000\<rparr>"

definition controller1 :: "'s LedgerOps \<Rightarrow> 's Controller" where
  "controller1 ops = \<lparr>c_ledger = ops, c_generations = (\<lambda>_ _ _. Inr 1), c_now = 6, c_policy = policy1\<rparr>"

lemma ledger1_good: "mem_good 100 ledger1"
  using ledger_steps_inv [OF ledger1_steps] by (simp add: mem_good_def maxMicros_def NewMemoryLedger_inv)

definition cancelled1 :: MemoryLedger where
  "cancelled1 = snd (mem_FenceCancelled scope1 ''r1'' 6 ledger1)"

theorem cancelled_hold_never_dispatches_witness:
  "fst (Dispatch (controller1 interleaved_ops) scope1 ''r1'' 1 (Some (\<lambda>v w. (Inr (), w)))
      \<lparr>w_ledger = \<lparr>il_ledger = cancelled1, il_pending = []\<rparr>, w_exposed = []\<rparr>)
     = Inl (budgetProblem ''expensive dispatch lacks a current reservation'')"
proof -
  have "mem_FenceCancelled scope1 ''r1'' 6 ledger1
      = (Inr ((new_reservation (est1 ''r1'' 60) 1)\<lparr>r_Cancelled := True\<rparr>), cancelled1)"
    by (simp add: prod_eq_iff cancelled1_def) (simp add: mem_FenceCancelled_def ledger1_eq Let_def)
  from cancelled_hold_never_dispatches [OF this ledger1_good, of
      "\<lparr>w_ledger = \<lparr>il_ledger = cancelled1, il_pending = []\<rparr>, w_exposed = []\<rparr>" "controller1 interleaved_ops"]
  show ?thesis by (simp add: ledger_steps.none controller1_def)
qed

text \<open>A dispatch either answers an error without running the dispatch
  function at all, or runs it exactly on a hold of that scope and identity which is unreleased,
  unexpired, uncancelled and before its expiry, and whose generation is the active one of its root.\<close>

theorem dispatch_runs_only_on_a_current_hold:
  assumes "il_good M (w_ledger w)" and "c_ledger c = interleaved_ops"
    and "Dispatch c scope rid g (Some run) w = (r, w')"
  shows "(\<exists>er. r = Inl er \<and> (\<forall>run'. Dispatch c scope rid g (Some run') w = (r, w'))) \<or>
    (\<exists>v w1. il_hold (w_ledger w1) scope rid = Some v \<and> \<not> r_Released v \<and> \<not> r_Expired v \<and>
       \<not> r_Cancelled v \<and> r_Generation v = g \<and> c_now c < r_ExpiresAt v \<and>
       current c (Reservation_Scope v) (r_RootRunID v) = Inr g \<and> run v w1 = (r, w'))"
  using il.Dispatch_runs_only_live [OF assms(2,1,3)] by (auto simp: dispatch_refused_def)

theorem dispatch_runs_only_on_a_current_hold_witness:
  "\<exists>v. il_hold \<lparr>il_ledger = ledger1, il_pending = []\<rparr> scope1 ''r1'' = Some v \<and> r_Generation v = 1 \<and> \<not> r_Cancelled v"
proof -
  let ?w = "\<lparr>w_ledger = \<lparr>il_ledger = ledger1, il_pending = []\<rparr>, w_exposed = []\<rparr>"
  have good: "il_good 100 (w_ledger ?w)" by (simp add: il_good_def ledger1_good)
  have run: "Dispatch (controller1 interleaved_ops) scope1 ''r1'' 1 (Some (\<lambda>v w. (Inr (), w))) ?w = (Inr (), ?w)"
    by (simp add: Dispatch_def call_def controller1_def interleaved_ops_def interleave_def mem_Reservation_def
        ledger1_eq dispatch_refused_def current_def) (simp add: new_reservation_def)
  show ?thesis
    using dispatch_runs_only_on_a_current_hold [OF good _ run] by (auto simp: controller1_def)
qed

text \<open>A reconciliation that succeeds was made by the settlement authority for the
  hold's own generation, after the attempt's finality. For the active generation the hold is settled at the
  given final cost (its bound where none is given) and released exactly as asked; for a superseded one it
  is settled at the usage the attempt reported and never released.\<close>

theorem reconcile_settles_only_final_attempts:
  assumes "il_good M (w_ledger w)" and "c_ledger c = interleaved_ops"
    and "Reconcile c scope rid g finalCost release actor w = (Inr v, w')"
  shows "\<exists>u w1 cur. call (L_Reservation interleaved_ops scope rid) w = (Inr u, w1) \<and>
    current c (Reservation_Scope u) (r_RootRunID u) = Inr cur \<and> actor = SettlementActor \<and>
    r_Generation u = g \<and> g \<le> cur \<and> r_AttemptFinal u \<and> r_AttemptFinal v \<and>
    (if g < cur then v = u \<or> (r_ObservedMicros v = r_UpperBoundMicros v \<and> \<not> r_Released v)
     else r_ObservedMicros v = r_UpperBoundMicros v \<and> r_Released v = release \<and>
       r_UpperBoundMicros v = (case finalCost of None \<Rightarrow> r_UpperBoundMicros u | Some fc \<Rightarrow> fc))"
proof -
  obtain rr w1 where read: "call (L_Reservation interleaved_ops scope rid) w = (rr, w1)"
    by (cases "call (L_Reservation interleaved_ops scope rid) w")
  then obtain u where u: "rr = Inr u"
    using assms(2,3) by (cases rr) (auto simp: Reconcile_def split: if_splits)
  have good1: "il_good M (w_ledger w1)" using keptD [OF il.kept_calls(6) assms(1) read] by simp
  from assms(2,3) obtain cur where cur: "current c (Reservation_Scope u) (r_RootRunID u) = Inr cur"
    by (auto simp: Reconcile_def read u split: if_splits sum.splits)
  have guards: "actor = SettlementActor" "r_Generation u = g" "g \<le> cur" "r_AttemptFinal u"
    using assms(2,3) by (auto simp: Reconcile_def read u cur split: if_splits)
  have sup: "v = u \<or> (r_ObservedMicros v = r_UpperBoundMicros v \<and> \<not> r_Released v \<and> r_AttemptFinal v)"
    if "settleSuperseded c scope u actor w1 = (Inr (v, b), w2)" for b w2
    using that il.settle_rounds_result [OF assms(2) good1]
    by (auto simp: settleSuperseded_def settleObserved_def split: if_splits prod.splits sum.splits)
  have law: "r_AttemptFinal v \<and> r_ObservedMicros v = s_FinalCost st \<and> r_UpperBoundMicros v = s_FinalCost st
      \<and> r_Released v = s_Release st"
    if "call (L_Settle interleaved_ops st) w1 = (Inr v, w2)" for st w2
    using il.settle_law [OF good1, of st "Inr v" "w_ledger w2"] that by (auto simp: call_def split: prod.splits)
  show ?thesis
  proof (cases "g < cur")
    case True
    then obtain b w2 where "settleSuperseded c scope u actor w1 = (Inr (v, b), w2)"
      using assms(2,3) guards by (auto simp: Reconcile_def read u cur reporting_def split: if_splits elim!: andThenE)
    with sup have "v = u \<or> (r_ObservedMicros v = r_UpperBoundMicros v \<and> \<not> r_Released v \<and> r_AttemptFinal v)" by blast
    with True read u cur guards show ?thesis by (intro exI [of _ u] exI [of _ w1] exI [of _ cur]) auto
  next
    case False
    then obtain st w2 where "call (L_Settle interleaved_ops st) w1 = (Inr v, w2)" and "s_Release st = release"
      and "s_FinalCost st = (case finalCost of None \<Rightarrow> r_UpperBoundMicros u | Some fc \<Rightarrow> fc)"
      using assms(2,3) guards
      by (auto simp: Reconcile_def read u cur reporting_def Let_def split: if_splits option.splits elim!: andThenE)
    with law [of st w2] False read u cur guards show ?thesis
      by (intro exI [of _ u] exI [of _ w1] exI [of _ cur]) auto
  qed
qed

definition final1 :: MemoryLedger where
  "final1 = snd (mem_Observe (obs1 ''o1'' 7 True) ledger1)"

abbreviation quiet :: "MemoryLedger \<Rightarrow> Interleaved World" where
  "quiet l \<equiv> \<lparr>w_ledger = \<lparr>il_ledger = l, il_pending = []\<rparr>, w_exposed = []\<rparr>"

lemma final1_good: "mem_good 100 final1"
  using mem_Observe_inv [OF mem_goodD(1) [OF ledger1_good], of "obs1 ''o1'' 7 True"]
  by (simp add: final1_def mem_good_def maxMicros_def del: obs1_ledger1)

lemma final1_eq: "final1 = \<lparr>ml_now = 5, ml_values = [(scopedKey scope1 ''r1'', (new_reservation (est1 ''r1'' 60) 1)
       \<lparr>r_ObservedMicros := 7, r_AttemptFinal := True\<rparr>)],
     ml_observations = [(observationKey scope1 ''o1'', obs1 ''o1'' 7 True)]\<rparr>"
  by (simp add: final1_def)

definition settled1 :: "int \<Rightarrow> bool \<Rightarrow> Reservation" where
  "settled1 cost released = (new_reservation (est1 ''r1'' 60) 1)\<lparr>r_ObservedMicros := cost,
     r_UpperBoundMicros := cost, r_AttemptFinal := True, r_Released := released\<rparr>"

theorem reconcile_settles_only_final_attempts_witness:
  "fst (Reconcile (controller1 interleaved_ops) scope1 ''r1'' 1 (Some 9) True SettlementActor (quiet final1))
     = Inr (settled1 9 True) \<and> r_AttemptFinal (settled1 9 True)"
proof -
  have run: "fst (Reconcile (controller1 interleaved_ops) scope1 ''r1'' 1 (Some 9) True SettlementActor (quiet final1))
      = Inr (settled1 9 True)"
    by (simp add: Reconcile_def call_def controller1_def interleaved_ops_def interleave_def mem_Reservation_def
        final1_eq current_def Let_def andThen_def mem_Settle_def reporting_def settled1_def)
  have good: "il_good 100 (w_ledger (quiet final1))" by (simp add: il_good_def final1_good)
  obtain w' where "Reconcile (controller1 interleaved_ops) scope1 ''r1'' 1 (Some 9) True SettlementActor (quiet final1)
      = (Inr (settled1 9 True), w')"
    using run by (metis prod.collapse)
  from reconcile_settles_only_final_attempts [OF good _ this] run show ?thesis
    by (auto simp: controller1_def)
qed

fun observe_all :: "Observation list \<Rightarrow> MemoryLedger \<Rightarrow> MemoryLedger" where
  "observe_all [] l = l"
| "observe_all (ob # obs) l = observe_all obs (snd (mem_Observe ob l))"

definition usage_batches :: "(MemoryLedger \<Rightarrow> MemoryLedger) list \<Rightarrow> bool" where
  "usage_batches envs \<longleftrightarrow> (\<forall>env \<in> set envs. \<exists>obs. env = observe_all obs \<and> list_all (\<lambda>ob. 0 \<le> o_CostMicros ob) obs)"

lemma mem_Observe_keeps_open:
  "mem_hold l scope rid = Some v \<Longrightarrow> \<exists>v'. mem_hold (snd (mem_Observe ob l)) scope rid = Some v' \<and>
     r_Released v' = r_Released v"
  by (cases rule: mem_Observe_cases [of ob l]) (auto simp: mem_hold_def gm_get_put)

lemma observe_all_effect:
  assumes "mem_good M l" and "list_all (\<lambda>ob. 0 \<le> o_CostMicros ob) obs" and "mem_hold l scope rid = Some v"
  shows "mem_good M (observe_all obs l) \<and>
    (\<exists>v'. mem_hold (observe_all obs l) scope rid = Some v' \<and> res_le v v' \<and> r_Released v' = r_Released v)"
  using assms
proof (induction obs arbitrary: l v)
  case (Cons ob obs)
  let ?l = "snd (mem_Observe ob l)"
  have inv: "mem_good M ?l \<and> ledger_le l ?l"
    using mem_Observe_inv [OF mem_goodD(1) [OF Cons.prems(1)], of ob] Cons.prems by (auto simp: mem_good_def)
  then obtain v1 where v1: "mem_hold ?l scope rid = Some v1" "res_le v v1"
    using Cons.prems(3) by (auto simp: ledger_le_def mem_hold_def)
  moreover have "r_Released v1 = r_Released v"
    using mem_Observe_keeps_open [OF Cons.prems(3), of ob] v1(1) by auto
  ultimately show ?case
    using Cons.IH [of ?l v1] inv Cons.prems(2) by (auto intro: res_le_trans)
qed simp

text \<open>The ledger a call of the loop meets: the environment's next batch has run.\<close>

lemma interleave_batch:
  assumes "mem_good M (il_ledger s)" and "usage_batches (il_pending s)"
    and "mem_hold (il_ledger s) scope rid = Some v" and "\<not> r_Released v"
  obtains l v1 where "mem_good M l" "mem_hold l scope rid = Some v1" "res_le v v1" "\<not> r_Released v1"
    "il_pending s = [] \<Longrightarrow> v1 = v"
    "\<And>f. interleave f s = (fst (f l), \<lparr>il_ledger = snd (f l), il_pending = tl (il_pending s)\<rparr>)"
    "usage_batches (tl (il_pending s))"
proof (cases "il_pending s")
  case Nil
  then show thesis
    by (intro that [of "il_ledger s" v]) (use assms in \<open>auto simp: interleave_def usage_batches_def case_prod_beta Let_def\<close>)
next
  case (Cons env envs)
  then obtain obs where obs: "env = observe_all obs" "list_all (\<lambda>ob. 0 \<le> o_CostMicros ob) obs"
    using assms(2) by (auto simp: usage_batches_def)
  from observe_all_effect [OF assms(1) obs(2) assms(3)] obtain v1 where
    v1: "mem_good M (env (il_ledger s))" "mem_hold (env (il_ledger s)) scope rid = Some v1" "res_le v v1"
      "r_Released v1 = r_Released v"
    by (auto simp: obs(1))
  then show thesis
    by (intro that [of "env (il_ledger s)" v1])
      (use assms Cons in \<open>auto simp: interleave_def usage_batches_def case_prod_beta Let_def\<close>)
qed

text \<open>One settlement of a final open hold at a figure read before: it settles, or conflicts because usage landed.\<close>

lemma settle_or_conflict:
  assumes "mem_good M l" and "mem_hold l scope (r_ID v) = Some v1" and "res_le v v1" and "\<not> r_Released v1"
    and "r_AttemptFinal v" and "Scope_Valid scope"
  shows "(\<exists>u l'. mem_Settle (observed_settlement scope v release actor) l = (Inr u, l') \<and> r_AttemptFinal u \<and>
        r_ObservedMicros u = r_ObservedMicros v \<and> r_UpperBoundMicros u = r_ObservedMicros v \<and> r_Released u = release)
    \<or> (r_ObservedMicros v < r_ObservedMicros v1 \<and>
        (\<exists>cf. mem_Settle (observed_settlement scope v release actor) l = (Inl (Conflict cf), l)))"
proof -
  have "res_wf v1" using ledger_invD(4) [OF mem_goodD(1) [OF assms(1)]] assms(2) by (simp add: mem_hold_def)
  then show ?thesis
    using assms by (auto simp: mem_Settle_def observed_settlement_def Let_def mem_hold_def res_le_def res_wf_def)
qed

lemma settle_rounds_converges:
  assumes "c_ledger c = interleaved_ops" and "Scope_Valid scope"
    and "mem_good M (il_ledger (w_ledger w))" and "usage_batches (il_pending (w_ledger w))"
    and "length (il_pending (w_ledger w)) \<le> 2 * n"
    and "mem_hold (il_ledger (w_ledger w)) scope (r_ID v) = Some v" and "r_AttemptFinal v" and "\<not> r_Released v"
  shows "\<exists>u w'. settle_rounds (Suc n) c scope v release actor w = (Inr u, w') \<and> r_AttemptFinal u \<and>
    r_UpperBoundMicros u = r_ObservedMicros u \<and> r_Released u = release \<and> r_ObservedMicros v \<le> r_ObservedMicros u"
  using assms(3-8)
proof (induction n arbitrary: v w)
  case (0 v w)
  obtain l v1 where l: "mem_good M l" "mem_hold l scope (r_ID v) = Some v1" "res_le v v1" "\<not> r_Released v1"
    "il_pending (w_ledger w) = [] \<Longrightarrow> v1 = v"
    "\<And>f :: (MemoryLedger, err, Reservation) op. interleave f (w_ledger w)
       = (fst (f l), \<lparr>il_ledger = snd (f l), il_pending = tl (il_pending (w_ledger w))\<rparr>)"
    using interleave_batch [OF 0(1,2,4,6)] by metis
  have "v1 = v" using l(5) 0(3) by simp
  then show ?case
    using settle_or_conflict [OF l(1-4) 0(5) assms(2), of release actor]
    by (auto simp: assms(1) interleaved_ops_def call_def l(6))
next
  case (Suc n v w)
  obtain l v1 where l: "mem_good M l" "mem_hold l scope (r_ID v) = Some v1" "res_le v v1" "\<not> r_Released v1"
    "\<And>f :: (MemoryLedger, err, Reservation) op. interleave f (w_ledger w)
       = (fst (f l), \<lparr>il_ledger = snd (f l), il_pending = tl (il_pending (w_ledger w))\<rparr>)"
    "usage_batches (tl (il_pending (w_ledger w)))"
    using interleave_batch [OF Suc.prems(1,2,4,6)] by metis
  from settle_or_conflict [OF l(1-4) Suc.prems(5) assms(2), of release actor] show ?case
  proof (elim disjE conjE exE)
    fix cf assume conf: "mem_Settle (observed_settlement scope v release actor) l = (Inl (Conflict cf), l)"
    define w1 where "w1 = w\<lparr>w_ledger := \<lparr>il_ledger = l, il_pending = tl (il_pending (w_ledger w))\<rparr>\<rparr>"
    have step1: "call (L_Settle interleaved_ops (observed_settlement scope v release actor)) w = (Inl (Conflict cf), w1)"
      by (simp add: interleaved_ops_def call_def l(5) conf w1_def)
    have good1: "mem_good M (il_ledger (w_ledger w1))" "usage_batches (il_pending (w_ledger w1))"
      "mem_hold (il_ledger (w_ledger w1)) scope (r_ID v) = Some v1" "\<not> r_Released v1"
      using l(1,2,4,6) by (simp_all add: w1_def)
    obtain l2 v2 where l2: "mem_good M l2" "mem_hold l2 scope (r_ID v) = Some v2" "res_le v1 v2" "\<not> r_Released v2"
      "\<And>f :: (MemoryLedger, err, Reservation) op. interleave f (w_ledger w1)
         = (fst (f l2), \<lparr>il_ledger = snd (f l2), il_pending = tl (il_pending (w_ledger w1))\<rparr>)"
      "usage_batches (tl (il_pending (w_ledger w1)))"
      using interleave_batch [OF good1] by metis
    define w2 where "w2 = w1\<lparr>w_ledger := \<lparr>il_ledger = l2, il_pending = tl (il_pending (w_ledger w1))\<rparr>\<rparr>"
    have step2: "call (L_Reservation interleaved_ops scope (r_ID v)) w1 = (Inr v2, w2)"
      using l2(2) assms(2)
      by (simp add: interleaved_ops_def call_def l2(5) mem_Reservation_def mem_hold_def w2_def)
    have ids: "r_ID v2 = r_ID v" "r_AttemptFinal v2" "r_ObservedMicros v \<le> r_ObservedMicros v2"
      using l(3) l2(3) Suc.prems(5) by (auto simp: res_le_def)
    have "length (il_pending (w_ledger w2)) \<le> 2 * n" using Suc.prems(3) by (simp add: w2_def w1_def)
    then obtain u w' where u: "settle_rounds (Suc n) c scope v2 release actor w2 = (Inr u, w')" "r_AttemptFinal u"
      "r_UpperBoundMicros u = r_ObservedMicros u" "r_Released u = release" "r_ObservedMicros v2 \<le> r_ObservedMicros u"
      using Suc.IH [of w2 v2] l2 ids by (auto simp: w2_def)
    have "settle_rounds (Suc (Suc n)) c scope v release actor w = (Inr u, w')"
      using u(1) by (subst settle_rounds.simps(2)) (simp only: assms(1) step1 step2 prod.case sum.case
          as_Conflict.simps option.distinct if_False)
    with u ids show ?thesis by auto
  qed (auto simp: assms(1) interleaved_ops_def call_def l(5))
qed



text \<open>C18 (review threshold). For an accepted policy the overflow-free threshold is exact: exposure is
  flagged for review exactly when it reaches the configured share of the bound.\<close>

theorem review_is_exact:
  assumes "HeadroomPolicy_Validate (c_policy c) = None" and "MaximumReservedMicros (c_policy c) \<le> maxMicros"
  shows "review c held \<longleftrightarrow>
    MaximumReservedMicros (c_policy c) * ReviewAtBasisPoints (c_policy c) \<le> held * 10000"
proof -
  define m where "m = MaximumReservedMicros (c_policy c)"
  define b where "b = ReviewAtBasisPoints (c_policy c)"
  have m: "1 \<le> m" "m \<le> 9223372036854775807" and b: "1 \<le> b" "b \<le> 10000"
    using assms by (auto simp: HeadroomPolicy_Validate_def m_def b_def maxMicros_def split: if_splits)
  have r: "0 \<le> m mod 10000" "m mod 10000 < 10000" and q: "0 \<le> m div 10000" using m by simp_all
  have qb: "0 \<le> m div 10000 * b" "m div 10000 * b \<le> m div 10000 * 10000"
    using q b by (simp_all add: mult_left_mono)
  have rb: "0 \<le> m mod 10000 * b" "m mod 10000 * b \<le> m mod 10000 * 10000"
    using r b by (simp_all add: mult_left_mono)
  then have rc: "m mod 10000 * b \<le> 9999 * 10000" using r by linarith
  have split: "m = m div 10000 * 10000 + m mod 10000" by simp
  have bounds: "wrap64 x = x \<and> wrap64 y = y \<and> wrap64 (y + 9999) = y + 9999 \<and> wrap64 (x + z) = x + z"
    if "x + z \<le> k" "k \<le> 9223372036854775807" "0 \<le> x" "0 \<le> y" "y \<le> 9999 * 10000" "0 \<le> z" for x y z k :: int
    using that by (auto intro!: wrap64_id simp: in_int64_def)
  define t where "t = (m mod 10000 * b + 9999) div 10000"
  have t: "m mod 10000 * b \<le> t * 10000" "t * 10000 \<le> m mod 10000 * b + 9999" "0 \<le> t"
    using rb unfolding t_def by linarith+
  have "m div 10000 * b + t \<le> m" using qb rb t split by linarith
  then have w: "wrap64 (m div 10000 * b) = m div 10000 * b" "wrap64 (m mod 10000 * b) = m mod 10000 * b"
    "wrap64 (m mod 10000 * b + 9999) = m mod 10000 * b + 9999"
    "wrap64 (m div 10000 * b + t) = m div 10000 * b + t"
    using bounds [OF _ m(2) qb(1) rb(1) rc t(3)] by blast+
  have "review c held \<longleftrightarrow> m div 10000 * b + t \<le> held"
    using m rb by (simp add: review_def Let_def go_quot_nonneg go_rem_nonneg m_def [symmetric] b_def [symmetric] w)
      (simp add: t_def [symmetric] w)
  moreover have "m * b = m div 10000 * b * 10000 + m mod 10000 * b"
    using arg_cong [OF split, of "\<lambda>x. x * b"] by (simp only: distrib_right mult.assoc mult.commute [of 10000])
  ultimately show ?thesis using t by (simp add: m_def [symmetric] b_def [symmetric]) linarith
qed

theorem review_is_exact_witness:
  "review (controller1 mem_ops) 80 \<and> \<not> review (controller1 mem_ops) 79"
  using review_is_exact [of "controller1 mem_ops" 80] review_is_exact [of "controller1 mem_ops" 79]
  by (simp add: controller1_def policy1_def HeadroomPolicy_Validate_def maxMicros_def)

subsection \<open>What a sweep of the memory ledger does\<close>

definition put_hold :: "Scope \<Rightarrow> Reservation \<Rightarrow> Reservation gomap \<Rightarrow> Reservation gomap" where
  "put_hold scope v m = gm_put (scopedKey scope (r_ID v)) v m"

lemma settle_now:
  assumes "mem_good M l" and "mem_hold l scope (r_ID v) = Some v" and "r_AttemptFinal v" and "\<not> r_Released v"
    and "release \<or> r_UpperBoundMicros v \<noteq> r_ObservedMicros v" and "Scope_Valid scope"
  shows "mem_Settle (observed_settlement scope v release actor) l =
    (Inr (v\<lparr>r_UpperBoundMicros := r_ObservedMicros v, r_Released := release\<rparr>),
     l\<lparr>ml_values := put_hold scope (v\<lparr>r_UpperBoundMicros := r_ObservedMicros v, r_Released := release\<rparr>) (ml_values l)\<rparr>)"
proof -
  have "res_wf v" using ledger_invD(4) [OF mem_goodD(1) [OF assms(1)]] assms(2) by (simp add: mem_hold_def)
  then show ?thesis
    using assms by (auto simp: mem_Settle_def observed_settlement_def Let_def mem_hold_def res_wf_def put_hold_def)
qed

lemma settleObserved_now:
  assumes "mem_good M (w_ledger w)" and "mem_hold (w_ledger w) scope (r_ID v) = Some v" and "r_AttemptFinal v"
    and "\<not> r_Released v" and "release \<or> r_UpperBoundMicros v \<noteq> r_ObservedMicros v" and "Scope_Valid scope"
    and "c_ledger c = mem_ops"
  shows "settleObserved c scope v release actor w =
    (Inr (v\<lparr>r_UpperBoundMicros := r_ObservedMicros v, r_Released := release\<rparr>),
     w\<lparr>w_ledger := (w_ledger w)\<lparr>ml_values :=
       put_hold scope (v\<lparr>r_UpperBoundMicros := r_ObservedMicros v, r_Released := release\<rparr>) (ml_values (w_ledger w))\<rparr>\<rparr>)"
  using settle_now [OF assms(1-6), of actor]
  by (simp add: settleObserved_def settlementConflictRounds_def eval_nat_numeral assms(7) mem_ops_def call_def)

lemma roots_read:
  assumes "mem_good M l" and "Scope_Valid scope"
  obtains vs where "mem_RootReservations scope root l = (Inr vs, l)" "distinct (map r_ID vs)"
    "set vs = {v. in_root scope root v \<and> mem_hold l scope (r_ID v) = Some v}"
proof -
  define kvs where "kvs = filter (\<lambda>(k, v). in_root scope root v) (ml_values l)"
  define vs where "vs = sort_key r_ID (filter (in_root scope root) (map snd (ml_values l)))"
  note inv = mem_goodD(1) [OF assms(1)]
  have key: "k = scopedKey scope (r_ID v)" if "(k, v) \<in> set (ml_values l)" "in_root scope root v" for k v
    using that ledger_invD(3) [OF inv, of k v] gm_get_iff [OF ledger_invD(1) [OF inv], of k v]
    by (cases scope) (simp add: in_root_def Reservation_Scope_def)
  have "distinct (map fst kvs)"
    using ledger_invD(1) [OF inv] by (simp add: kvs_def gm_ok_def distinct_map_filter)
  moreover have "map fst kvs = map (scopedKey scope \<circ> (\<lambda>kv. r_ID (snd kv))) kvs"
    by (rule map_cong) (auto simp: kvs_def dest: key)
  ultimately have "distinct (map (\<lambda>kv. r_ID (snd kv)) kvs)"
    by (simp only: distinct_map) (metis inj_on_imageI2)
  moreover have "map snd kvs = filter (in_root scope root) (map snd (ml_values l))"
    by (auto simp: kvs_def filter_map comp_def case_prod_unfold)
  ultimately have "distinct (map r_ID (filter (in_root scope root) (map snd (ml_values l))))"
    by (metis (no_types, lifting) comp_apply map_eq_conv map_map)
  then have dist: "distinct (map r_ID vs)"
    by (simp add: vs_def distinct_map)
  have "set vs = {v. in_root scope root v \<and> mem_hold l scope (r_ID v) = Some v}"
    using key gm_get_iff [OF ledger_invD(1) [OF inv]]
    by (auto simp: vs_def mem_hold_def) (metis map_of_SomeD snd_conv rev_image_eqI)+
  then show thesis
    using that [of vs] dist assms(2) by (simp add: mem_RootReservations_def vs_def)
qed

definition settled_hold :: "bool \<Rightarrow> Reservation \<Rightarrow> Reservation" where
  "settled_hold release v = v\<lparr>r_UpperBoundMicros := r_ObservedMicros v, r_Released := release\<rparr>"

lemma in_root_updates [simp]:
  "in_root scope root (v\<lparr>r_ObservedMicros := x\<rparr>) = in_root scope root v"
  "in_root scope root (v\<lparr>r_AttemptFinal := b\<rparr>) = in_root scope root v"
  "in_root scope root (v\<lparr>r_Cancelled := b\<rparr>) = in_root scope root v"
  by (simp_all add: in_root_def)

lemma settled_hold_simps [simp]:
  "r_ID (settled_hold b v) = r_ID v" "r_Generation (settled_hold b v) = r_Generation v"
  "r_Released (settled_hold b v) = b" "r_Cancelled (settled_hold b v) = r_Cancelled v"
  "r_AttemptFinal (settled_hold b v) = r_AttemptFinal v" "r_UpperBoundMicros (settled_hold b v) = r_ObservedMicros v"
  "r_ObservedMicros (settled_hold b v) = r_ObservedMicros v"
  "in_root scope root (settled_hold b v) = in_root scope root v"
  by (simp_all add: settled_hold_def in_root_def)

lemma settled_hold_fixed: "settled_hold b v = v \<Longrightarrow> r_Released v = b \<and> r_UpperBoundMicros v = r_ObservedMicros v"
  by (metis settled_hold_simps(3,6))

text \<open>A visit that settles the holds a predicate picks and passes over the others.\<close>

definition settles :: "int \<Rightarrow> Scope \<Rightarrow> (Reservation \<Rightarrow> bool) \<Rightarrow> bool
    \<Rightarrow> (Reservation \<Rightarrow> (MemoryLedger World, err, Reservation option) op) \<Rightarrow> bool" where
  "settles M scope P release visit \<longleftrightarrow>
     (\<forall>v w. mem_good M (w_ledger w) \<longrightarrow> mem_hold (w_ledger w) scope (r_ID v) = Some v \<longrightarrow>
        mem_good M (w_ledger (snd (visit v w))) \<and>
        visit v w = (if P v
          then (Inr (Some (settled_hold release v)), w\<lparr>w_ledger := (w_ledger w)\<lparr>ml_values :=
                  put_hold scope (settled_hold release v) (ml_values (w_ledger w))\<rparr>\<rparr>)
          else (Inr None, w)))"

definition put_all :: "Scope \<Rightarrow> Reservation list \<Rightarrow> Reservation gomap \<Rightarrow> Reservation gomap" where
  "put_all scope vs m = fold (put_hold scope) vs m"

lemma sweep_settles:
  assumes "settles M scope P release visit" and "mem_good M (w_ledger w)" and "distinct (map r_ID vs)"
    and "\<forall>v\<in>set vs. mem_hold (w_ledger w) scope (r_ID v) = Some v" and "Scope_Valid scope"
  shows "sweep visit acc vs w = (Inr (acc @ map (settled_hold release) (filter P vs)),
    w\<lparr>w_ledger := (w_ledger w)\<lparr>ml_values :=
      put_all scope (map (settled_hold release) (filter P vs)) (ml_values (w_ledger w))\<rparr>\<rparr>)"
  using assms(2-4)
proof (induction vs arbitrary: acc w)
  case Nil
  then show ?case by (simp add: put_all_def)
next
  case (Cons v vs)
  note run = assms(1) [unfolded settles_def, rule_format, OF Cons.prems(1), of v]
  show ?case
  proof (cases "P v")
    case False
    then show ?thesis using run Cons.prems Cons.IH [of w acc] by simp
  next
    case True
    define w1 where "w1 = w\<lparr>w_ledger := (w_ledger w)\<lparr>ml_values :=
      put_hold scope (settled_hold release v) (ml_values (w_ledger w))\<rparr>\<rparr>"
    have step: "visit v w = (Inr (Some (settled_hold release v)), w1)" and good: "mem_good M (w_ledger w1)"
      using run Cons.prems(3) True by (auto simp: w1_def)
    have ok: "gm_ok (ml_values (w_ledger w))" using ledger_invD(1) [OF mem_goodD(1) [OF Cons.prems(1)]] .
    have "mem_hold (w_ledger w1) scope (r_ID u) = Some u" if "u \<in> set vs" for u
      using that Cons.prems(2,3) by (auto simp: w1_def mem_hold_def put_hold_def gm_get_put)
    then show ?thesis
      using Cons.IH [OF good, of "acc @ [settled_hold release v]"] Cons.prems(2) step True
      by (simp add: put_all_def w1_def)
  qed
qed

lemma put_all_get:
  assumes "distinct (map r_ID vs)"
  shows "gm_get (put_all scope vs m) k =
    (case find (\<lambda>v. k = scopedKey scope (r_ID v)) vs of Some v \<Rightarrow> Some v | None \<Rightarrow> gm_get m k)"
  using assms
proof (induction vs arbitrary: m)
  case Nil
  then show ?case by (simp add: put_all_def)
next
  case (Cons v vs)
  have "find (\<lambda>u. scopedKey scope (r_ID v) = scopedKey scope (r_ID u)) vs = None"
    using Cons.prems by (auto simp: find_None_iff scopedKey_def)
  then show ?case using Cons by (auto simp: put_all_def put_hold_def gm_get_put split: option.split)
qed

lemma sweep_settles_ledger:
  assumes "settles M scope P release visit" and "mem_good M (w_ledger w)" and "Scope_Valid scope"
    and "c_ledger c = mem_ops"
    and run: "andThen (call (L_RootReservations (c_ledger c) scope root))
      (\<lambda>held. andThen (sweep visit [] held) (report_some c scope root)) w = (r, w')"
  shows "\<exists>settled. r = Inr settled \<and>
    set settled = settled_hold release ` {v. in_root scope root v \<and> P v \<and> mem_hold (w_ledger w) scope (r_ID v) = Some v} \<and>
    ml_now (w_ledger w') = ml_now (w_ledger w) \<and> ml_observations (w_ledger w') = ml_observations (w_ledger w) \<and>
    (\<forall>k. gm_get (ml_values (w_ledger w')) k = map_option (\<lambda>v. if in_root scope root v \<and> P v
       then settled_hold release v else v) (gm_get (ml_values (w_ledger w)) k))"
proof -
  obtain vs where vs: "mem_RootReservations scope root (w_ledger w) = (Inr vs, w_ledger w)"
      "distinct (map r_ID vs)" "set vs = {v. in_root scope root v \<and> mem_hold (w_ledger w) scope (r_ID v) = Some v}"
    using roots_read [OF assms(2,3), of root] .
  define us where "us = map (settled_hold release) (filter P vs)"
  have us: "distinct (map r_ID us)"
    using vs(2) by (simp add: us_def comp_def distinct_map_filter)
  have swept: "sweep visit [] vs w = (Inr us,
      w\<lparr>w_ledger := (w_ledger w)\<lparr>ml_values := put_all scope us (ml_values (w_ledger w))\<rparr>\<rparr>)"
    using sweep_settles [OF assms(1,2) vs(2) _ assms(3), of "[]"] vs(3) by (simp add: us_def)
  have ledger: "w_ledger (reportExposure c scope root u) = w_ledger u" for u
    by (auto simp: reportExposure_def assms(4) mem_ops_def call_def mem_RootReservations_def Let_def
        split: prod.splits sum.splits if_splits)
  from run have result: "r = Inr us" and
    w': "w_ledger w' = (w_ledger w)\<lparr>ml_values := put_all scope us (ml_values (w_ledger w))\<rparr>"
    using vs(1) swept ledger
    by (auto simp: andThen_def call_def assms(4) mem_ops_def report_some_def split: if_splits)
  have "gm_get (put_all scope us (ml_values (w_ledger w))) k = map_option (\<lambda>v. if in_root scope root v \<and> P v
       then settled_hold release v else v) (gm_get (ml_values (w_ledger w)) k)" for k
  proof (cases "find (\<lambda>u. k = scopedKey scope (r_ID u)) us")
    case None
    then have "\<not> (in_root scope root v \<and> P v)" if "gm_get (ml_values (w_ledger w)) k = Some v" for v
      using that vs(3) ledger_invD(3) [OF mem_goodD(1) [OF assms(2)] that]
      by (auto simp: find_None_iff us_def mem_hold_def in_root_def Reservation_Scope_def scopedKey_def)
    with None show ?thesis
      by (cases "gm_get (ml_values (w_ledger w)) k") (auto simp: put_all_get [OF us])
  next
    case (Some u)
    then have "u \<in> set us" "k = scopedKey scope (r_ID u)" by (auto simp: find_Some_iff)
    then obtain v where "u = settled_hold release v" "v \<in> set vs" "P v" "k = scopedKey scope (r_ID v)"
      by (auto simp: us_def)
    with Some show ?thesis using vs(3) by (simp add: put_all_get [OF us] mem_hold_def)
  qed
  then show ?thesis using result w' vs(3) by (auto simp: us_def)
qed

lemma recover_visit_settles:
  assumes "Scope_Valid scope" and "c_ledger c = mem_ops"
  shows "settles M scope (\<lambda>v. r_Cancelled v \<and> r_AttemptFinal v \<and> \<not> r_Released v) True (recover_visit c scope actor)"
  unfolding settles_def
proof (intro allI impI conjI)
  fix v :: Reservation and w :: "MemoryLedger World"
  assume w: "mem_good M (w_ledger w)" "mem_hold (w_ledger w) scope (r_ID v) = Some v"
  show "mem_good M (w_ledger (snd (recover_visit c scope actor v w)))"
    using keptD [OF mem.kept_visits(3) [OF assms(2)] w(1)] by (metis prod.collapse)
  show "recover_visit c scope actor v w = (if r_Cancelled v \<and> r_AttemptFinal v \<and> \<not> r_Released v
      then (Inr (Some (settled_hold True v)), w\<lparr>w_ledger := (w_ledger w)\<lparr>ml_values :=
              put_hold scope (settled_hold True v) (ml_values (w_ledger w))\<rparr>\<rparr>)
      else (Inr None, w))"
    using settleObserved_now [OF w _ _ _ assms, of True actor] by (auto simp: recover_visit_def settled_hold_def)
qed

lemma superseded_visit_settles:
  assumes "Scope_Valid scope" and "c_ledger c = mem_ops"
  shows "settles M scope (\<lambda>v. r_Generation v < active \<and> r_AttemptFinal v \<and> \<not> r_Released v
      \<and> r_UpperBoundMicros v \<noteq> r_ObservedMicros v) False (superseded_visit c scope active actor)"
  unfolding settles_def
proof (intro allI impI conjI)
  fix v :: Reservation and w :: "MemoryLedger World"
  assume w: "mem_good M (w_ledger w)" "mem_hold (w_ledger w) scope (r_ID v) = Some v"
  show "mem_good M (w_ledger (snd (superseded_visit c scope active actor v w)))"
    using keptD [OF mem.kept_visits(1) [OF assms(2)] w(1)] by (metis prod.collapse)
  show "superseded_visit c scope active actor v w = (if r_Generation v < active \<and> r_AttemptFinal v \<and> \<not> r_Released v
        \<and> r_UpperBoundMicros v \<noteq> r_ObservedMicros v
      then (Inr (Some (settled_hold False v)), w\<lparr>w_ledger := (w_ledger w)\<lparr>ml_values :=
              put_hold scope (settled_hold False v) (ml_values (w_ledger w))\<rparr>\<rparr>)
      else (Inr None, w))"
    using settleObserved_now [OF w _ _ _ assms, of False actor]
    by (auto simp: superseded_visit_def settleSuperseded_def settled_hold_def)
qed

text \<open>C19 (cancelled finality recovery). On the in-memory ledger the recovery sweep releases exactly the
  cancelled, final, unreleased holds of its root at their observed usage, leaves every other hold of
  every tenant and every observation as it was, and a second run finds nothing left to release.\<close>

theorem cancelled_finality_is_recovered:
  assumes "mem_good M (w_ledger w)" and "Scope_Valid scope" and "root \<noteq> ''''" and "c_ledger c = mem_ops"
    and "RecoverCancelledFinality c scope root SettlementActor w = (r, w')"
  shows "(\<forall>k. gm_get (ml_values (w_ledger w')) k = map_option (\<lambda>v.
        if in_root scope root v \<and> r_Cancelled v \<and> r_AttemptFinal v \<and> \<not> r_Released v
        then v\<lparr>r_UpperBoundMicros := r_ObservedMicros v, r_Released := True\<rparr> else v)
      (gm_get (ml_values (w_ledger w)) k)) \<and>
    ml_observations (w_ledger w') = ml_observations (w_ledger w) \<and>
    (\<exists>settled. r = Inr settled) \<and>
    fst (RecoverCancelledFinality c scope root SettlementActor w') = Inr []"
proof -
  let ?P = "\<lambda>v. r_Cancelled v \<and> r_AttemptFinal v \<and> \<not> r_Released v"
  have sweep: "andThen (call (L_RootReservations (c_ledger c) scope root))
      (\<lambda>held. andThen (sweep (recover_visit c scope SettlementActor) [] held) (report_some c scope root)) =
    RecoverCancelledFinality c scope root SettlementActor"
    using assms(2,3) by (simp add: RecoverCancelledFinality_def)
  note spec = sweep_settles_ledger [OF recover_visit_settles [OF assms(2,4)] _ assms(2,4), of M _ root SettlementActor,
      unfolded sweep]
  note first = spec [OF assms(1,5)]
  have good: "mem_good M (w_ledger w')"
    using keptD [OF mem.kept_sweeps(3) [OF assms(4)] assms(1,5)] by blast
  obtain r2 w2 where again: "RecoverCancelledFinality c scope root SettlementActor w' = (r2, w2)"
    by (cases "RecoverCancelledFinality c scope root SettlementActor w'")
  have "\<not> (in_root scope root v \<and> ?P v)" if "gm_get (ml_values (w_ledger w')) k = Some v" for k v
    using that first by (auto split: if_splits dest: settled_hold_fixed)
  then have none: "{v. in_root scope root v \<and> ?P v \<and> mem_hold (w_ledger w') scope (r_ID v) = Some v} = {}"
    by (auto simp: mem_hold_def)
  from spec [OF good again, unfolded none] again
  have "fst (RecoverCancelledFinality c scope root SettlementActor w') = Inr []" by auto
  with first show ?thesis unfolding settled_hold_def by blast
qed

definition cancelled_final1 :: MemoryLedger where
  "cancelled_final1 = snd (mem_FenceCancelled scope1 ''r1'' 6 final1)"

lemma cancelled_final1_good: "mem_good 100 cancelled_final1"
  using mem_FenceCancelled_inv [OF mem_goodD(1) [OF final1_good], of scope1 "''r1''" 6]
  by (simp add: cancelled_final1_def mem_good_def maxMicros_def)

lemma cancelled_final1_hold: "gm_get (ml_values cancelled_final1) (scopedKey scope1 ''r1'') =
    Some ((new_reservation (est1 ''r1'' 60) 1)\<lparr>r_ObservedMicros := 7, r_AttemptFinal := True, r_Cancelled := True\<rparr>)"
  by (simp add: cancelled_final1_def mem_FenceCancelled_def Let_def final1_eq)

theorem cancelled_finality_is_recovered_witness:
  "\<exists>settled w'. RecoverCancelledFinality (controller1 mem_ops) scope1 ''root'' SettlementActor
      \<lparr>w_ledger = cancelled_final1, w_exposed = []\<rparr> = (Inr settled, w') \<and>
    gm_get (ml_values (w_ledger w')) (scopedKey scope1 ''r1'') =
      Some ((new_reservation (est1 ''r1'' 60) 1)\<lparr>r_ObservedMicros := 7, r_UpperBoundMicros := 7,
        r_AttemptFinal := True, r_Cancelled := True, r_Released := True\<rparr>)"
proof -
  obtain r w' where run: "RecoverCancelledFinality (controller1 mem_ops) scope1 ''root'' SettlementActor
      \<lparr>w_ledger = cancelled_final1, w_exposed = []\<rparr> = (r, w')" by fastforce
  show ?thesis
    using cancelled_finality_is_recovered [OF _ _ _ _ run, of 100] cancelled_final1_good run
    by (auto simp: controller1_def cancelled_final1_hold)
qed

text \<open>On the in-memory ledger the superseded sweep brings exactly the
  final, unreleased holds of older generations of its root down to their observed usage, releases
  none of them, and leaves every other hold as it was; a second run changes nothing.\<close>

theorem superseded_finality_is_recovered:
  assumes "mem_good M (w_ledger w)" and "Scope_Valid scope" and "root \<noteq> ''''" and "c_ledger c = mem_ops"
    and "current c scope root = Inr active" and "active \<noteq> 0"
    and "RecoverSupersededFinality c scope root SettlementActor w = (r, w')"
  shows "(\<forall>k. gm_get (ml_values (w_ledger w')) k = map_option (\<lambda>v.
        if in_root scope root v \<and> r_Generation v < active \<and> r_AttemptFinal v \<and> \<not> r_Released v
        then v\<lparr>r_UpperBoundMicros := r_ObservedMicros v\<rparr> else v)
      (gm_get (ml_values (w_ledger w)) k)) \<and>
    ml_observations (w_ledger w') = ml_observations (w_ledger w) \<and>
    (\<exists>settled. r = Inr settled) \<and>
    fst (RecoverSupersededFinality c scope root SettlementActor w') = Inr []"
proof -
  let ?P = "\<lambda>v. r_Generation v < active \<and> r_AttemptFinal v \<and> \<not> r_Released v \<and> r_UpperBoundMicros v \<noteq> r_ObservedMicros v"
  have sweep: "andThen (call (L_RootReservations (c_ledger c) scope root))
      (\<lambda>held. andThen (sweep (superseded_visit c scope active SettlementActor) [] held) (report_some c scope root)) =
    RecoverSupersededFinality c scope root SettlementActor"
    using assms(2,3,5,6) by (simp add: RecoverSupersededFinality_def sweepSuperseded_def)
  note spec = sweep_settles_ledger [OF superseded_visit_settles [OF assms(2,4)] _ assms(2,4), of M _ root active SettlementActor,
      unfolded sweep]
  note first = spec [OF assms(1,7)]
  have good: "mem_good M (w_ledger w')"
    using keptD [OF mem.kept_settlements(2) [OF assms(4)] assms(1,7)] by blast
  obtain r2 w2 where again: "RecoverSupersededFinality c scope root SettlementActor w' = (r2, w2)"
    by (cases "RecoverSupersededFinality c scope root SettlementActor w'")
  have "\<not> (in_root scope root v \<and> ?P v)" if "gm_get (ml_values (w_ledger w')) k = Some v" for k v
    using that first by (auto split: if_splits dest: settled_hold_fixed)
  then have none: "{v. in_root scope root v \<and> ?P v \<and> mem_hold (w_ledger w') scope (r_ID v) = Some v} = {}"
    by (auto simp: mem_hold_def)
  from spec [OF good again, unfolded none] again
  have second: "fst (RecoverSupersededFinality c scope root SettlementActor w') = Inr []" by auto
  have same: "(if in_root scope root v \<and> ?P v then settled_hold False v else v) =
      (if in_root scope root v \<and> r_Generation v < active \<and> r_AttemptFinal v \<and> \<not> r_Released v
       then v\<lparr>r_UpperBoundMicros := r_ObservedMicros v\<rparr> else v)" for v
    by (cases v) (auto simp: settled_hold_def)
  show ?thesis using first second unfolding same by blast
qed

theorem superseded_finality_is_recovered_witness:
  "\<exists>settled w'. RecoverSupersededFinality (controller1 mem_ops\<lparr>c_generations := \<lambda>_ _ _. Inr 2\<rparr>) scope1 ''root''
      SettlementActor \<lparr>w_ledger = final1, w_exposed = []\<rparr> = (Inr settled, w') \<and>
    gm_get (ml_values (w_ledger w')) (scopedKey scope1 ''r1'') = Some (settled1 7 False)"
proof -
  obtain r w' where run: "RecoverSupersededFinality (controller1 mem_ops\<lparr>c_generations := \<lambda>_ _ _. Inr 2\<rparr>) scope1 ''root''
      SettlementActor \<lparr>w_ledger = final1, w_exposed = []\<rparr> = (r, w')" by fastforce
  show ?thesis
    using superseded_finality_is_recovered [OF _ _ _ _ _ _ run, of 100 2] final1_good run
    by (auto simp: controller1_def final1_eq settled1_def current_def)
qed

end
