(* ===== verification/Scheduler.thy ===== *)
theory Scheduler
  imports Prelude Problem "HOL-Library.Multiset"
begin

text \<open>
  The in-memory task scheduler (\<open>src/internal/scheduler/scheduler.go\<close>): immutable tasks, leases with
  a fence token, the atomic acceptance of a worker's result, and the dead-letter queue. Every
  exported method holds the service lock for its whole body, so each is one step on the \<open>Service\<close>
  state.

  The ports the service calls are parameters. What the clock, the identifier source, the
  prerequisites and the failure injector answer during one call is the \<open>Env\<close> argument of that call;
  the promotion, advancement and release ports are the operations of a \<open>Ports\<close> record on an effect
  state of their own, with their snapshot and restore, and \<open>MemoryEffects\<close> is the implementation the
  source has. \<open>OutputDigest\<close> takes the SHA-256 function of the Go library as an argument.
\<close>

section \<open>Data\<close>

datatype State = Queued | Leased | Completed | Failed | DeadLettered | Cancelled

record Scope =
  WorkspaceID :: string
  ProjectID :: string

record Create =
  cr_Scope :: Scope
  cr_TaskID :: string
  cr_RunID :: string
  cr_RootRunID :: string
  cr_RecoveryEpoch :: uint64
  cr_ExecutionGeneration :: uint64
  cr_Capability :: string
  cr_ReservationID :: string
  cr_ReservationCurrent :: bool
  cr_PolicyAllowed :: bool
  cr_InputDigest :: string
  cr_InputObjectKey :: string
  cr_CreatedAt :: time

record Lease =
  l_TaskID :: string
  l_RecoveryEpoch :: uint64
  l_ExecutionGeneration :: uint64
  l_PhysicalAttemptID :: string
  l_AttemptNumber :: uint64
  l_LeaseEpoch :: uint64
  l_Owner :: string
  l_IssuedAt :: time
  l_ExpiresAt :: time
  l_FenceToken :: string

record Result =
  rs_TaskID :: string
  rs_RecoveryEpoch :: uint64
  rs_ExecutionGeneration :: uint64
  rs_PhysicalAttemptID :: string
  rs_LeaseEpoch :: uint64
  rs_FenceToken :: string
  rs_Capability :: string
  rs_BuildIdentity :: string
  rs_ArtifactID :: string
  rs_ArtifactDigest :: string
  rs_PendingObjectKey :: string
  rs_CompletedAt :: time

text \<open>\<open>Task\<close> embeds its \<open>Create\<close>; the pointers \<open>Lease\<close> and \<open>Result\<close> are options.\<close>

record Task = Create +
  t_State :: State
  t_BusinessAttempts :: uint64
  t_PhysicalAttempts :: uint64
  t_LeaseEpoch :: uint64
  t_Version :: uint64
  t_Lease :: "Lease option"
  t_Result :: "Result option"

record Diagnostic =
  dg_TaskID :: string
  dg_RunID :: string
  dg_PhysicalAttemptID :: string
  dg_Code :: string
  dg_Reason :: string
  dg_RecordedAt :: time

record DLQEntry =
  dq_ID :: string
  dq_Scope :: Scope
  dq_TaskID :: string
  dq_RunID :: string
  dq_Code :: string
  dq_Stage :: string
  dq_Detail :: string
  dq_CreatedAt :: time
  dq_Replayed :: bool

record Acceptance =
  acc_Accepted :: bool
  acc_Duplicate :: bool
  acc_Task :: "Task option"   \<comment> \<open>\<open>None\<close> is Go's zero \<open>Task{}\<close>\<close>

record attemptReference =
  ar_Scope :: Scope
  ar_TaskID :: string
  ar_RunID :: string

datatype FailurePoint = AfterFenceCheck | AfterPromotion | AfterAdvancement | AfterRelease

section \<open>Ports\<close>

text \<open>
  What the ports answer during one call: the clock's instant, the identifiers (or the error) the
  allocator returns, the verdict of the prerequisites and of the failure injector.
\<close>

record Env =
  env_now :: time
  env_attempt :: "err + string"
  env_token :: "err + string"
  env_dlq :: "err + string"
  env_authorize :: "Create \<Rightarrow> err option"
  env_inject :: "FailurePoint \<Rightarrow> err option"

text \<open>
  The three transaction participants on a joint effect state \<open>'e\<close>; each has a snapshot and a restore.
\<close>

record ('e, 'n) Ports =
  Promote :: "Result \<Rightarrow> ('e, err, unit) op"
  Advance :: "Task \<Rightarrow> Result \<Rightarrow> ('e, err, unit) op"
  ReleaseAttempt :: "Task \<Rightarrow> Result \<Rightarrow> ('e, err, unit) op"
  snap_promotion :: "'e \<Rightarrow> 'n"
  snap_advancement :: "'e \<Rightarrow> 'n"
  snap_release :: "'e \<Rightarrow> 'n"
  restore_promotion :: "'n \<Rightarrow> 'e \<Rightarrow> 'e"
  restore_advancement :: "'n \<Rightarrow> 'e \<Rightarrow> 'e"
  restore_release :: "'n \<Rightarrow> 'e \<Rightarrow> 'e"

record 'e Service =
  sv_ttl :: int
  sv_effects :: 'e
  sv_tasks :: "Task gomap"
  sv_attempts :: "attemptReference gomap"
  sv_outputs :: "string gomap"
  sv_diagnostics :: "Diagnostic list"
  sv_dlq :: "DLQEntry list"

definition New :: "int \<Rightarrow> 'e \<Rightarrow> 'e Service option" where
  "New ttl effects =
     (if ttl \<le> 0 \<or> ttl > 3600000000000 then None
      else Some \<lparr>sv_ttl = ttl, sv_effects = effects, sv_tasks = [], sv_attempts = [], sv_outputs = [],
             sv_diagnostics = [], sv_dlq = []\<rparr>)"

section \<open>Identities and validation\<close>

definition key :: "Scope \<Rightarrow> string \<Rightarrow> string" where
  "key scope i = scoped_key (WorkspaceID scope) (ProjectID scope) i"

definition opaque_start :: "char \<Rightarrow> bool" where
  "opaque_start c \<longleftrightarrow> is_upper c \<or> is_lower c \<or> is_digit c"

definition opaque :: "string \<Rightarrow> bool" where
  "opaque value \<longleftrightarrow> 1 \<le> length value \<and> length value \<le> 128 \<and>
     (case value of [] \<Rightarrow> True
      | c # cs \<Rightarrow> opaque_start c \<and> list_all (\<lambda>d. opaque_start d \<or> d \<in> set ''._:-'') cs)"

definition safeObjectKey :: "string \<Rightarrow> bool" where
  "safeObjectKey value \<longleftrightarrow> 0 < length value \<and> length value \<le> 1024 \<and>
     \<not> Contains value ''..'' \<and> \<not> ContainsAny value [NUL, CHR 0x0D, CHR 0x0A]"

definition digest :: "string \<Rightarrow> bool" where
  "digest value \<longleftrightarrow> length value = 71 \<and> HasPrefix value ''sha256:'' \<and>
     list_all (\<lambda>c. c \<in> set ''0123456789abcdef'') (drop 7 value)"

definition Create_Validate :: "('a) Create_scheme \<Rightarrow> bool" where
  "Create_Validate c \<longleftrightarrow> opaque (WorkspaceID (cr_Scope c)) \<and> opaque (ProjectID (cr_Scope c)) \<and>
     opaque (cr_TaskID c) \<and> opaque (cr_RunID c) \<and> opaque (cr_RootRunID c) \<and>
     cr_ExecutionGeneration c \<noteq> 0 \<and> opaque (cr_Capability c) \<and> opaque (cr_ReservationID c) \<and>
     digest (cr_InputDigest c) \<and> safeObjectKey (cr_InputObjectKey c) \<and> cr_CreatedAt c \<noteq> 0"

definition OutputDigest :: "(string \<Rightarrow> string) \<Rightarrow> string \<Rightarrow> string" where
  "OutputDigest sha256_hex value = ''sha256:'' @ sha256_hex value"

definition no_acceptance :: Acceptance where
  "no_acceptance = \<lparr>acc_Accepted = False, acc_Duplicate = False, acc_Task = None\<rparr>"

section \<open>Creating and leasing\<close>

definition new_task :: "Create \<Rightarrow> Task" where
  "new_task input = Create.extend input \<lparr>t_State = Queued, t_BusinessAttempts = 0, t_PhysicalAttempts = 0,
     t_LeaseEpoch = 0, t_Version = 1, t_Lease = None, t_Result = None\<rparr>"

definition same_creation :: "Task \<Rightarrow> Create \<Rightarrow> bool" where
  "same_creation prior input \<longleftrightarrow> cr_RunID prior = cr_RunID input \<and> cr_RootRunID prior = cr_RootRunID input \<and>
     cr_ExecutionGeneration prior = cr_ExecutionGeneration input \<and> cr_Capability prior = cr_Capability input \<and>
     cr_ReservationID prior = cr_ReservationID input \<and> cr_InputDigest prior = cr_InputDigest input \<and>
     cr_InputObjectKey prior = cr_InputObjectKey input"

definition CreateTask :: "Env \<Rightarrow> Create \<Rightarrow> ('e Service, err, Task) op" where
  "CreateTask env input s =
     (if \<not> Create_Validate input then (Inl (problem CodeTaskDispatchDenied), s)
      else if env_authorize env input \<noteq> None then (Inl (problem CodeTaskDispatchDenied), s)
      else (let identity = key (cr_Scope input) (cr_TaskID input)
        in case gm_get (sv_tasks s) identity of
             Some prior \<Rightarrow>
               (if \<not> same_creation prior input then (Inl (problem CodeIdempotencyConflict), s)
                else (Inr prior, s))
           | None \<Rightarrow>
               (let value = new_task input
                in (Inr value, s\<lparr>sv_tasks := gm_put identity value (sv_tasks s)\<rparr>))))"

definition LeaseTask :: "Env \<Rightarrow> Scope \<Rightarrow> string \<Rightarrow> string \<Rightarrow> ('e Service, err, Lease) op" where
  "LeaseTask env scope tid owner s =
     (let identity = key scope tid; now = env_now env
      in case gm_get (sv_tasks s) identity of
           None \<Rightarrow> (Inl (problem CodeResourceNotFound), s)
         | Some task \<Rightarrow>
             (if now = 0 then (Inl (problem CodeInfrastructureUnavailable), s)
              else if t_State task = Leased \<and> (case t_Lease task of None \<Rightarrow> False | Some l \<Rightarrow> now < l_ExpiresAt l)
              then (Inl (problem CodeVersionConflict), s)
              else if t_State task \<noteq> Queued \<and> t_State task \<noteq> Leased
              then (Inl (problem CodeInvalidTransition), s)
              else if \<not> opaque owner then (Inl (problem CodeRequestInvalid), s)
              else case env_attempt env of
                Inl er \<Rightarrow> (Inl (Wrapped ''allocate physical attempt'' er), s)
              | Inr attempt \<Rightarrow>
                  (if \<not> opaque attempt then (Inl (Plain ''allocate physical attempt: empty identifier''), s)
                   else if gm_get (sv_attempts s) attempt \<noteq> None then (Inl (problem CodeIdempotencyConflict), s)
                   else case env_token env of
                     Inl er \<Rightarrow> (Inl (Wrapped ''allocate fence token'' er), s)
                   | Inr token \<Rightarrow>
                       (if length token < 16 \<or> length token > 512 \<or> ContainsAny token [NUL, CHR 0x0D, CHR 0x0A]
                        then (Inl (Plain ''allocate fence token: token is invalid''), s)
                        else
                          (let task = task\<lparr>t_LeaseEpoch := t_LeaseEpoch task + 1,
                                  t_PhysicalAttempts := t_PhysicalAttempts task + 1\<rparr>;
                               lease = \<lparr>l_TaskID = tid, l_RecoveryEpoch = cr_RecoveryEpoch task,
                                  l_ExecutionGeneration = cr_ExecutionGeneration task,
                                  l_PhysicalAttemptID = attempt, l_AttemptNumber = t_PhysicalAttempts task,
                                  l_LeaseEpoch = t_LeaseEpoch task, l_Owner = owner, l_IssuedAt = now,
                                  l_ExpiresAt = now + sv_ttl s, l_FenceToken = token\<rparr>;
                               task = task\<lparr>t_State := Leased, t_Version := t_Version task + 1, t_Lease := Some lease\<rparr>
                           in (Inr lease, s\<lparr>sv_tasks := gm_put identity task (sv_tasks s),
                                sv_attempts := gm_put attempt \<lparr>ar_Scope = scope, ar_TaskID = tid,
                                  ar_RunID = cr_RunID task\<rparr> (sv_attempts s)\<rparr>))))))"

definition Heartbeat :: "Env \<Rightarrow> Scope \<Rightarrow> Lease \<Rightarrow> time \<Rightarrow> ('e Service, err, Lease) op" where
  "Heartbeat env scope lease expectedExpiry s =
     (let identity = key scope (l_TaskID lease); now = env_now env
      in case gm_get (sv_tasks s) identity of
           None \<Rightarrow> (Inl (problem CodeWorkerFenceStale), s)
         | Some task \<Rightarrow>
             (case t_Lease task of
                None \<Rightarrow> (Inl (problem CodeWorkerFenceStale), s)
              | Some held \<Rightarrow>
                  (if now = 0 \<or> t_State task \<noteq> Leased \<or> held \<noteq> lease \<or> l_ExpiresAt held \<noteq> expectedExpiry
                      \<or> \<not> now < l_ExpiresAt held
                   then (Inl (problem CodeWorkerFenceStale), s)
                   else
                     (let held = held\<lparr>l_ExpiresAt := now + sv_ttl s\<rparr>;
                          task = task\<lparr>t_Lease := Some held, t_Version := t_Version task + 1\<rparr>
                      in (Inr held, s\<lparr>sv_tasks := gm_put identity task (sv_tasks s)\<rparr>)))))"

definition ReclaimExpired :: "Env \<Rightarrow> Scope \<Rightarrow> string \<Rightarrow> ('e Service, err, bool) op" where
  "ReclaimExpired env scope tid s =
     (let identity = key scope tid; now = env_now env
      in case gm_get (sv_tasks s) identity of
           None \<Rightarrow> (Inl (problem CodeResourceNotFound), s)
         | Some task \<Rightarrow>
             (if now = 0 then (Inl (problem CodeInfrastructureUnavailable), s)
              else if t_State task \<noteq> Leased \<or> (case t_Lease task of None \<Rightarrow> True | Some l \<Rightarrow> now < l_ExpiresAt l)
              then (Inr False, s)
              else
                (let task = task\<lparr>t_State := Queued, t_Lease := None, t_Version := t_Version task + 1\<rparr>
                 in (Inr True, s\<lparr>sv_tasks := gm_put identity task (sv_tasks s)\<rparr>))))"

section \<open>Accepting a result\<close>

definition fenceReason :: "Task \<Rightarrow> Result \<Rightarrow> time \<Rightarrow> string" where
  "fenceReason task result now =
     (case t_Lease task of
        None \<Rightarrow> ''task-not-leased''
      | Some lease \<Rightarrow>
          (if t_State task \<noteq> Leased then ''task-not-leased''
           else if rs_TaskID result \<noteq> cr_TaskID task then ''task''
           else if rs_RecoveryEpoch result \<noteq> cr_RecoveryEpoch task then ''recovery-epoch''
           else if rs_ExecutionGeneration result \<noteq> cr_ExecutionGeneration task then ''execution-generation''
           else if rs_PhysicalAttemptID result \<noteq> l_PhysicalAttemptID lease then ''physical-attempt''
           else if rs_LeaseEpoch result \<noteq> l_LeaseEpoch lease then ''lease-epoch''
           else if rs_FenceToken result \<noteq> l_FenceToken lease then ''fence-token''
           else if rs_Capability result \<noteq> cr_Capability task then ''capability''
           else if rs_CompletedAt result = 0 \<or> rs_CompletedAt result < l_IssuedAt lease
              \<or> rs_CompletedAt result > now \<or> \<not> now < l_ExpiresAt lease
              \<or> \<not> rs_CompletedAt result < l_ExpiresAt lease
           then ''expired''
           else ''''))"

definition pending_prefix :: "Task \<Rightarrow> Result \<Rightarrow> string" where
  "pending_prefix task result = ''pending/'' @ cr_TaskID task @ ''/r'' @ show_int (uint (cr_RecoveryEpoch task))
     @ ''/g'' @ show_int (uint (cr_ExecutionGeneration task)) @ ''/'' @ rs_PhysicalAttemptID result @ ''/''"

definition validateOutput :: "Task \<Rightarrow> Result \<Rightarrow> err option" where
  "validateOutput task result =
     (if \<not> opaque (rs_ArtifactID result) \<or> \<not> digest (rs_ArtifactDigest result)
         \<or> \<not> opaque (rs_BuildIdentity result) \<or> \<not> safeObjectKey (rs_PendingObjectKey result)
      then Some (problem CodeArtifactInvalid)
      else if \<not> HasPrefix (rs_PendingObjectKey result) (pending_prefix task result)
      then Some (problem CodeArtifactInvalid)
      else None)"

definition diagnose :: "Result \<Rightarrow> string \<Rightarrow> code \<Rightarrow> string \<Rightarrow> time \<Rightarrow> 'e Service \<Rightarrow> 'e Service" where
  "diagnose result run c reason now s = s\<lparr>sv_diagnostics := sv_diagnostics s @
     [\<lparr>dg_TaskID = rs_TaskID result, dg_RunID = run, dg_PhysicalAttemptID = rs_PhysicalAttemptID result,
       dg_Code = code_string c, dg_Reason = reason, dg_RecordedAt = now\<rparr>]\<rparr>"

text \<open>
  The port calls of \<open>AcceptResult\<close>, in their order, each followed by its injection point; an error at
  any of them restores the three snapshots taken before the first.
\<close>

definition rollback :: "('e, 'n) Ports \<Rightarrow> 'e \<Rightarrow> 'e \<Rightarrow> 'e" where
  "rollback ports before e =
     restore_release ports (snap_release ports before)
       (restore_advancement ports (snap_advancement ports before)
         (restore_promotion ports (snap_promotion ports before) e))"

definition inject :: "Env \<Rightarrow> FailurePoint \<Rightarrow> ('e, err, unit) op" where
  "inject env point e = (case env_inject env point of None \<Rightarrow> (Inr (), e) | Some er \<Rightarrow> (Inl er, e))"

definition apply_effects :: "('e, 'n) Ports \<Rightarrow> Env \<Rightarrow> Task \<Rightarrow> Result \<Rightarrow> ('e, err, unit) op" where
  "apply_effects ports env task result =
     andThen (Promote ports result) (\<lambda>_.
     andThen (inject env AfterPromotion) (\<lambda>_.
     andThen (Advance ports task result) (\<lambda>_.
     andThen (inject env AfterAdvancement) (\<lambda>_.
     andThen (ReleaseAttempt ports task result) (\<lambda>_.
     inject env AfterRelease)))))"

text \<open>
  \<open>AcceptResult\<close> returns an acceptance and an error; both are kept, since several refusals also answer
  the task.
\<close>

definition AcceptResult :: "(string \<Rightarrow> string) \<Rightarrow> ('e, 'n) Ports \<Rightarrow> Env \<Rightarrow> Scope \<Rightarrow> Result \<Rightarrow> string
    \<Rightarrow> 'e Service \<Rightarrow> (Acceptance \<times> err option) \<times> 'e Service" where
  "AcceptResult sha ports env scope result output s =
     (let now = env_now env; identity = key scope (rs_TaskID result)
      in if now = 0 then ((no_acceptance, Some (problem CodeInfrastructureUnavailable)), s)
      else case gm_get (sv_tasks s) identity of
        None \<Rightarrow>
          (case gm_get (sv_attempts s) (rs_PhysicalAttemptID result) of
             Some reference \<Rightarrow>
               (if ar_Scope reference = scope
                then
                  (let candidate = gm_get (sv_tasks s) (key scope (ar_TaskID reference))
                   in ((no_acceptance\<lparr>acc_Task := candidate\<rparr>, Some (problem CodeWorkerFenceStale)),
                       diagnose result (ar_RunID reference) CodeWorkerFenceStale ''task'' now s))
                else ((no_acceptance, Some (problem CodeResourceNotFound)), s))
           | None \<Rightarrow> ((no_acceptance, Some (problem CodeResourceNotFound)), s))
      | Some task \<Rightarrow>
          (if t_Result task = Some result
           then ((\<lparr>acc_Accepted = False, acc_Duplicate = True, acc_Task = Some task\<rparr>, None), s)
           else if OutputDigest sha output \<noteq> rs_ArtifactDigest result
           then ((no_acceptance\<lparr>acc_Task := Some task\<rparr>, Some (problem CodeArtifactInvalid)),
                 diagnose result (cr_RunID task) CodeArtifactInvalid ''output-digest'' now s)
           else if fenceReason task result now \<noteq> ''''
           then ((no_acceptance\<lparr>acc_Task := Some task\<rparr>, Some (problem CodeWorkerFenceStale)),
                 diagnose result (cr_RunID task) CodeWorkerFenceStale (fenceReason task result now) now s)
           else case validateOutput task result of
             Some er \<Rightarrow> ((no_acceptance\<lparr>acc_Task := Some task\<rparr>, Some er),
                 diagnose result (cr_RunID task) CodeArtifactInvalid (Error er) now s)
           | None \<Rightarrow>
               (case env_inject env AfterFenceCheck of
                  Some er \<Rightarrow> ((no_acceptance, Some er), s)
                | None \<Rightarrow>
                    (case apply_effects ports env task result (sv_effects s) of
                       (Inl er, e) \<Rightarrow> ((no_acceptance, Some er), s\<lparr>sv_effects := rollback ports (sv_effects s) e\<rparr>)
                     | (Inr _, e) \<Rightarrow>
                         (let task = task\<lparr>t_State := Completed, t_Version := t_Version task + 1,
                                t_Result := Some result\<rparr>
                          in ((\<lparr>acc_Accepted = True, acc_Duplicate = False, acc_Task = Some task\<rparr>, None),
                              s\<lparr>sv_effects := e, sv_tasks := gm_put identity task (sv_tasks s),
                                sv_outputs := gm_put identity output (sv_outputs s)\<rparr>))))))"

definition AcceptedOutput :: "Scope \<Rightarrow> string \<Rightarrow> ('e Service, err, string \<times> Result) op" where
  "AcceptedOutput scope tid s =
     (let identity = key scope tid
      in case gm_get (sv_tasks s) identity of
           None \<Rightarrow> (Inl (problem CodeResourceNotFound), s)
         | Some task \<Rightarrow>
             (case t_Result task of
                None \<Rightarrow> (Inl (problem CodeResourceNotFound), s)
              | Some result \<Rightarrow>
                  (if t_State task \<noteq> Completed then (Inl (problem CodeResourceNotFound), s)
                   else case gm_get (sv_outputs s) identity of
                     None \<Rightarrow> (Inl (problem CodeResourceNotFound), s)
                   | Some output \<Rightarrow> (Inr (output, result), s))))"

section \<open>The dead-letter queue\<close>

definition DeadLetter :: "Env \<Rightarrow> Scope \<Rightarrow> string \<Rightarrow> string \<Rightarrow> string \<Rightarrow> string \<Rightarrow> ('e Service, err, DLQEntry) op" where
  "DeadLetter env scope tid c stage detail s =
     (if \<not> opaque c \<or> \<not> opaque stage \<or> length detail > 2048 then (Inl (problem CodeRequestInvalid), s)
      else (let identity = key scope tid; now = env_now env
        in case gm_get (sv_tasks s) identity of
             None \<Rightarrow> (Inl (problem CodeResourceNotFound), s)
           | Some task \<Rightarrow>
               (if t_State task \<in> {Completed, Cancelled, DeadLettered} then (Inl (problem CodeInvalidTransition), s)
                else if now = 0 then (Inl (problem CodeInfrastructureUnavailable), s)
                else case env_dlq env of
                  Inl er \<Rightarrow> (Inl (Wrapped ''allocate DLQ identifier'' er), s)
                | Inr dlqID \<Rightarrow>
                    (if \<not> opaque dlqID then (Inl (Plain ''allocate DLQ identifier: invalid identifier''), s)
                     else
                       (let entry = \<lparr>dq_ID = dlqID, dq_Scope = scope, dq_TaskID = tid, dq_RunID = cr_RunID task,
                              dq_Code = c, dq_Stage = stage, dq_Detail = detail, dq_CreatedAt = now, dq_Replayed = False\<rparr>;
                            task = task\<lparr>t_State := DeadLettered, t_Version := t_Version task + 1\<rparr>
                        in (Inr entry, s\<lparr>sv_tasks := gm_put identity task (sv_tasks s),
                              sv_dlq := sv_dlq s @ [entry]\<rparr>))))))"

text \<open>The index of the first entry with the identity, as the \<open>range\<close> loop finds it.\<close>

fun find_entry :: "string \<Rightarrow> DLQEntry list \<Rightarrow> nat option" where
  "find_entry eid [] = None"
| "find_entry eid (e # es) = (if dq_ID e = eid then Some 0 else map_option Suc (find_entry eid es))"

definition ReplayDLQ :: "Scope \<Rightarrow> string \<Rightarrow> ('e Service, err, Task) op" where
  "ReplayDLQ scope entryID s =
     (case find_entry entryID (sv_dlq s) of
        None \<Rightarrow> (Inl (problem CodeResourceNotFound), s)
      | Some i \<Rightarrow>
          (let entry = sv_dlq s ! i; identity = key scope (dq_TaskID entry)
           in if dq_Scope entry \<noteq> scope then (Inl (problem CodeResourceNotFound), s)
              else case gm_get (sv_tasks s) identity of
                None \<Rightarrow> (Inl (problem CodeResourceNotFound), s)
              | Some task \<Rightarrow>
                  (if dq_Replayed entry then (Inr task, s)
                   else
                     (let task = task\<lparr>t_State := Queued, t_Lease := None, t_Version := t_Version task + 1\<rparr>
                      in (Inr task, s\<lparr>sv_dlq := (sv_dlq s)[i := entry\<lparr>dq_Replayed := True\<rparr>],
                            sv_tasks := gm_put identity task (sv_tasks s)\<rparr>)))))"

definition Get :: "Scope \<Rightarrow> string \<Rightarrow> ('e Service, err, Task) op" where
  "Get scope tid s =
     (case gm_get (sv_tasks s) (key scope tid) of
        None \<Rightarrow> (Inl (problem CodeResourceNotFound), s)
      | Some value \<Rightarrow> (Inr value, s))"

section \<open>The in-memory effects\<close>

record MemoryEffects =
  Promoted :: "string list"
  Advanced :: "string list"
  Released :: "string list"

definition mem_Promote :: "Result \<Rightarrow> (MemoryEffects, err, unit) op" where
  "mem_Promote r m = (Inr (), m\<lparr>Promoted := Promoted m @ [rs_PendingObjectKey r]\<rparr>)"

definition mem_Advance :: "Task \<Rightarrow> Result \<Rightarrow> (MemoryEffects, err, unit) op" where
  "mem_Advance t r m = (Inr (), m\<lparr>Advanced := Advanced m @ [cr_RunID t]\<rparr>)"

definition mem_ReleaseAttempt :: "Task \<Rightarrow> Result \<Rightarrow> (MemoryEffects, err, unit) op" where
  "mem_ReleaseAttempt t r m = (Inr (), m\<lparr>Released := Released m @ [rs_PhysicalAttemptID r]\<rparr>)"

definition Snapshot :: "MemoryEffects \<Rightarrow> string list \<times> string list \<times> string list" where
  "Snapshot m = (Promoted m, Advanced m, Released m)"

definition Restore :: "string list \<times> string list \<times> string list \<Rightarrow> MemoryEffects \<Rightarrow> MemoryEffects" where
  "Restore v m = (case v of (p, a, r) \<Rightarrow> m\<lparr>Promoted := p, Advanced := a, Released := r\<rparr>)"

text \<open>One \<open>MemoryEffects\<close> value serving as all three ports.\<close>

definition memory_ports :: "(MemoryEffects, string list \<times> string list \<times> string list) Ports" where
  "memory_ports = \<lparr>Promote = mem_Promote, Advance = mem_Advance, ReleaseAttempt = mem_ReleaseAttempt,
     snap_promotion = Snapshot, snap_advancement = Snapshot, snap_release = Snapshot,
     restore_promotion = Restore, restore_advancement = Restore, restore_release = Restore\<rparr>"

section \<open>Invariant\<close>

text \<open>
  A stored task is under its own key and its creation was valid; the attempt of its lease is recorded
  as its own; it has a result exactly when it is completed, and then the result is the one of the
  lease it still shows and the recorded output attests its digest. An entry of the dead-letter queue
  that was not replayed belongs to a dead-lettered task, and no two such entries share a task.
\<close>

definition lease_inv :: "'e Service \<Rightarrow> Task \<Rightarrow> Lease \<Rightarrow> bool" where
  "lease_inv s t l \<longleftrightarrow> l_TaskID l = cr_TaskID t \<and> l_RecoveryEpoch l = cr_RecoveryEpoch t \<and>
     l_ExecutionGeneration l = cr_ExecutionGeneration t \<and> l_LeaseEpoch l = t_LeaseEpoch t \<and>
     gm_get (sv_attempts s) (l_PhysicalAttemptID l) =
       Some \<lparr>ar_Scope = cr_Scope t, ar_TaskID = cr_TaskID t, ar_RunID = cr_RunID t\<rparr>"

definition result_inv :: "(string \<Rightarrow> string) \<Rightarrow> 'e Service \<Rightarrow> string \<Rightarrow> Task \<Rightarrow> Result \<Rightarrow> bool" where
  "result_inv sha s k t r \<longleftrightarrow> (\<exists>l out. t_Lease t = Some l \<and> rs_TaskID r = cr_TaskID t \<and>
     rs_PhysicalAttemptID r = l_PhysicalAttemptID l \<and> rs_LeaseEpoch r = l_LeaseEpoch l \<and>
     rs_FenceToken r = l_FenceToken l \<and>
     gm_get (sv_outputs s) k = Some out \<and> OutputDigest sha out = rs_ArtifactDigest r)"

definition task_inv :: "(string \<Rightarrow> string) \<Rightarrow> 'e Service \<Rightarrow> string \<Rightarrow> Task \<Rightarrow> bool" where
  "task_inv sha s k t \<longleftrightarrow> k = key (cr_Scope t) (cr_TaskID t) \<and> Create_Validate t \<and>
     (t_State t = Leased \<longrightarrow> t_Lease t \<noteq> None) \<and>
     (\<forall>l. t_Lease t = Some l \<longrightarrow> lease_inv s t l) \<and>
     (t_State t = Completed \<longleftrightarrow> t_Result t \<noteq> None) \<and>
     (\<forall>r. t_Result t = Some r \<longrightarrow> result_inv sha s k t r)"

definition entry_key :: "DLQEntry \<Rightarrow> string" where
  "entry_key e = key (dq_Scope e) (dq_TaskID e)"

definition dlq_inv :: "'e Service \<Rightarrow> bool" where
  "dlq_inv s \<longleftrightarrow>
     (\<forall>i < length (sv_dlq s). \<not> dq_Replayed (sv_dlq s ! i) \<longrightarrow>
        (\<exists>t. gm_get (sv_tasks s) (entry_key (sv_dlq s ! i)) = Some t \<and> t_State t = DeadLettered) \<and>
        (\<forall>j < length (sv_dlq s). \<not> dq_Replayed (sv_dlq s ! j) \<longrightarrow>
           entry_key (sv_dlq s ! j) = entry_key (sv_dlq s ! i) \<longrightarrow> j = i))"

definition svc_inv :: "(string \<Rightarrow> string) \<Rightarrow> 'e Service \<Rightarrow> bool" where
  "svc_inv sha s \<longleftrightarrow> gm_ok (sv_tasks s) \<and> gm_all (task_inv sha s) (sv_tasks s) \<and> dlq_inv s"

lemma svc_invD:
  "svc_inv sha s \<Longrightarrow> gm_ok (sv_tasks s)"
  "svc_inv sha s \<Longrightarrow> gm_get (sv_tasks s) k = Some t \<Longrightarrow> task_inv sha s k t"
  "svc_inv sha s \<Longrightarrow> dlq_inv s"
  by (simp_all add: svc_inv_def gm_all_def)

lemma opaque_nul_free: "opaque v \<Longrightarrow> nul_free v"
  by (auto simp: opaque_def nul_free_def opaque_start_def is_upper_def is_lower_def is_digit_def NUL_def
      list_all_iff less_eq_char_def split: list.splits)

lemma task_key:
  assumes "svc_inv sha s" and "gm_get (sv_tasks s) (key scope tid) = Some t"
  shows "cr_Scope t = scope \<and> cr_TaskID t = tid"
proof -
  note inv = svc_invD(2) [OF assms, unfolded task_inv_def]
  then have "nul_free (WorkspaceID (cr_Scope t)) \<and> nul_free (ProjectID (cr_Scope t)) \<and> nul_free (cr_TaskID t)"
    by (simp add: Create_Validate_def opaque_nul_free)
  with inv scoped_key_nul_free [of "WorkspaceID (cr_Scope t)" "ProjectID (cr_Scope t)" "cr_TaskID t"
      "WorkspaceID scope" "ProjectID scope" tid]
  show ?thesis by (auto simp: key_def intro: Scope.equality)
qed

text \<open>A task put under its key keeps the other tasks as they are, as long as attempts are only added.\<close>

lemma task_inv_other:
  assumes "task_inv sha s k t" and "\<And>a ref. gm_get (sv_attempts s) a = Some ref \<Longrightarrow> gm_get (sv_attempts s') a = Some ref"
    and "gm_get (sv_outputs s') k = gm_get (sv_outputs s) k"
  shows "task_inv sha s' k t"
proof -
  have "lease_inv s' t l" if "lease_inv s t l" for l using that assms(2) by (simp add: lease_inv_def)
  moreover have "result_inv sha s' k t r" if "result_inv sha s k t r" for r
    using that assms(3) by (simp add: result_inv_def)
  ultimately show ?thesis using assms(1) unfolding task_inv_def by blast
qed

lemma svc_inv_put:
  assumes inv: "svc_inv sha s" and tasks: "sv_tasks s' = gm_put k t (sv_tasks s)" and t: "task_inv sha s' k t"
    and "\<And>a ref. gm_get (sv_attempts s) a = Some ref \<Longrightarrow> gm_get (sv_attempts s') a = Some ref"
    and "\<And>k'. k' \<noteq> k \<Longrightarrow> gm_get (sv_outputs s') k' = gm_get (sv_outputs s) k'" and "dlq_inv s'"
  shows "svc_inv sha s'"
  using svc_invD(1) [OF inv] task_inv_other [OF svc_invD(2) [OF inv] assms(4,5)] t assms(6)
  by (auto simp: svc_inv_def tasks gm_all_def gm_get_put gm_ok_put split: if_splits)

lemma dlq_inv_put:
  assumes "dlq_inv s" and "sv_tasks s' = gm_put k t (sv_tasks s)" and "sv_dlq s' = sv_dlq s"
    and "\<And>u. gm_get (sv_tasks s) k = Some u \<Longrightarrow> t_State u \<noteq> DeadLettered"
  shows "dlq_inv s'"
  using assms unfolding dlq_inv_def by (auto simp: gm_get_put)

lemma svc_inv_same:
  assumes "svc_inv sha s" and "sv_tasks s' = sv_tasks s" and "sv_attempts s' = sv_attempts s"
    and "sv_outputs s' = sv_outputs s" and "sv_dlq s' = sv_dlq s"
  shows "svc_inv sha s'"
proof -
  have "gm_all (task_inv sha s') (sv_tasks s')"
    using assms svc_invD(2) [OF assms(1)] task_inv_other [where s = s and s' = s'] by (simp add: gm_all_def)
  then show ?thesis using assms by (simp add: svc_inv_def dlq_inv_def)
qed

section \<open>What each operation does\<close>

text \<open>The state an operation leaves is the one it found unless it succeeded, and then it is the one given here.\<close>

lemma CreateTask_cases:
  obtains (same) "snd (CreateTask env input s) = s"
  | (new) "CreateTask env input s = (Inr (new_task input), s\<lparr>sv_tasks :=
        gm_put (key (cr_Scope input) (cr_TaskID input)) (new_task input) (sv_tasks s)\<rparr>)"
      "Create_Validate input" "gm_get (sv_tasks s) (key (cr_Scope input) (cr_TaskID input)) = None"
proof (cases "snd (CreateTask env input s) = s")
  case True
  then show ?thesis by (rule that(1))
next
  case False
  then have "Create_Validate input" "env_authorize env input = None"
      "gm_get (sv_tasks s) (key (cr_Scope input) (cr_TaskID input)) = None"
    by (auto simp: CreateTask_def Let_def split: option.splits if_splits)
  with that(2) show ?thesis by (simp add: CreateTask_def Let_def)
qed

definition leased_task :: "Env \<Rightarrow> string \<Rightarrow> string \<Rightarrow> string \<Rightarrow> string \<Rightarrow> int \<Rightarrow> Task \<Rightarrow> Task \<times> Lease" where
  "leased_task env tid owner attempt token ttl task =
     (let l = \<lparr>l_TaskID = tid, l_RecoveryEpoch = cr_RecoveryEpoch task,
                l_ExecutionGeneration = cr_ExecutionGeneration task, l_PhysicalAttemptID = attempt,
                l_AttemptNumber = t_PhysicalAttempts task + 1, l_LeaseEpoch = t_LeaseEpoch task + 1,
                l_Owner = owner, l_IssuedAt = env_now env, l_ExpiresAt = env_now env + ttl, l_FenceToken = token\<rparr>
      in (task\<lparr>t_LeaseEpoch := t_LeaseEpoch task + 1, t_PhysicalAttempts := t_PhysicalAttempts task + 1,
            t_State := Leased, t_Version := t_Version task + 1, t_Lease := Some l\<rparr>, l))"

lemma LeaseTask_cases:
  obtains (same) er where "LeaseTask env scope tid owner s = (Inl er, s)"
  | (leased) task attempt token t l where "gm_get (sv_tasks s) (key scope tid) = Some task"
      "t_State task = Queued \<or> (t_State task = Leased \<and> (\<forall>held. t_Lease task = Some held \<longrightarrow> l_ExpiresAt held \<le> env_now env))"
      "gm_get (sv_attempts s) attempt = None" "opaque attempt" "env_now env \<noteq> 0"
      "leased_task env tid owner attempt token (sv_ttl s) task = (t, l)"
      "LeaseTask env scope tid owner s = (Inr l, s\<lparr>sv_tasks := gm_put (key scope tid) t (sv_tasks s),
         sv_attempts := gm_put attempt \<lparr>ar_Scope = scope, ar_TaskID = tid, ar_RunID = cr_RunID task\<rparr> (sv_attempts s)\<rparr>)"
proof (cases "\<exists>er. LeaseTask env scope tid owner s = (Inl er, s)")
  case True
  then show ?thesis using that(1) by blast
next
  case False
  then obtain task where task: "gm_get (sv_tasks s) (key scope tid) = Some task"
    by (auto simp: LeaseTask_def Let_def split: option.splits)
  with False have guards: "env_now env \<noteq> 0" "t_State task = Queued \<or> t_State task = Leased"
      "\<not> (t_State task = Leased \<and> (case t_Lease task of None \<Rightarrow> False | Some l \<Rightarrow> env_now env < l_ExpiresAt l))"
    by (auto simp: LeaseTask_def Let_def split: if_splits)
  from False task guards obtain attempt where attempt: "env_attempt env = Inr attempt" "opaque attempt"
      "gm_get (sv_attempts s) attempt = None" "opaque owner"
    by (auto simp: LeaseTask_def Let_def split: if_splits sum.splits)
  from False task guards attempt obtain token where token: "env_token env = Inr token"
      "\<not> (length token < 16 \<or> length token > 512 \<or> ContainsAny token [NUL, CHR 0x0D, CHR 0x0A])"
    by (auto simp: LeaseTask_def Let_def split: if_splits sum.splits)
  obtain t l where tl: "leased_task env tid owner attempt token (sv_ttl s) task = (t, l)"
    by (cases "leased_task env tid owner attempt token (sv_ttl s) task")
  have "LeaseTask env scope tid owner s = (Inr l, s\<lparr>sv_tasks := gm_put (key scope tid) t (sv_tasks s),
         sv_attempts := gm_put attempt \<lparr>ar_Scope = scope, ar_TaskID = tid, ar_RunID = cr_RunID task\<rparr> (sv_attempts s)\<rparr>)"
    using task guards attempt token tl by (auto simp: LeaseTask_def Let_def leased_task_def)
  moreover have "t_State task = Queued \<or> (t_State task = Leased \<and> (\<forall>held. t_Lease task = Some held \<longrightarrow> l_ExpiresAt held \<le> env_now env))"
    using guards by auto
  ultimately show ?thesis using that(2) [OF task _ attempt(3,2) guards(1) tl] by blast
qed

lemma Heartbeat_cases:
  obtains (same) er where "Heartbeat env scope lease expected s = (Inl er, s)"
  | (beat) task where "gm_get (sv_tasks s) (key scope (l_TaskID lease)) = Some task" "t_State task = Leased"
      "t_Lease task = Some lease" "env_now env < l_ExpiresAt lease"
      "Heartbeat env scope lease expected s = (Inr (lease\<lparr>l_ExpiresAt := env_now env + sv_ttl s\<rparr>),
         s\<lparr>sv_tasks := gm_put (key scope (l_TaskID lease)) (task\<lparr>t_Lease := Some (lease\<lparr>l_ExpiresAt := env_now env + sv_ttl s\<rparr>),
           t_Version := t_Version task + 1\<rparr>) (sv_tasks s)\<rparr>)"
proof (cases "\<exists>er. Heartbeat env scope lease expected s = (Inl er, s)")
  case True
  then show ?thesis using that(1) by blast
next
  case False
  then obtain task where "gm_get (sv_tasks s) (key scope (l_TaskID lease)) = Some task" "t_State task = Leased"
      "t_Lease task = Some lease" "env_now env < l_ExpiresAt lease" "env_now env \<noteq> 0" "expected = l_ExpiresAt lease"
    by (auto simp: Heartbeat_def Let_def split: option.splits if_splits)
  with that(2) show ?thesis by (simp add: Heartbeat_def Let_def)
qed

lemma ReclaimExpired_cases:
  obtains (same) "snd (ReclaimExpired env scope tid s) = s"
  | (reclaimed) task l where "gm_get (sv_tasks s) (key scope tid) = Some task" "t_State task = Leased"
      "t_Lease task = Some l" "l_ExpiresAt l \<le> env_now env"
      "ReclaimExpired env scope tid s = (Inr True, s\<lparr>sv_tasks := gm_put (key scope tid)
         (task\<lparr>t_State := Queued, t_Lease := None, t_Version := t_Version task + 1\<rparr>) (sv_tasks s)\<rparr>)"
proof (cases "snd (ReclaimExpired env scope tid s) = s")
  case True
  then show ?thesis by (rule that(1))
next
  case False
  then obtain task l where "gm_get (sv_tasks s) (key scope tid) = Some task" "t_State task = Leased"
      "t_Lease task = Some l" "l_ExpiresAt l \<le> env_now env" "env_now env \<noteq> 0"
    by (auto simp: ReclaimExpired_def Let_def split: option.splits if_splits)
  with that(2) show ?thesis by (simp add: ReclaimExpired_def Let_def)
qed

text \<open>Everything \<open>AcceptResult\<close> checks before it calls a port.\<close>

definition admissible :: "(string \<Rightarrow> string) \<Rightarrow> Env \<Rightarrow> Task \<Rightarrow> Result \<Rightarrow> string \<Rightarrow> bool" where
  "admissible sha env task result output \<longleftrightarrow> env_now env \<noteq> 0 \<and> t_Result task \<noteq> Some result \<and>
     OutputDigest sha output = rs_ArtifactDigest result \<and> fenceReason task result (env_now env) = '''' \<and>
     validateOutput task result = None \<and> env_inject env AfterFenceCheck = None"

definition completed_task :: "Task \<Rightarrow> Result \<Rightarrow> Task" where
  "completed_task task result = task\<lparr>t_State := Completed, t_Version := t_Version task + 1, t_Result := Some result\<rparr>"

lemma AcceptResult_cases:
  obtains (refused) acc er ds where "AcceptResult sha ports env scope result output s =
        ((acc, Some er), s\<lparr>sv_diagnostics := sv_diagnostics s @ ds\<rparr>)" "\<not> acc_Accepted acc"
  | (duplicate) task where "gm_get (sv_tasks s) (key scope (rs_TaskID result)) = Some task" "t_Result task = Some result"
      "AcceptResult sha ports env scope result output s =
        ((\<lparr>acc_Accepted = False, acc_Duplicate = True, acc_Task = Some task\<rparr>, None), s)"
  | (rolled_back) task er e where "gm_get (sv_tasks s) (key scope (rs_TaskID result)) = Some task"
      "admissible sha env task result output"
      "apply_effects ports env task result (sv_effects s) = (Inl er, e)"
      "AcceptResult sha ports env scope result output s =
        ((no_acceptance, Some er), s\<lparr>sv_effects := rollback ports (sv_effects s) e\<rparr>)"
  | (accepted) task e where "gm_get (sv_tasks s) (key scope (rs_TaskID result)) = Some task"
      "admissible sha env task result output"
      "apply_effects ports env task result (sv_effects s) = (Inr (), e)"
      "AcceptResult sha ports env scope result output s =
        ((\<lparr>acc_Accepted = True, acc_Duplicate = False, acc_Task = Some (completed_task task result)\<rparr>, None),
         s\<lparr>sv_effects := e, sv_tasks := gm_put (key scope (rs_TaskID result)) (completed_task task result) (sv_tasks s),
           sv_outputs := gm_put (key scope (rs_TaskID result)) output (sv_outputs s)\<rparr>)"
proof -
  let ?get = "gm_get (sv_tasks s) (key scope (rs_TaskID result))"
  note defs = AcceptResult_def Let_def no_acceptance_def
  have keep: "s = s\<lparr>sv_diagnostics := sv_diagnostics s @ []\<rparr>" by simp
  consider (zero) "env_now env = 0" | (missing) "env_now env \<noteq> 0" "?get = None"
    | (dup) task where "env_now env \<noteq> 0" "?get = Some task" "t_Result task = Some result"
    | (inadmissible) task where "env_now env \<noteq> 0" "?get = Some task" "t_Result task \<noteq> Some result"
        "\<not> admissible sha env task result output"
    | (admissible) task where "?get = Some task" "admissible sha env task result output"
    by (cases ?get) auto
  then show thesis
  proof cases
    case zero
    then show ?thesis using refused [of no_acceptance "problem CodeInfrastructureUnavailable" "[]"] by (simp add: defs)
  next
    case missing
    show ?thesis
    proof (cases "gm_get (sv_attempts s) (rs_PhysicalAttemptID result)")
      case None
      with missing show ?thesis using refused [of no_acceptance "problem CodeResourceNotFound" "[]"] by (simp add: defs)
    next
      case (Some reference)
      with missing show ?thesis
        using refused [of no_acceptance "problem CodeResourceNotFound" "[]"]
          refused [of "no_acceptance\<lparr>acc_Task := gm_get (sv_tasks s) (key scope (ar_TaskID reference))\<rparr>"
            "problem CodeWorkerFenceStale"]
        by (cases "ar_Scope reference = scope") (simp_all add: defs diagnose_def)
    qed
  next
    case (dup task)
    then show ?thesis using duplicate [of task] by (simp add: defs)
  next
    case (inadmissible task)
    note here = inadmissible(1-3)
    have plain: "\<not> acc_Accepted no_acceptance" "\<not> acc_Accepted (no_acceptance\<lparr>acc_Task := Some task\<rparr>)"
      by (simp_all add: no_acceptance_def)
    show ?thesis
    proof (cases "OutputDigest sha output = rs_ArtifactDigest result")
      case False
      have "AcceptResult sha ports env scope result output s =
          ((no_acceptance\<lparr>acc_Task := Some task\<rparr>, Some (problem CodeArtifactInvalid)),
           diagnose result (cr_RunID task) CodeArtifactInvalid ''output-digest'' (env_now env) s)"
        by (simp add: AcceptResult_def Let_def here False)
      from refused [OF this [unfolded diagnose_def] plain(2)] show ?thesis .
    next
      case digest: True
      show ?thesis
      proof (cases "fenceReason task result (env_now env) = ''''")
        case False
        have "AcceptResult sha ports env scope result output s =
            ((no_acceptance\<lparr>acc_Task := Some task\<rparr>, Some (problem CodeWorkerFenceStale)),
             diagnose result (cr_RunID task) CodeWorkerFenceStale (fenceReason task result (env_now env)) (env_now env) s)"
          using False by (simp add: AcceptResult_def Let_def here digest)
        from refused [OF this [unfolded diagnose_def] plain(2)] show ?thesis .
      next
        case fence: True
        show ?thesis
        proof (cases "validateOutput task result")
          case (Some er)
          have "AcceptResult sha ports env scope result output s = ((no_acceptance\<lparr>acc_Task := Some task\<rparr>, Some er),
              diagnose result (cr_RunID task) CodeArtifactInvalid (Error er) (env_now env) s)"
            by (simp add: AcceptResult_def Let_def here digest fence Some)
          from refused [OF this [unfolded diagnose_def] plain(2)] show ?thesis .
        next
          case None
          then obtain er where "env_inject env AfterFenceCheck = Some er"
            using inadmissible digest fence by (auto simp: admissible_def)
          then have "AcceptResult sha ports env scope result output s = ((no_acceptance, Some er), s)"
            by (simp add: AcceptResult_def Let_def here digest fence None)
          with keep refused [of no_acceptance er "[]"] plain(1) show ?thesis by simp
        qed
      qed
    qed
  next
    case (admissible task)
    obtain r e where ports: "apply_effects ports env task result (sv_effects s) = (r, e)"
      by (cases "apply_effects ports env task result (sv_effects s)")
    show ?thesis
    proof (cases r)
      case (Inl er)
      then show ?thesis
        using rolled_back [OF admissible ports [unfolded Inl]] admissible ports
        by (simp add: AcceptResult_def Let_def admissible_def)
    next
      case (Inr u)
      then show ?thesis
        using accepted [OF admissible, of e] admissible ports
        by (simp add: AcceptResult_def Let_def admissible_def completed_task_def)
    qed
  qed
qed

lemma DeadLetter_cases:
  obtains (same) er where "DeadLetter env scope tid c stage detail s = (Inl er, s)"
  | (dead) task entry where "gm_get (sv_tasks s) (key scope tid) = Some task"
      "t_State task \<noteq> Completed" "t_State task \<noteq> DeadLettered" "t_State task \<noteq> Cancelled"
      "dq_Scope entry = scope" "dq_TaskID entry = tid" "\<not> dq_Replayed entry"
      "DeadLetter env scope tid c stage detail s = (Inr entry, s\<lparr>sv_tasks := gm_put (key scope tid)
         (task\<lparr>t_State := DeadLettered, t_Version := t_Version task + 1\<rparr>) (sv_tasks s), sv_dlq := sv_dlq s @ [entry]\<rparr>)"
proof (cases "\<exists>er. DeadLetter env scope tid c stage detail s = (Inl er, s)")
  case True
  then show ?thesis using that(1) by blast
next
  case False
  have valid: "\<not> (\<not> opaque c \<or> \<not> opaque stage \<or> length detail > 2048)"
  proof
    assume "\<not> opaque c \<or> \<not> opaque stage \<or> length detail > 2048"
    then have "DeadLetter env scope tid c stage detail s = (Inl (problem CodeRequestInvalid), s)"
      unfolding DeadLetter_def by (rule if_P)
    with False show False by blast
  qed
  from False valid obtain task where task: "gm_get (sv_tasks s) (key scope tid) = Some task"
      "t_State task \<notin> {Completed, Cancelled, DeadLettered}" "env_now env \<noteq> 0"
    by (auto simp: DeadLetter_def Let_def split: option.splits if_splits)
  from False valid task obtain dlqID where did: "env_dlq env = Inr dlqID" "opaque dlqID"
    by (auto simp: DeadLetter_def Let_def split: sum.splits if_splits)
  show ?thesis
    by (rule that(2) [of task "\<lparr>dq_ID = dlqID, dq_Scope = scope, dq_TaskID = tid, dq_RunID = cr_RunID task,
        dq_Code = c, dq_Stage = stage, dq_Detail = detail, dq_CreatedAt = env_now env, dq_Replayed = False\<rparr>"])
      (use valid task did in \<open>auto simp: DeadLetter_def Let_def\<close>)
qed

lemma find_entry_SomeD: "find_entry eid es = Some i \<Longrightarrow> i < length es \<and> dq_ID (es ! i) = eid"
  by (induction es arbitrary: i) (auto split: if_splits)

lemma ReplayDLQ_cases:
  obtains (same) "snd (ReplayDLQ scope eid s) = s"
  | (replayed) i task where "find_entry eid (sv_dlq s) = Some i" "i < length (sv_dlq s)"
      "dq_Scope (sv_dlq s ! i) = scope" "\<not> dq_Replayed (sv_dlq s ! i)"
      "gm_get (sv_tasks s) (entry_key (sv_dlq s ! i)) = Some task"
      "ReplayDLQ scope eid s = (Inr (task\<lparr>t_State := Queued, t_Lease := None, t_Version := t_Version task + 1\<rparr>),
        s\<lparr>sv_dlq := (sv_dlq s)[i := (sv_dlq s ! i)\<lparr>dq_Replayed := True\<rparr>],
          sv_tasks := gm_put (entry_key (sv_dlq s ! i))
            (task\<lparr>t_State := Queued, t_Lease := None, t_Version := t_Version task + 1\<rparr>) (sv_tasks s)\<rparr>)"
proof (cases "snd (ReplayDLQ scope eid s) = s")
  case True
  then show ?thesis by (rule that(1))
next
  case False
  then obtain i where i: "find_entry eid (sv_dlq s) = Some i" "dq_Scope (sv_dlq s ! i) = scope" "\<not> dq_Replayed (sv_dlq s ! i)"
    by (auto simp: ReplayDLQ_def Let_def split: option.splits if_splits)
  from False i obtain task where task: "gm_get (sv_tasks s) (entry_key (sv_dlq s ! i)) = Some task"
    by (auto simp: ReplayDLQ_def Let_def entry_key_def split: option.splits)
  show ?thesis
    by (rule that(2) [OF i(1) _ i(2,3) task])
      (use i task find_entry_SomeD [OF i(1)] in \<open>simp_all add: ReplayDLQ_def Let_def entry_key_def\<close>)
qed

section \<open>The invariant is kept\<close>

lemma CreateTask_inv: "svc_inv sha s \<Longrightarrow> svc_inv sha (snd (CreateTask env input s))"
proof (cases rule: CreateTask_cases [of env input s])
  case new
  assume inv: "svc_inv sha s"
  have "dlq_inv (snd (CreateTask env input s))"
    using new by (auto intro: dlq_inv_put [OF svc_invD(3) [OF inv]])
  moreover have "task_inv sha (snd (CreateTask env input s)) (key (cr_Scope input) (cr_TaskID input)) (new_task input)"
    using new(2) by (simp add: task_inv_def new_task_def Create.defs Create_Validate_def)
  ultimately show ?thesis using new by (auto intro: svc_inv_put [OF inv])
qed simp

lemma leased_task_fields:
  assumes "leased_task env tid owner attempt token ttl task = (t, l)"
  shows "cr_Scope t = cr_Scope task" "cr_TaskID t = cr_TaskID task" "cr_RunID t = cr_RunID task"
    "cr_RecoveryEpoch t = cr_RecoveryEpoch task" "cr_ExecutionGeneration t = cr_ExecutionGeneration task"
    "t_State t = Leased" "t_Lease t = Some l" "t_LeaseEpoch t = t_LeaseEpoch task + 1" "t_Result t = t_Result task"
    "Create_Validate t = Create_Validate task" "l_TaskID l = tid" "l_RecoveryEpoch l = cr_RecoveryEpoch task"
    "l_ExecutionGeneration l = cr_ExecutionGeneration task" "l_PhysicalAttemptID l = attempt"
    "l_LeaseEpoch l = t_LeaseEpoch task + 1" "l_IssuedAt l = env_now env" "l_ExpiresAt l = env_now env + ttl"
  using assms by (auto simp: leased_task_def Let_def Create_Validate_def)

lemma LeaseTask_inv:
  assumes inv: "svc_inv sha s"
  shows "svc_inv sha (snd (LeaseTask env scope tid owner s))"
proof (cases rule: LeaseTask_cases [of env scope tid owner s])
  case (leased task attempt token t l)
  note ids = task_key [OF inv leased(1)]
  note old = svc_invD(2) [OF inv leased(1), unfolded task_inv_def]
  let ?s = "snd (LeaseTask env scope tid owner s)"
  have d: "dlq_inv ?s"
    using leased by (auto intro: dlq_inv_put [OF svc_invD(3) [OF inv]])
  have ti: "task_inv sha ?s (key scope tid) t"
    using old leased(2,3) ids
    by (auto simp: task_inv_def lease_inv_def gm_get_put leased(7) leased_task_fields [OF leased(6)])
  have at: "gm_get (sv_attempts ?s) a = Some ref" if "gm_get (sv_attempts s) a = Some ref" for a ref
    using that leased(3,7) by (auto simp: gm_get_put)
  show ?thesis by (rule svc_inv_put [OF inv _ ti at _ d]) (simp_all add: leased(7))
qed (use inv in simp)

lemma Heartbeat_inv:
  assumes inv: "svc_inv sha s"
  shows "svc_inv sha (snd (Heartbeat env scope lease expected s))"
proof (cases rule: Heartbeat_cases [of env scope lease expected s])
  case (beat task)
  let ?s = "snd (Heartbeat env scope lease expected s)"
  have "dlq_inv ?s"
    using beat by (auto intro: dlq_inv_put [OF svc_invD(3) [OF inv]])
  moreover have "task_inv sha ?s (key scope (l_TaskID lease)) (task\<lparr>t_Lease := Some (lease\<lparr>l_ExpiresAt := env_now env + sv_ttl s\<rparr>),
      t_Version := t_Version task + 1\<rparr>)"
    using svc_invD(2) [OF inv beat(1)] beat by (auto simp: task_inv_def lease_inv_def Create_Validate_def)
  ultimately show ?thesis using beat(5) by (auto intro: svc_inv_put [OF inv])
qed (use inv in simp)

lemma ReclaimExpired_inv:
  assumes inv: "svc_inv sha s"
  shows "svc_inv sha (snd (ReclaimExpired env scope tid s))"
proof (cases rule: ReclaimExpired_cases [of env scope tid s])
  case (reclaimed task l)
  let ?s = "snd (ReclaimExpired env scope tid s)"
  have "dlq_inv ?s"
    using reclaimed by (auto intro: dlq_inv_put [OF svc_invD(3) [OF inv]])
  moreover have "task_inv sha ?s (key scope tid) (task\<lparr>t_State := Queued, t_Lease := None, t_Version := t_Version task + 1\<rparr>)"
    using svc_invD(2) [OF inv reclaimed(1)] reclaimed by (auto simp: task_inv_def Create_Validate_def)
  ultimately show ?thesis using reclaimed(5) by (auto intro: svc_inv_put [OF inv])
qed (use inv in simp)

lemma fenceReason_ok:
  assumes "fenceReason task result now = ''''"
  obtains l where "t_Lease task = Some l" "t_State task = Leased" "rs_TaskID result = cr_TaskID task"
    "rs_RecoveryEpoch result = cr_RecoveryEpoch task" "rs_ExecutionGeneration result = cr_ExecutionGeneration task"
    "rs_PhysicalAttemptID result = l_PhysicalAttemptID l" "rs_LeaseEpoch result = l_LeaseEpoch l"
    "rs_FenceToken result = l_FenceToken l" "rs_Capability result = cr_Capability task"
    "l_IssuedAt l \<le> rs_CompletedAt result" "rs_CompletedAt result \<le> now" "now < l_ExpiresAt l"
  using assms by (auto simp: fenceReason_def split: option.splits if_splits)

lemma AcceptResult_inv:
  assumes inv: "svc_inv sha s"
  shows "svc_inv sha (snd (AcceptResult sha ports env scope result output s))"
proof (cases rule: AcceptResult_cases [of sha ports env scope result "output" s])
  case (refused acc er ds)
  then show ?thesis by (auto intro: svc_inv_same [OF inv])
next
  case (duplicate task)
  then show ?thesis using inv by simp
next
  case (rolled_back task er e)
  then show ?thesis by (auto intro: svc_inv_same [OF inv])
next
  case (accepted task e)
  let ?s = "snd (AcceptResult sha ports env scope result output s)"
  from accepted(2) obtain l where l: "t_Lease task = Some l" "t_State task = Leased" "rs_TaskID result = cr_TaskID task"
    "rs_PhysicalAttemptID result = l_PhysicalAttemptID l" "rs_LeaseEpoch result = l_LeaseEpoch l"
    "rs_FenceToken result = l_FenceToken l"
    unfolding admissible_def by (elim conjE fenceReason_ok)
  note old = svc_invD(2) [OF inv accepted(1)]
  have "dlq_inv ?s"
    using accepted l by (auto intro: dlq_inv_put [OF svc_invD(3) [OF inv]])
  moreover have "task_inv sha ?s (key scope (rs_TaskID result)) (completed_task task result)"
    using old l accepted
    by (auto simp: task_inv_def completed_task_def Create_Validate_def lease_inv_def result_inv_def gm_get_put admissible_def)
  ultimately show ?thesis using accepted(4) by (auto intro: svc_inv_put [OF inv] simp: gm_get_put)
qed

lemma DeadLetter_inv:
  assumes inv: "svc_inv sha s"
  shows "svc_inv sha (snd (DeadLetter env scope tid c stage detail s))"
proof (cases rule: DeadLetter_cases [of env scope tid c stage detail s])
  case (dead task entry)
  let ?s = "snd (DeadLetter env scope tid c stage detail s)"
  have new: "entry_key entry = key scope tid" using dead by (simp add: entry_key_def)
  have "entry_key (sv_dlq s ! i) \<noteq> key scope tid" if "i < length (sv_dlq s)" "\<not> dq_Replayed (sv_dlq s ! i)" for i
    using svc_invD(3) [OF inv] that dead(1,3) unfolding dlq_inv_def by (metis option.inject)
  then have "dlq_inv ?s"
    using svc_invD(3) [OF inv] dead(7) new
    by (auto simp: dlq_inv_def dead(8) nth_append less_Suc_eq gm_get_put) blast+
  moreover have "task_inv sha ?s (key scope tid) (task\<lparr>t_State := DeadLettered, t_Version := t_Version task + 1\<rparr>)"
    using svc_invD(2) [OF inv dead(1)] dead by (auto simp: task_inv_def lease_inv_def Create_Validate_def)
  ultimately show ?thesis using dead(8) by (auto intro: svc_inv_put [OF inv])
qed (use inv in simp)

lemma ReplayDLQ_inv:
  assumes inv: "svc_inv sha s"
  shows "svc_inv sha (snd (ReplayDLQ scope eid s))"
proof (cases rule: ReplayDLQ_cases [of scope eid s])
  case (replayed i task)
  let ?s = "snd (ReplayDLQ scope eid s)"
  let ?t = "task\<lparr>t_State := Queued, t_Lease := None, t_Version := t_Version task + 1\<rparr>"
  note dlq = svc_invD(3) [OF inv, unfolded dlq_inv_def, rule_format]
  have dead: "t_State task = DeadLettered" using dlq [OF replayed(2,4)] replayed(5) by auto
  have "entry_key (sv_dlq s ! j) \<noteq> entry_key (sv_dlq s ! i)" if "j < length (sv_dlq s)" "\<not> dq_Replayed (sv_dlq s ! j)" "j \<noteq> i" for j
    using dlq [OF replayed(2,4)] that by blast
  then have "dlq_inv ?s"
    using dlq replayed(2) by (auto simp: dlq_inv_def replayed(6) nth_list_update gm_get_put) metis+
  moreover have "task_inv sha ?s (entry_key (sv_dlq s ! i)) ?t"
    using svc_invD(2) [OF inv replayed(5)] dead by (auto simp: task_inv_def Create_Validate_def)
  ultimately show ?thesis using replayed(6) by (auto intro: svc_inv_put [OF inv])
qed (use inv in simp)


section \<open>Steps and reachable states\<close>

inductive sched_step :: "(string \<Rightarrow> string) \<Rightarrow> ('e, 'n) Ports \<Rightarrow> 'e Service \<Rightarrow> 'e Service \<Rightarrow> bool"
  for sha :: "string \<Rightarrow> string" and ports :: "('e, 'n) Ports" where
  create: "CreateTask env input s = (r, t) \<Longrightarrow> sched_step sha ports s t"
| lease: "LeaseTask env scope tid owner s = (r, t) \<Longrightarrow> sched_step sha ports s t"
| heartbeat: "Heartbeat env scope held expected s = (r, t) \<Longrightarrow> sched_step sha ports s t"
| reclaim: "ReclaimExpired env scope tid s = (r, t) \<Longrightarrow> sched_step sha ports s t"
| accept: "AcceptResult sha ports env scope result data s = (r, t) \<Longrightarrow> sched_step sha ports s t"
| deadletter: "DeadLetter env scope tid c stage detail s = (r, t) \<Longrightarrow> sched_step sha ports s t"
| replay: "ReplayDLQ scope eid s = (r, t) \<Longrightarrow> sched_step sha ports s t"


abbreviation sched_steps :: "(string \<Rightarrow> string) \<Rightarrow> ('e, 'n) Ports \<Rightarrow> 'e Service \<Rightarrow> 'e Service \<Rightarrow> bool" where
  "sched_steps sha ports \<equiv> (sched_step sha ports)\<^sup>*\<^sup>*"

definition sched_reach :: "(string \<Rightarrow> string) \<Rightarrow> ('e, 'n) Ports \<Rightarrow> 'e \<Rightarrow> 'e Service \<Rightarrow> bool" where
  "sched_reach sha ports e0 s \<longleftrightarrow> (\<exists>ttl s0. New ttl e0 = Some s0 \<and> sched_steps sha ports s0 s)"

lemma sched_step_inv:
  assumes "sched_step sha ports s u" and inv: "svc_inv sha s"
  shows "svc_inv sha u"
  using assms(1)
proof (cases rule: sched_step.cases)
  case (create env input r)
  then show ?thesis using CreateTask_inv [OF inv, of env input] by simp
next
  case (lease env scope tid owner r)
  then show ?thesis using LeaseTask_inv [OF inv, of env scope tid owner] by simp
next
  case (heartbeat env scope held expected r)
  then show ?thesis using Heartbeat_inv [OF inv, of env scope held expected] by simp
next
  case (reclaim env scope tid r)
  then show ?thesis using ReclaimExpired_inv [OF inv, of env scope tid] by simp
next
  case (accept env scope result data r)
  then show ?thesis using AcceptResult_inv [OF inv, of ports env scope result data] by simp
next
  case (deadletter env scope tid c stage detail r)
  then show ?thesis using DeadLetter_inv [OF inv, of env scope tid c stage detail] by simp
next
  case (replay scope eid r)
  then show ?thesis using ReplayDLQ_inv [OF inv, of scope eid] by simp
qed

lemma sched_steps_inv: "sched_steps sha ports s t \<Longrightarrow> svc_inv sha s \<Longrightarrow> svc_inv sha t"
proof (induction rule: rtranclp_induct)
  case (step u v)
  then show ?case using sched_step_inv [OF step(2)] by simp
qed simp

lemma New_inv:
  assumes "New ttl e0 = Some s0"
  shows "svc_inv sha s0"
proof -
  have "sv_tasks s0 = [] \<and> sv_dlq s0 = []"
    using assms unfolding New_def by (cases "ttl \<le> 0 \<or> ttl > 3600000000000") auto
  then show ?thesis by (simp add: svc_inv_def dlq_inv_def)
qed

lemma sched_reach_inv:
  assumes "sched_reach sha ports e0 s"
  shows "svc_inv sha s"
proof -
  obtain ttl s0 where "New ttl e0 = Some s0" "sched_steps sha ports s0 s"
    using assms unfolding sched_reach_def by (elim exE conjE) (rule that)
  then show ?thesis by (intro sched_steps_inv [OF _ New_inv])
qed

lemma sched_reach_steps: "sched_reach sha ports e0 s \<Longrightarrow> sched_steps sha ports s t \<Longrightarrow> sched_reach sha ports e0 t"
  unfolding sched_reach_def by (meson rtranclp_trans)

text \<open>A completed task is never written again.\<close>

lemma sched_step_completed:
  assumes "sched_step sha ports s u" and inv: "svc_inv sha s" and t: "gm_get (sv_tasks s) k = Some t" "t_State t = Completed"
  shows "gm_get (sv_tasks u) k = Some t \<and> gm_get (sv_outputs u) k = gm_get (sv_outputs s) k"
  using assms(1)
proof (cases rule: sched_step.cases)
  case (create env input r)
  then show ?thesis using t by (cases rule: CreateTask_cases [of env input s]) (auto simp: gm_get_put)
next
  case (lease env scope tid owner r)
  then show ?thesis using t by (cases rule: LeaseTask_cases [of env scope tid owner s]) (auto simp: gm_get_put)
next
  case (heartbeat env scope held expected r)
  then show ?thesis using t by (cases rule: Heartbeat_cases [of env scope held expected s]) (auto simp: gm_get_put)
next
  case (reclaim env scope tid r)
  then show ?thesis using t by (cases rule: ReclaimExpired_cases [of env scope tid s]) (auto simp: gm_get_put)
next
  case (accept env scope result data r)
  have "\<not> admissible sha env t result data" by (auto simp: admissible_def t(2) elim: fenceReason_ok)
  then show ?thesis using t accept
    by (cases rule: AcceptResult_cases [of sha ports env scope result data s]) (auto simp: gm_get_put)
next
  case (deadletter env scope tid c stage detail r)
  then show ?thesis using t by (cases rule: DeadLetter_cases [of env scope tid c stage detail s]) (auto simp: gm_get_put)
next
  case (replay scope eid r)
  then show ?thesis
  proof (cases rule: ReplayDLQ_cases [of scope eid s])
    case (replayed i task)
    have "t_State task = DeadLettered"
      using svc_invD(3) [OF inv, unfolded dlq_inv_def, rule_format, OF replayed(2,4)] replayed(5) by auto
    then show ?thesis using replayed(5,6) replay t by (auto simp: gm_get_put)
  qed (use replay t in simp)
qed

text \<open>An attempt that is recorded and holds no lease.\<close>

definition retired :: "string \<Rightarrow> 'e Service \<Rightarrow> bool" where
  "retired a s \<longleftrightarrow> gm_get (sv_attempts s) a \<noteq> None \<and>
     (\<forall>k t l. gm_get (sv_tasks s) k = Some t \<longrightarrow> t_Lease t = Some l \<longrightarrow> l_PhysicalAttemptID l \<noteq> a)"

lemma retiredD: "retired a s \<Longrightarrow> gm_get (sv_tasks s) k = Some t \<Longrightarrow> t_Lease t = Some l \<Longrightarrow> l_PhysicalAttemptID l \<noteq> a"
  by (auto simp: retired_def)

lemma retired_put:
  assumes "retired a s" and "sv_tasks u = gm_put k t (sv_tasks s)"
    and "\<And>l. t_Lease t = Some l \<Longrightarrow> l_PhysicalAttemptID l \<noteq> a"
    and "gm_get (sv_attempts u) a \<noteq> None"
  shows "retired a u"
  using assms by (auto simp: retired_def gm_get_put)

lemma sched_step_retired:
  assumes "sched_step sha ports s u" and ret: "retired a s"
  shows "retired a u"
proof -
  have known: "gm_get (sv_attempts s) a \<noteq> None" using ret by (simp add: retired_def)
  have same: "retired a v" if "sv_tasks v = sv_tasks s" "sv_attempts v = sv_attempts s" for v :: "'a Service"
    using ret that by (simp add: retired_def)
  note old = retiredD [OF ret]
  show ?thesis
    using assms(1)
  proof (cases rule: sched_step.cases)
    case (create env input r)
    then show ?thesis
    proof (cases rule: CreateTask_cases [of env input s])
      case new
      then show ?thesis using create known by (auto intro: retired_put [OF ret] simp: new_task_def Create.defs)
    qed (use ret in simp)
  next
    case (lease env scope tid owner r)
    then show ?thesis
    proof (cases rule: LeaseTask_cases [of env scope tid owner s])
      case (leased task attempt token t l)
      have "attempt \<noteq> a" using leased(3) known by auto
      then show ?thesis using leased(7) lease known
        by (auto intro!: retired_put [OF ret, where t = t] simp: gm_get_put leased_task_fields [OF leased(6)])
    qed (use ret in simp)
  next
    case (heartbeat env scope held expected r)
    then show ?thesis
    proof (cases rule: Heartbeat_cases [of env scope held expected s])
      case (beat task)
      then show ?thesis using old [OF beat(1,3)] heartbeat known by (auto intro!: retired_put [OF ret])
    qed (use ret in simp)
  next
    case (reclaim env scope tid r)
    then show ?thesis
    proof (cases rule: ReclaimExpired_cases [of env scope tid s])
      case (reclaimed task l)
      then show ?thesis using reclaim known by (auto intro: retired_put [OF ret])
    qed (use ret in simp)
  next
    case (accept env scope result data r)
    then show ?thesis
    proof (cases rule: AcceptResult_cases [of sha ports env scope result data s])
      case (accepted task e)
      then show ?thesis using old [OF accepted(1)] accept known
        by (auto intro!: retired_put [OF ret] simp: completed_task_def)
    qed (auto intro: same)
  next
    case (deadletter env scope tid c stage detail r)
    then show ?thesis
    proof (cases rule: DeadLetter_cases [of env scope tid c stage detail s])
      case (dead task entry)
      then show ?thesis using old [OF dead(1)] deadletter known by (auto intro!: retired_put [OF ret])
    qed (use ret in simp)
  next
    case (replay scope eid r)
    then show ?thesis
    proof (cases rule: ReplayDLQ_cases [of scope eid s])
      case (replayed i task)
      then show ?thesis using replay known by (auto intro: retired_put [OF ret])
    qed (use ret in simp)
  qed
qed

lemma sched_steps_retired: "sched_steps sha ports s u \<Longrightarrow> retired a s \<Longrightarrow> retired a u"
proof (induction rule: rtranclp_induct)
  case (step u v)
  then show ?case using sched_step_retired [OF step(2)] by simp
qed simp

lemma sched_steps_completed:
  assumes "sched_steps sha ports s u" and "svc_inv sha s" and "gm_get (sv_tasks s) k = Some t" and "t_State t = Completed"
  shows "gm_get (sv_tasks u) k = Some t \<and> gm_get (sv_outputs u) k = gm_get (sv_outputs s) k"
  using assms
proof (induction rule: rtranclp_induct)
  case (step u v)
  then show ?case using sched_step_completed [OF step(2) sched_steps_inv [OF step(1)]] by simp
qed simp

section \<open>Ports with rollback\<close>

text \<open>
  The contract of the three transaction participants. \<open>pv\<close>, \<open>av\<close> and \<open>rv\<close> are their own parts of the
  effect state. Restoring a participant's snapshot brings its part back, and leaves each other part
  either alone or as it was when the snapshot was taken; the latter covers one object that serves as
  several participants.
\<close>

locale atomic_ports =
  fixes ports :: "('e, 'n) Ports" and pv :: "'e \<Rightarrow> 'p" and av :: "'e \<Rightarrow> 'a" and rv :: "'e \<Rightarrow> 'r"
  assumes views: "pv e = pv e' \<Longrightarrow> av e = av e' \<Longrightarrow> rv e = rv e' \<Longrightarrow> e = e'"
    and promotion: "pv (restore_promotion ports (snap_promotion ports b) e) = pv b"
      "av (restore_promotion ports (snap_promotion ports b) e) \<in> {av e, av b}"
      "rv (restore_promotion ports (snap_promotion ports b) e) \<in> {rv e, rv b}"
    and advancement: "av (restore_advancement ports (snap_advancement ports b) e) = av b"
      "pv (restore_advancement ports (snap_advancement ports b) e) \<in> {pv e, pv b}"
      "rv (restore_advancement ports (snap_advancement ports b) e) \<in> {rv e, rv b}"
    and release: "rv (restore_release ports (snap_release ports b) e) = rv b"
      "pv (restore_release ports (snap_release ports b) e) \<in> {pv e, pv b}"
      "av (restore_release ports (snap_release ports b) e) \<in> {av e, av b}"
begin

lemma rollback_restores: "rollback ports b e = b"
proof (rule views)
  let ?e1 = "restore_promotion ports (snap_promotion ports b) e"
  let ?e2 = "restore_advancement ports (snap_advancement ports b) ?e1"
  show "pv (rollback ports b e) = pv b"
    using promotion(1) [of b e] advancement(2) [of b ?e1] release(2) [of b ?e2] by (auto simp: rollback_def)
  show "av (rollback ports b e) = av b"
    using advancement(1) [of b ?e1] release(3) [of b ?e2] by (auto simp: rollback_def)
  show "rv (rollback ports b e) = rv b"
    using release(1) [of b ?e2] by (auto simp: rollback_def)
qed

text \<open>Whatever is refused, at whatever point, leaves no trace but a diagnostic.\<close>

lemma refused_leaves_no_trace:
  assumes "AcceptResult sha ports env scope result data s = ((acc, er), s')" and "\<not> acc_Accepted acc"
  shows "\<exists>ds. s' = s\<lparr>sv_diagnostics := sv_diagnostics s @ ds\<rparr>"
proof (cases rule: AcceptResult_cases [of sha ports env scope result data s])
  case (refused acc' er' ds)
  then show ?thesis using assms(1) by (intro exI [of _ ds]) simp
next
  case (duplicate task)
  then show ?thesis using assms(1) by (intro exI [of _ "[]"]) simp
next
  case (rolled_back task er' e)
  then show ?thesis using assms(1) by (intro exI [of _ "[]"]) (simp add: rollback_restores)
next
  case (accepted task e)
  then show ?thesis using assms by simp
qed

end

interpretation memp: atomic_ports memory_ports Promoted Advanced Released
  by unfold_locales (auto simp: memory_ports_def Snapshot_def Restore_def)

text \<open>Three \<open>MemoryEffects\<close> values, one for each port.\<close>

definition separate_ports :: "(MemoryEffects \<times> MemoryEffects \<times> MemoryEffects,
    string list \<times> string list \<times> string list) Ports" where
  "separate_ports = \<lparr>
     Promote = (\<lambda>r (p, a, c). let (x, p') = mem_Promote r p in (x, p', a, c)),
     Advance = (\<lambda>t r (p, a, c). let (x, a') = mem_Advance t r a in (x, p, a', c)),
     ReleaseAttempt = (\<lambda>t r (p, a, c). let (x, c') = mem_ReleaseAttempt t r c in (x, p, a, c')),
     snap_promotion = (\<lambda>(p, a, c). Snapshot p), snap_advancement = (\<lambda>(p, a, c). Snapshot a),
     snap_release = (\<lambda>(p, a, c). Snapshot c),
     restore_promotion = (\<lambda>v (p, a, c). (Restore v p, a, c)),
     restore_advancement = (\<lambda>v (p, a, c). (p, Restore v a, c)),
     restore_release = (\<lambda>v (p, a, c). (p, a, Restore v c))\<rparr>"

lemma Restore_Snapshot [simp]: "Restore (Snapshot b) e = b"
  by (simp add: Restore_def Snapshot_def)

interpretation sepp: atomic_ports separate_ports fst "fst \<circ> snd" "snd \<circ> snd"
  by unfold_locales (auto simp: separate_ports_def)

lemma memory_effects:
  assumes "apply_effects memory_ports env task result e = (Inr (), e')"
  shows "Promoted e' = Promoted e @ [rs_PendingObjectKey result] \<and> Advanced e' = Advanced e @ [cr_RunID task] \<and>
    Released e' = Released e @ [rs_PhysicalAttemptID result]"
  using assms by (auto simp: apply_effects_def memory_ports_def mem_Promote_def mem_Advance_def
      mem_ReleaseAttempt_def inject_def andThen_def split: option.splits)

section \<open>The results of a service\<close>

definition task_results :: "Task \<Rightarrow> (string \<times> Result) list" where
  "task_results t = (case t_Result t of None \<Rightarrow> [] | Some r \<Rightarrow> [(cr_RunID t, r)])"

definition results :: "Task gomap \<Rightarrow> (string \<times> Result) list" where
  "results m = concat (map (\<lambda>(k, t). task_results t) m)"

lemma results_put_new: "gm_get m k = None \<Longrightarrow> mset (results (gm_put k t m)) = mset (results m) + mset (task_results t)"
  by (induction m) (auto simp: results_def split: if_splits)

lemma results_put_old:
  "gm_get m k = Some u \<Longrightarrow> mset (results (gm_put k t m)) + mset (task_results u) = mset (results m) + mset (task_results t)"
  by (induction m) (auto simp: results_def split: if_splits)

lemma results_put_same:
  "gm_get m k = Some u \<Longrightarrow> task_results t = task_results u \<Longrightarrow> mset (results (gm_put k t m)) = mset (results m)"
  using results_put_old [of m k u t] by simp

lemma distinct_results:
  assumes "gm_ok m" and "\<And>k t r. gm_get m k = Some t \<Longrightarrow> t_Result t = Some r \<Longrightarrow> owner (f r) = Some k"
  shows "distinct (map (f \<circ> snd) (results m))"
proof -
  have "\<forall>(k, t) \<in> set m. \<forall>r. t_Result t = Some r \<longrightarrow> owner (f r) = Some k"
    using assms(2) gm_get_iff [OF assms(1)] by auto
  then have "map (owner \<circ> (f \<circ> snd)) (results m) = map (Some \<circ> fst) (filter (\<lambda>(k, t). t_Result t \<noteq> None) m)"
    by (induction m) (auto simp: results_def task_results_def split: option.splits)
  moreover have "distinct (map (Some \<circ> fst) (filter (\<lambda>(k, t). t_Result t \<noteq> None) m))"
    using assms(1) by (auto simp: gm_ok_def distinct_map inj_on_def)
  ultimately have "distinct (map (owner \<circ> (f \<circ> snd)) (results m))" by simp
  then show ?thesis by (simp only: distinct_map) (metis inj_on_imageI2)
qed

definition exactly_once :: "MemoryEffects Service \<Rightarrow> bool" where
  "exactly_once s \<longleftrightarrow>
     mset (Promoted (sv_effects s)) = image_mset (rs_PendingObjectKey \<circ> snd) (mset (results (sv_tasks s))) \<and>
     mset (Advanced (sv_effects s)) = image_mset fst (mset (results (sv_tasks s))) \<and>
     mset (Released (sv_effects s)) = image_mset (rs_PhysicalAttemptID \<circ> snd) (mset (results (sv_tasks s)))"

lemma exactly_once_same:
  "exactly_once s \<Longrightarrow> sv_effects u = sv_effects s \<Longrightarrow> mset (results (sv_tasks u)) = mset (results (sv_tasks s))
   \<Longrightarrow> exactly_once u"
  by (simp add: exactly_once_def)

lemma exactly_once_put:
  assumes "exactly_once s" and "sv_effects u = sv_effects s" and "sv_tasks u = gm_put k t (sv_tasks s)"
    and "gm_get (sv_tasks s) k = Some old" and "t_Result t = t_Result old" and "cr_RunID t = cr_RunID old"
  shows "exactly_once u"
proof (rule exactly_once_same [OF assms(1,2)])
  have "task_results t = task_results old" by (simp add: task_results_def assms(5,6) split: option.split)
  then show "mset (results (sv_tasks u)) = mset (results (sv_tasks s))"
    by (simp add: assms(3) results_put_same [OF assms(4)])
qed

lemma sched_step_exactly_once:
  assumes "sched_step sha memory_ports s u" and once: "exactly_once s" and inv: "svc_inv sha s"
  shows "exactly_once u"
  using assms(1)
proof (cases rule: sched_step.cases)
  case (create env input r)
  then show ?thesis
  proof (cases rule: CreateTask_cases [of env input s])
    case new
    then have "mset (results (sv_tasks u)) = mset (results (sv_tasks s))"
      using create by (auto simp: results_put_new task_results_def new_task_def Create.defs)
    then show ?thesis using new(1) create by (auto intro: exactly_once_same [OF once])
  qed (use once in simp)
next
  case (lease env scope tid owner r)
  then show ?thesis
  proof (cases rule: LeaseTask_cases [of env scope tid owner s])
    case (leased task attempt token t l)
    then show ?thesis using lease
      by (auto intro!: exactly_once_put [OF once _ _ leased(1), of _ t] simp: leased_task_fields [OF leased(6)])
  qed (use once in simp)
next
  case (heartbeat env scope held expected r)
  then show ?thesis
  proof (cases rule: Heartbeat_cases [of env scope held expected s])
    case (beat task)
    then show ?thesis using heartbeat by (auto intro!: exactly_once_put [OF once _ _ beat(1)])
  qed (use once in simp)
next
  case (reclaim env scope tid r)
  then show ?thesis
  proof (cases rule: ReclaimExpired_cases [of env scope tid s])
    case (reclaimed task l)
    then show ?thesis using reclaim by (auto intro!: exactly_once_put [OF once _ _ reclaimed(1)])
  qed (use once in simp)
next
  case (accept env scope result data r)
  then show ?thesis
  proof (cases rule: AcceptResult_cases [of sha memory_ports env scope result data s])
    case (accepted task e)
    obtain l where "t_State task = Leased" using accepted(2) by (auto simp: admissible_def elim: fenceReason_ok)
    then have none: "t_Result task = None"
      using svc_invD(2) [OF inv accepted(1)] by (cases "t_Result task") (auto simp: task_inv_def)
    have "mset (results (sv_tasks u)) = mset (results (sv_tasks s)) + {#(cr_RunID task, result)#}"
      using results_put_old [OF accepted(1), of "completed_task task result"] accepted(4) accept none
      by (simp add: task_results_def completed_task_def)
    moreover have "sv_effects u = e" using accepted(4) accept by auto
    ultimately show ?thesis
      using once memory_effects [OF accepted(3)] by (simp add: exactly_once_def)
  qed (auto intro: exactly_once_same [OF once] simp: memp.rollback_restores)
next
  case (deadletter env scope tid c stage detail r)
  then show ?thesis
  proof (cases rule: DeadLetter_cases [of env scope tid c stage detail s])
    case (dead task entry)
    then show ?thesis using deadletter by (auto intro!: exactly_once_put [OF once _ _ dead(1)])
  qed (use once in simp)
next
  case (replay scope eid r)
  then show ?thesis
  proof (cases rule: ReplayDLQ_cases [of scope eid s])
    case (replayed i task)
    then show ?thesis using replay by (auto intro!: exactly_once_put [OF once _ _ replayed(5)])
  qed (use once in simp)
qed

lemma sched_steps_exactly_once:
  "sched_steps sha memory_ports s u \<Longrightarrow> exactly_once s \<Longrightarrow> svc_inv sha s \<Longrightarrow> exactly_once u"
proof (induction rule: rtranclp_induct)
  case (step u v)
  then show ?case using sched_step_exactly_once [OF step(2)] sched_steps_inv [OF step(1)] by simp
qed simp

section \<open>Properties\<close>

lemma not_accepted [simp]: "\<not> acc_Accepted no_acceptance"
  by (simp add: no_acceptance_def)

lemma completed_task_fields [simp]:
  "t_State (completed_task t r) = Completed" "t_Result (completed_task t r) = Some r"
  by (simp_all add: completed_task_def)

text \<open>C23 (acceptance is fenced). A result is accepted only for a task that is leased, on the attempt, lease
  epoch and fence token of its current lease, for the task's own epoch, generation and capability, by
  a completion inside the lease and not after now, with an output that attests its digest, under the
  pending prefix of that attempt; the task is then completed with exactly that result and output.\<close>

theorem accepted_result_is_current:
  assumes "AcceptResult sha ports env scope result data s = ((acc, er), s')" and "acc_Accepted acc"
  shows "\<exists>task l. gm_get (sv_tasks s) (key scope (rs_TaskID result)) = Some task \<and> t_State task = Leased \<and>
    t_Lease task = Some l \<and> rs_PhysicalAttemptID result = l_PhysicalAttemptID l \<and>
    rs_LeaseEpoch result = l_LeaseEpoch l \<and> rs_FenceToken result = l_FenceToken l \<and>
    rs_RecoveryEpoch result = cr_RecoveryEpoch task \<and> rs_ExecutionGeneration result = cr_ExecutionGeneration task \<and>
    rs_Capability result = cr_Capability task \<and> l_IssuedAt l \<le> rs_CompletedAt result \<and>
    rs_CompletedAt result \<le> env_now env \<and> env_now env < l_ExpiresAt l \<and>
    OutputDigest sha data = rs_ArtifactDigest result \<and> HasPrefix (rs_PendingObjectKey result) (pending_prefix task result) \<and>
    er = None \<and> AcceptedOutput scope (rs_TaskID result) s' = (Inr (data, result), s')"
proof (cases rule: AcceptResult_cases [of sha ports env scope result data s])
  case (accepted task e)
  from accepted(2) obtain l where l: "t_Lease task = Some l" "t_State task = Leased" "rs_TaskID result = cr_TaskID task"
    "rs_RecoveryEpoch result = cr_RecoveryEpoch task" "rs_ExecutionGeneration result = cr_ExecutionGeneration task"
    "rs_PhysicalAttemptID result = l_PhysicalAttemptID l" "rs_LeaseEpoch result = l_LeaseEpoch l"
    "rs_FenceToken result = l_FenceToken l" "rs_Capability result = cr_Capability task"
    "l_IssuedAt l \<le> rs_CompletedAt result" "rs_CompletedAt result \<le> env_now env" "env_now env < l_ExpiresAt l"
    unfolding admissible_def by (elim conjE fenceReason_ok)
  have out: "AcceptedOutput scope (rs_TaskID result) s' = (Inr (data, result), s')"
    using accepted(4) assms(1) by (auto simp: AcceptedOutput_def Let_def gm_get_put)
  have "HasPrefix (rs_PendingObjectKey result) (pending_prefix task result)"
    using accepted(2) by (simp add: admissible_def validateOutput_def split: if_splits)
  moreover have "OutputDigest sha data = rs_ArtifactDigest result" using accepted(2) by (simp add: admissible_def)
  moreover have "er = None" using accepted(4) assms(1) by simp
  ultimately show ?thesis using accepted(1) l out by (intro exI [of _ task] exI [of _ l] conjI)
qed (use assms in auto)

text \<open>Once an attempt of a reachable service has lost its lease, by expiry and
  reclaim, by replay or to another lease, no result under that attempt is ever accepted again,
  whatever happens in between and even if lease epochs wrap around.\<close>

theorem superseded_attempt_is_fenced:
  assumes "sched_steps sha ports s u" and "retired a s" and "rs_PhysicalAttemptID result = a"
  shows "\<not> acc_Accepted (fst (fst (AcceptResult sha ports env scope result data u)))"
proof
  assume accepted: "acc_Accepted (fst (fst (AcceptResult sha ports env scope result data u)))"
  obtain acc er u' where run: "AcceptResult sha ports env scope result data u = ((acc, er), u')"
    by (cases "AcceptResult sha ports env scope result data u") auto
  then have "acc_Accepted acc" using accepted by simp
  then obtain task l where "gm_get (sv_tasks u) (key scope (rs_TaskID result)) = Some task" "t_Lease task = Some l"
      "rs_PhysicalAttemptID result = l_PhysicalAttemptID l"
  proof (cases rule: AcceptResult_cases [of sha ports env scope result data u])
    case (accepted task e)
    from accepted(2) have "fenceReason task result (env_now env) = ''''" by (simp add: admissible_def)
    then show ?thesis using accepted(1) that by (elim fenceReason_ok) blast
  qed (use run in auto)
  with retiredD [OF sched_steps_retired [OF assms(1,2)]] assms(3) show False by simp
qed

text \<open>In every reachable service a completed task stays exactly as it is, result
  and recorded output included, through any later sequence of operations.\<close>

theorem completed_task_is_final:
  assumes "sched_reach sha ports e0 s" and "sched_steps sha ports s u"
    and "gm_get (sv_tasks s) k = Some t" and "t_State t = Completed"
  shows "gm_get (sv_tasks u) k = Some t \<and> gm_get (sv_outputs u) k = gm_get (sv_outputs s) k"
  using sched_steps_completed [OF assms(2) sched_reach_inv [OF assms(1)] assms(3,4)] .

text \<open>In every reachable service the accepted output of a task is there exactly
  when the task is completed, and it attests the digest of the accepted result.\<close>

theorem accepted_output_attests:
  assumes "sched_reach sha ports e0 s"
  shows "(\<exists>v. fst (AcceptedOutput scope tid s) = Inr v) =
      (\<exists>t. gm_get (sv_tasks s) (key scope tid) = Some t \<and> t_State t = Completed) \<and>
    (\<forall>out result. fst (AcceptedOutput scope tid s) = Inr (out, result) \<longrightarrow>
      OutputDigest sha out = rs_ArtifactDigest result \<and> rs_TaskID result = tid)"
proof (cases "gm_get (sv_tasks s) (key scope tid)")
  case None
  then show ?thesis by (simp add: AcceptedOutput_def)
next
  case (Some t)
  note inv = sched_reach_inv [OF assms]
  have t: "task_inv sha s (key scope tid) t" using svc_invD(2) [OF inv Some] .
  have "cr_TaskID t = tid" using task_key [OF inv Some] by simp
  with t Some show ?thesis
    by (cases "t_Result t") (auto simp: AcceptedOutput_def task_inv_def result_inv_def split: option.splits if_splits)
qed

text \<open>C24 (atomic acceptance). With the in-memory effects, a call of \<open>AcceptResult\<close> either accepts, and then
  promotes, advances and releases once each, or leaves the tasks, the outputs, the attempts, the
  dead-letter queue and all effects as they were, whichever port or injection point failed.\<close>

theorem acceptance_is_atomic:
  "let ((acc, er), s') = AcceptResult sha memory_ports env scope result data s
   in if acc_Accepted acc
      then Promoted (sv_effects s') = Promoted (sv_effects s) @ [rs_PendingObjectKey result] \<and>
           Released (sv_effects s') = Released (sv_effects s) @ [rs_PhysicalAttemptID result] \<and>
           (\<exists>t. gm_get (sv_tasks s) (key scope (rs_TaskID result)) = Some t \<and>
              Advanced (sv_effects s') = Advanced (sv_effects s) @ [cr_RunID t])
      else \<exists>ds. s' = s\<lparr>sv_diagnostics := sv_diagnostics s @ ds\<rparr>"
proof -
  obtain acc er s' where run: "AcceptResult sha memory_ports env scope result data s = ((acc, er), s')"
    by (cases "AcceptResult sha memory_ports env scope result data s") auto
  show ?thesis
  proof (cases "acc_Accepted acc")
    case False
    then show ?thesis using memp.refused_leaves_no_trace [OF run] run by simp
  next
    case True
    then show ?thesis
    proof (cases rule: AcceptResult_cases [of sha memory_ports env scope result data s])
      case (accepted task e)
      then show ?thesis using run memory_effects [OF accepted(3)] by auto
    qed (use run in auto)
  qed
qed

text \<open>C25 (exactly-once effects). Over any history of a service that starts with no effects, the promotions,
  advancements and releases that happened are exactly those of the results of its completed tasks,
  once each, and no attempt is released twice.\<close>

theorem effects_exactly_once:
  assumes "sched_reach sha memory_ports \<lparr>Promoted = [], Advanced = [], Released = []\<rparr> s"
  shows "mset (Promoted (sv_effects s)) = image_mset (rs_PendingObjectKey \<circ> snd) (mset (results (sv_tasks s))) \<and>
    mset (Advanced (sv_effects s)) = image_mset fst (mset (results (sv_tasks s))) \<and>
    mset (Released (sv_effects s)) = image_mset (rs_PhysicalAttemptID \<circ> snd) (mset (results (sv_tasks s))) \<and>
    distinct (Released (sv_effects s))"
proof -
  note inv = sched_reach_inv [OF assms]
  obtain ttl s0 where start: "New ttl \<lparr>Promoted = [], Advanced = [], Released = []\<rparr> = Some s0" "sched_steps sha memory_ports s0 s"
    using assms unfolding sched_reach_def by (elim exE conjE) (rule that)
  have "exactly_once s0"
    using start(1) by (auto simp: New_def exactly_once_def results_def split: if_splits)
  then have once: "exactly_once s" by (rule sched_steps_exactly_once [OF start(2) _ New_inv [OF start(1)]])
  have "distinct (map (rs_PhysicalAttemptID \<circ> snd) (results (sv_tasks s)))"
  proof (rule distinct_results [OF svc_invD(1) [OF inv]])
    fix k t r
    assume "gm_get (sv_tasks s) k = Some t" "t_Result t = Some r"
    then show "map_option (\<lambda>ref. key (ar_Scope ref) (ar_TaskID ref)) (gm_get (sv_attempts s) (rs_PhysicalAttemptID r)) = Some k"
      using svc_invD(2) [OF inv, of k t] by (auto simp: task_inv_def result_inv_def lease_inv_def)
  qed
  then have "distinct (Released (sv_effects s))"
    using once unfolding exactly_once_def by (metis mset_eq_imp_distinct_iff mset_map)
  with once show ?thesis by (simp add: exactly_once_def)
qed

text \<open>In every reachable service a replay changes a task only when the task is
  dead-lettered by the entry named, puts it back in the queue without a lease, and doing it again
  changes nothing.\<close>

theorem replay_requeues_once:
  assumes "sched_reach sha ports e0 s" and "ReplayDLQ scope eid s = (r, s')" and "s' \<noteq> s"
  shows "\<exists>entry t. entry \<in> set (sv_dlq s) \<and> dq_ID entry = eid \<and> \<not> dq_Replayed entry \<and>
    gm_get (sv_tasks s) (key scope (dq_TaskID entry)) = Some t \<and> t_State t = DeadLettered \<and>
    gm_get (sv_tasks s') (key scope (dq_TaskID entry)) =
      Some (t\<lparr>t_State := Queued, t_Lease := None, t_Version := t_Version t + 1\<rparr>) \<and>
    (\<forall>k. k \<noteq> key scope (dq_TaskID entry) \<longrightarrow> gm_get (sv_tasks s') k = gm_get (sv_tasks s) k) \<and>
    ReplayDLQ scope eid s' = (r, s')"
proof (cases rule: ReplayDLQ_cases [of scope eid s])
  case (replayed i task)
  let ?entry = "sv_dlq s ! i"
  have dead: "t_State task = DeadLettered"
    using svc_invD(3) [OF sched_reach_inv [OF assms(1)], unfolded dlq_inv_def, rule_format, OF replayed(2,4)]
      replayed(5) by auto
  have upd: "find_entry eid (es[j := (es ! j)\<lparr>dq_Replayed := True\<rparr>]) = find_entry eid es" for es j
    by (induction es arbitrary: j) (auto split: nat.split)
  have key: "entry_key ?entry = key scope (dq_TaskID ?entry)" using replayed(3) by (simp add: entry_key_def)
  have again: "ReplayDLQ scope eid s' = (r, s')"
    using replayed(1-3) replayed(6) [unfolded key] assms(2) by (auto simp: ReplayDLQ_def Let_def upd gm_get_put)
  show ?thesis
    using replayed assms(2) dead again find_entry_SomeD [OF replayed(1)]
    by (intro exI [of _ ?entry] exI [of _ task]) (auto simp: key gm_get_put)
qed (use assms in simp)

section \<open>A concrete history\<close>

definition scopeA :: Scope where
  "scopeA = \<lparr>WorkspaceID = ''w'', ProjectID = ''p''\<rparr>"

definition sha1 :: "string \<Rightarrow> string" where
  "sha1 s = replicate 64 CHR ''a''"

definition envA :: "time \<Rightarrow> string \<Rightarrow> Env" where
  "envA now attempt = \<lparr>env_now = now, env_attempt = Inr attempt, env_token = Inr ''0123456789abcdef'',
     env_dlq = Inr ''d1'', env_authorize = (\<lambda>_. None), env_inject = (\<lambda>_. None)\<rparr>"

definition createA :: Create where
  "createA = \<lparr>cr_Scope = scopeA, cr_TaskID = ''t'', cr_RunID = ''run'', cr_RootRunID = ''root'',
     cr_RecoveryEpoch = 0, cr_ExecutionGeneration = 1, cr_Capability = ''cap'', cr_ReservationID = ''res'',
     cr_ReservationCurrent = True, cr_PolicyAllowed = True, cr_InputDigest = OutputDigest sha1 '''',
     cr_InputObjectKey = ''in/t'', cr_CreatedAt = 1\<rparr>"

definition resultA :: Result where
  "resultA = \<lparr>rs_TaskID = ''t'', rs_RecoveryEpoch = 0, rs_ExecutionGeneration = 1, rs_PhysicalAttemptID = ''a1'',
     rs_LeaseEpoch = 1, rs_FenceToken = ''0123456789abcdef'', rs_Capability = ''cap'', rs_BuildIdentity = ''build'',
     rs_ArtifactID = ''art'', rs_ArtifactDigest = OutputDigest sha1 ''out'',
     rs_PendingObjectKey = ''pending/t/r0/g1/a1/out'', rs_CompletedAt = 15\<rparr>"

definition effects0 :: MemoryEffects where
  "effects0 = \<lparr>Promoted = [], Advanced = [], Released = []\<rparr>"

definition svc_new :: "MemoryEffects Service" where
  "svc_new = the (New 100 effects0)"

definition svc_leased :: "MemoryEffects Service" where
  "svc_leased = snd (LeaseTask (envA 10 ''a1'') scopeA ''t'' ''worker'' (snd (CreateTask (envA 5 '''') createA svc_new)))"

definition svc_reclaimed :: "MemoryEffects Service" where
  "svc_reclaimed = snd (ReclaimExpired (envA 500 '''') scopeA ''t'' svc_leased)"

definition svc_done :: "MemoryEffects Service" where
  "svc_done = snd (AcceptResult sha1 memory_ports (envA 20 '''') scopeA resultA ''out'' svc_leased)"

definition svc_dead :: "MemoryEffects Service" where
  "svc_dead = snd (DeadLetter (envA 20 '''') scopeA ''t'' ''CODE'' ''stage'' ''detail'' svc_leased)"

lemma reach_leased: "sched_reach sha1 memory_ports effects0 svc_leased"
proof -
  have new: "New 100 effects0 = Some svc_new" by (simp add: svc_new_def New_def)
  define s1 where "s1 = snd (CreateTask (envA 5 '''') createA svc_new)"
  have "sched_step sha1 memory_ports svc_new s1"
    unfolding s1_def by (rule sched_step.create [of "envA 5 ''''" createA _ "fst (CreateTask (envA 5 '''') createA svc_new)"]) simp
  moreover have "sched_step sha1 memory_ports s1 svc_leased"
    unfolding svc_leased_def s1_def [symmetric]
    by (rule sched_step.lease [of "envA 10 ''a1''" scopeA "''t''" "''worker''" _
          "fst (LeaseTask (envA 10 ''a1'') scopeA ''t'' ''worker'' s1)"]) simp
  ultimately have "sched_steps sha1 memory_ports svc_new svc_leased" by simp
  with new show ?thesis unfolding sched_reach_def by blast
qed

lemma step_done: "sched_step sha1 memory_ports svc_leased svc_done"
  unfolding svc_done_def by (rule sched_step.accept [of _ _ "envA 20 ''''" scopeA resultA "''out''" _
    "fst (AcceptResult sha1 memory_ports (envA 20 '''') scopeA resultA ''out'' svc_leased)"]) simp

lemma step_dead: "sched_step sha1 memory_ports svc_leased svc_dead"
  unfolding svc_dead_def by (rule sched_step.deadletter [of "envA 20 ''''" scopeA "''t''" "''CODE''" "''stage''" "''detail''" _
    "fst (DeadLetter (envA 20 '''') scopeA ''t'' ''CODE'' ''stage'' ''detail'' svc_leased)"]) simp

lemma reach_done: "sched_reach sha1 memory_ports effects0 svc_done"
  using sched_reach_steps [OF reach_leased] step_done by blast

lemma reach_dead: "sched_reach sha1 memory_ports effects0 svc_dead"
  using sched_reach_steps [OF reach_leased] step_dead by blast

lemma accept_done: "acc_Accepted (fst (fst (AcceptResult sha1 memory_ports (envA 20 '''') scopeA resultA ''out'' svc_leased)))"
  by code_simp

theorem accepted_result_is_current_witness:
  "\<exists>l. (\<exists>task. gm_get (sv_tasks svc_leased) (key scopeA ''t'') = Some task \<and> t_Lease task = Some l) \<and> l_LeaseEpoch l = 1"
proof -
  obtain acc er where run: "AcceptResult sha1 memory_ports (envA 20 '''') scopeA resultA ''out'' svc_leased = ((acc, er), svc_done)"
    unfolding svc_done_def by (metis prod.collapse)
  have "acc_Accepted acc" using accept_done run by simp
  from accepted_result_is_current [OF run this] show ?thesis by (auto simp: resultA_def)
qed

lemma reclaimed_retired: "retired ''a1'' svc_reclaimed"
proof -
  have "gm_get (sv_attempts svc_reclaimed) ''a1'' \<noteq> None" by code_simp
  moreover have "list_all (\<lambda>(k, t). case t_Lease t of None \<Rightarrow> True | Some l \<Rightarrow> l_PhysicalAttemptID l \<noteq> ''a1'') (sv_tasks svc_reclaimed)"
    by code_simp
  ultimately show ?thesis by (auto simp: retired_def list_all_iff dest!: map_of_SomeD)
qed

theorem superseded_attempt_is_fenced_witness:
  "\<not> acc_Accepted (fst (fst (AcceptResult sha1 memory_ports (envA 510 '''') scopeA resultA ''out''
      (snd (LeaseTask (envA 505 ''a2'') scopeA ''t'' ''worker'' svc_reclaimed)))))"
proof (rule superseded_attempt_is_fenced [OF _ reclaimed_retired])
  show "sched_steps sha1 memory_ports svc_reclaimed (snd (LeaseTask (envA 505 ''a2'') scopeA ''t'' ''worker'' svc_reclaimed))"
    by (rule r_into_rtranclp, rule sched_step.lease [of "envA 505 ''a2''" scopeA "''t''" "''worker''" _
      "fst (LeaseTask (envA 505 ''a2'') scopeA ''t'' ''worker'' svc_reclaimed)"]) simp
qed (simp add: resultA_def)

lemma done_completed: "map_option t_State (gm_get (sv_tasks svc_done) (key scopeA ''t'')) = Some Completed"
  by code_simp

theorem completed_task_is_final_witness:
  "\<exists>t. gm_get (sv_tasks (snd (DeadLetter (envA 30 '''') scopeA ''t'' ''C'' ''s'' '''' svc_done))) (key scopeA ''t'') = Some t
    \<and> t_State t = Completed"
proof -
  obtain t where t: "gm_get (sv_tasks svc_done) (key scopeA ''t'') = Some t" "t_State t = Completed"
    using done_completed by auto
  have "sched_steps sha1 memory_ports svc_done (snd (DeadLetter (envA 30 '''') scopeA ''t'' ''C'' ''s'' '''' svc_done))"
    by (rule r_into_rtranclp, rule sched_step.deadletter [of "envA 30 ''''" scopeA "''t''" "''C''" "''s''" "''''" _
      "fst (DeadLetter (envA 30 '''') scopeA ''t'' ''C'' ''s'' '''' svc_done)"]) simp
  from completed_task_is_final [OF reach_done this t] t(2) show ?thesis by blast
qed

theorem accepted_output_attests_witness:
  "\<exists>v. fst (AcceptedOutput scopeA ''t'' svc_done) = Inr v"
  using accepted_output_attests [OF reach_done, of scopeA "''t''"] done_completed by auto

theorem effects_exactly_once_witness:
  "Released (sv_effects svc_done) = [''a1''] \<and> distinct (Released (sv_effects svc_done))"
proof -
  have "Released (sv_effects svc_done) = [''a1'']" by code_simp
  with effects_exactly_once [OF reach_done [unfolded effects0_def]] show ?thesis by blast
qed

theorem replay_requeues_once_witness:
  "ReplayDLQ scopeA ''d1'' (snd (ReplayDLQ scopeA ''d1'' svc_dead)) = ReplayDLQ scopeA ''d1'' svc_dead"
proof -
  obtain r s' where run: "ReplayDLQ scopeA ''d1'' svc_dead = (r, s')" by fastforce
  have "map dq_Replayed (sv_dlq (snd (ReplayDLQ scopeA ''d1'' svc_dead))) \<noteq> map dq_Replayed (sv_dlq svc_dead)"
    by code_simp
  then have "s' \<noteq> svc_dead" using run by auto
  from replay_requeues_once [OF reach_dead run this] run show ?thesis by auto
qed

end
