(* ===== verification/Dispatch.thy ===== *)
theory Dispatch
  imports Prelude Problem
begin

text \<open>
  Logical tasks and their physical attempts (\<open>src/internal/dispatch\<close>): the vocabulary and the commit
  predicate of \<open>dispatch.go\<close>, the in-memory repository of \<open>memory.go\<close>, and the coordinator of
  \<open>coordinator.go\<close> over the \<open>Repository\<close> interface. Every method of the repository holds its lock for
  the whole body and is one step on the repository state. SHA-256 is the argument \<open>sha\<close> (the
  lower-case hex digest of a byte string); the clock and the token source of the coordinator are
  arguments of its operations, standing for what they answer during the call.
\<close>

section \<open>Vocabulary\<close>

record Scope =
  WorkspaceID :: string
  ProjectID :: string

definition Scope_Validate :: "Scope \<Rightarrow> err option" where
  "Scope_Validate s = (if WorkspaceID s = '''' \<or> ProjectID s = ''''
     then Some (Plain ''dispatch scope: workspace and project are both required'') else None)"

datatype State = Accepted | Running | Succeeded | Failed | Expired | Canceled | Superseded

primrec State_string :: "State \<Rightarrow> string" where
  "State_string Accepted = ''accepted''"
| "State_string Running = ''running''"
| "State_string Succeeded = ''succeeded''"
| "State_string Failed = ''failed''"
| "State_string Expired = ''expired''"
| "State_string Canceled = ''canceled''"
| "State_string Superseded = ''superseded''"

primrec Terminal :: "State \<Rightarrow> bool" where
  "Terminal Accepted = False"
| "Terminal Running = False"
| "Terminal Succeeded = True"
| "Terminal Failed = True"
| "Terminal Expired = True"
| "Terminal Canceled = True"
| "Terminal Superseded = True"

definition ValidTaskStatus :: "State \<Rightarrow> bool" where
  "ValidTaskStatus s \<longleftrightarrow> s \<in> {Accepted, Running, Succeeded, Failed, Expired, Canceled}"

definition ValidAttemptStatus :: "State \<Rightarrow> bool" where
  "ValidAttemptStatus s \<longleftrightarrow> s = Superseded \<or> ValidTaskStatus s"

record RuntimeBinding =
  RuntimeUnitID :: string
  RuntimeManifestDigest :: string
  RuntimeImageDigest :: string
  InvocationProtocolDigest :: string
  RuntimeAudience :: string

record Task =
  t_Scope :: Scope
  t_TaskID :: string
  t_RunID :: string
  t_RootRunID :: string
  t_ExecutionGeneration :: uint64
  t_DefinitionDigest :: string
  t_Runtime :: RuntimeBinding
  t_Capability :: string
  t_RequestDigest :: string
  t_Status :: State
  t_Attempts :: uint64
  t_LeaseEpoch :: uint64
  t_ExpiresAt :: time
  t_CreatedAt :: time
  t_UpdatedAt :: time

record Attempt =
  a_Scope :: Scope
  a_PhysicalAttemptID :: string
  a_TaskID :: string
  a_AttemptNumber :: uint64
  a_LeaseEpoch :: uint64
  a_FenceTokenDigest :: string
  a_RuntimeUnitID :: string
  a_Status :: State
  a_ResultStatementDigest :: string
  a_SignatureKeyID :: string
  a_FailureReason :: string
  a_DispatchedAt :: time
  a_StartedAt :: time
  a_FinishedAt :: time
  a_ExpiresAt :: time
  a_CreatedAt :: time
  a_UpdatedAt :: time

record Execution =
  ex_Task :: Task
  ex_Attempt :: Attempt
  ex_FenceToken :: string

record Predicate =
  p_RunID :: string
  p_TaskID :: string
  p_ExecutionGeneration :: uint64
  p_PhysicalAttemptID :: string
  p_AttemptNumber :: uint64
  p_LeaseEpoch :: uint64
  p_FenceToken :: string
  p_RuntimeUnitID :: string
  p_RuntimeManifestDigest :: string
  p_RuntimeImageDigest :: string
  p_InvocationProtocolDigest :: string

record Outcome =
  oc_Statement :: string
  oc_Status :: string
  oc_ReasonCode :: string
  oc_ResultStatementDigest :: string
  oc_SignatureKeyID :: string
  oc_Failed :: bool
  oc_ObservedAt :: time

text \<open>The empty disposition of the source, which means the result committed, is \<open>DispositionCommitted\<close>.\<close>

datatype Disposition = DispositionCommitted | DispositionDuplicate | DispositionStaleFence
  | DispositionSuperseded | DispositionTerminal | DispositionExpired | DispositionCanceled
  | DispositionUnbound

definition Committed :: "Disposition \<Rightarrow> bool" where
  "Committed d \<longleftrightarrow> d = DispositionCommitted"

record Evidence =
  ev_Scope :: Scope
  ev_TaskID :: string
  ev_RunID :: string
  ev_PhysicalAttemptID :: string
  ev_AttemptNumber :: uint64
  ev_LeaseEpoch :: uint64
  ev_ResultStatementDigest :: string
  ev_SignatureKeyID :: string
  ev_Disposition :: Disposition
  ev_Reason :: string
  ev_RecordedAt :: time

text \<open>The attempt of an unbound result is Go's zero \<open>Attempt{}\<close>, here \<open>None\<close>.\<close>

record Result =
  rs_Disposition :: Disposition
  rs_Reason :: string
  rs_Task :: Task
  rs_Attempt :: "Attempt option"

record Registration =
  rg_TaskID :: string
  rg_PhysicalAttemptID :: string
  rg_AttemptNumber :: uint64
  rg_LeaseEpoch :: uint64
  rg_ExecutionGeneration :: uint64
  rg_ResultStatementDigest :: string
  rg_SignatureKeyID :: string
  rg_Status :: string
  rg_ReasonCode :: string
  rg_Statement :: string
  rg_CommittedAt :: time

record Open =
  o_Scope :: Scope
  o_TaskID :: string
  o_FenceTokenDigest :: string
  o_RuntimeUnitID :: string
  o_SupersededReason :: string
  o_ExpiresAt :: time
  o_At :: time

record Settle =
  s_Scope :: Scope
  s_RunID :: string
  s_Predicate :: Predicate
  s_Outcome :: Outcome

definition maximumStatementBytes :: nat where
  "maximumStatementBytes = 1048576"

definition minimumFenceTokenLength :: nat where
  "minimumFenceTokenLength = 16"

section \<open>Validation\<close>

definition Digest :: "(string \<Rightarrow> string) \<Rightarrow> string \<Rightarrow> string" where
  "Digest sha value = ''sha256:'' @ sha value"

text \<open>\<open>hex.DecodeString\<close> accepts both cases.\<close>

definition validDigest :: "string \<Rightarrow> bool" where
  "validDigest value \<longleftrightarrow> length value = 71 \<and> take 7 value = ''sha256:'' \<and>
     list_all (\<lambda>c. c \<in> set ''0123456789abcdefABCDEF'') (drop 7 value)"

definition validRuntime :: "RuntimeBinding \<Rightarrow> err option" where
  "validRuntime binding =
     (if RuntimeUnitID binding = '''' then Some (Plain ''dispatch task: the pinned runtime unit is required'')
      else if \<not> validDigest (RuntimeManifestDigest binding) \<or> \<not> validDigest (RuntimeImageDigest binding)
        \<or> \<not> validDigest (InvocationProtocolDigest binding)
      then Some (Plain ''dispatch task: the pinned runtime manifest, image, and protocol digests must be sha256 digests'')
      else if RuntimeAudience binding = '''' then Some (Plain ''dispatch task: the pinned runtime audience is required'')
      else None)"

definition Task_Validate :: "Task \<Rightarrow> err option" where
  "Task_Validate t =
     (case Scope_Validate (t_Scope t) of
        Some e \<Rightarrow> Some e
      | None \<Rightarrow>
          (if t_TaskID t = '''' \<or> t_RunID t = '''' \<or> t_RootRunID t = ''''
           then Some (Plain ''dispatch task: task, run, and root run identity are all required'')
           else if t_ExecutionGeneration t = 0
           then Some (Plain ''dispatch task: an execution generation is required'')
           else if \<not> validDigest (t_DefinitionDigest t) \<or> \<not> validDigest (t_RequestDigest t)
           then Some (Plain ''dispatch task: definition and request digests must be sha256 digests'')
           else if t_Capability t = '''' then Some (Plain ''dispatch task: a capability is required'')
           else if t_ExpiresAt t = 0
           then Some (Plain ''dispatch task: an expiry is required; a task that cannot expire cannot be recovered'')
           else if \<not> ValidTaskStatus (t_Status t)
           then Some (Plain (''dispatch task: '' @ [CHR 0x22] @ State_string (t_Status t) @ [CHR 0x22] @ '' is not a task status''))
           else validRuntime (t_Runtime t)))"

definition Predicate_Validate :: "Predicate \<Rightarrow> err option" where
  "Predicate_Validate p =
     (if p_RunID p = '''' \<or> p_TaskID p = '''' \<or> p_PhysicalAttemptID p = ''''
      then Some (Plain ''commit predicate: run, task, and physical attempt identity are all required'')
      else if p_ExecutionGeneration p = 0 \<or> p_AttemptNumber p = 0 \<or> p_LeaseEpoch p = 0
      then Some (Plain ''commit predicate: generation, attempt number, and lease epoch are all required'')
      else if length (p_FenceToken p) < minimumFenceTokenLength
      then Some (Plain ''commit predicate: a fence token of at least 16 characters is required'')
      else if p_RuntimeUnitID p = '''' then Some (Plain ''commit predicate: the runtime unit is required'')
      else if \<not> validDigest (p_RuntimeManifestDigest p) \<or> \<not> validDigest (p_RuntimeImageDigest p)
        \<or> \<not> validDigest (p_InvocationProtocolDigest p)
      then Some (Plain ''commit predicate: manifest, image, and protocol digests must be sha256 digests'')
      else None)"

definition Outcome_Validate :: "Outcome \<Rightarrow> err option" where
  "Outcome_Validate v =
     (if oc_Status v = '''' then Some (Plain ''runtime outcome: a governed status is required'')
      else if oc_ReasonCode v = '''' then Some (Plain ''runtime outcome: a governed reason code is required'')
      else if \<not> validDigest (oc_ResultStatementDigest v)
      then Some (Plain ''runtime outcome: the result statement digest must be a sha256 digest'')
      else if oc_SignatureKeyID v = '''' then Some (Plain ''runtime outcome: the signing key identity is required for audit'')
      else if oc_ObservedAt v = 0 then Some (Plain ''runtime outcome: an observation time is required'')
      else if \<not> oc_Failed v \<and> oc_Statement v = ''''
      then Some (Plain ''runtime outcome: a committed outcome must carry the statement it committed'')
      else if length (oc_Statement v) > maximumStatementBytes
      then Some (Plain ''runtime outcome: the statement exceeds the bounded contract'')
      else None)"

definition ValidReasonCode :: "string \<Rightarrow> bool" where
  "ValidReasonCode value \<longleftrightarrow> 3 \<le> length value \<and> length value \<le> 64 \<and>
     (case value of [] \<Rightarrow> False
      | c # cs \<Rightarrow> is_upper c \<and> list_all (\<lambda>d. is_upper d \<or> is_digit d \<or> d = CHR ''_'') cs)"

definition ReasonReplaced :: string where
  "ReasonReplaced = ''ATTEMPT_REPLACED''"

definition ReasonDeadlineExceeded :: string where
  "ReasonDeadlineExceeded = ''ATTEMPT_DEADLINE_EXCEEDED''"

section \<open>The commit predicate\<close>

definition stale :: "string \<Rightarrow> Disposition \<times> string" where
  "stale f = (DispositionStaleFence, ''the result's '' @ f @ '' does not match the authoritative record'')"

text \<open>The first field of a list of comparisons that disagrees, as the two \<open>range\<close> loops look for it.\<close>

fun first_mismatch :: "(string \<times> 'a \<times> 'a) list \<Rightarrow> string option" where
  "first_mismatch [] = None"
| "first_mismatch ((f, wanted, observed) # cs) = (if wanted \<noteq> observed then Some f else first_mismatch cs)"

definition text_comparisons :: "(string \<Rightarrow> string) \<Rightarrow> Task \<Rightarrow> Attempt \<Rightarrow> Predicate \<Rightarrow> (string \<times> string \<times> string) list" where
  "text_comparisons sha task attempt p =
     [(''run'', t_RunID task, p_RunID p),
      (''task'', t_TaskID task, p_TaskID p),
      (''physical attempt'', a_PhysicalAttemptID attempt, p_PhysicalAttemptID p),
      (''fence token'', a_FenceTokenDigest attempt, Digest sha (p_FenceToken p)),
      (''runtime unit'', RuntimeUnitID (t_Runtime task), p_RuntimeUnitID p),
      (''runtime manifest digest'', RuntimeManifestDigest (t_Runtime task), p_RuntimeManifestDigest p),
      (''runtime image digest'', RuntimeImageDigest (t_Runtime task), p_RuntimeImageDigest p),
      (''invocation protocol digest'', InvocationProtocolDigest (t_Runtime task), p_InvocationProtocolDigest p)]"

definition number_comparisons :: "Task \<Rightarrow> Attempt \<Rightarrow> Predicate \<Rightarrow> (string \<times> uint64 \<times> uint64) list" where
  "number_comparisons task attempt p =
     [(''execution generation'', t_ExecutionGeneration task, p_ExecutionGeneration p),
      (''attempt number'', a_AttemptNumber attempt, p_AttemptNumber p),
      (''lease epoch'', a_LeaseEpoch attempt, p_LeaseEpoch p)]"

definition Evaluate :: "(string \<Rightarrow> string) \<Rightarrow> Task \<Rightarrow> Attempt \<Rightarrow> Registration option \<Rightarrow> Settle \<Rightarrow> time
    \<Rightarrow> Disposition \<times> string" where
  "Evaluate sha task attempt committed request now =
     (case committed of
        Some reg \<Rightarrow>
          (if rg_ResultStatementDigest reg = oc_ResultStatementDigest (s_Outcome request)
           then (DispositionDuplicate, ''the task already committed this result statement'')
           else (DispositionTerminal, ''the task already committed a different result statement''))
      | None \<Rightarrow>
          (if t_Status task = Canceled
           then (DispositionCanceled, ''the task's lease was revoked before the result arrived'')
           else if t_Status task = Expired
           then (DispositionExpired, ''the task expired before the result arrived'')
           else if t_Status task = Succeeded \<or> t_Status task = Failed
           then (DispositionTerminal, ''the task already reached a terminal state'')
           else if a_Status attempt = Superseded
           then (DispositionSuperseded, ''a replacement execution took the task over'')
           else if a_Status attempt = Canceled
           then (DispositionCanceled, ''the attempt's lease was revoked before the result arrived'')
           else if a_Status attempt = Expired
           then (DispositionExpired, ''the attempt expired before the result arrived'')
           else if a_Status attempt = Succeeded \<or> a_Status attempt = Failed
           then (DispositionTerminal, ''the attempt already reached a terminal state'')
           else case first_mismatch (text_comparisons sha task attempt (s_Predicate request)) of
             Some f \<Rightarrow> stale f
           | None \<Rightarrow>
               (case first_mismatch (number_comparisons task attempt (s_Predicate request)) of
                  Some f \<Rightarrow> stale f
                | None \<Rightarrow>
                    (if now > t_ExpiresAt task
                     then (DispositionExpired, ''the task's deadline passed before the result arrived'')
                     else if now > a_ExpiresAt attempt
                     then (DispositionExpired, ''the attempt's deadline passed before the result arrived'')
                     else (DispositionCommitted, '''')))))"

section \<open>The in-memory repository\<close>

record MemoryRepository =
  mr_tasks :: "Task gomap"
  mr_attempts :: "Attempt list gomap"
  mr_results :: "Registration gomap"
  mr_evidence :: "Evidence list"

definition NewMemoryRepository :: MemoryRepository where
  "NewMemoryRepository = \<lparr>mr_tasks = [], mr_attempts = [], mr_results = [], mr_evidence = []\<rparr>"

definition key :: "Scope \<Rightarrow> string \<Rightarrow> string" where
  "key scope i = scoped_key (WorkspaceID scope) (ProjectID scope) i"

definition notFound :: "string \<Rightarrow> err" where
  "notFound detail = problem_detail CodeResourceNotFound detail"

definition refused :: "string \<Rightarrow> err" where
  "refused detail = problem_detail CodeTaskDispatchDenied detail"

text \<open>\<open>m.attempts[identity]\<close>; a missing key reads as the empty slice.\<close>

definition attempts_at :: "MemoryRepository \<Rightarrow> string \<Rightarrow> Attempt list" where
  "attempts_at m identity = (case gm_get (mr_attempts m) identity of None \<Rightarrow> [] | Some as \<Rightarrow> as)"

definition work_comparisons :: "Task \<Rightarrow> Task \<Rightarrow> (string \<times> string \<times> string) list" where
  "work_comparisons existing offered =
     [(''run'', t_RunID existing, t_RunID offered),
      (''definition digest'', t_DefinitionDigest existing, t_DefinitionDigest offered),
      (''request digest'', t_RequestDigest existing, t_RequestDigest offered),
      (''runtime unit'', RuntimeUnitID (t_Runtime existing), RuntimeUnitID (t_Runtime offered)),
      (''runtime manifest digest'', RuntimeManifestDigest (t_Runtime existing), RuntimeManifestDigest (t_Runtime offered)),
      (''runtime image digest'', RuntimeImageDigest (t_Runtime existing), RuntimeImageDigest (t_Runtime offered)),
      (''capability'', t_Capability existing, t_Capability offered)]"

definition sameWork :: "Task \<Rightarrow> Task \<Rightarrow> err option" where
  "sameWork existing offered =
     (case first_mismatch (work_comparisons existing offered) of
        Some f \<Rightarrow> Some (problem_detail CodeIdempotencyKeyReused (''the task identity was reused with a different '' @ f))
      | None \<Rightarrow>
          (if t_ExecutionGeneration existing \<noteq> t_ExecutionGeneration offered
           then Some (problem_detail CodeIdempotencyKeyReused ''the task identity was reused under a different execution generation'')
           else None))"

definition mem_EnsureTask :: "Task \<Rightarrow> (MemoryRepository, err, Task) op" where
  "mem_EnsureTask task m =
     (case Task_Validate task of
        Some e \<Rightarrow> (Inl e, m)
      | None \<Rightarrow>
          (case gm_get (mr_tasks m) (key (t_Scope task) (t_TaskID task)) of
             None \<Rightarrow> (Inr task, m\<lparr>mr_tasks := gm_put (key (t_Scope task) (t_TaskID task)) task (mr_tasks m)\<rparr>)
           | Some existing \<Rightarrow>
               (case sameWork existing task of
                  Some e \<Rightarrow> (Inl e, m)
                | None \<Rightarrow> (Inr existing, m))))"

definition AttemptID :: "(string \<Rightarrow> string) \<Rightarrow> string \<Rightarrow> uint64 \<Rightarrow> string" where
  "AttemptID sha taskID number = ''attempt.'' @
     take 32 (sha (''physical-attempt'' @ [NUL] @ taskID @ [NUL] @ show_int (uint number)))"

definition is_open :: "Attempt \<Rightarrow> bool" where
  "is_open a \<longleftrightarrow> a_Status a = Accepted \<or> a_Status a = Running"

text \<open>What opening a replacement does to an attempt that is still open.\<close>

definition supersede :: "Open \<Rightarrow> Attempt \<Rightarrow> Attempt" where
  "supersede v a =
     (if \<not> is_open a then a
      else
        (let a = a\<lparr>a_Status := Superseded, a_FailureReason := o_SupersededReason v\<rparr>;
             a = (if o_At v > a_ExpiresAt a
                  then a\<lparr>a_Status := Expired, a_FailureReason := ReasonDeadlineExceeded\<rparr> else a)
         in a\<lparr>a_FinishedAt := o_At v, a_UpdatedAt := o_At v\<rparr>))"

definition opened_attempt :: "(string \<Rightarrow> string) \<Rightarrow> Open \<Rightarrow> Task \<Rightarrow> Attempt" where
  "opened_attempt sha v task =
     \<lparr>a_Scope = o_Scope v, a_PhysicalAttemptID = AttemptID sha (t_TaskID task) (t_Attempts task),
      a_TaskID = t_TaskID task, a_AttemptNumber = t_Attempts task, a_LeaseEpoch = t_LeaseEpoch task,
      a_FenceTokenDigest = o_FenceTokenDigest v, a_RuntimeUnitID = o_RuntimeUnitID v, a_Status = Accepted,
      a_ResultStatementDigest = '''', a_SignatureKeyID = '''', a_FailureReason = '''',
      a_DispatchedAt = 0, a_StartedAt = 0, a_FinishedAt = 0, a_ExpiresAt = o_ExpiresAt v,
      a_CreatedAt = o_At v, a_UpdatedAt = o_At v\<rparr>"

definition mem_OpenAttempt :: "(string \<Rightarrow> string) \<Rightarrow> Open \<Rightarrow> (MemoryRepository, err, Task \<times> Attempt) op" where
  "mem_OpenAttempt sha v m =
     (if \<not> ValidReasonCode (o_SupersededReason v)
      then (Inl (Plain ''dispatch attempt: a stable supersession reason code is required''), m)
      else
        (let identity = key (o_Scope v) (o_TaskID v)
         in case gm_get (mr_tasks m) identity of
              None \<Rightarrow> (Inl (notFound ''the task does not exist''), m)
            | Some task \<Rightarrow>
                (if Terminal (t_Status task)
                 then (Inl (refused ''the task already reached a terminal state and admits no further execution''), m)
                 else
                   (let attempts = map (supersede v) (attempts_at m identity);
                        task = task\<lparr>t_Attempts := t_Attempts task + 1, t_LeaseEpoch := t_LeaseEpoch task + 1,
                                 t_UpdatedAt := o_At v, t_ExpiresAt := o_ExpiresAt v\<rparr>;
                        opened = opened_attempt sha v task
                    in (Inr (task, opened),
                        m\<lparr>mr_tasks := gm_put identity task (mr_tasks m),
                          mr_attempts := gm_put identity (attempts @ [opened]) (mr_attempts m)\<rparr>)))))"

text \<open>The first attempt, over all tasks, with an identity and a scope; the \<open>range\<close> loops of the source.\<close>

fun find_index :: "('a \<Rightarrow> bool) \<Rightarrow> 'a list \<Rightarrow> nat option" where
  "find_index P [] = None"
| "find_index P (x # xs) = (if P x then Some 0 else map_option Suc (find_index P xs))"

fun find_attempt :: "Scope \<Rightarrow> string \<Rightarrow> Attempt list gomap \<Rightarrow> (string \<times> nat) option" where
  "find_attempt scope aid [] = None"
| "find_attempt scope aid ((k, as) # m) =
     (case find_index (\<lambda>a. a_PhysicalAttemptID a = aid \<and> a_Scope a = scope) as of
        Some i \<Rightarrow> Some (k, i)
      | None \<Rightarrow> find_attempt scope aid m)"

definition set_attempt :: "string \<Rightarrow> nat \<Rightarrow> Attempt \<Rightarrow> MemoryRepository \<Rightarrow> MemoryRepository" where
  "set_attempt identity i a m =
     m\<lparr>mr_attempts := gm_put identity ((attempts_at m identity)[i := a]) (mr_attempts m)\<rparr>"

definition mem_MarkDispatched :: "Scope \<Rightarrow> string \<Rightarrow> time \<Rightarrow> (MemoryRepository, err, unit) op" where
  "mem_MarkDispatched scope aid at m =
     (case find_attempt scope aid (mr_attempts m) of
        None \<Rightarrow> (Inl (notFound ''the attempt does not exist''), m)
      | Some (identity, i) \<Rightarrow>
          (let attempt = attempts_at m identity ! i
           in if a_Status attempt \<noteq> Accepted
              then (Inl (refused ''the attempt is no longer accepting a dispatch''), m)
              else
                (let m' = set_attempt identity i (attempt\<lparr>a_Status := Running, a_DispatchedAt := at,
                            a_StartedAt := at, a_UpdatedAt := at\<rparr>) m
                 in case gm_get (mr_tasks m) identity of
                      None \<Rightarrow> (Inr (), m')
                    | Some task \<Rightarrow>
                        (if t_Status task = Accepted
                         then (Inr (), m'\<lparr>mr_tasks := gm_put identity
                                 (task\<lparr>t_Status := Running, t_UpdatedAt := at\<rparr>) (mr_tasks m')\<rparr>)
                         else (Inr (), m')))))"

definition mem_CloseAttempt :: "Scope \<Rightarrow> string \<Rightarrow> string \<Rightarrow> time \<Rightarrow> (MemoryRepository, err, unit) op" where
  "mem_CloseAttempt scope aid reason at m =
     (if \<not> ValidReasonCode reason
      then (Inl (Plain ''dispatch attempt: a stable close reason code is required''), m)
      else case find_attempt scope aid (mr_attempts m) of
        None \<Rightarrow> (Inl (notFound ''the attempt does not exist''), m)
      | Some (identity, i) \<Rightarrow>
          (let attempt = attempts_at m identity ! i
           in if Terminal (a_Status attempt) then (Inr (), m)
              else (Inr (), set_attempt identity i (attempt\<lparr>a_Status := Failed, a_FailureReason := reason,
                              a_FinishedAt := at, a_UpdatedAt := at\<rparr>) m)))"

definition evidenceOf :: "Settle \<Rightarrow> Disposition \<Rightarrow> string \<Rightarrow> time \<Rightarrow> Evidence" where
  "evidenceOf request disposition reason at =
     \<lparr>ev_Scope = s_Scope request, ev_TaskID = p_TaskID (s_Predicate request), ev_RunID = s_RunID request,
      ev_PhysicalAttemptID = p_PhysicalAttemptID (s_Predicate request),
      ev_AttemptNumber = p_AttemptNumber (s_Predicate request), ev_LeaseEpoch = p_LeaseEpoch (s_Predicate request),
      ev_ResultStatementDigest = oc_ResultStatementDigest (s_Outcome request),
      ev_SignatureKeyID = oc_SignatureKeyID (s_Outcome request), ev_Disposition = disposition,
      ev_Reason = reason, ev_RecordedAt = at\<rparr>"

definition record_evidence :: "Evidence \<Rightarrow> MemoryRepository \<Rightarrow> MemoryRepository" where
  "record_evidence e m = m\<lparr>mr_evidence := mr_evidence m @ [e]\<rparr>"

text \<open>The part of \<open>Commit\<close> that runs for a result that does not commit.\<close>

definition expire_attempt :: "time \<Rightarrow> Attempt \<Rightarrow> Attempt" where
  "expire_attempt at a =
     (if Terminal (a_Status a) then a
      else a\<lparr>a_Status := Expired, a_FailureReason := ReasonDeadlineExceeded, a_FinishedAt := at, a_UpdatedAt := at\<rparr>)"

definition reject :: "string \<Rightarrow> nat \<Rightarrow> Task \<Rightarrow> Settle \<Rightarrow> Disposition \<Rightarrow> string \<Rightarrow> (MemoryRepository, err, Result) op" where
  "reject identity i task request disposition reason m =
     (let at = oc_ObservedAt (s_Outcome request);
          m = record_evidence (evidenceOf request disposition reason at) m
      in if disposition \<noteq> DispositionExpired
         then (Inr \<lparr>rs_Disposition = disposition, rs_Reason = reason, rs_Task = task,
                 rs_Attempt = Some (attempts_at m identity ! i)\<rparr>, m)
         else
           (let attempt = expire_attempt at (attempts_at m identity ! i);
                m = set_attempt identity i attempt m;
                lapsed = (at > t_ExpiresAt task \<and> \<not> Terminal (t_Status task));
                task = (if lapsed then task\<lparr>t_Status := Expired, t_UpdatedAt := at\<rparr> else task);
                m = (if lapsed then m\<lparr>mr_tasks := gm_put identity task (mr_tasks m)\<rparr> else m)
            in (Inr \<lparr>rs_Disposition = disposition, rs_Reason = reason, rs_Task = task,
                   rs_Attempt = Some attempt\<rparr>, m)))"

text \<open>The part of \<open>Commit\<close> that runs for a result that does.\<close>

definition settled_attempt :: "Outcome \<Rightarrow> Attempt \<Rightarrow> Attempt" where
  "settled_attempt v a =
     a\<lparr>a_Status := (if oc_Failed v then Failed else Succeeded),
       a_ResultStatementDigest := oc_ResultStatementDigest v, a_SignatureKeyID := oc_SignatureKeyID v,
       a_FailureReason := (if oc_Failed v then oc_ReasonCode v else a_FailureReason a),
       a_FinishedAt := oc_ObservedAt v, a_UpdatedAt := oc_ObservedAt v\<rparr>"

definition registration_of :: "Task \<Rightarrow> Attempt \<Rightarrow> Outcome \<Rightarrow> Registration" where
  "registration_of task attempt v =
     \<lparr>rg_TaskID = t_TaskID task, rg_PhysicalAttemptID = a_PhysicalAttemptID attempt,
      rg_AttemptNumber = a_AttemptNumber attempt, rg_LeaseEpoch = a_LeaseEpoch attempt,
      rg_ExecutionGeneration = t_ExecutionGeneration task,
      rg_ResultStatementDigest = oc_ResultStatementDigest v, rg_SignatureKeyID = oc_SignatureKeyID v,
      rg_Status = oc_Status v, rg_ReasonCode = oc_ReasonCode v, rg_Statement = oc_Statement v,
      rg_CommittedAt = oc_ObservedAt v\<rparr>"

definition settle :: "string \<Rightarrow> nat \<Rightarrow> Task \<Rightarrow> Outcome \<Rightarrow> (MemoryRepository, err, Result) op" where
  "settle identity i task v m =
     (let attempt = settled_attempt v (attempts_at m identity ! i);
          m = set_attempt identity i attempt m;
          task = task\<lparr>t_UpdatedAt := oc_ObservedAt v\<rparr>
      in if oc_Failed v
         then (Inr \<lparr>rs_Disposition = DispositionCommitted, rs_Reason = '''', rs_Task = task, rs_Attempt = Some attempt\<rparr>,
               m\<lparr>mr_tasks := gm_put identity task (mr_tasks m)\<rparr>)
         else
           (let task = task\<lparr>t_Status := Succeeded\<rparr>
            in (Inr \<lparr>rs_Disposition = DispositionCommitted, rs_Reason = '''', rs_Task = task, rs_Attempt = Some attempt\<rparr>,
                m\<lparr>mr_tasks := gm_put identity task (mr_tasks m),
                  mr_results := gm_put identity (registration_of task attempt v) (mr_results m)\<rparr>)))"

definition mem_Commit :: "(string \<Rightarrow> string) \<Rightarrow> Settle \<Rightarrow> (MemoryRepository, err, Result) op" where
  "mem_Commit sha request m =
     (let identity = key (s_Scope request) (p_TaskID (s_Predicate request))
      in case gm_get (mr_tasks m) identity of
           None \<Rightarrow> (Inl (notFound ''the task does not exist''), m)
         | Some task \<Rightarrow>
             (case find_index (\<lambda>a. a_PhysicalAttemptID a = p_PhysicalAttemptID (s_Predicate request)) (attempts_at m identity) of
                None \<Rightarrow>
                  (Inr \<lparr>rs_Disposition = DispositionUnbound, rs_Reason = ''the attempt does not exist'', rs_Task = task,
                      rs_Attempt = None\<rparr>,
                   record_evidence (evidenceOf request DispositionUnbound ''the attempt does not exist''
                      (oc_ObservedAt (s_Outcome request))) m)
              | Some i \<Rightarrow>
                  (case Evaluate sha task (attempts_at m identity ! i) (gm_get (mr_results m) identity) request
                          (oc_ObservedAt (s_Outcome request)) of
                     (disposition, reason) \<Rightarrow>
                       (if \<not> Committed disposition then reject identity i task request disposition reason m
                        else settle identity i task (s_Outcome request) m))))"

definition mem_RecordEvidence :: "Evidence \<Rightarrow> (MemoryRepository, err, unit) op" where
  "mem_RecordEvidence e m = (Inr (), record_evidence e m)"

text \<open>\<open>CancelRun\<close> visits every task once; the visit writes that task and its own attempts only.\<close>

definition cancels :: "Scope \<Rightarrow> string \<Rightarrow> Task \<Rightarrow> bool" where
  "cancels scope run t \<longleftrightarrow> t_Scope t = scope \<and> t_RunID t = run \<and> \<not> Terminal (t_Status t)"

definition cancel_attempt :: "string \<Rightarrow> time \<Rightarrow> Attempt \<Rightarrow> Attempt" where
  "cancel_attempt reason at a =
     (if is_open a then a\<lparr>a_Status := Canceled, a_FailureReason := reason, a_FinishedAt := at, a_UpdatedAt := at\<rparr> else a)"

definition mem_CancelRun :: "Scope \<Rightarrow> string \<Rightarrow> string \<Rightarrow> time \<Rightarrow> (MemoryRepository, err, nat) op" where
  "mem_CancelRun scope run reason at m =
     (if \<not> ValidReasonCode reason
      then (Inl (Plain ''dispatch cancellation: a stable reason code is required''), m)
      else
        (Inr (sum_list (map (\<lambda>(k, t). if cancels scope run t then length (filter is_open (attempts_at m k)) else 0) (mr_tasks m))),
         m\<lparr>mr_attempts := map (\<lambda>(k, as). (k, case gm_get (mr_tasks m) k of
                 None \<Rightarrow> as
               | Some t \<Rightarrow> if cancels scope run t then map (cancel_attempt reason at) as else as)) (mr_attempts m),
           mr_tasks := gm_map (\<lambda>t. if cancels scope run t then t\<lparr>t_Status := Canceled, t_UpdatedAt := at\<rparr> else t) (mr_tasks m)\<rparr>))"

definition mem_Load :: "Scope \<Rightarrow> string \<Rightarrow> (MemoryRepository, err, (Task \<times> Attempt list) option) op" where
  "mem_Load scope tid m =
     (Inr (map_option (\<lambda>t. (t, attempts_at m (key scope tid))) (gm_get (mr_tasks m) (key scope tid))), m)"

definition mem_Registration :: "Scope \<Rightarrow> string \<Rightarrow> (MemoryRepository, err, Registration option) op" where
  "mem_Registration scope tid m = (Inr (gm_get (mr_results m) (key scope tid)), m)"

section \<open>The coordinator\<close>

record 'r Repository =
  EnsureTask :: "Task \<Rightarrow> ('r, err, Task) op"
  OpenAttempt :: "Open \<Rightarrow> ('r, err, Task \<times> Attempt) op"
  MarkDispatched :: "Scope \<Rightarrow> string \<Rightarrow> time \<Rightarrow> ('r, err, unit) op"
  CloseAttempt :: "Scope \<Rightarrow> string \<Rightarrow> string \<Rightarrow> time \<Rightarrow> ('r, err, unit) op"
  Commit :: "Settle \<Rightarrow> ('r, err, Result) op"
  RecordEvidence :: "Evidence \<Rightarrow> ('r, err, unit) op"
  CancelRun :: "Scope \<Rightarrow> string \<Rightarrow> string \<Rightarrow> time \<Rightarrow> ('r, err, nat) op"
  Load :: "Scope \<Rightarrow> string \<Rightarrow> ('r, err, (Task \<times> Attempt list) option) op"
  Registered :: "Scope \<Rightarrow> string \<Rightarrow> ('r, err, Registration option) op"

definition memory_repository :: "(string \<Rightarrow> string) \<Rightarrow> MemoryRepository Repository" where
  "memory_repository sha = \<lparr>EnsureTask = mem_EnsureTask, OpenAttempt = mem_OpenAttempt sha,
     MarkDispatched = mem_MarkDispatched, CloseAttempt = mem_CloseAttempt, Commit = mem_Commit sha,
     RecordEvidence = mem_RecordEvidence, CancelRun = mem_CancelRun, Load = mem_Load, Registered = mem_Registration\<rparr>"

record Request =
  rq_Scope :: Scope
  rq_TaskID :: string
  rq_RunID :: string
  rq_RootRunID :: string
  rq_ExecutionGeneration :: uint64
  rq_DefinitionDigest :: string
  rq_Runtime :: RuntimeBinding
  rq_Capability :: string
  rq_RequestDigest :: string
  rq_Replacing :: string

record 'r Coordinator =
  c_repository :: "'r Repository"
  c_lease :: int

definition NewCoordinator :: "'r Repository \<Rightarrow> int \<Rightarrow> err + 'r Coordinator" where
  "NewCoordinator repo lease =
     (if lease \<le> 0 then Inl (Plain ''dispatch coordinator: a positive attempt lease is required'')
      else Inr \<lparr>c_repository = repo, c_lease = lease\<rparr>)"

definition requested_task :: "Request \<Rightarrow> time \<Rightarrow> time \<Rightarrow> Task" where
  "requested_task request now expiry =
     \<lparr>t_Scope = rq_Scope request, t_TaskID = rq_TaskID request, t_RunID = rq_RunID request,
      t_RootRunID = rq_RootRunID request, t_ExecutionGeneration = rq_ExecutionGeneration request,
      t_DefinitionDigest = rq_DefinitionDigest request, t_Runtime = rq_Runtime request,
      t_Capability = rq_Capability request, t_RequestDigest = rq_RequestDigest request, t_Status = Accepted,
      t_Attempts = 0, t_LeaseEpoch = 0, t_ExpiresAt = expiry, t_CreatedAt = now, t_UpdatedAt = now\<rparr>"

definition open_for :: "(string \<Rightarrow> string) \<Rightarrow> Request \<Rightarrow> Task \<Rightarrow> string \<Rightarrow> time \<Rightarrow> time \<Rightarrow> Open" where
  "open_for sha request stored token now expiry =
     \<lparr>o_Scope = rq_Scope request, o_TaskID = rq_TaskID request, o_FenceTokenDigest = Digest sha token,
      o_RuntimeUnitID = RuntimeUnitID (t_Runtime stored),
      o_SupersededReason = (if rq_Replacing request = '''' then ReasonReplaced else rq_Replacing request),
      o_ExpiresAt = expiry, o_At = now\<rparr>"

definition OpenExecution :: "(string \<Rightarrow> string) \<Rightarrow> 'r Coordinator \<Rightarrow> time \<Rightarrow> err + string \<Rightarrow> Request \<Rightarrow> ('r, err, Execution) op" where
  "OpenExecution sha c now minted request r =
     (let expiry = now + c_lease c; task = requested_task request now expiry
      in case Task_Validate task of
           Some e \<Rightarrow> (Inl e, r)
         | None \<Rightarrow> andThen (EnsureTask (c_repository c) task)
             (\<lambda>stored r. case minted of
                Inl e \<Rightarrow> (Inl e, r)
              | Inr token \<Rightarrow> andThen (OpenAttempt (c_repository c) (open_for sha request stored token now expiry))
                  (\<lambda>(openedTask, attempt) r.
                     (Inr \<lparr>ex_Task = openedTask, ex_Attempt = attempt, ex_FenceToken = token\<rparr>, r)) r) r)"

definition Dispatched :: "'r Coordinator \<Rightarrow> time \<Rightarrow> Execution \<Rightarrow> ('r, err, unit) op" where
  "Dispatched c now ex = MarkDispatched (c_repository c) (t_Scope (ex_Task ex)) (a_PhysicalAttemptID (ex_Attempt ex)) now"

definition Close :: "'r Coordinator \<Rightarrow> time \<Rightarrow> Execution \<Rightarrow> string \<Rightarrow> ('r, err, unit) op" where
  "Close c now ex reason r =
     (if \<not> ValidReasonCode reason
      then (Inl (Plain ''dispatch coordinator: a stable close reason code is required''), r)
      else CloseAttempt (c_repository c) (t_Scope (ex_Task ex)) (a_PhysicalAttemptID (ex_Attempt ex)) reason now r)"

definition SettleResult :: "'r Coordinator \<Rightarrow> Settle \<Rightarrow> ('r, err, Result) op" where
  "SettleResult c request r =
     (case Scope_Validate (s_Scope request) of
        Some e \<Rightarrow> (Inl e, r)
      | None \<Rightarrow>
          (case Predicate_Validate (s_Predicate request) of
             Some e \<Rightarrow> (Inl e, r)
           | None \<Rightarrow>
               (case Outcome_Validate (s_Outcome request) of
                  Some e \<Rightarrow> (Inl e, r)
                | None \<Rightarrow> Commit (c_repository c) request r)))"

definition Unbound :: "'r Coordinator \<Rightarrow> time \<Rightarrow> Scope \<Rightarrow> string \<Rightarrow> string \<Rightarrow> string \<Rightarrow> string \<Rightarrow> string \<Rightarrow> string
    \<Rightarrow> ('r, err, unit) op" where
  "Unbound c now scope run tid aid statementDigest keyID reason =
     RecordEvidence (c_repository c) \<lparr>ev_Scope = scope, ev_TaskID = tid, ev_RunID = run, ev_PhysicalAttemptID = aid,
       ev_AttemptNumber = 0, ev_LeaseEpoch = 0, ev_ResultStatementDigest = statementDigest, ev_SignatureKeyID = keyID,
       ev_Disposition = DispositionUnbound, ev_Reason = reason, ev_RecordedAt = now\<rparr>"

definition CancelTasks :: "'r Coordinator \<Rightarrow> time \<Rightarrow> Scope \<Rightarrow> string \<Rightarrow> string \<Rightarrow> ('r, err, nat) op" where
  "CancelTasks c now scope run reason = CancelRun (c_repository c) scope run reason now"

definition LoadTask :: "'r Coordinator \<Rightarrow> Scope \<Rightarrow> string \<Rightarrow> ('r, err, (Task \<times> Attempt list) option) op" where
  "LoadTask c scope tid = Load (c_repository c) scope tid"

definition Settled :: "'r Coordinator \<Rightarrow> Scope \<Rightarrow> string \<Rightarrow> ('r, err, Registration option) op" where
  "Settled c scope tid = Registered (c_repository c) scope tid"

definition TaskID :: "(string \<Rightarrow> string) \<Rightarrow> string \<Rightarrow> string" where
  "TaskID sha operationKey = ''task.'' @ take 32 (sha (''agent-task'' @ [NUL] @ operationKey))"

section \<open>Histories of attempts\<close>

lemma Terminal_is_open: "Terminal (a_Status a) \<longleftrightarrow> \<not> is_open a"
  by (cases "a_Status a") (simp_all add: is_open_def)

text \<open>
  \<open>history as bs\<close>: the attempt list \<open>bs\<close> is a later one of the same task as \<open>as\<close>. Identities stay
  where they are, and an attempt that has ended is never written again.
\<close>

definition history :: "Attempt list \<Rightarrow> Attempt list \<Rightarrow> bool" where
  "history as bs \<longleftrightarrow> length as \<le> length bs \<and>
     (\<forall>i < length as. a_PhysicalAttemptID (bs ! i) = a_PhysicalAttemptID (as ! i) \<and>
        (\<not> is_open (as ! i) \<longrightarrow> bs ! i = as ! i))"

lemma history_refl [simp]: "history as as"
  by (simp add: history_def)

lemma history_trans:
  assumes "history as bs" and "history bs cs"
  shows "history as cs"
  unfolding history_def
proof (intro conjI allI impI)
  show "length as \<le> length cs" using assms by (simp add: history_def)
  fix i
  assume i: "i < length as"
  then have "i < length bs" using assms(1) by (simp add: history_def)
  with i assms show "a_PhysicalAttemptID (cs ! i) = a_PhysicalAttemptID (as ! i)" by (simp add: history_def)
  assume "\<not> is_open (as ! i)"
  with i assms(1) have "bs ! i = as ! i" by (simp add: history_def)
  with \<open>\<not> is_open (as ! i)\<close> \<open>i < length bs\<close> assms(2) show "cs ! i = as ! i" by (simp add: history_def)
qed

lemma history_map:
  assumes "\<And>a. a_PhysicalAttemptID (f a) = a_PhysicalAttemptID a" and "\<And>a. \<not> is_open a \<Longrightarrow> f a = a"
  shows "history as (map f as)" and "history as (map f as @ bs)"
  using assms by (simp_all add: history_def nth_append)

lemma history_update:
  assumes "a_PhysicalAttemptID a = a_PhysicalAttemptID (as ! i)" and "\<not> is_open (as ! i) \<Longrightarrow> a = as ! i"
  shows "history as (as[i := a])"
  using assms by (cases "i < length as") (auto simp: history_def nth_list_update)

text \<open>Only the newest attempt of a task can be open.\<close>

definition open_last :: "Attempt list \<Rightarrow> bool" where
  "open_last as \<longleftrightarrow> list_all (\<lambda>a. \<not> is_open a) (butlast as)"

lemma open_last_append: "list_all (\<lambda>a. \<not> is_open a) as \<Longrightarrow> open_last (as @ [a])"
  by (simp add: open_last_def)

lemma open_last_map: "open_last as \<Longrightarrow> (\<And>a. is_open (f a) \<Longrightarrow> is_open a) \<Longrightarrow> open_last (map f as)"
  by (auto simp: open_last_def list_all_iff map_butlast [symmetric])

lemma open_last_update:
  assumes "open_last as" and "is_open a \<Longrightarrow> is_open (as ! i)"
  shows "open_last (as[i := a])"
proof (cases "i < length as - 1")
  case True
  then have "\<not> is_open (as ! i)"
    using assms(1) by (metis open_last_def list_all_length length_butlast nth_butlast)
  then show ?thesis
    using assms by (auto simp: open_last_def butlast_list_update list_all_iff dest!: set_update_subset_insert [THEN subsetD])
next
  case False
  then show ?thesis using assms(1) by (simp add: open_last_def butlast_list_update list_update_beyond)
qed

lemma open_last_nth:
  assumes "open_last as" and "i < length as" and "is_open (as ! i)"
  shows "as ! i = last as \<and> Suc i = length as"
proof -
  have "\<not> i < length (butlast as)"
    using assms by (auto simp: open_last_def list_all_length nth_butlast)
  then have e: "length as = Suc i" using assms(2) by simp
  moreover have "as \<noteq> []" using assms(2) by auto
  ultimately show ?thesis by (simp add: last_conv_nth)
qed

lemma find_index_SomeD: "find_index P xs = Some i \<Longrightarrow> i < length xs \<and> P (xs ! i)"
  by (induction xs arbitrary: i) (auto split: if_splits)

lemma find_index_None: "find_index P xs = None \<longleftrightarrow> (\<forall>x \<in> set xs. \<not> P x)"
  by (induction xs) auto

lemma find_index_last:
  "(\<And>x. x \<in> set xs \<Longrightarrow> \<not> P x) \<Longrightarrow> P y \<Longrightarrow> find_index P (xs @ [y]) = Some (length xs)"
  by (induction xs) auto

lemma find_attempt_SomeD:
  assumes "find_attempt scope aid m = Some (k, i)" and "gm_ok m"
  shows "\<exists>as. gm_get m k = Some as \<and> i < length as \<and> a_PhysicalAttemptID (as ! i) = aid \<and> a_Scope (as ! i) = scope"
  using assms
proof (induction scope aid m rule: find_attempt.induct)
  case (2 scope aid k' as m)
  show ?case
  proof (cases "find_index (\<lambda>a. a_PhysicalAttemptID a = aid \<and> a_Scope a = scope) as")
    case None
    then obtain bs where bs: "gm_get m k = Some bs" "i < length bs" "a_PhysicalAttemptID (bs ! i) = aid" "a_Scope (bs ! i) = scope"
      using 2 by (auto simp: gm_ok_def)
    then have "k \<noteq> k'" using 2(3) by (force simp: gm_ok_def dest: map_of_SomeD)
    with bs show ?thesis by simp
  next
    case (Some j)
    then show ?thesis using 2(2) find_index_SomeD [OF Some] by auto
  qed
qed simp

lemma attempts_at_set [simp]:
  "attempts_at (set_attempt k i a m) k' = (if k = k' then (attempts_at m k)[i := a] else attempts_at m k')"
  by (simp add: attempts_at_def set_attempt_def gm_get_put)

lemma set_attempt_simps [simp]:
  "mr_tasks (set_attempt k i a m) = mr_tasks m" "mr_results (set_attempt k i a m) = mr_results m"
  "mr_evidence (set_attempt k i a m) = mr_evidence m"
  "gm_ok (mr_attempts m) \<Longrightarrow> gm_ok (mr_attempts (set_attempt k i a m))"
  by (simp_all add: set_attempt_def gm_ok_put)

lemma attempts_at_other [simp]:
  "attempts_at (m\<lparr>mr_tasks := x\<rparr>) k = attempts_at m k" "attempts_at (m\<lparr>mr_results := y\<rparr>) k = attempts_at m k"
  "attempts_at (m\<lparr>mr_evidence := z\<rparr>) k = attempts_at m k"
  by (simp_all add: attempts_at_def)

lemma record_evidence_simps [simp]:
  "mr_tasks (record_evidence e m) = mr_tasks m" "mr_attempts (record_evidence e m) = mr_attempts m"
  "mr_results (record_evidence e m) = mr_results m" "attempts_at (record_evidence e m) k = attempts_at m k"
  "mr_evidence (record_evidence e m) = mr_evidence m @ [e]"
  by (simp_all add: record_evidence_def)

text \<open>The four ways an attempt is written; each keeps the identities and touches open attempts only.\<close>

lemma supersede_simps [simp]:
  "a_PhysicalAttemptID (supersede v a) = a_PhysicalAttemptID a" "\<not> is_open (supersede v a)"
  "\<not> is_open a \<Longrightarrow> supersede v a = a" "a_TaskID (supersede v a) = a_TaskID a"
  by (auto simp: supersede_def Let_def is_open_def)

lemma cancel_attempt_simps [simp]:
  "a_PhysicalAttemptID (cancel_attempt r at a) = a_PhysicalAttemptID a" "\<not> is_open (cancel_attempt r at a)"
  "\<not> is_open a \<Longrightarrow> cancel_attempt r at a = a" "a_TaskID (cancel_attempt r at a) = a_TaskID a"
  "a_LeaseEpoch (cancel_attempt r at a) = a_LeaseEpoch a" "a_AttemptNumber (cancel_attempt r at a) = a_AttemptNumber a"
  by (auto simp: cancel_attempt_def is_open_def)

lemma expire_attempt_simps [simp]:
  "a_PhysicalAttemptID (expire_attempt at a) = a_PhysicalAttemptID a" "\<not> is_open (expire_attempt at a)"
  "\<not> is_open a \<Longrightarrow> expire_attempt at a = a" "a_TaskID (expire_attempt at a) = a_TaskID a"
  "a_LeaseEpoch (expire_attempt at a) = a_LeaseEpoch a" "a_AttemptNumber (expire_attempt at a) = a_AttemptNumber a"
  by (auto simp: expire_attempt_def is_open_def Terminal_is_open)

lemma settled_attempt_simps [simp]:
  "a_PhysicalAttemptID (settled_attempt v a) = a_PhysicalAttemptID a" "\<not> is_open (settled_attempt v a)"
  "a_TaskID (settled_attempt v a) = a_TaskID a" "a_LeaseEpoch (settled_attempt v a) = a_LeaseEpoch a"
  "a_AttemptNumber (settled_attempt v a) = a_AttemptNumber a"
  by (auto simp: settled_attempt_def is_open_def)

section \<open>Invariant\<close>

text \<open>
  Only the newest attempt of a task can be open, and it carries the attempt number and the lease
  epoch the task has now; every attempt belongs to its task; a registered result belongs to a task that
  succeeded, and to an attempt of it that ended with exactly that statement.
\<close>

definition current_of :: "Task \<Rightarrow> Attempt list \<Rightarrow> bool" where
  "current_of t as \<longleftrightarrow> as \<noteq> [] \<longrightarrow> a_LeaseEpoch (last as) = t_LeaseEpoch t \<and> a_AttemptNumber (last as) = t_Attempts t"

definition attempts_inv :: "Task gomap \<Rightarrow> string \<Rightarrow> Attempt list \<Rightarrow> bool" where
  "attempts_inv tasks k as \<longleftrightarrow> open_last as \<and> (\<exists>t. gm_get tasks k = Some t \<and> current_of t as)"

definition result_inv :: "MemoryRepository \<Rightarrow> string \<Rightarrow> Registration \<Rightarrow> bool" where
  "result_inv m k rg \<longleftrightarrow> (\<exists>t. gm_get (mr_tasks m) k = Some t \<and> t_Status t = Succeeded) \<and>
     (\<exists>i < length (attempts_at m k). let a = attempts_at m k ! i in a_Status a = Succeeded \<and>
        a_PhysicalAttemptID a = rg_PhysicalAttemptID rg \<and> a_ResultStatementDigest a = rg_ResultStatementDigest rg \<and>
        a_LeaseEpoch a = rg_LeaseEpoch rg \<and> a_AttemptNumber a = rg_AttemptNumber rg)"

definition task_ok :: "string \<Rightarrow> Task \<Rightarrow> bool" where
  "task_ok k t \<longleftrightarrow> t_Status t \<noteq> Superseded \<and> k = key (t_Scope t) (t_TaskID t)"

definition disp_inv :: "MemoryRepository \<Rightarrow> bool" where
  "disp_inv m \<longleftrightarrow> gm_ok (mr_tasks m) \<and> gm_ok (mr_attempts m) \<and>
     gm_all task_ok (mr_tasks m) \<and>
     (\<forall>k. attempts_at m k \<noteq> [] \<longrightarrow> attempts_inv (mr_tasks m) k (attempts_at m k)) \<and>
     gm_all (result_inv m) (mr_results m)"

lemma disp_invD:
  assumes "disp_inv m"
  shows "gm_ok (mr_tasks m)" "gm_ok (mr_attempts m)" "open_last (attempts_at m k)"
    "gm_get (mr_tasks m) k = Some t \<Longrightarrow> current_of t (attempts_at m k)"
    "attempts_at m k \<noteq> [] \<Longrightarrow> gm_get (mr_tasks m) k \<noteq> None"
    "gm_get (mr_results m) k = Some rg \<Longrightarrow> result_inv m k rg"
    "gm_get (mr_tasks m) k = Some t \<Longrightarrow> task_ok k t"
  using assms
  by (cases "attempts_at m k = []"; auto simp: disp_inv_def attempts_inv_def open_last_def current_of_def gm_all_def)+

text \<open>
  A step writes the task and the attempts under one key. What has to be checked there, and the
  registered results of that key, are what is left of the invariant.
\<close>

lemma disp_inv_write:
  assumes inv: "disp_inv m"
    and "gm_ok (mr_tasks m')" and "gm_ok (mr_attempts m')"
    and others: "\<And>k'. k' \<noteq> k \<Longrightarrow> gm_get (mr_tasks m') k' = gm_get (mr_tasks m) k' \<and> attempts_at m' k' = attempts_at m k'
      \<and> gm_get (mr_results m') k' = gm_get (mr_results m) k'"
    and status: "\<And>t. gm_get (mr_tasks m') k = Some t \<Longrightarrow> task_ok k t"
    and here: "attempts_at m' k \<noteq> [] \<Longrightarrow> attempts_inv (mr_tasks m') k (attempts_at m' k)"
    and res: "\<And>rg. gm_get (mr_results m') k = Some rg \<Longrightarrow> result_inv m' k rg"
  shows "disp_inv m'"
proof -
  have "attempts_inv (mr_tasks m') k' (attempts_at m' k')" if "attempts_at m' k' \<noteq> []" for k'
    using that inv others [of k'] here by (cases "k' = k") (auto simp: disp_inv_def attempts_inv_def)
  moreover have "result_inv m' k' rg" if "gm_get (mr_results m') k' = Some rg" for k' rg
    using that disp_invD(6) [OF inv, of k' rg] others [of k'] res by (cases "k' = k") (auto simp: result_inv_def)
  moreover have "task_ok k' t" if "gm_get (mr_tasks m') k' = Some t" for k' t
    using that disp_invD(7) [OF inv, of k' t] others [of k'] status by (cases "k' = k") auto
  ultimately show ?thesis using assms(2,3) by (simp add: disp_inv_def gm_all_def)
qed

lemma result_inv_history:
  assumes "result_inv m k rg" and "history (attempts_at m k) (attempts_at m' k)"
    and "\<And>t. gm_get (mr_tasks m) k = Some t \<Longrightarrow> t_Status t = Succeeded \<Longrightarrow>
      \<exists>t'. gm_get (mr_tasks m') k = Some t' \<and> t_Status t' = Succeeded"
  shows "result_inv m' k rg"
proof -
  obtain t i where t: "gm_get (mr_tasks m) k = Some t" "t_Status t = Succeeded"
    and i: "i < length (attempts_at m k)" "a_Status (attempts_at m k ! i) = Succeeded"
      "a_PhysicalAttemptID (attempts_at m k ! i) = rg_PhysicalAttemptID rg"
      "a_ResultStatementDigest (attempts_at m k ! i) = rg_ResultStatementDigest rg"
      "a_LeaseEpoch (attempts_at m k ! i) = rg_LeaseEpoch rg" "a_AttemptNumber (attempts_at m k ! i) = rg_AttemptNumber rg"
    using assms(1) by (auto simp: result_inv_def Let_def)
  have "attempts_at m' k ! i = attempts_at m k ! i" "i < length (attempts_at m' k)"
    using assms(2) i(1,2) by (auto simp: history_def is_open_def)
  with i assms(3) [OF t] show ?thesis by (auto simp: result_inv_def Let_def)
qed

lemma result_task: "disp_inv m \<Longrightarrow> gm_get (mr_results m) k = Some rg \<Longrightarrow>
    \<exists>t. gm_get (mr_tasks m) k = Some t \<and> t_Status t = Succeeded"
  using disp_invD(6) unfolding result_inv_def by blast

text \<open>One attempt is written in place.\<close>

lemma disp_inv_set_attempt:
  assumes inv: "disp_inv m" and i: "i < length (attempts_at m k)"
    and a: "a_PhysicalAttemptID a = a_PhysicalAttemptID (attempts_at m k ! i)"
      "\<not> is_open (attempts_at m k ! i) \<Longrightarrow> a = attempts_at m k ! i"
      "a_LeaseEpoch a = a_LeaseEpoch (attempts_at m k ! i)" "a_AttemptNumber a = a_AttemptNumber (attempts_at m k ! i)"
  shows "disp_inv (set_attempt k i a m)" and "history (attempts_at m k') (attempts_at (set_attempt k i a m) k')"
proof -
  show hist: "history (attempts_at m k') (attempts_at (set_attempt k i a m) k')" for k'
    using history_update [OF a(1,2)] by auto
  let ?as = "attempts_at m k"
  have op: "is_open a \<Longrightarrow> is_open (?as ! i)" using a(2) by metis
  obtain t where t: "gm_get (mr_tasks m) k = Some t" "current_of t ?as"
    using disp_invD(4,5) [OF inv, of k] i by fastforce
  have "last (?as[i := a]) = (if Suc i = length ?as then a else last ?as)"
    using i last_list_update [of ?as i a] by (cases "?as = []") auto
  moreover have "Suc i = length ?as \<Longrightarrow> last ?as = ?as ! i"
    using i by (metis diff_Suc_1 last_conv_nth list.size(3) not_less_zero)
  ultimately have "current_of t (?as[i := a])"
    using t(2) a(3,4) i by (auto simp: current_of_def)
  then have "attempts_inv (mr_tasks m) k (?as[i := a])"
    using t open_last_update [OF disp_invD(3) [OF inv] op] by (auto simp: attempts_inv_def)
  moreover have "result_inv (set_attempt k i a m) k rg" if "gm_get (mr_results m) k = Some rg" for rg
    by (rule result_inv_history [OF disp_invD(6) [OF inv that] hist]) simp
  ultimately show "disp_inv (set_attempt k i a m)"
    using disp_invD(1,2,7) [OF inv] by (intro disp_inv_write [OF inv, where k = k]) auto
qed

text \<open>A task is written; its attempts are not.\<close>

lemma disp_inv_set_task:
  assumes inv: "disp_inv m" and old: "gm_get (mr_tasks m) k = Some old"
    and t: "t_LeaseEpoch t = t_LeaseEpoch old" "t_Attempts t = t_Attempts old" "t_Status old = Succeeded \<Longrightarrow> t_Status t = Succeeded"
      "t_Status t \<noteq> Superseded" "t_Scope t = t_Scope old" "t_TaskID t = t_TaskID old"
  shows "disp_inv (m\<lparr>mr_tasks := gm_put k t (mr_tasks m)\<rparr>)"
proof (rule disp_inv_write [OF inv, where k = k])
  show "gm_ok (mr_tasks (m\<lparr>mr_tasks := gm_put k t (mr_tasks m)\<rparr>))" "gm_ok (mr_attempts (m\<lparr>mr_tasks := gm_put k t (mr_tasks m)\<rparr>))"
    using disp_invD(1,2) [OF inv] by (simp_all add: gm_ok_put)
  show "attempts_inv (mr_tasks (m\<lparr>mr_tasks := gm_put k t (mr_tasks m)\<rparr>)) k (attempts_at (m\<lparr>mr_tasks := gm_put k t (mr_tasks m)\<rparr>) k)"
    using disp_invD(3,4) [OF inv] old t by (auto simp: attempts_inv_def gm_get_put current_of_def)
  fix rg
  assume "gm_get (mr_results (m\<lparr>mr_tasks := gm_put k t (mr_tasks m)\<rparr>)) k = Some rg"
  then have "result_inv m k rg" using disp_invD(6) [OF inv] by simp
  then show "result_inv (m\<lparr>mr_tasks := gm_put k t (mr_tasks m)\<rparr>) k rg"
    by (rule result_inv_history) (use old t(3) in \<open>simp_all add: gm_get_put\<close>)
qed (use disp_invD(7) [OF inv old] t(4-6) in \<open>auto simp: gm_get_put task_ok_def\<close>)

lemma disp_inv_record_evidence: "disp_inv m \<Longrightarrow> disp_inv (record_evidence e m)"
  by (simp add: disp_inv_def result_inv_def [abs_def])

section \<open>Every operation keeps the invariant and the history\<close>

text \<open>What a step may do: keep the invariant, extend the histories, and never touch a registered result.\<close>

definition disp_le :: "MemoryRepository \<Rightarrow> MemoryRepository \<Rightarrow> bool" where
  "disp_le m m' \<longleftrightarrow> (\<forall>k. history (attempts_at m k) (attempts_at m' k)) \<and>
     (\<forall>k rg. gm_get (mr_results m) k = Some rg \<longrightarrow> gm_get (mr_results m') k = Some rg) \<and>
     (\<forall>k t. gm_get (mr_tasks m) k = Some t \<longrightarrow> (\<exists>t'. gm_get (mr_tasks m') k = Some t' \<and>
        (Terminal (t_Status t) \<longrightarrow> t' = t)))"

lemma disp_leI:
  assumes "\<And>k. history (attempts_at m k) (attempts_at m' k)"
    and "\<And>k rg. gm_get (mr_results m) k = Some rg \<Longrightarrow> gm_get (mr_results m') k = Some rg"
    and "\<And>k t. gm_get (mr_tasks m) k = Some t \<Longrightarrow>
      \<exists>t'. gm_get (mr_tasks m') k = Some t' \<and> (Terminal (t_Status t) \<longrightarrow> t' = t)"
  shows "disp_le m m'"
  using assms by (simp add: disp_le_def)

lemma disp_leD:
  "disp_le m m' \<Longrightarrow> history (attempts_at m k) (attempts_at m' k)"
  "disp_le m m' \<Longrightarrow> gm_get (mr_results m) k = Some rg \<Longrightarrow> gm_get (mr_results m') k = Some rg"
  "disp_le m m' \<Longrightarrow> gm_get (mr_tasks m) k = Some t \<Longrightarrow> \<exists>t'. gm_get (mr_tasks m') k = Some t' \<and> (Terminal (t_Status t) \<longrightarrow> t' = t)"
  by (simp_all add: disp_le_def)

lemma disp_le_refl [simp]: "disp_le m m"
  by (simp add: disp_le_def)

lemma disp_le_trans:
  assumes "disp_le m m'" and "disp_le m' m''"
  shows "disp_le m m''"
proof (rule disp_leI)
  show "history (attempts_at m k) (attempts_at m'' k)" for k
    using history_trans disp_leD(1) [OF assms(1)] disp_leD(1) [OF assms(2)] by blast
  show "gm_get (mr_results m'') k = Some rg" if "gm_get (mr_results m) k = Some rg" for k rg
    using disp_leD(2) [OF assms(2) disp_leD(2) [OF assms(1) that]] .
  show "\<exists>t''. gm_get (mr_tasks m'') k = Some t'' \<and> (Terminal (t_Status t) \<longrightarrow> t'' = t)"
    if "gm_get (mr_tasks m) k = Some t" for k t
    using disp_leD(3) [OF assms(1) that] disp_leD(3) [OF assms(2)] by metis
qed

definition good_step :: "MemoryRepository \<Rightarrow> MemoryRepository \<Rightarrow> bool" where
  "good_step m m' \<longleftrightarrow> disp_inv m' \<and> disp_le m m'"

lemma good_step_refl: "disp_inv m \<Longrightarrow> good_step m m"
  by (simp add: good_step_def)

lemma good_step_trans: "good_step m m' \<Longrightarrow> good_step m' m'' \<Longrightarrow> good_step m m''"
  by (auto simp: good_step_def intro: disp_le_trans)

lemma good_step_evidence: "disp_inv m \<Longrightarrow> good_step m (record_evidence e m)"
  by (simp add: good_step_def disp_inv_record_evidence disp_le_def)

lemma good_step_set_attempt:
  assumes "disp_inv m" and "i < length (attempts_at m k)"
    and "a_PhysicalAttemptID a = a_PhysicalAttemptID (attempts_at m k ! i)"
      "\<not> is_open (attempts_at m k ! i) \<Longrightarrow> a = attempts_at m k ! i"
      "a_LeaseEpoch a = a_LeaseEpoch (attempts_at m k ! i)" "a_AttemptNumber a = a_AttemptNumber (attempts_at m k ! i)"
  shows "good_step m (set_attempt k i a m)"
  using disp_inv_set_attempt [OF assms] by (simp add: good_step_def disp_le_def)

lemma good_step_set_task:
  assumes "disp_inv m" and "gm_get (mr_tasks m) k = Some old" and "\<not> Terminal (t_Status old)"
    and "t_LeaseEpoch t = t_LeaseEpoch old" and "t_Attempts t = t_Attempts old" and "t_Status t \<noteq> Superseded"
    and "t_Scope t = t_Scope old" and "t_TaskID t = t_TaskID old"
  shows "good_step m (m\<lparr>mr_tasks := gm_put k t (mr_tasks m)\<rparr>)"
proof -
  have "t_Status old \<noteq> Succeeded" using assms(3) by auto
  with disp_inv_set_task [OF assms(1,2,4,5) _ assms(6-8)] assms show ?thesis
    by (auto simp: good_step_def disp_le_def gm_get_put)
qed

lemma mem_EnsureTask_step: "disp_inv m \<Longrightarrow> good_step m (snd (mem_EnsureTask task m))"
proof -
  assume inv: "disp_inv m"
  let ?k = "key (t_Scope task) (t_TaskID task)"
  show ?thesis
  proof (cases "snd (mem_EnsureTask task m) = m")
    case True
    with good_step_refl [OF inv] show ?thesis by simp
  next
    case False
    then have none: "gm_get (mr_tasks m) ?k = None"
      and new: "snd (mem_EnsureTask task m) = m\<lparr>mr_tasks := gm_put ?k task (mr_tasks m)\<rparr>"
      by (auto simp: mem_EnsureTask_def split: option.splits)
    have "attempts_at m ?k = []" using disp_invD(5) [OF inv] none by blast
    moreover have "gm_get (mr_results m) ?k = None"
      using result_task [OF inv, of ?k] none by (cases "gm_get (mr_results m) ?k") auto
    moreover have "task_ok ?k task"
      using False by (auto simp: task_ok_def mem_EnsureTask_def Task_Validate_def ValidTaskStatus_def split: option.splits if_splits)
    ultimately have "disp_inv (m\<lparr>mr_tasks := gm_put ?k task (mr_tasks m)\<rparr>)"
      using disp_invD(1,2) [OF inv] by (intro disp_inv_write [OF inv, where k = ?k]) (auto simp: gm_ok_put gm_get_put)
    then show ?thesis using none by (auto simp: new good_step_def disp_le_def gm_get_put)
  qed
qed

lemma mem_OpenAttempt_cases:
  obtains (same) er where "mem_OpenAttempt sha v m = (Inl er, m)"
  | (opened) old t a where "gm_get (mr_tasks m) (key (o_Scope v) (o_TaskID v)) = Some old" "\<not> Terminal (t_Status old)"
      "ValidReasonCode (o_SupersededReason v)"
      "t = old\<lparr>t_Attempts := t_Attempts old + 1, t_LeaseEpoch := t_LeaseEpoch old + 1,
         t_UpdatedAt := o_At v, t_ExpiresAt := o_ExpiresAt v\<rparr>" "a = opened_attempt sha v t"
      "mem_OpenAttempt sha v m = (Inr (t, a), m\<lparr>mr_tasks := gm_put (key (o_Scope v) (o_TaskID v)) t (mr_tasks m),
         mr_attempts := gm_put (key (o_Scope v) (o_TaskID v))
           (map (supersede v) (attempts_at m (key (o_Scope v) (o_TaskID v))) @ [a]) (mr_attempts m)\<rparr>)"
proof (cases "\<exists>er. mem_OpenAttempt sha v m = (Inl er, m)")
  case True
  then show ?thesis using same by blast
next
  case False
  have "ValidReasonCode (o_SupersededReason v)"
  proof (rule ccontr)
    assume "\<not> ValidReasonCode (o_SupersededReason v)"
    then have "mem_OpenAttempt sha v m = (Inl (Plain ''dispatch attempt: a stable supersession reason code is required''), m)"
      by (simp add: mem_OpenAttempt_def)
    with False show False by blast
  qed
  with False obtain old where "gm_get (mr_tasks m) (key (o_Scope v) (o_TaskID v)) = Some old" "\<not> Terminal (t_Status old)"
    by (auto simp: mem_OpenAttempt_def Let_def split: option.splits if_splits)
  with \<open>ValidReasonCode (o_SupersededReason v)\<close> show ?thesis
    using opened by (simp add: mem_OpenAttempt_def Let_def)
qed

lemma opened_attempt_simps [simp]:
  "a_LeaseEpoch (opened_attempt sha v t) = t_LeaseEpoch t" "a_AttemptNumber (opened_attempt sha v t) = t_Attempts t"
  "is_open (opened_attempt sha v t)" "a_PhysicalAttemptID (opened_attempt sha v t) = AttemptID sha (t_TaskID t) (t_Attempts t)"
  "a_ExpiresAt (opened_attempt sha v t) = o_ExpiresAt v" "a_FenceTokenDigest (opened_attempt sha v t) = o_FenceTokenDigest v"
  "a_Status (opened_attempt sha v t) = Accepted" "a_RuntimeUnitID (opened_attempt sha v t) = o_RuntimeUnitID v"
  by (simp_all add: opened_attempt_def is_open_def)

lemma mem_OpenAttempt_step:
  assumes inv: "disp_inv m"
  shows "good_step m (snd (mem_OpenAttempt sha v m))"
proof (cases rule: mem_OpenAttempt_cases [of sha v m])
  case (opened old t a)
  let ?k = "key (o_Scope v) (o_TaskID v)"
  let ?m = "m\<lparr>mr_tasks := gm_put ?k t (mr_tasks m),
         mr_attempts := gm_put ?k (map (supersede v) (attempts_at m ?k) @ [a]) (mr_attempts m)\<rparr>"
  have at: "attempts_at ?m k' = (if k' = ?k then map (supersede v) (attempts_at m ?k) @ [a] else attempts_at m k')" for k'
    by (simp add: attempts_at_def gm_get_put)
  have none: "gm_get (mr_results m) ?k = None"
    using result_task [OF inv, of ?k] opened(1,2) by (cases "gm_get (mr_results m) ?k") auto
  have st: "task_ok ?k t" using disp_invD(7) [OF inv opened(1)] opened(4) by (simp add: task_ok_def)
  have "attempts_inv (mr_tasks ?m) ?k (attempts_at ?m ?k)"
    using at [of ?k] by (simp add: attempts_inv_def open_last_append list_all_iff gm_get_put current_of_def opened(5))
  then have "disp_inv ?m"
    using disp_invD(1,2) [OF inv] st none
    by (intro disp_inv_write [OF inv, where k = ?k]) (auto simp: gm_ok_put gm_get_put at)
  moreover have "disp_le m ?m"
    using opened(1,2) by (intro disp_leI) (auto simp: at history_map gm_get_put)
  ultimately show ?thesis by (simp add: opened(6) good_step_def)
qed (simp add: good_step_refl [OF inv])

lemma find_attempt_at:
  assumes "disp_inv m" and "find_attempt scope aid (mr_attempts m) = Some (k, i)"
  shows "i < length (attempts_at m k) \<and> a_PhysicalAttemptID (attempts_at m k ! i) = aid \<and> a_Scope (attempts_at m k ! i) = scope"
  using find_attempt_SomeD [OF assms(2) disp_invD(2) [OF assms(1)]] by (auto simp: attempts_at_def)

lemma mem_MarkDispatched_step:
  assumes inv: "disp_inv m"
  shows "good_step m (snd (mem_MarkDispatched scope aid at m))"
proof (cases "find_attempt scope aid (mr_attempts m)")
  case None
  then show ?thesis by (simp add: mem_MarkDispatched_def good_step_refl [OF inv])
next
  case (Some ki)
  then obtain k i where ki: "find_attempt scope aid (mr_attempts m) = Some (k, i)" by (cases ki) auto
  note found = find_attempt_at [OF inv ki]
  let ?a = "attempts_at m k ! i"
  let ?m = "set_attempt k i (?a\<lparr>a_Status := Running, a_DispatchedAt := at, a_StartedAt := at, a_UpdatedAt := at\<rparr>) m"
  show ?thesis
  proof (cases "a_Status ?a = Accepted")
    case False
    then show ?thesis by (simp add: mem_MarkDispatched_def ki Let_def good_step_refl [OF inv])
  next
    case True
    then have written: "good_step m ?m"
      using found by (intro good_step_set_attempt [OF inv]) (auto simp: is_open_def)
    have "good_step ?m (?m\<lparr>mr_tasks := gm_put k (t\<lparr>t_Status := Running, t_UpdatedAt := at\<rparr>) (mr_tasks ?m)\<rparr>)"
      if "gm_get (mr_tasks m) k = Some t" "t_Status t = Accepted" for t
      using that written by (intro good_step_set_task [where old = t]) (auto simp: good_step_def)
    with written True show ?thesis
      by (auto simp: mem_MarkDispatched_def ki Let_def split: option.split intro: good_step_trans)
  qed
qed

lemma mem_CloseAttempt_step:
  assumes inv: "disp_inv m"
  shows "good_step m (snd (mem_CloseAttempt scope aid reason at m))"
proof (cases "find_attempt scope aid (mr_attempts m)")
  case None
  then show ?thesis by (simp add: mem_CloseAttempt_def good_step_refl [OF inv])
next
  case (Some ki)
  then obtain k i where ki: "find_attempt scope aid (mr_attempts m) = Some (k, i)" by (cases ki) auto
  note found = find_attempt_at [OF inv ki]
  show ?thesis
  proof (cases "Terminal (a_Status (attempts_at m k ! i))")
    case True
    then show ?thesis by (simp add: mem_CloseAttempt_def ki Let_def good_step_refl [OF inv])
  next
    case False
    then show ?thesis
      using found good_step_refl [OF inv]
      by (auto simp: mem_CloseAttempt_def ki Let_def Terminal_is_open intro!: good_step_set_attempt [OF inv])
  qed
qed

lemma reject_step:
  assumes inv: "disp_inv m" and task: "gm_get (mr_tasks m) k = Some task" and i: "i < length (attempts_at m k)"
  shows "good_step m (snd (reject k i task request d reason m))"
proof -
  let ?at = "oc_ObservedAt (s_Outcome request)"
  let ?m1 = "record_evidence (evidenceOf request d reason ?at) m"
  let ?m2 = "set_attempt k i (expire_attempt ?at (attempts_at m k ! i)) ?m1"
  have 1: "good_step m ?m1" by (rule good_step_evidence [OF inv])
  then have inv1: "disp_inv ?m1" by (simp add: good_step_def)
  have 2: "good_step ?m1 ?m2" using i by (intro good_step_set_attempt [OF inv1]) simp_all
  then have inv2: "disp_inv ?m2" by (simp add: good_step_def)
  have 3: "good_step ?m2 (?m2\<lparr>mr_tasks := gm_put k (task\<lparr>t_Status := Expired, t_UpdatedAt := ?at\<rparr>) (mr_tasks ?m2)\<rparr>)"
    if "\<not> Terminal (t_Status task)"
    using that task by (intro good_step_set_task [OF inv2, where old = task]) simp_all
  show ?thesis
    using 1 good_step_trans [OF 1 2] good_step_trans [OF good_step_trans [OF 1 2] 3]
    by (auto simp: reject_def Let_def)
qed

lemma Evaluate_committed:
  assumes "Evaluate sha task a committed request now = (DispositionCommitted, reason)"
  shows "committed = None" "t_Status task \<noteq> Superseded \<Longrightarrow> \<not> Terminal (t_Status task)" "is_open a" "now \<le> t_ExpiresAt task" "now \<le> a_ExpiresAt a"
    "first_mismatch (text_comparisons sha task a (s_Predicate request)) = None"
    "first_mismatch (number_comparisons task a (s_Predicate request)) = None"
proof -
  show none: "committed = None"
    using assms by (cases committed) (auto simp: Evaluate_def split: if_splits)
  show "now \<le> t_ExpiresAt task" "now \<le> a_ExpiresAt a"
    "first_mismatch (text_comparisons sha task a (s_Predicate request)) = None"
    "first_mismatch (number_comparisons task a (s_Predicate request)) = None"
    using assms by (auto simp: none Evaluate_def stale_def split: if_splits option.splits)
  have task: "t_Status task \<notin> {Canceled, Expired, Succeeded, Failed}"
    and attempt: "a_Status a \<notin> {Superseded, Canceled, Expired, Succeeded, Failed}"
    using assms by (auto simp: none Evaluate_def stale_def split: if_splits)
  show "t_Status task \<noteq> Superseded \<Longrightarrow> \<not> Terminal (t_Status task)"
    using task by (cases "t_Status task") simp_all
  show "is_open a" using attempt by (cases "a_Status a") (simp_all add: is_open_def)
qed

lemma settle_step:
  assumes inv: "disp_inv m" and task: "gm_get (mr_tasks m) k = Some task" and i: "i < length (attempts_at m k)"
    and "\<not> Terminal (t_Status task)" and op: "is_open (attempts_at m k ! i)"
  shows "good_step m (snd (settle k i task v m))"
proof -
  let ?a = "settled_attempt v (attempts_at m k ! i)"
  let ?m1 = "set_attempt k i ?a m"
  let ?t = "if oc_Failed v then task\<lparr>t_UpdatedAt := oc_ObservedAt v\<rparr>
               else task\<lparr>t_UpdatedAt := oc_ObservedAt v, t_Status := Succeeded\<rparr>"
  let ?m2 = "?m1\<lparr>mr_tasks := gm_put k ?t (mr_tasks ?m1)\<rparr>"
  have 1: "good_step m ?m1" using i op by (intro good_step_set_attempt [OF inv]) simp_all
  then have inv1: "disp_inv ?m1" by (simp add: good_step_def)
  have 2: "good_step ?m1 ?m2"
    using task assms(4) by (intro good_step_set_task [OF inv1, where old = task]) auto
  note two = good_step_trans [OF 1 2]
  then have inv2: "disp_inv ?m2" by (simp add: good_step_def)
  have none: "gm_get (mr_results m) k = None"
    using result_task [OF inv, of k] task assms(4) by (cases "gm_get (mr_results m) k") auto
  show ?thesis
  proof (cases "oc_Failed v")
    case True
    then show ?thesis using two by (simp add: settle_def Let_def)
  next
    case False
    let ?rg = "registration_of ?t ?a v"
    let ?m3 = "?m2\<lparr>mr_results := gm_put k ?rg (mr_results ?m2)\<rparr>"
    have "result_inv ?m3 k ?rg"
      using False i by (auto simp: result_inv_def Let_def gm_get_put registration_of_def settled_attempt_def intro!: exI [of _ i])
    then have "disp_inv ?m3"
      using disp_invD(1,2) [OF inv2] disp_invD(3) [OF inv2, of k] disp_invD(4,7) [OF inv2, of k ?t] none by (intro disp_inv_write [OF inv2, where k = k]) (auto simp: False gm_get_put attempts_inv_def)
    moreover have "disp_le ?m2 ?m3" using none by (auto simp: disp_le_def gm_get_put)
    ultimately have "good_step ?m2 ?m3" by (simp add: good_step_def)
    from good_step_trans [OF two this] False show ?thesis by (simp add: settle_def Let_def)
  qed
qed

lemma mem_Commit_cases:
  obtains (missing) er where "mem_Commit sha request m = (Inl er, m)"
  | (unbound) task e where "gm_get (mr_tasks m) (key (s_Scope request) (p_TaskID (s_Predicate request))) = Some task"
      "mem_Commit sha request m = (Inr \<lparr>rs_Disposition = DispositionUnbound, rs_Reason = ''the attempt does not exist'',
         rs_Task = task, rs_Attempt = None\<rparr>, record_evidence e m)"
  | (evaluated) task i d reason where
      "gm_get (mr_tasks m) (key (s_Scope request) (p_TaskID (s_Predicate request))) = Some task"
      "find_index (\<lambda>a. a_PhysicalAttemptID a = p_PhysicalAttemptID (s_Predicate request))
         (attempts_at m (key (s_Scope request) (p_TaskID (s_Predicate request)))) = Some i"
      "i < length (attempts_at m (key (s_Scope request) (p_TaskID (s_Predicate request))))"
      "Evaluate sha task (attempts_at m (key (s_Scope request) (p_TaskID (s_Predicate request))) ! i)
         (gm_get (mr_results m) (key (s_Scope request) (p_TaskID (s_Predicate request)))) request
         (oc_ObservedAt (s_Outcome request)) = (d, reason)"
      "mem_Commit sha request m = (if Committed d
         then settle (key (s_Scope request) (p_TaskID (s_Predicate request))) i task (s_Outcome request) m
         else reject (key (s_Scope request) (p_TaskID (s_Predicate request))) i task request d reason m)"
proof (cases "gm_get (mr_tasks m) (key (s_Scope request) (p_TaskID (s_Predicate request)))")
  case None
  then show ?thesis using missing by (simp add: mem_Commit_def Let_def)
next
  case (Some task)
  let ?k = "key (s_Scope request) (p_TaskID (s_Predicate request))"
  show ?thesis
  proof (cases "find_index (\<lambda>a. a_PhysicalAttemptID a = p_PhysicalAttemptID (s_Predicate request)) (attempts_at m ?k)")
    case None
    then show ?thesis using unbound [OF Some] Some by (simp add: mem_Commit_def Let_def)
  next
    case i: (Some i)
    obtain d reason where "Evaluate sha task (attempts_at m ?k ! i) (gm_get (mr_results m) ?k) request
         (oc_ObservedAt (s_Outcome request)) = (d, reason)" by fastforce
    with evaluated [OF Some i] find_index_SomeD [OF i] Some i show ?thesis by (simp add: mem_Commit_def Let_def)
  qed
qed

lemma mem_Commit_step:
  assumes inv: "disp_inv m"
  shows "good_step m (snd (mem_Commit sha request m))"
proof (cases rule: mem_Commit_cases [of sha request m])
  case (missing er)
  then show ?thesis using good_step_refl [OF inv] by simp
next
  case (unbound task e)
  then show ?thesis using good_step_evidence [OF inv] by simp
next
  case (evaluated task i d reason)
  show ?thesis
  proof (cases "Committed d")
    case True
    then have "d = DispositionCommitted" by (simp add: Committed_def)
    note ok = Evaluate_committed [OF evaluated(4) [unfolded this]]
    have "t_Status task \<noteq> Superseded" using disp_invD(7) [OF inv evaluated(1)] by (simp add: task_ok_def)
    note ok = ok(1) ok(2) [OF this] ok(3)
    show ?thesis using settle_step [OF inv evaluated(1,3) ok(2) ok(3)] evaluated(5) True by simp
  next
    case False
    then show ?thesis using reject_step [OF inv evaluated(1,3)] evaluated(5) by simp
  qed
qed

lemma mem_CancelRun_step:
  assumes inv: "disp_inv m"
  shows "good_step m (snd (mem_CancelRun scope run reason at m))"
proof (cases "ValidReasonCode reason")
  case False
  then show ?thesis by (simp add: mem_CancelRun_def good_step_refl [OF inv])
next
  case True
  let ?m = "snd (mem_CancelRun scope run reason at m)"
  define hit where "hit k = (case gm_get (mr_tasks m) k of None \<Rightarrow> False | Some t \<Rightarrow> cancels scope run t)" for k
  have tasks: "gm_get (mr_tasks ?m) k = map_option (\<lambda>t. if cancels scope run t
      then t\<lparr>t_Status := Canceled, t_UpdatedAt := at\<rparr> else t) (gm_get (mr_tasks m) k)" for k
    using True by (simp add: mem_CancelRun_def gm_get_map)
  have get: "gm_get (map (\<lambda>(k, as). (k, f k as)) xs) k = map_option (f k) (gm_get xs k)" for f xs and k :: string
    by (induction xs) auto
  have at: "attempts_at ?m k = (if hit k then map (cancel_attempt reason at) (attempts_at m k) else attempts_at m k)" for k
    using True by (auto simp: mem_CancelRun_def attempts_at_def get hit_def split: option.splits)
  have results: "mr_results ?m = mr_results m" using True by (simp add: mem_CancelRun_def)
  have hist: "history (attempts_at m k) (attempts_at ?m k)" for k by (simp add: at history_map)
  have "attempts_inv (mr_tasks ?m) k (attempts_at ?m k)" if "attempts_at ?m k \<noteq> []" for k
  proof -
    have ne: "attempts_at m k \<noteq> []" using that at [of k] by (auto split: if_splits)
    obtain t where t: "gm_get (mr_tasks m) k = Some t" using disp_invD(5) [OF inv ne] by auto
    have "open_last (attempts_at ?m k)"
      using disp_invD(3) [OF inv, of k] by (auto simp: at intro: open_last_map)
    moreover have "last (map (cancel_attempt reason at) (attempts_at m k)) = cancel_attempt reason at (last (attempts_at m k))"
      using ne by (simp add: last_map)
    ultimately show ?thesis
      using disp_invD(4) [OF inv t] t by (auto simp: attempts_inv_def tasks current_of_def at)
  qed
  moreover have "result_inv ?m k rg" if "gm_get (mr_results m) k = Some rg" for k rg
    by (rule result_inv_history [OF disp_invD(6) [OF inv that] hist]) (auto simp: tasks cancels_def)
  moreover have "gm_ok (mr_tasks ?m)" "gm_ok (mr_attempts ?m)"
    using True disp_invD(1,2) [OF inv] by (simp_all add: mem_CancelRun_def gm_ok_map, simp add: gm_ok_def comp_def case_prod_unfold)
  moreover have "task_ok k t" if "gm_get (mr_tasks ?m) k = Some t" for k t
    using that disp_invD(7) [OF inv, of k] by (auto simp: tasks task_ok_def split: if_splits)
  ultimately have "disp_inv ?m" by (simp add: disp_inv_def results gm_all_def)
  moreover have "disp_le m ?m"
    by (intro disp_leI) (auto simp: hist results tasks cancels_def)
  ultimately show ?thesis by (simp add: good_step_def)
qed

section \<open>Steps and reachable states\<close>

inductive disp_step :: "(string \<Rightarrow> string) \<Rightarrow> MemoryRepository \<Rightarrow> MemoryRepository \<Rightarrow> bool" for sha where
  ensure: "mem_EnsureTask task m = (r, m') \<Longrightarrow> disp_step sha m m'"
| open_next: "mem_OpenAttempt sha v m = (r, m') \<Longrightarrow> disp_step sha m m'"
| mark: "mem_MarkDispatched scope aid at m = (r, m') \<Longrightarrow> disp_step sha m m'"
| close: "mem_CloseAttempt scope aid reason at m = (r, m') \<Longrightarrow> disp_step sha m m'"
| commit: "mem_Commit sha request m = (r, m') \<Longrightarrow> disp_step sha m m'"
| evidence: "mem_RecordEvidence e m = (r, m') \<Longrightarrow> disp_step sha m m'"
| cancel: "mem_CancelRun scope run reason at m = (r, m') \<Longrightarrow> disp_step sha m m'"

abbreviation disp_steps :: "(string \<Rightarrow> string) \<Rightarrow> MemoryRepository \<Rightarrow> MemoryRepository \<Rightarrow> bool" where
  "disp_steps sha \<equiv> (disp_step sha)\<^sup>*\<^sup>*"

definition disp_reach :: "(string \<Rightarrow> string) \<Rightarrow> MemoryRepository \<Rightarrow> bool" where
  "disp_reach sha m \<longleftrightarrow> disp_steps sha NewMemoryRepository m"

lemma disp_step_good:
  assumes "disp_step sha m m'" and inv: "disp_inv m"
  shows "good_step m m'"
  using assms(1)
proof (cases rule: disp_step.cases)
  case (ensure task r)
  then show ?thesis using mem_EnsureTask_step [OF inv, of task] by simp
next
  case (open_next v r)
  then show ?thesis using mem_OpenAttempt_step [OF inv, of sha v] by simp
next
  case (mark scope aid at r)
  then show ?thesis using mem_MarkDispatched_step [OF inv, of scope aid at] by simp
next
  case (close scope aid reason at r)
  then show ?thesis using mem_CloseAttempt_step [OF inv, of scope aid reason at] by simp
next
  case (commit request r)
  then show ?thesis using mem_Commit_step [OF inv, of sha request] by simp
next
  case (evidence e r)
  then show ?thesis using good_step_evidence [OF inv, of e] by (simp add: mem_RecordEvidence_def)
next
  case (cancel scope run reason at r)
  then show ?thesis using mem_CancelRun_step [OF inv, of scope run reason at] by simp
qed

lemma disp_steps_good: "disp_steps sha m m' \<Longrightarrow> disp_inv m \<Longrightarrow> good_step m m'"
proof (induction rule: rtranclp_induct)
  case base
  then show ?case by (rule good_step_refl)
next
  case (step m1 m2)
  then have 1: "good_step m m1" by simp
  then have "disp_inv m1" by (simp add: good_step_def)
  from good_step_trans [OF 1 disp_step_good [OF step(2) this]] show ?case .
qed

lemma New_disp_inv: "disp_inv NewMemoryRepository"
  by (simp add: disp_inv_def NewMemoryRepository_def attempts_at_def)

lemma disp_reach_inv: "disp_reach sha m \<Longrightarrow> disp_inv m"
  unfolding disp_reach_def using disp_steps_good [OF _ New_disp_inv] by (auto simp: good_step_def)

lemma disp_reach_le: "disp_reach sha m \<Longrightarrow> disp_steps sha m m' \<Longrightarrow> disp_le m m'"
  using disp_steps_good [OF _ disp_reach_inv] by (auto simp: good_step_def)

lemma disp_reach_steps: "disp_reach sha m \<Longrightarrow> disp_steps sha m m' \<Longrightarrow> disp_reach sha m'"
  unfolding disp_reach_def by (rule rtranclp_trans)

section \<open>What a commit does\<close>

lemma first_mismatch_None: "first_mismatch cs = None \<longleftrightarrow> (\<forall>(f, wanted, observed) \<in> set cs. wanted = observed)"
  by (induction cs rule: first_mismatch.induct) auto

lemma reject_result:
  assumes "reject k i task request d reason m = (r, m')"
  shows "\<exists>res. r = Inr res \<and> rs_Disposition res = d" "mr_results m' = mr_results m"
    "mr_evidence m' = mr_evidence m @ [evidenceOf request d reason (oc_ObservedAt (s_Outcome request))]"
    "d \<noteq> DispositionExpired \<Longrightarrow> mr_tasks m' = mr_tasks m \<and> mr_attempts m' = mr_attempts m"
    "k' \<noteq> k \<Longrightarrow> gm_get (mr_tasks m') k' = gm_get (mr_tasks m) k' \<and> attempts_at m' k' = attempts_at m k'"
  using assms by (auto simp: reject_def Let_def gm_get_put split: if_splits)

lemma settle_result:
  assumes "settle k i task v m = (r, m')"
  shows "\<exists>res. r = Inr res \<and> rs_Disposition res = DispositionCommitted"
    "\<not> oc_Failed v \<Longrightarrow> \<exists>rg. gm_get (mr_results m') k = Some rg \<and> rg_ResultStatementDigest rg = oc_ResultStatementDigest v
       \<and> rg_Statement rg = oc_Statement v \<and> rg_PhysicalAttemptID rg = a_PhysicalAttemptID (attempts_at m k ! i)"
  using assms by (auto simp: settle_def Let_def gm_get_put registration_of_def split: if_splits)

text \<open>A commit that reports success settled the attempt it names.\<close>

lemma mem_Commit_committed:
  assumes "mem_Commit sha request m = (Inr res, m')" and "Committed (rs_Disposition res)"
  obtains task i where "gm_get (mr_tasks m) (key (s_Scope request) (p_TaskID (s_Predicate request))) = Some task"
    "i < length (attempts_at m (key (s_Scope request) (p_TaskID (s_Predicate request))))"
    "a_PhysicalAttemptID (attempts_at m (key (s_Scope request) (p_TaskID (s_Predicate request))) ! i)
       = p_PhysicalAttemptID (s_Predicate request)"
    "Evaluate sha task (attempts_at m (key (s_Scope request) (p_TaskID (s_Predicate request))) ! i)
       (gm_get (mr_results m) (key (s_Scope request) (p_TaskID (s_Predicate request)))) request
       (oc_ObservedAt (s_Outcome request)) = (DispositionCommitted, '''')"
    "settle (key (s_Scope request) (p_TaskID (s_Predicate request))) i task (s_Outcome request) m = (Inr res, m')"
proof (cases rule: mem_Commit_cases [of sha request m])
  case (evaluated task i d reason)
  have d: "Committed d"
  proof (rule ccontr)
    assume "\<not> Committed d"
    with evaluated(5) assms(1) have "reject (key (s_Scope request) (p_TaskID (s_Predicate request))) i task request d reason m
        = (Inr res, m')" by simp
    from reject_result(1) [OF this] have "rs_Disposition res = d" by simp
    with assms(2) \<open>\<not> Committed d\<close> show False by simp
  qed
  then have "reason = ''''"
    using evaluated(4) by (auto simp: Committed_def Evaluate_def stale_def split: option.splits if_splits)
  with d evaluated(4) have "Evaluate sha task (attempts_at m (key (s_Scope request) (p_TaskID (s_Predicate request))) ! i)
       (gm_get (mr_results m) (key (s_Scope request) (p_TaskID (s_Predicate request)))) request
       (oc_ObservedAt (s_Outcome request)) = (DispositionCommitted, '''')" by (simp add: Committed_def)
  with that [OF evaluated(1,3) _ this] find_index_SomeD [OF evaluated(2)] evaluated(5) assms(1) d show ?thesis by simp
qed (use assms in \<open>simp_all add: Committed_def\<close>)

section \<open>Properties of the record\<close>


text \<open>C27 (one open attempt). In every reachable repository a task has at most one open attempt; if it has
  one, it is the newest, and carries the attempt number and lease epoch the task has now.\<close>

theorem at_most_one_open_attempt:
  assumes "disp_reach sha m" and "gm_get (mr_tasks m) k = Some t"
  shows "length (filter is_open (attempts_at m k)) \<le> 1 \<and>
    (\<forall>a \<in> set (attempts_at m k). is_open a \<longrightarrow>
       a = last (attempts_at m k) \<and> a_AttemptNumber a = t_Attempts t \<and> a_LeaseEpoch a = t_LeaseEpoch t)"
proof -
  let ?as = "attempts_at m k"
  note inv = disp_reach_inv [OF assms(1)]
  have ol: "open_last ?as" and cur: "current_of t ?as" using disp_invD(3,4) [OF inv] assms(2) by auto
  show ?thesis
  proof (cases "?as = []")
    case False
    then have split: "?as = butlast ?as @ [last ?as]" by simp
    have none: "filter is_open (butlast ?as) = []"
      using ol by (simp add: open_last_def list_all_iff filter_empty_conv)
    have "filter is_open ?as = filter is_open [last ?as]"
      by (subst split) (simp only: filter_append none append_Nil)
    moreover have "a = last ?as" if "a \<in> set ?as" "is_open a" for a
      using that ol by (metis in_set_conv_nth open_last_nth)
    ultimately show ?thesis using cur False by (auto simp: current_of_def)
  qed simp
qed

text \<open>A registered outcome of a reachable repository is read back
  unchanged after any sequence of operations, and no result for its task commits again.\<close>

theorem registration_is_forever:
  assumes "disp_reach sha m" and "fst (mem_Registration scope tid m) = Inr (Some rg)" and "disp_steps sha m m'"
  shows "fst (mem_Registration scope tid m') = Inr (Some rg) \<and>
    (\<forall>request res m''. s_Scope request = scope \<longrightarrow> p_TaskID (s_Predicate request) = tid \<longrightarrow>
       mem_Commit sha request m' = (Inr res, m'') \<longrightarrow> \<not> Committed (rs_Disposition res))"
proof -
  have there: "gm_get (mr_results m') (key scope tid) = Some rg"
    using disp_leD(2) [OF disp_reach_le [OF assms(1,3)]] assms(2) by (simp add: mem_Registration_def)
  have "\<not> Committed (rs_Disposition res)" if "s_Scope request = scope" "p_TaskID (s_Predicate request) = tid"
    "mem_Commit sha request m' = (Inr res, m'')" for request res m''
  proof
    assume "Committed (rs_Disposition res)"
    from mem_Commit_committed [OF that(3) this] Evaluate_committed(1) there that(1,2) show False by (metis option.distinct(1))
  qed
  with there show ?thesis by (simp add: mem_Registration_def)
qed

text \<open>A result that does not commit leaves exactly one evidence record, no
  registration and no other task touched; unless it is evidence of an expiry it leaves every task and
  attempt as it was, and the task it names can only become expired, past its own deadline.\<close>

theorem evidence_changes_nothing:
  assumes "mem_Commit sha request m = (Inr res, m')" and "\<not> Committed (rs_Disposition res)"
  shows "let k = key (s_Scope request) (p_TaskID (s_Predicate request)) in
    mr_results m' = mr_results m \<and>
    (\<exists>e. mr_evidence m' = mr_evidence m @ [e] \<and> ev_Disposition e = rs_Disposition res \<or>
         mr_evidence m' = mr_evidence m @ [e] \<and> rs_Disposition res = DispositionUnbound) \<and>
    (rs_Disposition res \<noteq> DispositionExpired \<longrightarrow> mr_tasks m' = mr_tasks m \<and> mr_attempts m' = mr_attempts m) \<and>
    (\<forall>k'. k' \<noteq> k \<longrightarrow> gm_get (mr_tasks m') k' = gm_get (mr_tasks m) k' \<and> attempts_at m' k' = attempts_at m k') \<and>
    (\<forall>t. gm_get (mr_tasks m) k = Some t \<longrightarrow> gm_get (mr_tasks m') k = Some t \<or>
       (oc_ObservedAt (s_Outcome request) > t_ExpiresAt t \<and> gm_get (mr_tasks m') k =
          Some (t\<lparr>t_Status := Expired, t_UpdatedAt := oc_ObservedAt (s_Outcome request)\<rparr>)))"
proof (cases rule: mem_Commit_cases [of sha request m])
  case (unbound task e)
  then show ?thesis using assms(1) by (auto simp: Let_def)
next
  case (evaluated task i d reason)
  let ?k = "key (s_Scope request) (p_TaskID (s_Predicate request))"
  show ?thesis
  proof (cases "Committed d")
    case True
    then have "settle ?k i task (s_Outcome request) m = (Inr res, m')" using evaluated(5) assms(1) by simp
    from settle_result(1) [OF this] assms(2) show ?thesis by (simp add: Committed_def)
  next
    case False
    then have rej: "reject ?k i task request d reason m = (Inr res, m')" using evaluated(5) assms(1) by simp
    note res = reject_result [OF rej]
    have "gm_get (mr_tasks m') ?k = Some task \<or> (oc_ObservedAt (s_Outcome request) > t_ExpiresAt task \<and>
        gm_get (mr_tasks m') ?k = Some (task\<lparr>t_Status := Expired, t_UpdatedAt := oc_ObservedAt (s_Outcome request)\<rparr>))"
      using rej evaluated(1) by (auto simp: reject_def Let_def gm_get_put split: if_splits)
    then show ?thesis using res evaluated(1) by (auto simp: Let_def evidenceOf_def)
  qed
qed (use assms in simp)

text \<open>An attempt of a reachable repository that has ended, by outcome, expiry,
  cancellation or replacement, is never written again.\<close>

theorem ended_attempt_is_never_written:
  assumes "disp_reach sha m" and "disp_steps sha m m'" and "i < length (attempts_at m k)"
    and "Terminal (a_Status (attempts_at m k ! i))"
  shows "i < length (attempts_at m' k) \<and> attempts_at m' k ! i = attempts_at m k ! i"
  using disp_leD(1) [OF disp_reach_le [OF assms(1,2)], of k] assms(3,4)
  by (simp add: history_def Terminal_is_open)

text \<open>Once a result has committed successfully, delivering it again, at any later time, is
  a duplicate: it is answered as one and adds a single evidence record and nothing else.\<close>

theorem redelivery_is_a_duplicate:
  assumes "disp_reach sha m" and "mem_Commit sha request m = (Inr res, m1)" and "Committed (rs_Disposition res)"
    and "\<not> oc_Failed (s_Outcome request)" and "disp_steps sha m1 m2"
  shows "\<exists>res' e. mem_Commit sha request m2 = (Inr res', record_evidence e m2) \<and>
    rs_Disposition res' = DispositionDuplicate \<and> ev_Disposition e = DispositionDuplicate"
proof -
  let ?k = "key (s_Scope request) (p_TaskID (s_Predicate request))"
  from mem_Commit_committed [OF assms(2,3)] obtain task i where c:
    "gm_get (mr_tasks m) ?k = Some task" "i < length (attempts_at m ?k)"
    "a_PhysicalAttemptID (attempts_at m ?k ! i) = p_PhysicalAttemptID (s_Predicate request)"
    "settle ?k i task (s_Outcome request) m = (Inr res, m1)" by metis
  obtain rg where rg: "gm_get (mr_results m1) ?k = Some rg"
      "rg_ResultStatementDigest rg = oc_ResultStatementDigest (s_Outcome request)"
    using settle_result(2) [OF c(4) assms(4)] by auto
  have step: "disp_steps sha m m1" using disp_step.commit [OF assms(2)] by blast
  note later = disp_reach_le [OF disp_reach_steps [OF assms(1) step] assms(5)]
  have all: "disp_le m m2" using disp_le_trans [OF disp_reach_le [OF assms(1) step] later] .
  obtain t2 where t2: "gm_get (mr_tasks m2) ?k = Some t2" using disp_leD(3) [OF all c(1)] by auto
  have "i < length (attempts_at m2 ?k)" "a_PhysicalAttemptID (attempts_at m2 ?k ! i) = p_PhysicalAttemptID (s_Predicate request)"
    using disp_leD(1) [OF all, of ?k] c(2,3) by (auto simp: history_def)
  then have "find_index (\<lambda>a. a_PhysicalAttemptID a = p_PhysicalAttemptID (s_Predicate request)) (attempts_at m2 ?k) \<noteq> None"
    by (auto simp: find_index_None)
  then obtain j where j: "find_index (\<lambda>a. a_PhysicalAttemptID a = p_PhysicalAttemptID (s_Predicate request)) (attempts_at m2 ?k) = Some j"
    by auto
  show ?thesis
    using t2 j rg(2) disp_leD(2) [OF later rg(1)]
    by (auto simp: mem_Commit_def Let_def Evaluate_def Committed_def reject_def evidenceOf_def record_evidence_def)
qed

section \<open>The repository contract and its coordinator\<close>

text \<open>
  What the coordinator relies on. \<open>view\<close> is the task and its attempts, newest last; \<open>good\<close> is the
  repository's own invariant. Ensuring a task answers the stored one, which is the same work; opening an
  attempt closes every earlier one and appends the new one, under the next attempt number and lease
  epoch and with the fence it was given.
\<close>

locale task_repository =
  fixes repo :: "'r Repository" and good :: "'r \<Rightarrow> bool"
    and view :: "'r \<Rightarrow> Scope \<Rightarrow> string \<Rightarrow> (Task \<times> Attempt list) option"
  assumes ensure_good: "good r \<Longrightarrow> EnsureTask repo t r = (x, r') \<Longrightarrow> good r'"
    and ensure_law: "good r \<Longrightarrow> EnsureTask repo t r = (Inr u, r') \<Longrightarrow>
      (\<exists>as. view r' (t_Scope t) (t_TaskID t) = Some (u, as)) \<and> sameWork u t = None"
    and open_good: "good r \<Longrightarrow> OpenAttempt repo v r = (y, r') \<Longrightarrow> good r'"
    and open_law: "good r \<Longrightarrow> OpenAttempt repo v r = (Inr (t, a), r') \<Longrightarrow>
      \<exists>old as bs. view r (o_Scope v) (o_TaskID v) = Some (old, as) \<and> \<not> Terminal (t_Status old) \<and>
        view r' (o_Scope v) (o_TaskID v) = Some (t, bs @ [a]) \<and> length bs = length as \<and>
        list_all (\<lambda>b. \<not> is_open b) bs \<and>
        t = old\<lparr>t_Attempts := t_Attempts old + 1, t_LeaseEpoch := t_LeaseEpoch old + 1,
                t_UpdatedAt := o_At v, t_ExpiresAt := o_ExpiresAt v\<rparr> \<and>
        is_open a \<and> a_AttemptNumber a = t_Attempts t \<and> a_LeaseEpoch a = t_LeaseEpoch t \<and>
        a_FenceTokenDigest a = o_FenceTokenDigest v \<and> a_RuntimeUnitID a = o_RuntimeUnitID v \<and>
        a_ExpiresAt a = o_ExpiresAt v"
begin

text \<open>
  An execution the coordinator hands out is the current one: its attempt is the newest of its task, every
  earlier attempt has ended, and its token is the one whose digest the record holds.
\<close>

lemma execution_is_current:
  assumes "c_repository c = repo" and "good r" and "OpenExecution sha c now (Inr token) request r = (Inr ex, r')"
  shows "\<exists>bs. view r' (rq_Scope request) (rq_TaskID request) = Some (ex_Task ex, bs @ [ex_Attempt ex]) \<and>
    list_all (\<lambda>b. \<not> is_open b) bs \<and> is_open (ex_Attempt ex) \<and> \<not> Terminal (t_Status (ex_Task ex)) \<and>
    ex_FenceToken ex = token \<and> a_FenceTokenDigest (ex_Attempt ex) = Digest sha token \<and>
    a_AttemptNumber (ex_Attempt ex) = t_Attempts (ex_Task ex) \<and> a_LeaseEpoch (ex_Attempt ex) = t_LeaseEpoch (ex_Task ex) \<and>
    a_RuntimeUnitID (ex_Attempt ex) = RuntimeUnitID (t_Runtime (ex_Task ex)) \<and>
    a_ExpiresAt (ex_Attempt ex) = now + c_lease c \<and> t_ExpiresAt (ex_Task ex) = now + c_lease c \<and>
    sameWork (ex_Task ex) (requested_task request now (now + c_lease c)) = None"
proof -
  let ?t = "requested_task request now (now + c_lease c)"
  have "Task_Validate ?t = None"
    using assms(3) by (auto simp: OpenExecution_def Let_def split: option.splits)
  then obtain stored r1 where ens: "EnsureTask repo ?t r = (Inr stored, r1)"
    and op: "OpenAttempt repo (open_for sha request stored token now (now + c_lease c)) r1 = (Inr (ex_Task ex, ex_Attempt ex), r')"
    and tok: "ex_FenceToken ex = token"
    using assms(1,3) by (auto simp: OpenExecution_def Let_def andThen_def split: prod.splits sum.splits)
  have v1: "\<exists>as. view r1 (rq_Scope request) (rq_TaskID request) = Some (stored, as)" and same: "sameWork stored ?t = None"
    using ensure_law [OF assms(2) ens] by (simp_all add: requested_task_def)
  from open_law [OF ensure_good [OF assms(2) ens] op] v1 obtain bs where
    o: "\<not> Terminal (t_Status stored)" "view r' (rq_Scope request) (rq_TaskID request) = Some (ex_Task ex, bs @ [ex_Attempt ex])"
      "list_all (\<lambda>b. \<not> is_open b) bs" "is_open (ex_Attempt ex)"
      "ex_Task ex = stored\<lparr>t_Attempts := t_Attempts stored + 1, t_LeaseEpoch := t_LeaseEpoch stored + 1,
          t_UpdatedAt := now, t_ExpiresAt := now + c_lease c\<rparr>"
      "a_AttemptNumber (ex_Attempt ex) = t_Attempts (ex_Task ex)" "a_LeaseEpoch (ex_Attempt ex) = t_LeaseEpoch (ex_Task ex)"
      "a_FenceTokenDigest (ex_Attempt ex) = Digest sha token" "a_RuntimeUnitID (ex_Attempt ex) = RuntimeUnitID (t_Runtime stored)"
      "a_ExpiresAt (ex_Attempt ex) = now + c_lease c"
    by (auto simp: open_for_def)
  have "sameWork (ex_Task ex) ?t = None"
    using same by (simp add: o(5) sameWork_def work_comparisons_def cong: option.case_cong)
  then show ?thesis using o tok by auto
qed

lemma open_execution_good:
  assumes "c_repository c = repo" and "good r" and "OpenExecution sha c now minted request r = (x, r')"
  shows "good r'"
proof -
  let ?t = "requested_task request now (now + c_lease c)"
  obtain y r1 where ens: "EnsureTask repo ?t r = (y, r1)" by fastforce
  have r1: "good r1" by (rule ensure_good [OF assms(2) ens])
  have opened: "good r2" if "OpenAttempt repo v r1 = (z, r2)" for v z r2 by (rule open_good [OF r1 that])
  show ?thesis
  proof (cases "Task_Validate ?t")
    case (Some e)
    then show ?thesis using assms(2,3) by (simp add: OpenExecution_def)
  next
    case None
    show ?thesis
    proof (cases y)
      case (Inl e)
      then show ?thesis using assms(1,3) None ens r1 by (simp add: OpenExecution_def andThen_def)
    next
      case (Inr stored)
      then show ?thesis
        using assms(1,3) None ens r1 opened
        by (cases minted) (auto simp: OpenExecution_def andThen_def Let_def split: prod.splits sum.splits)
    qed
  qed
qed

end

definition mem_view :: "MemoryRepository \<Rightarrow> Scope \<Rightarrow> string \<Rightarrow> (Task \<times> Attempt list) option" where
  "mem_view m scope tid = map_option (\<lambda>t. (t, attempts_at m (key scope tid))) (gm_get (mr_tasks m) (key scope tid))"

lemma sameWork_refl [simp]: "sameWork t t = None"
  by (simp add: sameWork_def work_comparisons_def)

interpretation memory: task_repository "memory_repository sha" disp_inv mem_view for sha
proof (unfold_locales, goal_cases)
  case (1 r t x r')
  then show ?case using mem_EnsureTask_step [OF 1(1), of t] by (simp add: memory_repository_def good_step_def)
next
  case (2 r t u r')
  then show ?case
    by (auto simp: memory_repository_def mem_EnsureTask_def mem_view_def gm_get_put split: option.splits)
next
  case (3 r v y r')
  then show ?case using mem_OpenAttempt_step [OF 3(1), of sha v] by (simp add: memory_repository_def good_step_def)
next
  case (4 r v t a r')
  then have run: "mem_OpenAttempt sha v r = (Inr (t, a), r')" by (simp add: memory_repository_def)
  show ?case
  proof (cases rule: mem_OpenAttempt_cases [of sha v r])
    case (opened old t' a')
    let ?k = "key (o_Scope v) (o_TaskID v)"
    have r': "r' = r\<lparr>mr_tasks := gm_put ?k t (mr_tasks r),
        mr_attempts := gm_put ?k (map (supersede v) (attempts_at r ?k) @ [a]) (mr_attempts r)\<rparr>"
      and ta: "t = t'" "a = a'" using opened(6) run by auto
    have t_def: "t = old\<lparr>t_Attempts := t_Attempts old + 1, t_LeaseEpoch := t_LeaseEpoch old + 1,
        t_UpdatedAt := o_At v, t_ExpiresAt := o_ExpiresAt v\<rparr>" using opened(4) ta(1) by simp
    have a_def: "a = opened_attempt sha v t" using opened(5) ta by simp
    have view: "mem_view r' (o_Scope v) (o_TaskID v) = Some (t, map (supersede v) (attempts_at r ?k) @ [a])"
      by (simp add: mem_view_def r' attempts_at_def gm_get_put)
    have old: "mem_view r (o_Scope v) (o_TaskID v) = Some (old, attempts_at r ?k)"
      using opened(1) by (simp add: mem_view_def)
    show ?thesis
      by (rule exI [of _ old], rule exI [of _ "attempts_at r ?k"], rule exI [of _ "map (supersede v) (attempts_at r ?k)"],
          intro conjI view old t_def) (simp_all add: opened(2) a_def list_all_iff)
  qed (use run in simp)
qed

text \<open>The result a runtime returns for an execution it was given.\<close>

definition predicate_of :: "Execution \<Rightarrow> Predicate" where
  "predicate_of ex = \<lparr>p_RunID = t_RunID (ex_Task ex), p_TaskID = t_TaskID (ex_Task ex),
     p_ExecutionGeneration = t_ExecutionGeneration (ex_Task ex),
     p_PhysicalAttemptID = a_PhysicalAttemptID (ex_Attempt ex), p_AttemptNumber = a_AttemptNumber (ex_Attempt ex),
     p_LeaseEpoch = a_LeaseEpoch (ex_Attempt ex), p_FenceToken = ex_FenceToken ex,
     p_RuntimeUnitID = RuntimeUnitID (t_Runtime (ex_Task ex)),
     p_RuntimeManifestDigest = RuntimeManifestDigest (t_Runtime (ex_Task ex)),
     p_RuntimeImageDigest = RuntimeImageDigest (t_Runtime (ex_Task ex)),
     p_InvocationProtocolDigest = InvocationProtocolDigest (t_Runtime (ex_Task ex))\<rparr>"

text \<open>C28 (open, then settle). Over the in-memory repository, an execution the coordinator opened for a
  scope and a task identity without NUL bytes, and whose attempt identity is new to the task, is settled
  by the successful result that returns its facts before its deadline: the result commits and its
  statement is the one read back as the task's answer.\<close>

theorem opened_execution_settles:
  assumes "disp_inv m" and "c_repository c = memory_repository sha"
    and "OpenExecution sha c now (Inr token) request m = (Inr ex, m1)"
    and "nul_free (WorkspaceID (rq_Scope request)) \<and> nul_free (ProjectID (rq_Scope request)) \<and> nul_free (rq_TaskID request)"
    and "\<forall>b \<in> set (butlast (attempts_at m1 (key (rq_Scope request) (rq_TaskID request)))).
      a_PhysicalAttemptID b \<noteq> a_PhysicalAttemptID (ex_Attempt ex)"
    and "s = \<lparr>s_Scope = rq_Scope request, s_RunID = rq_RunID request, s_Predicate = predicate_of ex, s_Outcome = v\<rparr>"
    and "oc_ObservedAt v \<le> now + c_lease c" and "\<not> oc_Failed v"
  shows "\<exists>res m2 rg. Commit (c_repository c) s m1 = (Inr res, m2) \<and> Committed (rs_Disposition res) \<and>
    Settled c (rq_Scope request) (rq_TaskID request) m2 = (Inr (Some rg), m2) \<and>
    rg_Statement rg = oc_Statement v \<and> rg_ResultStatementDigest rg = oc_ResultStatementDigest v"
proof -
  let ?k = "key (rq_Scope request) (rq_TaskID request)"
  from memory.execution_is_current [OF assms(2,1,3)] obtain bs where
    x: "mem_view m1 (rq_Scope request) (rq_TaskID request) = Some (ex_Task ex, bs @ [ex_Attempt ex])"
      "is_open (ex_Attempt ex)" "\<not> Terminal (t_Status (ex_Task ex))" "ex_FenceToken ex = token"
      "a_FenceTokenDigest (ex_Attempt ex) = Digest sha token" "a_AttemptNumber (ex_Attempt ex) = t_Attempts (ex_Task ex)"
      "a_LeaseEpoch (ex_Attempt ex) = t_LeaseEpoch (ex_Task ex)"
      "a_ExpiresAt (ex_Attempt ex) = now + c_lease c" "t_ExpiresAt (ex_Task ex) = now + c_lease c"
    by blast
  have inv: "disp_inv m1" using memory.open_execution_good [OF assms(2,1,3)] .
  have task: "gm_get (mr_tasks m1) ?k = Some (ex_Task ex)" and atts: "attempts_at m1 ?k = bs @ [ex_Attempt ex]"
    using x(1) by (auto simp: mem_view_def)
  have "?k = key (t_Scope (ex_Task ex)) (t_TaskID (ex_Task ex))"
    using disp_invD(7) [OF inv task] by (simp add: task_ok_def)
  then have tid: "t_TaskID (ex_Task ex) = rq_TaskID request"
    using assms(4) scoped_key_nul_free unfolding key_def by metis
  have k: "key (s_Scope s) (p_TaskID (s_Predicate s)) = ?k" by (simp add: assms(6) predicate_of_def tid)
  have i: "find_index (\<lambda>a. a_PhysicalAttemptID a = p_PhysicalAttemptID (s_Predicate s)) (attempts_at m1 ?k) = Some (length bs)"
    using assms(5) by (auto simp: atts assms(6) predicate_of_def intro: find_index_last)
  have none: "gm_get (mr_results m1) ?k = None"
    using result_task [OF inv, of ?k] task x(3) by (cases "gm_get (mr_results m1) ?k") auto
  have "t_Status (ex_Task ex) \<notin> {Canceled, Expired, Succeeded, Failed}" using x(3) by auto
  moreover have "a_Status (ex_Attempt ex) \<notin> {Superseded, Canceled, Expired, Succeeded, Failed}"
    using x(2) by (auto simp: is_open_def)
  ultimately have "Evaluate sha (ex_Task ex) (ex_Attempt ex) None s (oc_ObservedAt v) = (DispositionCommitted, '''')"
    using assms(7) x(4-9)
    by (simp add: Evaluate_def text_comparisons_def number_comparisons_def assms(6) predicate_of_def)
  then have "mem_Commit sha s m1 = settle ?k (length bs) (ex_Task ex) v m1"
    using k task i none atts by (simp add: mem_Commit_def Committed_def assms(6))
  then show ?thesis
    using assms(2,8) by (simp add: memory_repository_def settle_def Let_def Committed_def Settled_def mem_Registration_def
        gm_get_put registration_of_def)
qed

section \<open>A concrete history\<close>

definition sha_demo :: "string \<Rightarrow> string" where
  "sha_demo s = rev s"

definition digest_demo :: string where
  "digest_demo = ''sha256:'' @ replicate 64 CHR ''a''"

definition scope_demo :: Scope where
  "scope_demo = \<lparr>WorkspaceID = ''w'', ProjectID = ''p''\<rparr>"

definition runtime_demo :: RuntimeBinding where
  "runtime_demo = \<lparr>RuntimeUnitID = ''unit'', RuntimeManifestDigest = digest_demo, RuntimeImageDigest = digest_demo,
     InvocationProtocolDigest = digest_demo, RuntimeAudience = ''aud''\<rparr>"

definition request_demo :: Request where
  "request_demo = \<lparr>rq_Scope = scope_demo, rq_TaskID = ''t'', rq_RunID = ''run'', rq_RootRunID = ''root'',
     rq_ExecutionGeneration = 1, rq_DefinitionDigest = digest_demo, rq_Runtime = runtime_demo,
     rq_Capability = ''cap'', rq_RequestDigest = digest_demo, rq_Replacing = ''''\<rparr>"

definition coordinator_demo :: "MemoryRepository Coordinator" where
  "coordinator_demo = \<lparr>c_repository = memory_repository sha_demo, c_lease = 10\<rparr>"

definition outcome_demo :: "time \<Rightarrow> Outcome" where
  "outcome_demo at = \<lparr>oc_Statement = ''answer'', oc_Status = ''succeeded'', oc_ReasonCode = ''COMPLETED'',
     oc_ResultStatementDigest = digest_demo, oc_SignatureKeyID = ''key'', oc_Failed = False, oc_ObservedAt = at\<rparr>"

text \<open>One attempt opened at 1 under a lease of 10, and a replacement opened at 20.\<close>

definition open1 :: "(err + Execution) \<times> MemoryRepository" where
  "open1 = OpenExecution sha_demo coordinator_demo 1 (Inr ''0123456789abcdef'') request_demo NewMemoryRepository"

definition open2 :: "(err + Execution) \<times> MemoryRepository" where
  "open2 = OpenExecution sha_demo coordinator_demo 20 (Inr ''fedcba9876543210'') request_demo (snd open1)"

definition result_for :: "err + Execution \<Rightarrow> time \<Rightarrow> Settle" where
  "result_for ex at = \<lparr>s_Scope = scope_demo, s_RunID = ''run'', s_Predicate = predicate_of (projr ex),
     s_Outcome = outcome_demo at\<rparr>"

definition settled1 :: "(err + Result) \<times> MemoryRepository" where
  "settled1 = mem_Commit sha_demo (result_for (fst open1) 5) (snd open1)"

text \<open>A coordinator's open is a sequence of repository steps.\<close>

lemma OpenExecution_steps:
  assumes "c_repository c = memory_repository sha"
  shows "disp_steps sha m (snd (OpenExecution sha c now minted request m))"
proof -
  let ?t = "requested_task request now (now + c_lease c)"
  have repo: "EnsureTask (c_repository c) = mem_EnsureTask" "OpenAttempt (c_repository c) = mem_OpenAttempt sha"
    by (simp_all add: assms memory_repository_def)
  obtain y r1 where ens: "mem_EnsureTask ?t m = (y, r1)" by fastforce
  note 1 = disp_step.ensure [OF ens, of sha]
  have opened: "disp_steps sha m r2" if "mem_OpenAttempt sha v r1 = (z, r2)" for v z r2
    using 1 disp_step.open_next [OF that] by (meson converse_rtranclp_into_rtranclp rtranclp.rtrancl_refl)
  show ?thesis
  proof (cases "Task_Validate ?t")
    case (Some e)
    then show ?thesis by (simp add: OpenExecution_def Let_def)
  next
    case None
    show ?thesis
    proof (cases y)
      case (Inl e)
      then show ?thesis using None ens 1 by (simp add: OpenExecution_def Let_def andThen_def repo)
    next
      case (Inr stored)
      then show ?thesis
        using None ens 1 opened
        by (cases minted) (auto simp: OpenExecution_def andThen_def Let_def repo split: prod.splits sum.splits)
    qed
  qed
qed

lemma reach_open1: "disp_reach sha_demo (snd open1)"
  unfolding disp_reach_def open1_def by (rule OpenExecution_steps) (simp add: coordinator_demo_def)

lemma reach_open2: "disp_reach sha_demo (snd open2)"
  by (rule disp_reach_steps [OF reach_open1], unfold open2_def, rule OpenExecution_steps) (simp add: coordinator_demo_def)

lemma commit_demo: "mem_Commit sha_demo (result_for (fst open1) 5) (snd open1) = settled1"
  by (simp add: settled1_def)

lemma settled1_ok: "(case fst settled1 of Inr res \<Rightarrow> rs_Disposition res = DispositionCommitted | Inl e \<Rightarrow> False)"
  by code_simp

lemma settled1_run: obtains res where "mem_Commit sha_demo (result_for (fst open1) 5) (snd open1) = (Inr res, snd settled1)"
    "Committed (rs_Disposition res)"
proof -
  obtain res where "fst settled1 = Inr res" "rs_Disposition res = DispositionCommitted"
    using settled1_ok by (auto split: sum.splits)
  with that [of res] commit_demo show thesis by (metis Committed_def prod.collapse)
qed

lemma step_settled1: "disp_steps sha_demo (snd open1) (snd settled1)"
  using disp_step.commit [of sha_demo "result_for (fst open1) 5" "snd open1" "fst settled1" "snd settled1"] commit_demo by simp

lemma reach_settled1: "disp_reach sha_demo (snd settled1)"
  by (rule disp_reach_steps [OF reach_open1 step_settled1])


theorem at_most_one_open_attempt_witness:
  "length (filter is_open (attempts_at (snd open2) (key scope_demo ''t''))) \<le> 1"
proof -
  have "gm_get (mr_tasks (snd open2)) (key scope_demo ''t'') \<noteq> None" by code_simp
  then show ?thesis using at_most_one_open_attempt [OF reach_open2] by blast
qed

theorem registration_is_forever_witness:
  "\<exists>rg. fst (mem_Registration scope_demo ''t'' (snd (mem_CancelRun scope_demo ''run'' ''STOP'' 6 (snd settled1)))) = Inr (Some rg)"
proof -
  have "(case fst (mem_Registration scope_demo ''t'' (snd settled1)) of Inr (Some rg) \<Rightarrow> True | _ \<Rightarrow> False)" by code_simp
  then obtain rg where "fst (mem_Registration scope_demo ''t'' (snd settled1)) = Inr (Some rg)"
    by (auto split: sum.splits option.splits)
  moreover have "disp_steps sha_demo (snd settled1) (snd (mem_CancelRun scope_demo ''run'' ''STOP'' 6 (snd settled1)))"
    using disp_step.cancel [of scope_demo "''run''" "''STOP''" 6 "snd settled1"] by (metis prod.collapse r_into_rtranclp)
  ultimately show ?thesis using registration_is_forever [OF reach_settled1] by blast
qed

theorem evidence_changes_nothing_witness:
  "mr_results (snd (mem_Commit sha_demo (result_for (fst open1) 5) (snd open2))) = mr_results (snd open2)"
proof -
  obtain x m' where run: "mem_Commit sha_demo (result_for (fst open1) 5) (snd open2) = (x, m')" by fastforce
  have "(case fst (mem_Commit sha_demo (result_for (fst open1) 5) (snd open2)) of
      Inr res \<Rightarrow> rs_Disposition res = DispositionExpired | Inl e \<Rightarrow> False)" by code_simp
  then obtain res where "x = Inr res" "\<not> Committed (rs_Disposition res)"
    using run by (auto simp: Committed_def split: sum.splits)
  with evidence_changes_nothing run show ?thesis by (metis snd_conv)
qed

theorem ended_attempt_is_never_written_witness:
  "attempts_at (snd settled1) (key scope_demo ''t'') ! 0 =
   attempts_at (snd (mem_CloseAttempt scope_demo (a_PhysicalAttemptID (attempts_at (snd settled1) (key scope_demo ''t'') ! 0))
     ''TURN_ABANDONED'' 9 (snd settled1))) (key scope_demo ''t'') ! 0"
proof -
  let ?m = "snd (mem_CloseAttempt scope_demo (a_PhysicalAttemptID (attempts_at (snd settled1) (key scope_demo ''t'') ! 0))
     ''TURN_ABANDONED'' 9 (snd settled1))"
  have "disp_steps sha_demo (snd settled1) ?m"
    using disp_step.close [of scope_demo "a_PhysicalAttemptID (attempts_at (snd settled1) (key scope_demo ''t'') ! 0)"
        "''TURN_ABANDONED''" 9 "snd settled1"] by (metis prod.collapse r_into_rtranclp)
  moreover have "0 < length (attempts_at (snd settled1) (key scope_demo ''t''))"
    "Terminal (a_Status (attempts_at (snd settled1) (key scope_demo ''t'') ! 0))" by code_simp+
  ultimately show ?thesis using ended_attempt_is_never_written [OF reach_settled1] by metis
qed

theorem redelivery_is_a_duplicate_witness:
  "\<exists>res' e. mem_Commit sha_demo (result_for (fst open1) 5) (snd settled1) = (Inr res', record_evidence e (snd settled1)) \<and>
    rs_Disposition res' = DispositionDuplicate"
proof -
  obtain res where run: "mem_Commit sha_demo (result_for (fst open1) 5) (snd open1) = (Inr res, snd settled1)"
    "Committed (rs_Disposition res)" by (rule settled1_run)
  have "\<not> oc_Failed (s_Outcome (result_for (fst open1) 5))" by code_simp
  from redelivery_is_a_duplicate [OF reach_open1 run this rtranclp.rtrancl_refl] show ?thesis by blast
qed

theorem opened_execution_settles_witness:
  "\<exists>res m2. Commit (c_repository coordinator_demo) (result_for (fst open1) 5) (snd open1) = (Inr res, m2) \<and> Committed (rs_Disposition res)"
proof -
  have "(case fst open1 of Inr ex \<Rightarrow> True | Inl e \<Rightarrow> False)" by code_simp
  then obtain ex where ex: "fst open1 = Inr ex" by (auto split: sum.splits)
  then have run: "OpenExecution sha_demo coordinator_demo 1 (Inr ''0123456789abcdef'') request_demo NewMemoryRepository = (Inr ex, snd open1)"
    unfolding open1_def by (metis prod.collapse)
  have one: "butlast (attempts_at (snd open1) (key (rq_Scope request_demo) (rq_TaskID request_demo))) = []" by code_simp
  show ?thesis
    using opened_execution_settles [OF New_disp_inv _ run, where v = "outcome_demo 5", OF _ _ _ refl] one ex
    by (auto simp: coordinator_demo_def result_for_def outcome_demo_def request_demo_def scope_demo_def nul_free_def NUL_def)
qed

definition stranded :: MemoryRepository where
  "stranded = snd (mem_Commit sha_demo (result_for (fst open1) 40) (snd open2))"

text \<open>A late result of an attempt that was replaced can expire
  its task while the replacement is still open. Cancelling the run then passes the task over, reports
  no open attempt and leaves the replacement open, and no further attempt can be opened.\<close>

theorem late_result_strands_the_current_attempt:
  "map_option t_Status (gm_get (mr_tasks stranded) (key scope_demo ''t'')) = Some Expired \<and>
   is_open (last (attempts_at stranded (key scope_demo ''t''))) \<and>
   fst (mem_CancelRun scope_demo ''run'' ''LEASE_REVOKED'' 50 stranded) = Inr 0 \<and>
   is_open (last (attempts_at (snd (mem_CancelRun scope_demo ''run'' ''LEASE_REVOKED'' 50 stranded)) (key scope_demo ''t''))) \<and>
   (case fst (OpenExecution sha_demo coordinator_demo 60 (Inr ''0123456789abcdef'') request_demo stranded) of
      Inl e \<Rightarrow> True | Inr ex \<Rightarrow> False)"
  by (intro conjI; code_simp)

end
