(* ===== verification/Queue.thy ===== *)
theory Queue
  imports Prelude Problem
begin

text \<open>
  At-least-once delivery with inbox deduplication (\<open>src/internal/queue/queue.go\<close>): the processor over
  the \<open>Broker\<close>, \<open>Inbox\<close> and \<open>Effect\<close> interfaces, and \<open>Memory\<close>, the implementation of all three the
  source has. SHA-256 is the argument \<open>sha\<close> on byte strings. The clock and the failure injector are
  fields of the processor, standing for what they answer during one call of \<open>Handle\<close>. Deliveries that
  run at the same time, and processes that die in the middle of one, are the step relation of the
  second half.
\<close>

section \<open>Data\<close>

record Message =
  m_ID :: string
  m_WorkspaceID :: string
  m_ProjectID :: string
  m_RunID :: string
  m_TaskID :: string
  m_Topic :: string
  m_Payload :: string
  m_Attempts :: int
  m_AvailableAt :: time

record DLQ =
  q_Message :: Message
  q_Code :: string
  q_Stage :: string
  q_RunID :: string
  q_Detail :: string
  q_CreatedAt :: time
  q_Replayed :: bool

datatype FailurePoint = AfterEffect | AfterInboxCommit | BeforeAck

text \<open>The runes the loop of \<open>validID\<close> admits, at the first and at any later index.\<close>

definition validID_first :: "char \<Rightarrow> bool" where
  "validID_first c \<longleftrightarrow> is_upper c \<or> is_lower c \<or> is_digit c"

definition validID_later :: "char \<Rightarrow> bool" where
  "validID_later c \<longleftrightarrow> validID_first c \<or> c = CHR ''.'' \<or> c = CHR ''_'' \<or> c = CHR '':'' \<or> c = CHR ''-''"

definition validID :: "string \<Rightarrow> bool" where
  "validID value \<longleftrightarrow> 1 \<le> length value \<and> length value \<le> 128 \<and>
     (case value of [] \<Rightarrow> False | c # cs \<Rightarrow> validID_first c \<and> list_all validID_later cs)"

definition Validate :: "Message \<Rightarrow> err option" where
  "Validate m =
     (if \<not> validID (m_ID m) \<or> \<not> validID (m_WorkspaceID m) \<or> \<not> validID (m_ProjectID m) \<or> \<not> validID (m_RunID m)
         \<or> \<not> validID (m_TaskID m) \<or> \<not> validID (m_Topic m) \<or> length (m_Payload m) = 0
         \<or> int (length (m_Payload m)) > 2 ^ 20 \<or> m_Attempts m < 0 \<or> m_Attempts m > 100
      then Some (problem CodeRequestInvalid) else None)"

section \<open>The interfaces and the processor\<close>

record 's Broker =
  Publish :: "Message \<Rightarrow> ('s, err, unit) op"
  Ack :: "Message \<Rightarrow> ('s, err, unit) op"
  DeadLetter :: "DLQ \<Rightarrow> ('s, err, unit) op"

record 's Inbox =
  Begin :: "Message \<Rightarrow> ('s, err, bool) op"
  Commit :: "Message \<Rightarrow> ('s, err, unit) op"

record 's Effect =
  Write :: "Message \<Rightarrow> ('s, err, unit) op"

record 's Processor =
  p_broker :: "'s Broker"
  p_inbox :: "'s Inbox"
  p_effect :: "'s Effect"
  p_inject :: "(FailurePoint \<Rightarrow> err option) option"
  p_maxAttempts :: int
  p_now :: time

definition NewWithClock :: "'s Broker \<Rightarrow> 's Inbox \<Rightarrow> 's Effect \<Rightarrow> time \<Rightarrow> int
    \<Rightarrow> (FailurePoint \<Rightarrow> err option) option \<Rightarrow> err + 's Processor" where
  "NewWithClock b i e now m injector =
     (if m < 1 \<or> m > 100 then Inl (Plain ''queue processor dependencies are invalid'')
      else Inr \<lparr>p_broker = b, p_inbox = i, p_effect = e, p_inject = injector, p_maxAttempts = m, p_now = now\<rparr>)"

definition fail :: "'s Processor \<Rightarrow> FailurePoint \<Rightarrow> ('s, err, unit) op" where
  "fail p point s =
     (case p_inject p of
        None \<Rightarrow> (Inr (), s)
      | Some injector \<Rightarrow> (case injector point of None \<Rightarrow> (Inr (), s) | Some e \<Rightarrow> (Inl e, s)))"

definition dead_letter :: "Message \<Rightarrow> err \<Rightarrow> time \<Rightarrow> DLQ" where
  "dead_letter m cause now =
     \<lparr>q_Message = m, q_Code = code_string CodeWorkerFailed, q_Stage = ''queue-consume'', q_RunID = m_RunID m,
      q_Detail = take 2048 (Error cause), q_CreatedAt = now, q_Replayed = False\<rparr>"

definition failOrDLQ :: "'s Processor \<Rightarrow> Message \<Rightarrow> err \<Rightarrow> ('s, err, unit) op" where
  "failOrDLQ p m cause s =
     (if m_Attempts m < p_maxAttempts p then (Inl cause, s)
      else if p_now p = 0 then (Inl (problem CodeInfrastructureUnavailable), s)
      else andThen (DeadLetter (p_broker p) (dead_letter m cause (p_now p))) (\<lambda>_. Ack (p_broker p) m) s)"

definition acknowledge :: "'s Processor \<Rightarrow> Message \<Rightarrow> ('s, err, unit) op" where
  "acknowledge p m = andThen (fail p BeforeAck) (\<lambda>_. Ack (p_broker p) m)"

definition Handle :: "'s Processor \<Rightarrow> Message \<Rightarrow> ('s, err, unit) op" where
  "Handle p m s =
     (case Validate m of
        Some e \<Rightarrow> (Inl e, s)
      | None \<Rightarrow>
          (case Begin (p_inbox p) m s of
             (Inl e, s) \<Rightarrow> (Inl e, s)
           | (Inr fresh, s) \<Rightarrow>
               (if \<not> fresh then acknowledge p m s
                else case Write (p_effect p) m s of
                  (Inl e, s) \<Rightarrow> failOrDLQ p m e s
                | (Inr _, s) \<Rightarrow>
                    andThen (fail p AfterEffect) (\<lambda>_.
                    andThen (Commit (p_inbox p) m) (\<lambda>_.
                    andThen (fail p AfterInboxCommit) (\<lambda>_.
                    acknowledge p m))) s)))"

section \<open>The memory implementation\<close>

record Memory =
  me_messages :: "Message gomap"
  me_acked :: "bool gomap"
  me_dlq :: "DLQ list"
  me_inbox :: "string gomap"
  me_committed :: "bool gomap"
  me_effects :: "string gomap"

definition NewMemory :: Memory where
  "NewMemory = \<lparr>me_messages = [], me_acked = [], me_dlq = [], me_inbox = [], me_committed = [], me_effects = []\<rparr>"

definition messageKey :: "Message \<Rightarrow> string" where
  "messageKey m = scoped_key (m_WorkspaceID m) (m_ProjectID m) (m_ID m)"

definition message_bytes :: "Message \<Rightarrow> string" where
  "message_bytes m = m_Topic m @ [NUL] @ m_RunID m @ [NUL] @ m_TaskID m @ [NUL] @ m_Payload m"

definition messageDigest :: "(string \<Rightarrow> string) \<Rightarrow> Message \<Rightarrow> string" where
  "messageDigest sha m = sha (message_bytes m)"

text \<open>Reading a missing key of a \<open>map[string]bool\<close> gives \<open>false\<close>.\<close>

definition flag :: "bool gomap \<Rightarrow> string \<Rightarrow> bool" where
  "flag f k \<longleftrightarrow> gm_get f k = Some True"

definition deadLettered :: "Memory \<Rightarrow> string \<Rightarrow> bool" where
  "deadLettered m identity \<longleftrightarrow> list_ex (\<lambda>v. messageKey (q_Message v) = identity) (me_dlq m)"

definition mem_Publish :: "(string \<Rightarrow> string) \<Rightarrow> Message \<Rightarrow> (Memory, err, unit) op" where
  "mem_Publish sha v m =
     (case Validate v of
        Some e \<Rightarrow> (Inl e, m)
      | None \<Rightarrow>
          (case gm_get (me_messages m) (messageKey v) of
             Some prior \<Rightarrow>
               (if messageDigest sha prior \<noteq> messageDigest sha v
                then (Inl (problem CodeIdempotencyConflict), m) else (Inr (), m))
           | None \<Rightarrow> (Inr (), m\<lparr>me_messages := gm_put (messageKey v) v (me_messages m)\<rparr>)))"

definition mem_Ack :: "(string \<Rightarrow> string) \<Rightarrow> Message \<Rightarrow> (Memory, err, unit) op" where
  "mem_Ack sha v m =
     (let identity = messageKey v
      in if gm_get (me_inbox m) identity \<noteq> Some (messageDigest sha v)
            \<or> \<not> flag (me_committed m) identity \<and> \<not> deadLettered m identity
         then (Inl (problem CodeWorkerFenceStale), m)
         else (Inr (), m\<lparr>me_acked := gm_put identity True (me_acked m)\<rparr>))"

definition mem_DeadLetter :: "(string \<Rightarrow> string) \<Rightarrow> DLQ \<Rightarrow> (Memory, err, unit) op" where
  "mem_DeadLetter sha v m =
     (case Validate (q_Message v) of
        Some e \<Rightarrow> (Inl e, m)
      | None \<Rightarrow>
          (if q_RunID v \<noteq> m_RunID (q_Message v) \<or> q_Code v = '''' \<or> q_Stage v = '''' \<or> length (q_Code v) > 128
              \<or> length (q_Stage v) > 128 \<or> length (q_Detail v) > 2048 \<or> q_CreatedAt v = 0
           then (Inl (problem CodeRequestInvalid), m)
           else case find (\<lambda>prior. messageKey (q_Message prior) = messageKey (q_Message v)) (me_dlq m) of
             Some prior \<Rightarrow>
               (if q_Code prior \<noteq> q_Code v \<or> q_Stage prior \<noteq> q_Stage v \<or> q_RunID prior \<noteq> q_RunID v
                   \<or> q_Detail prior \<noteq> q_Detail v
                   \<or> messageDigest sha (q_Message prior) \<noteq> messageDigest sha (q_Message v)
                then (Inl (problem CodeIdempotencyConflict), m) else (Inr (), m))
           | None \<Rightarrow> (Inr (), m\<lparr>me_dlq := me_dlq m @ [v]\<rparr>)))"

definition mem_Begin :: "(string \<Rightarrow> string) \<Rightarrow> Message \<Rightarrow> (Memory, err, bool) op" where
  "mem_Begin sha v m =
     (case Validate v of
        Some e \<Rightarrow> (Inl e, m)
      | None \<Rightarrow>
          (let sum = messageDigest sha v; identity = messageKey v
           in case gm_get (me_inbox m) identity of
                Some prior \<Rightarrow>
                  (if prior \<noteq> sum then (Inl (problem CodeIdempotencyConflict), m)
                   else (Inr (\<not> flag (me_committed m) identity), m))
              | None \<Rightarrow> (Inr True, m\<lparr>me_inbox := gm_put identity sum (me_inbox m)\<rparr>)))"

definition mem_Commit :: "(string \<Rightarrow> string) \<Rightarrow> Message \<Rightarrow> (Memory, err, unit) op" where
  "mem_Commit sha v m =
     (if gm_get (me_inbox m) (messageKey v) \<noteq> Some (messageDigest sha v)
      then (Inl (problem CodeIdempotencyConflict), m)
      else (Inr (), m\<lparr>me_committed := gm_put (messageKey v) True (me_committed m)\<rparr>))"

definition mem_Write :: "(string \<Rightarrow> string) \<Rightarrow> Message \<Rightarrow> (Memory, err, unit) op" where
  "mem_Write sha v m =
     (let sum = sha (m_Payload v); identity = messageKey v
      in case gm_get (me_effects m) identity of
           Some prior \<Rightarrow>
             (if prior \<noteq> sum then (Inl (problem CodeIdempotencyConflict), m)
              else (Inr (), m\<lparr>me_effects := gm_put identity sum (me_effects m)\<rparr>))
         | None \<Rightarrow> (Inr (), m\<lparr>me_effects := gm_put identity sum (me_effects m)\<rparr>))"

definition Stats :: "Memory \<Rightarrow> nat \<times> nat \<times> nat" where
  "Stats m = (length (me_effects m), length (me_acked m), length (me_dlq m))"

definition memory_broker :: "(string \<Rightarrow> string) \<Rightarrow> Memory Broker" where
  "memory_broker sha = \<lparr>Publish = mem_Publish sha, Ack = mem_Ack sha, DeadLetter = mem_DeadLetter sha\<rparr>"

definition memory_inbox :: "(string \<Rightarrow> string) \<Rightarrow> Memory Inbox" where
  "memory_inbox sha = \<lparr>Begin = mem_Begin sha, Commit = mem_Commit sha\<rparr>"

definition memory_effect :: "(string \<Rightarrow> string) \<Rightarrow> Memory Effect" where
  "memory_effect sha = \<lparr>Write = mem_Write sha\<rparr>"

text \<open>\<open>Replay\<close> marks the entry, handles its message again, and takes the mark back when that fails.\<close>

definition set_replayed :: "nat \<Rightarrow> bool \<Rightarrow> Memory \<Rightarrow> Memory" where
  "set_replayed index b m = m\<lparr>me_dlq := (me_dlq m)[index := (me_dlq m ! index)\<lparr>q_Replayed := b\<rparr>]\<rparr>"

definition Replay :: "Memory Processor \<Rightarrow> int \<Rightarrow> (Memory, err, unit) op" where
  "Replay p index m =
     (if index < 0 \<or> index \<ge> int (length (me_dlq m)) then (Inl (problem CodeResourceNotFound), m)
      else
        (let n = nat index; entry = me_dlq m ! n
         in if q_Replayed entry then (Inr (), m)
            else case Handle p ((q_Message entry)\<lparr>m_Attempts := 0\<rparr>) (set_replayed n True m) of
              (Inl e, m') \<Rightarrow> (Inl e, set_replayed n False m')
            | (Inr _, m') \<Rightarrow> (Inr (), m')))"

section \<open>Deliveries in flight\<close>

text \<open>
  A delivery that has begun is a message with the next thing it has to do. Each call on the broker, the
  inbox and the effect is one step; between two of them any other delivery may run, and a delivery
  may end at any point: an injected failure, a cancelled context or a process that died.
\<close>

datatype stage = Writing | Committing | Acking | Giving err

type_synonym flight = "Message \<times> stage"

inductive flight_step :: "'s Broker \<Rightarrow> 's Inbox \<Rightarrow> 's Effect \<Rightarrow> int \<Rightarrow> 's \<times> flight list \<Rightarrow> 's \<times> flight list \<Rightarrow> bool"
  for b :: "'s Broker" and i :: "'s Inbox" and e :: "'s Effect" and maximum :: int where
  receive: "Validate m = None \<Longrightarrow> Begin i m s = (Inr fresh, s') \<Longrightarrow>
    flight_step b i e maximum (s, fs) (s', (m, if fresh then Writing else Acking) # fs)"
| receive_failed: "Validate m = None \<Longrightarrow> Begin i m s = (Inl er, s') \<Longrightarrow>
    flight_step b i e maximum (s, fs) (s', fs)"
| write_done: "Write e m s = (Inr (), s') \<Longrightarrow>
    flight_step b i e maximum (s, as @ (m, Writing) # bs) (s', as @ (m, Committing) # bs)"
| write_failed: "Write e m s = (Inl er, s') \<Longrightarrow>
    flight_step b i e maximum (s, as @ (m, Writing) # bs) (s', as @ (m, Giving er) # bs)"
| commit_done: "Commit i m s = (Inr (), s') \<Longrightarrow>
    flight_step b i e maximum (s, as @ (m, Committing) # bs) (s', as @ (m, Acking) # bs)"
| commit_failed: "Commit i m s = (Inl er, s') \<Longrightarrow>
    flight_step b i e maximum (s, as @ (m, Committing) # bs) (s', as @ bs)"
| dead_lettered: "\<not> m_Attempts m < maximum \<Longrightarrow> now \<noteq> 0 \<Longrightarrow>
    DeadLetter b (dead_letter m er now) s = (Inr (), s') \<Longrightarrow>
    flight_step b i e maximum (s, as @ (m, Giving er) # bs) (s', as @ (m, Acking) # bs)"
| dead_letter_failed: "\<not> m_Attempts m < maximum \<Longrightarrow> now \<noteq> 0 \<Longrightarrow>
    DeadLetter b (dead_letter m er now) s = (Inl er', s') \<Longrightarrow>
    flight_step b i e maximum (s, as @ (m, Giving er) # bs) (s', as @ bs)"
| acked: "Ack b m s = (r, s') \<Longrightarrow>
    flight_step b i e maximum (s, as @ (m, Acking) # bs) (s', as @ bs)"
| ended: "flight_step b i e maximum (s, as @ f # bs) (s, as @ bs)"

abbreviation flight_steps :: "'s Broker \<Rightarrow> 's Inbox \<Rightarrow> 's Effect \<Rightarrow> int \<Rightarrow> 's \<times> flight list \<Rightarrow> 's \<times> flight list \<Rightarrow> bool" where
  "flight_steps b i e maximum \<equiv> (flight_step b i e maximum)\<^sup>*\<^sup>*"

lemmas flight_head = write_done [where as = "[]", simplified] write_failed [where as = "[]", simplified]
  commit_done [where as = "[]", simplified] commit_failed [where as = "[]", simplified]
  dead_lettered [where as = "[]", simplified] dead_letter_failed [where as = "[]", simplified]
  acked [where as = "[]", simplified] ended [where as = "[]", simplified]

lemmas flight_then = converse_rtranclp_into_rtranclp [where r = "flight_step b i e maximum" for b i e maximum]

subsection \<open>\<open>Handle\<close> is a run of one delivery\<close>

lemma fail_cases: "fail p point s = (r, s') \<Longrightarrow> s' = s"
  by (auto simp: fail_def split: option.splits)

lemma acknowledge_flight:
  assumes "acknowledge p m s = (r, t)"
  shows "flight_steps (p_broker p) i e maximum (s, (m, Acking) # fs) (t, fs)"
proof (cases "fail p BeforeAck s")
  case (Pair q s1)
  then have s1: "s1 = s" by (rule fail_cases)
  show ?thesis
  proof (cases q)
    case (Inl er)
    with Pair assms s1 have "t = s" by (simp add: acknowledge_def)
    then show ?thesis by (auto intro: r_into_rtranclp flight_head)
  next
    case (Inr u)
    with Pair assms s1 have "Ack (p_broker p) m s = (r, t)" by (simp add: acknowledge_def)
    then show ?thesis by (auto intro: r_into_rtranclp flight_head)
  qed
qed

lemma failOrDLQ_flight:
  assumes "failOrDLQ p m er s = (r, t)"
  shows "flight_steps (p_broker p) i e (p_maxAttempts p) (s, (m, Giving er) # fs) (t, fs)"
proof (cases "m_Attempts m < p_maxAttempts p \<or> p_now p = 0")
  case True
  with assms have "t = s" by (auto simp: failOrDLQ_def split: if_splits)
  then show ?thesis by (auto intro: r_into_rtranclp flight_head)
next
  case False
  obtain q s1 where d: "DeadLetter (p_broker p) (dead_letter m er (p_now p)) s = (q, s1)" by fastforce
  show ?thesis
  proof (cases q)
    case (Inl er')
    with d False assms have "t = s1" by (simp add: failOrDLQ_def)
    with d Inl False show ?thesis by (auto intro: r_into_rtranclp flight_head)
  next
    case (Inr u)
    with d False assms have a: "Ack (p_broker p) m s1 = (r, t)" by (simp add: failOrDLQ_def)
    have "flight_step (p_broker p) i e (p_maxAttempts p) (s, (m, Giving er) # fs) (s1, (m, Acking) # fs)"
      using d Inr False by (auto intro: flight_head)
    moreover have "flight_step (p_broker p) i e (p_maxAttempts p) (s1, (m, Acking) # fs) (t, fs)"
      using a by (rule flight_head)
    ultimately show ?thesis by (rule flight_then [OF _ r_into_rtranclp])
  qed
qed

lemma committing_flight:
  assumes "andThen (fail p AfterEffect) (\<lambda>_. andThen (Commit (p_inbox p) m) (\<lambda>_.
      andThen (fail p AfterInboxCommit) (\<lambda>_. acknowledge p m))) s = (r, t)"
  shows "flight_steps (p_broker p) (p_inbox p) e maximum (s, (m, Committing) # fs) (t, fs)"
proof (cases "fail p AfterEffect s")
  case (Pair q s1)
  then have s1: "s1 = s" by (rule fail_cases)
  obtain q2 s2 where c: "Commit (p_inbox p) m s = (q2, s2)" by fastforce
  obtain q3 s3 where f: "fail p AfterInboxCommit s2 = (q3, s3)" by fastforce
  then have s3: "s3 = s2" by (rule fail_cases)
  show ?thesis
  proof (cases "\<exists>er. q = Inl er \<or> q2 = Inl er")
    case True
    then consider er where "q = Inl er" | er where "q = Inr ()" "q2 = Inl er" by (cases q) auto
    then show ?thesis
    proof cases
      case 1
      with assms Pair s1 have "t = s" by simp
      then show ?thesis by (auto intro: r_into_rtranclp flight_head)
    next
      case 2
      with assms Pair s1 c have "t = s2" by simp
      with c 2 show ?thesis by (auto intro: r_into_rtranclp flight_head)
    qed
  next
    case False
    then have qs: "q = Inr ()" "q2 = Inr ()" by (cases q; cases q2; auto)+
    have st: "flight_step (p_broker p) (p_inbox p) e maximum (s, (m, Committing) # fs) (s2, (m, Acking) # fs)"
      using c qs by (auto intro: flight_head)
    have "flight_steps (p_broker p) (p_inbox p) e maximum (s2, (m, Acking) # fs) (t, fs)"
    proof (cases q3)
      case (Inl er)
      with assms Pair s1 c f s3 qs have "t = s2" by simp
      then show ?thesis by (auto intro: r_into_rtranclp flight_head)
    next
      case (Inr u)
      with assms Pair s1 c f s3 qs have "acknowledge p m s2 = (r, t)" by simp
      then show ?thesis by (rule acknowledge_flight)
    qed
    with st show ?thesis by (rule flight_then)
  qed
qed

lemma Handle_flight:
  assumes "Handle p m s = (r, t)"
  shows "flight_steps (p_broker p) (p_inbox p) (p_effect p) (p_maxAttempts p) (s, fs) (t, fs)"
proof (cases "Validate m")
  case (Some er)
  with assms show ?thesis by (simp add: Handle_def)
next
  case None
  obtain q s1 where b: "Begin (p_inbox p) m s = (q, s1)" by fastforce
  show ?thesis
  proof (cases q)
    case (Inl er)
    with b assms None have "t = s1" by (simp add: Handle_def)
    with b Inl None show ?thesis by (auto intro: r_into_rtranclp receive_failed)
  next
    case (Inr fresh)
    have st: "flight_step (p_broker p) (p_inbox p) (p_effect p) (p_maxAttempts p) (s, fs)
        (s1, (m, if fresh then Writing else Acking) # fs)"
      using b Inr None by (intro receive) simp_all
    show ?thesis
    proof (cases fresh)
      case False
      with assms b Inr None have "acknowledge p m s1 = (r, t)" by (simp add: Handle_def)
      from flight_then [OF st] acknowledge_flight [OF this] False show ?thesis by simp
    next
      case True
      obtain q2 s2 where w: "Write (p_effect p) m s1 = (q2, s2)" by fastforce
      show ?thesis
      proof (cases q2)
        case (Inl er)
        with assms b Inr None True w have g: "failOrDLQ p m er s2 = (r, t)" by (simp add: Handle_def)
        have "flight_step (p_broker p) (p_inbox p) (p_effect p) (p_maxAttempts p) (s1, (m, Writing) # fs)
            (s2, (m, Giving er) # fs)"
          using w Inl by (auto intro: flight_head)
        from flight_then [OF this failOrDLQ_flight [OF g]] st True show ?thesis
          by (auto intro: flight_then)
      next
        case (Inr u)
        with assms b \<open>q = Inr fresh\<close> None True w have g: "andThen (fail p AfterEffect) (\<lambda>_.
            andThen (Commit (p_inbox p) m) (\<lambda>_. andThen (fail p AfterInboxCommit) (\<lambda>_. acknowledge p m))) s2 = (r, t)"
          by (simp add: Handle_def)
        have "flight_step (p_broker p) (p_inbox p) (p_effect p) (p_maxAttempts p) (s1, (m, Writing) # fs)
            (s2, (m, Committing) # fs)"
          using w Inr by (auto intro: flight_head)
        from flight_then [OF this committing_flight [OF g]] st True show ?thesis
          by (auto intro: flight_then)
      qed
    qed
  qed
qed

section \<open>The delivery contract\<close>

text \<open>
  What the processor relies on: \<open>Begin\<close> begins a message or reports that it is committed, a write that
  succeeds is recorded, a commit happens only behind a recorded write, a message is acknowledged only
  when it is committed or dead-lettered, and none of these facts is ever taken back.
\<close>

definition flight_ok :: "(Message \<Rightarrow> 's \<Rightarrow> bool) \<Rightarrow> (Message \<Rightarrow> 's \<Rightarrow> bool) \<Rightarrow> (Message \<Rightarrow> 's \<Rightarrow> bool)
    \<Rightarrow> (Message \<Rightarrow> 's \<Rightarrow> bool) \<Rightarrow> 's \<Rightarrow> flight \<Rightarrow> bool" where
  "flight_ok begun written committed dead s f \<longleftrightarrow>
     Validate (fst f) = None \<and> begun (fst f) s \<and>
     (snd f = Committing \<longrightarrow> written (fst f) s) \<and>
     (snd f = Acking \<longrightarrow> committed (fst f) s \<or> dead (fst f) s)"

locale delivery =
  fixes b :: "'s Broker" and i :: "'s Inbox" and e :: "'s Effect"
    and good :: "'s \<Rightarrow> bool" and le :: "'s \<Rightarrow> 's \<Rightarrow> bool"
    and begun written committed dead acknowledged :: "Message \<Rightarrow> 's \<Rightarrow> bool"
  assumes le_refl [simp]: "le s s"
    and le_trans: "le s t \<Longrightarrow> le t u \<Longrightarrow> le s u"
    and stable: "le s t \<Longrightarrow> begun m s \<Longrightarrow> begun m t" "le s t \<Longrightarrow> written m s \<Longrightarrow> written m t"
      "le s t \<Longrightarrow> committed m s \<Longrightarrow> committed m t" "le s t \<Longrightarrow> dead m s \<Longrightarrow> dead m t"
    and begin_law: "good s \<Longrightarrow> Validate m = None \<Longrightarrow> Begin i m s = (q, s') \<Longrightarrow>
      good s' \<and> le s s' \<and> (\<forall>fresh. q = Inr fresh \<longrightarrow> begun m s' \<and> (\<not> fresh \<longrightarrow> committed m s'))"
    and write_law: "good s \<Longrightarrow> Validate m = None \<Longrightarrow> begun m s \<Longrightarrow> Write e m s = (r, s') \<Longrightarrow>
      good s' \<and> le s s' \<and> (r = Inr () \<longrightarrow> written m s')"
    and commit_law: "good s \<Longrightarrow> begun m s \<Longrightarrow> written m s \<Longrightarrow> Commit i m s = (r, s') \<Longrightarrow>
      good s' \<and> le s s' \<and> (r = Inr () \<longrightarrow> committed m s')"
    and dead_letter_law: "good s \<Longrightarrow> DeadLetter b d s = (r, s') \<Longrightarrow>
      good s' \<and> le s s' \<and> (r = Inr () \<longrightarrow> dead (q_Message d) s')"
    and ack_law: "good s \<Longrightarrow> Ack b m s = (r, s') \<Longrightarrow>
      good s' \<and> le s s' \<and> (r = Inr () \<longrightarrow> acknowledged m s')"
    and settled: "good s \<Longrightarrow> acknowledged m s \<Longrightarrow> written m s \<and> committed m s \<or> dead m s"
begin

lemma flight_ok_le:
  "flight_ok begun written committed dead s f \<Longrightarrow> le s t \<Longrightarrow> flight_ok begun written committed dead t f"
  using stable by (auto simp: flight_ok_def)

lemma flights_ok_le:
  "list_all (flight_ok begun written committed dead s) fs \<Longrightarrow> le s t \<Longrightarrow>
   list_all (flight_ok begun written committed dead t) fs"
  by (auto simp: list_all_iff intro: flight_ok_le)

lemma flight_step_ok:
  assumes "flight_step b i e maximum c c'" and "good (fst c)"
    and "list_all (flight_ok begun written committed dead (fst c)) (snd c)"
  shows "good (fst c') \<and> le (fst c) (fst c') \<and> list_all (flight_ok begun written committed dead (fst c')) (snd c')"
  using assms
proof (cases rule: flight_step.cases)
  case (receive m s fresh s' fs)
  then show ?thesis using assms(2,3) begin_law [of s m "Inr fresh" s'] flights_ok_le [of s fs s']
    by (auto simp: flight_ok_def)
next
  case (receive_failed m s er s' fs)
  then show ?thesis using assms(2,3) begin_law [of s m "Inl er" s'] flights_ok_le [of s fs s'] by auto
next
  case (write_done m s s' as bs)
  then show ?thesis using assms(2,3) write_law [of s m "Inr ()" s'] flights_ok_le [of s as s'] flights_ok_le [of s bs s']
    stable(1) [of s s' m] by (auto simp: flight_ok_def)
next
  case (write_failed m s er s' as bs)
  then show ?thesis using assms(2,3) write_law [of s m "Inl er" s'] flights_ok_le [of s as s'] flights_ok_le [of s bs s']
    stable(1) [of s s' m] by (auto simp: flight_ok_def)
next
  case (commit_done m s s' as bs)
  then show ?thesis using assms(2,3) commit_law [of s m "Inr ()" s'] flights_ok_le [of s as s'] flights_ok_le [of s bs s']
    stable(1) [of s s' m] by (auto simp: flight_ok_def)
next
  case (commit_failed m s er s' as bs)
  then show ?thesis using assms(2,3) commit_law [of s m "Inl er" s'] flights_ok_le [of s as s'] flights_ok_le [of s bs s']
    by (auto simp: flight_ok_def)
next
  case (dead_lettered m now er s s' as bs)
  then show ?thesis using assms(2,3) dead_letter_law [of s "dead_letter m er now" "Inr ()" s']
      flights_ok_le [of s as s'] flights_ok_le [of s bs s'] stable(1) [of s s' m]
    by (auto simp: flight_ok_def dead_letter_def)
next
  case (dead_letter_failed m now er s er' s' as bs)
  then show ?thesis using assms(2,3) dead_letter_law [of s "dead_letter m er now" "Inl er'" s']
      flights_ok_le [of s as s'] flights_ok_le [of s bs s']
    by auto
next
  case (acked m s r s' as bs)
  then show ?thesis using assms(2,3) ack_law [of s m r s'] flights_ok_le [of s as s'] flights_ok_le [of s bs s']
    by auto
next
  case (ended s as f bs)
  then show ?thesis using assms(2,3) by auto
qed

lemma flight_steps_ok:
  assumes "flight_steps b i e maximum c c'" and "good (fst c)"
    and "list_all (flight_ok begun written committed dead (fst c)) (snd c)"
  shows "good (fst c') \<and> le (fst c) (fst c') \<and> list_all (flight_ok begun written committed dead (fst c')) (snd c')"
  using assms
proof (induction rule: rtranclp_induct)
  case base
  then show ?case by simp
next
  case (step d d')
  then have "good (fst d) \<and> le (fst c) (fst d) \<and> list_all (flight_ok begun written committed dead (fst d)) (snd d)"
    by simp
  with flight_step_ok [OF step.hyps(2)] le_trans show ?case by blast
qed

lemma Handle_kept:
  assumes "good s" and "p_broker p = b" and "p_inbox p = i" and "p_effect p = e" and "Handle p m s = (r, t)"
  shows "good t \<and> le s t"
  using flight_steps_ok [OF Handle_flight [OF assms(5), of "[]", unfolded assms(2-4)]] assms(1) by simp

text \<open>A delivery that ends well acknowledged its message, so the message is settled.\<close>

lemma Handle_acknowledges:
  assumes "good s" and "p_broker p = b" and "p_inbox p = i" and "p_effect p = e" and "Handle p m s = (Inr (), t)"
  shows "acknowledged m t \<and> (written m t \<and> committed m t \<or> dead m t)"
proof -
  have ack: "\<exists>s1. good s1 \<and> Ack b m s1 = (Inr (), t)"
    if "good s1" "acknowledge p m s1 = (Inr (), t)" for s1
    using that assms(2) by (auto simp: acknowledge_def elim!: andThenE dest!: fail_cases)
  have v: "Validate m = None" using assms(5) by (auto simp: Handle_def split: option.splits)
  obtain q s1 where bg: "Begin i m s = (q, s1)" by fastforce
  with assms v obtain fresh where q: "q = Inr fresh" by (cases q) (auto simp: Handle_def)
  from begin_law [OF assms(1) v bg] q have g1: "good s1" "begun m s1" by auto
  have "\<exists>s2. good s2 \<and> Ack b m s2 = (Inr (), t)"
  proof (cases fresh)
    case False
    with assms v bg q have "acknowledge p m s1 = (Inr (), t)" by (simp add: Handle_def)
    then show ?thesis by (rule ack [OF g1(1)])
  next
    case True
    obtain q2 s2 where w: "Write e m s1 = (q2, s2)" by fastforce
    from write_law [OF g1(1) v g1(2) w] have g2: "good s2" "le s1 s2" "q2 = Inr () \<longrightarrow> written m s2" by auto
    show ?thesis
    proof (cases q2)
      case (Inl er)
      with assms v bg q True w have "failOrDLQ p m er s2 = (Inr (), t)" by (simp add: Handle_def)
      then obtain s3 where d: "DeadLetter b (dead_letter m er (p_now p)) s2 = (Inr (), s3)" "Ack b m s3 = (Inr (), t)"
        using assms(2) by (auto simp: failOrDLQ_def split: if_splits elim!: andThenE)
      with dead_letter_law [OF g2(1) d(1)] show ?thesis by blast
    next
      case (Inr u)
      with assms v bg q True w have "andThen (fail p AfterEffect) (\<lambda>_. andThen (Commit i m) (\<lambda>_.
          andThen (fail p AfterInboxCommit) (\<lambda>_. acknowledge p m))) s2 = (Inr (), t)"
        by (simp add: Handle_def)
      then obtain s3 where c: "Commit i m s2 = (Inr (), s3)" "acknowledge p m s3 = (Inr (), t)"
        by (auto elim!: andThenE dest!: fail_cases)
      have "good s3" using commit_law [OF g2(1) stable(1) [OF g2(2) g1(2)] _ c(1)] g2(3) Inr by simp
      then show ?thesis by (rule ack [OF _ c(2)])
    qed
  qed
  then have "good t \<and> acknowledged m t" using ack_law by blast
  with settled show ?thesis by blast
qed

end

text \<open>Content the ports accept is delivered by a run that nothing interrupts.\<close>

locale live_delivery = delivery +
  fixes accepts :: "Message \<Rightarrow> 's \<Rightarrow> bool"
  assumes begin_accepts: "good s \<Longrightarrow> Validate m = None \<Longrightarrow> accepts m s \<Longrightarrow>
      \<exists>fresh s'. Begin i m s = (Inr fresh, s') \<and> accepts m s'"
    and write_accepts: "good s \<Longrightarrow> begun m s \<Longrightarrow> accepts m s \<Longrightarrow> \<exists>s'. Write e m s = (Inr (), s') \<and> accepts m s'"
    and commit_accepts: "good s \<Longrightarrow> begun m s \<Longrightarrow> \<exists>s'. Commit i m s = (Inr (), s')"
    and ack_accepts: "good s \<Longrightarrow> begun m s \<Longrightarrow> committed m s \<Longrightarrow> \<exists>s'. Ack b m s = (Inr (), s')"
begin

lemma Handle_delivers:
  assumes "good s" and "p_broker p = b" and "p_inbox p = i" and "p_effect p = e" and "p_inject p = None"
    and "Validate m = None" and "accepts m s"
  shows "\<exists>t. Handle p m s = (Inr (), t) \<and> good t \<and> le s t \<and> begun m t \<and> committed m t \<and> acknowledged m t"
proof -
  have nofail [simp]: "fail p pt u = (Inr (), u)" for pt u using assms(5) by (simp add: fail_def)
  have ack: "acknowledge p m u = Ack b m u" for u
    using assms(2) by (simp add: acknowledge_def andThen_def)
  obtain fresh s1 where bg: "Begin i m s = (Inr fresh, s1)" "accepts m s1"
    using begin_accepts [OF assms(1,6,7)] by blast
  from begin_law [OF assms(1,6) bg(1)] have g1: "good s1" "le s s1" "begun m s1" "\<not> fresh \<longrightarrow> committed m s1" by auto
  have "\<exists>u. good u \<and> le s u \<and> begun m u \<and> committed m u \<and> Handle p m s = Ack b m u"
  proof (cases fresh)
    case False
    with g1 bg assms show ?thesis by (auto simp: Handle_def ack)
  next
    case True
    obtain s2 where w: "Write e m s1 = (Inr (), s2)" using write_accepts [OF g1(1,3) bg(2)] by blast
    from write_law [OF g1(1) assms(6) g1(3) w] have g2: "good s2" "le s1 s2" "written m s2" by auto
    then have b2: "begun m s2" using stable(1) g1(3) by blast
    obtain s3 where c: "Commit i m s2 = (Inr (), s3)" using commit_accepts [OF g2(1) b2] by blast
    from commit_law [OF g2(1) b2 g2(3) c] have g3: "good s3" "le s2 s3" "committed m s3" by auto
    have "Handle p m s = Ack b m s3"
      using assms bg(1) True w c by (simp add: Handle_def ack)
    with g3 b2 stable(1) g1(2) g2(2) le_trans show ?thesis by blast
  qed
  then obtain u where u: "good u" "le s u" "begun m u" "committed m u" "Handle p m s = Ack b m u" by blast
  from ack_accepts [OF u(1,3,4)] obtain t where t: "Ack b m u = (Inr (), t)" by blast
  from ack_law [OF u(1) t] have "good t" "le u t" "acknowledged m t" by auto
  with u t stable le_trans show ?thesis by metis
qed

end

section \<open>The memory implementation meets the contract\<close>

definition mem_begun :: "(string \<Rightarrow> string) \<Rightarrow> Message \<Rightarrow> Memory \<Rightarrow> bool" where
  "mem_begun sha v m \<longleftrightarrow> gm_get (me_inbox m) (messageKey v) = Some (messageDigest sha v)"

text \<open>An effect is recorded for a message when it is the payload of a valid message with its key and digest.\<close>

definition effect_for :: "(string \<Rightarrow> string) \<Rightarrow> string \<Rightarrow> string \<Rightarrow> string \<Rightarrow> bool" where
  "effect_for sha k d x \<longleftrightarrow> (\<exists>v. Validate v = None \<and> messageKey v = k \<and> messageDigest sha v = d \<and> x = sha (m_Payload v))"

definition mem_written :: "(string \<Rightarrow> string) \<Rightarrow> Message \<Rightarrow> Memory \<Rightarrow> bool" where
  "mem_written sha v m \<longleftrightarrow>
     (\<exists>x. gm_get (me_effects m) (messageKey v) = Some x \<and> effect_for sha (messageKey v) (messageDigest sha v) x)"

definition mem_committed :: "(string \<Rightarrow> string) \<Rightarrow> Message \<Rightarrow> Memory \<Rightarrow> bool" where
  "mem_committed sha v m \<longleftrightarrow> mem_begun sha v m \<and> flag (me_committed m) (messageKey v)"

definition mem_dead :: "Message \<Rightarrow> Memory \<Rightarrow> bool" where
  "mem_dead v m \<longleftrightarrow> deadLettered m (messageKey v)"

definition mem_acked :: "(string \<Rightarrow> string) \<Rightarrow> Message \<Rightarrow> Memory \<Rightarrow> bool" where
  "mem_acked sha v m \<longleftrightarrow> mem_begun sha v m \<and> flag (me_acked m) (messageKey v)"

definition mem_good :: "(string \<Rightarrow> string) \<Rightarrow> Memory \<Rightarrow> bool" where
  "mem_good sha m \<longleftrightarrow>
     (\<forall>k x. gm_get (me_effects m) k = Some x \<longrightarrow> (\<exists>d. gm_get (me_inbox m) k = Some d \<and> effect_for sha k d x)) \<and>
     (\<forall>k. flag (me_committed m) k \<longrightarrow> gm_get (me_effects m) k \<noteq> None) \<and>
     (\<forall>k. flag (me_acked m) k \<longrightarrow> gm_get (me_inbox m) k \<noteq> None \<and> (flag (me_committed m) k \<or> deadLettered m k))"

definition mem_le :: "Memory \<Rightarrow> Memory \<Rightarrow> bool" where
  "mem_le m m' \<longleftrightarrow>
     (\<forall>k x. gm_get (me_inbox m) k = Some x \<longrightarrow> gm_get (me_inbox m') k = Some x) \<and>
     (\<forall>k x. gm_get (me_effects m) k = Some x \<longrightarrow> gm_get (me_effects m') k = Some x) \<and>
     (\<forall>k. flag (me_committed m) k \<longrightarrow> flag (me_committed m') k) \<and>
     (\<forall>k. flag (me_acked m) k \<longrightarrow> flag (me_acked m') k) \<and>
     (\<forall>k. deadLettered m k \<longrightarrow> deadLettered m' k)"

definition mem_accepts :: "(string \<Rightarrow> string) \<Rightarrow> Message \<Rightarrow> Memory \<Rightarrow> bool" where
  "mem_accepts sha v m \<longleftrightarrow>
     gm_get (me_inbox m) (messageKey v) \<in> {None, Some (messageDigest sha v)} \<and>
     (\<forall>x. effect_for sha (messageKey v) (messageDigest sha v) x \<longrightarrow> x = sha (m_Payload v))"

lemma flag_put [simp]: "flag (gm_put k True f) k' \<longleftrightarrow> k = k' \<or> flag f k'"
  by (simp add: flag_def gm_get_put)

lemma mem_le_refl [simp]: "mem_le m m"
  by (simp add: mem_le_def)

lemma mem_le_trans: "mem_le m m' \<Longrightarrow> mem_le m' m'' \<Longrightarrow> mem_le m m''"
  unfolding mem_le_def by blast

lemma effect_for_self: "Validate v = None \<Longrightarrow> effect_for sha (messageKey v) (messageDigest sha v) (sha (m_Payload v))"
  by (auto simp: effect_for_def)

lemma NewMemory_good [simp]: "mem_good sha NewMemory"
  by (simp add: mem_good_def NewMemory_def flag_def)

lemma mem_Begin_law:
  assumes "mem_good sha m" and "Validate v = None" and "mem_Begin sha v m = (q, m')"
  shows "mem_good sha m' \<and> mem_le m m' \<and>
    (\<forall>fresh. q = Inr fresh \<longrightarrow> mem_begun sha v m' \<and> (\<not> fresh \<longrightarrow> mem_committed sha v m'))"
proof (cases "gm_get (me_inbox m) (messageKey v)")
  case None
  with assms have "m' = m\<lparr>me_inbox := gm_put (messageKey v) (messageDigest sha v) (me_inbox m)\<rparr>" "q = Inr True"
    by (simp_all add: mem_Begin_def Let_def)
  moreover have "gm_get (me_effects m) (messageKey v) = None"
    using assms(1) None unfolding mem_good_def by (metis option.distinct(1) option.exhaust)
  ultimately show ?thesis using assms(1) None
    by (auto simp: mem_good_def mem_le_def mem_begun_def gm_get_put deadLettered_def)
next
  case (Some prior)
  with assms have "m' = m" "q = Inr (\<not> flag (me_committed m) (messageKey v)) \<and> prior = messageDigest sha v
      \<or> (\<exists>er. q = Inl er)"
    by (auto simp: mem_Begin_def Let_def split: if_splits)
  with assms(1) Some show ?thesis by (auto simp: mem_begun_def mem_committed_def)
qed

lemma mem_Write_law:
  assumes "mem_good sha m" and "Validate v = None" and "mem_begun sha v m" and "mem_Write sha v m = (r, m')"
  shows "mem_good sha m' \<and> mem_le m m' \<and> (r = Inr () \<longrightarrow> mem_written sha v m')"
proof (cases "gm_get (me_effects m) (messageKey v) \<in> {None, Some (sha (m_Payload v))}")
  case True
  with assms(4) have "r = Inr ()" and
    m': "m' = m\<lparr>me_effects := gm_put (messageKey v) (sha (m_Payload v)) (me_effects m)\<rparr>"
    by (auto simp: mem_Write_def Let_def)
  have "mem_good sha m'"
    using assms(1,3) effect_for_self [OF assms(2), of sha] unfolding m' mem_good_def mem_begun_def
    by (auto simp: gm_get_put deadLettered_def)
  moreover have "mem_le m m'"
    using True unfolding m' mem_le_def by (auto simp: gm_get_put deadLettered_def)
  moreover have "mem_written sha v m'"
    using effect_for_self [OF assms(2), of sha] unfolding m' mem_written_def by (simp add: gm_get_put)
  ultimately show ?thesis by simp
next
  case False
  with assms(4) have "m' = m" "\<exists>er. r = Inl er" by (auto simp: mem_Write_def Let_def split: option.splits if_splits)
  with assms(1) show ?thesis by auto
qed

lemma mem_Commit_law:
  assumes "mem_good sha m" and "mem_begun sha v m" and "mem_written sha v m" and "mem_Commit sha v m = (r, m')"
  shows "mem_good sha m' \<and> mem_le m m' \<and> (r = Inr () \<longrightarrow> mem_committed sha v m')"
proof -
  from assms(2,4) have m': "m' = m\<lparr>me_committed := gm_put (messageKey v) True (me_committed m)\<rparr>"
    by (simp add: mem_Commit_def mem_begun_def)
  have "mem_good sha m'"
    using assms(1,3) unfolding m' mem_good_def mem_written_def by (auto simp: deadLettered_def)
  moreover have "mem_le m m'" unfolding m' mem_le_def by (auto simp: deadLettered_def)
  moreover have "mem_committed sha v m'" using assms(2) unfolding m' by (simp add: mem_committed_def mem_begun_def)
  ultimately show ?thesis by simp
qed

lemma deadLettered_append: "deadLettered (m\<lparr>me_dlq := me_dlq m @ [d]\<rparr>) k \<longleftrightarrow> deadLettered m k \<or> messageKey (q_Message d) = k"
  by (auto simp: deadLettered_def)

lemma mem_DeadLetter_cases:
  assumes "mem_DeadLetter sha d m = (r, m')"
  obtains (same) "m' = m" "r = Inr () \<Longrightarrow> mem_dead (q_Message d) m"
    | (added) "r = Inr ()" "m' = m\<lparr>me_dlq := me_dlq m @ [d]\<rparr>"
  using assms
  by (auto simp: mem_DeadLetter_def mem_dead_def deadLettered_def list_ex_iff find_Some_iff Bex_def in_set_conv_nth
      split: option.splits if_splits)

lemma mem_DeadLetter_law:
  assumes "mem_good sha m" and "mem_DeadLetter sha d m = (r, m')"
  shows "mem_good sha m' \<and> mem_le m m' \<and> (r = Inr () \<longrightarrow> mem_dead (q_Message d) m')"
  using assms(2)
proof (cases rule: mem_DeadLetter_cases)
  case same
  with assms(1) show ?thesis by simp
next
  case added
  with assms(1) show ?thesis
    by (auto simp: mem_good_def mem_le_def mem_dead_def deadLettered_append)
qed

lemma mem_Ack_law:
  assumes "mem_good sha m" and "mem_Ack sha v m = (r, m')"
  shows "mem_good sha m' \<and> mem_le m m' \<and> (r = Inr () \<longrightarrow> mem_acked sha v m')"
proof (cases "gm_get (me_inbox m) (messageKey v) \<noteq> Some (messageDigest sha v)
    \<or> \<not> flag (me_committed m) (messageKey v) \<and> \<not> deadLettered m (messageKey v)")
  case True
  with assms show ?thesis by (auto simp: mem_Ack_def Let_def)
next
  case False
  with assms(2) have m': "m' = m\<lparr>me_acked := gm_put (messageKey v) True (me_acked m)\<rparr>"
    by (auto simp: mem_Ack_def Let_def)
  have "mem_good sha m'"
    using assms(1) False unfolding m' mem_good_def by (auto simp: deadLettered_def)
  moreover have "mem_le m m'" unfolding m' mem_le_def by (auto simp: deadLettered_def)
  moreover have "mem_acked sha v m'" using False unfolding m' by (simp add: mem_acked_def mem_begun_def)
  ultimately show ?thesis by simp
qed

lemma mem_settled:
  assumes "mem_good sha m" and "mem_acked sha v m"
  shows "mem_written sha v m \<and> mem_committed sha v m \<or> mem_dead v m"
proof (cases "deadLettered m (messageKey v)")
  case False
  with assms have c: "flag (me_committed m) (messageKey v)" and i: "mem_begun sha v m"
    by (auto simp: mem_good_def mem_acked_def)
  then obtain x where "gm_get (me_effects m) (messageKey v) = Some x"
    using assms(1) by (auto simp: mem_good_def)
  with assms(1) i show ?thesis using c
    by (force simp: mem_good_def mem_written_def mem_committed_def mem_begun_def)
qed (simp add: mem_dead_def)

interpretation memd: delivery "memory_broker sha" "memory_inbox sha" "memory_effect sha" "mem_good sha" mem_le
  "mem_begun sha" "mem_written sha" "mem_committed sha" mem_dead "mem_acked sha"
  for sha
proof unfold_locales
  fix s t :: Memory and m
  show "mem_le s s" by simp
  show "mem_le s t \<Longrightarrow> mem_begun sha m s \<Longrightarrow> mem_begun sha m t" by (simp add: mem_le_def mem_begun_def)
  show "mem_le s t \<Longrightarrow> mem_written sha m s \<Longrightarrow> mem_written sha m t" by (force simp: mem_le_def mem_written_def)
  show "mem_le s t \<Longrightarrow> mem_committed sha m s \<Longrightarrow> mem_committed sha m t"
    by (simp add: mem_le_def mem_committed_def mem_begun_def)
  show "mem_le s t \<Longrightarrow> mem_dead m s \<Longrightarrow> mem_dead m t" by (simp add: mem_le_def mem_dead_def)
next
  fix s t u :: Memory
  show "mem_le s t \<Longrightarrow> mem_le t u \<Longrightarrow> mem_le s u" by (rule mem_le_trans)
next
  fix s s' :: Memory and m q
  assume "mem_good sha s" and "Validate m = None" and "Begin (memory_inbox sha) m s = (q, s')"
  then show "mem_good sha s' \<and> mem_le s s' \<and>
      (\<forall>fresh. q = Inr fresh \<longrightarrow> mem_begun sha m s' \<and> (\<not> fresh \<longrightarrow> mem_committed sha m s'))"
    by (intro mem_Begin_law) (simp_all add: memory_inbox_def)
next
  fix s s' :: Memory and m r
  assume "mem_good sha s" and "Validate m = None" and "mem_begun sha m s" and "Write (memory_effect sha) m s = (r, s')"
  then show "mem_good sha s' \<and> mem_le s s' \<and> (r = Inr () \<longrightarrow> mem_written sha m s')"
    by (intro mem_Write_law) (simp_all add: memory_effect_def)
next
  fix s s' :: Memory and m r
  assume "mem_good sha s" and "mem_begun sha m s" and "mem_written sha m s" and "Commit (memory_inbox sha) m s = (r, s')"
  then show "mem_good sha s' \<and> mem_le s s' \<and> (r = Inr () \<longrightarrow> mem_committed sha m s')"
    by (intro mem_Commit_law) (simp_all add: memory_inbox_def)
next
  fix s s' :: Memory and d r
  assume "mem_good sha s" and "DeadLetter (memory_broker sha) d s = (r, s')"
  then show "mem_good sha s' \<and> mem_le s s' \<and> (r = Inr () \<longrightarrow> mem_dead (q_Message d) s')"
    by (intro mem_DeadLetter_law) (simp_all add: memory_broker_def)
next
  fix s s' :: Memory and m r
  assume "mem_good sha s" and "Ack (memory_broker sha) m s = (r, s')"
  then show "mem_good sha s' \<and> mem_le s s' \<and> (r = Inr () \<longrightarrow> mem_acked sha m s')"
    by (intro mem_Ack_law) (simp_all add: memory_broker_def)
next
  fix s :: Memory and m
  assume "mem_good sha s" and "mem_acked sha m s"
  then show "mem_written sha m s \<and> mem_committed sha m s \<or> mem_dead m s" by (rule mem_settled)
qed

interpretation memd: live_delivery "memory_broker sha" "memory_inbox sha" "memory_effect sha" "mem_good sha" mem_le
  "mem_begun sha" "mem_written sha" "mem_committed sha" mem_dead "mem_acked sha" "mem_accepts sha"
  for sha
proof unfold_locales
  fix s :: Memory and v
  show "\<exists>fresh s'. Begin (memory_inbox sha) v s = (Inr fresh, s') \<and> mem_accepts sha v s'"
    if "mem_good sha s" "Validate v = None" "mem_accepts sha v s"
    using that by (auto simp: memory_inbox_def mem_Begin_def Let_def mem_accepts_def gm_get_put)
  show "\<exists>s'. Write (memory_effect sha) v s = (Inr (), s') \<and> mem_accepts sha v s'"
    if "mem_good sha s" "mem_begun sha v s" "mem_accepts sha v s"
    using that by (force simp: memory_effect_def mem_Write_def Let_def mem_accepts_def mem_begun_def mem_good_def
        split: option.splits)
  show "\<exists>s'. Commit (memory_inbox sha) v s = (Inr (), s')" if "mem_good sha s" "mem_begun sha v s"
    using that by (simp add: memory_inbox_def mem_Commit_def mem_begun_def)
  show "\<exists>s'. Ack (memory_broker sha) v s = (Inr (), s')"
    if "mem_good sha s" "mem_begun sha v s" "mem_committed sha v s"
    using that by (simp add: memory_broker_def mem_Ack_def mem_begun_def mem_committed_def Let_def)
qed

section \<open>Histories of the memory queue\<close>

text \<open>
  Everything that can happen to a memory queue: publications, the steps of any number of deliveries by
  processors with the same attempt bound, and the marks replays put on dead-letter entries.
\<close>

inductive queue_step :: "(string \<Rightarrow> string) \<Rightarrow> int \<Rightarrow> Memory \<times> flight list \<Rightarrow> Memory \<times> flight list \<Rightarrow> bool"
  for sha :: "string \<Rightarrow> string" and maximum :: int where
  deliver: "flight_step (memory_broker sha) (memory_inbox sha) (memory_effect sha) maximum c c' \<Longrightarrow>
    queue_step sha maximum c c'"
| publish: "mem_Publish sha v m = (r, m') \<Longrightarrow> queue_step sha maximum (m, fs) (m', fs)"
| mark: "n < length (me_dlq m) \<Longrightarrow> queue_step sha maximum (m, fs) (set_replayed n flg m, fs)"

abbreviation queue_steps :: "(string \<Rightarrow> string) \<Rightarrow> int \<Rightarrow> Memory \<times> flight list \<Rightarrow> Memory \<times> flight list \<Rightarrow> bool" where
  "queue_steps sha maximum \<equiv> (queue_step sha maximum)\<^sup>*\<^sup>*"

definition queue_reach :: "(string \<Rightarrow> string) \<Rightarrow> int \<Rightarrow> Memory \<times> flight list \<Rightarrow> bool" where
  "queue_reach sha maximum c \<longleftrightarrow> queue_steps sha maximum (NewMemory, []) c"

definition memory_processor :: "(string \<Rightarrow> string) \<Rightarrow> int \<Rightarrow> (FailurePoint \<Rightarrow> err option) option \<Rightarrow> time \<Rightarrow> Memory Processor" where
  "memory_processor sha maximum injector now =
     \<lparr>p_broker = memory_broker sha, p_inbox = memory_inbox sha, p_effect = memory_effect sha,
      p_inject = injector, p_maxAttempts = maximum, p_now = now\<rparr>"

lemma memory_processor_simps [simp]:
  "p_broker (memory_processor sha maximum injector now) = memory_broker sha"
  "p_inbox (memory_processor sha maximum injector now) = memory_inbox sha"
  "p_effect (memory_processor sha maximum injector now) = memory_effect sha"
  "p_inject (memory_processor sha maximum injector now) = injector"
  "p_maxAttempts (memory_processor sha maximum injector now) = maximum"
  by (simp_all add: memory_processor_def)

definition config_ok :: "(string \<Rightarrow> string) \<Rightarrow> Memory \<times> flight list \<Rightarrow> bool" where
  "config_ok sha c \<longleftrightarrow> mem_good sha (fst c) \<and>
     list_all (flight_ok (mem_begun sha) (mem_written sha) (mem_committed sha) mem_dead (fst c)) (snd c)"

lemma set_replayed_dead: "n < length (me_dlq m) \<Longrightarrow> deadLettered (set_replayed n flg m) k = deadLettered m k"
proof -
  have keys: "deadLettered m k = (k \<in> set (map (messageKey \<circ> q_Message) (me_dlq m)))" for m
    by (auto simp: deadLettered_def list_ex_iff)
  assume "n < length (me_dlq m)"
  then have "map (messageKey \<circ> q_Message) (me_dlq (set_replayed n flg m)) = map (messageKey \<circ> q_Message) (me_dlq m)"
    by (simp add: set_replayed_def map_update list_update_same_conv)
  then show ?thesis by (simp only: keys)
qed

lemma set_replayed_fields [simp]:
  "me_inbox (set_replayed n flg m) = me_inbox m" "me_effects (set_replayed n flg m) = me_effects m"
  "me_committed (set_replayed n flg m) = me_committed m" "me_acked (set_replayed n flg m) = me_acked m"
  "length (me_dlq (set_replayed n flg m)) = length (me_dlq m)"
  by (simp_all add: set_replayed_def)

lemma set_replayed_good:
  "n < length (me_dlq m) \<Longrightarrow> mem_good sha (set_replayed n flg m) = mem_good sha m \<and> mem_le m (set_replayed n flg m)"
  by (simp add: mem_good_def mem_le_def set_replayed_dead)

lemma mem_Publish_fields:
  assumes "mem_Publish sha v m = (r, m')"
  shows "mem_good sha m' = mem_good sha m \<and> mem_le m m'"
proof -
  have "m' = m \<or> (\<exists>x. m' = m\<lparr>me_messages := x\<rparr>)"
    using assms by (auto simp: mem_Publish_def split: option.splits if_splits)
  then show ?thesis by (auto simp: mem_good_def mem_le_def deadLettered_def)
qed

lemma queue_step_ok:
  assumes "queue_step sha maximum c c'" and "config_ok sha c"
  shows "config_ok sha c' \<and> mem_le (fst c) (fst c')"
  using assms
proof (cases rule: queue_step.cases)
  case deliver
  with assms(2) memd.flight_step_ok [of sha maximum c c'] show ?thesis by (simp add: config_ok_def)
next
  case (publish v m r m' fs)
  with assms(2) mem_Publish_fields [of sha v m r m'] memd.flights_ok_le [of sha m fs m'] show ?thesis
    by (simp add: config_ok_def)
next
  case (mark n m fs flg)
  with assms(2) set_replayed_good [of n m sha flg] memd.flights_ok_le [of sha m fs "set_replayed n flg m"]
  show ?thesis by (simp add: config_ok_def)
qed

lemma queue_steps_ok:
  assumes "queue_steps sha maximum c c'" and "config_ok sha c"
  shows "config_ok sha c' \<and> mem_le (fst c) (fst c')"
  using assms
proof (induction rule: rtranclp_induct)
  case base
  then show ?case by simp
next
  case (step d d')
  then show ?case using queue_step_ok [OF step.hyps(2)] mem_le_trans by blast
qed

lemma queue_reach_ok: "queue_reach sha maximum c \<Longrightarrow> config_ok sha c"
  using queue_steps_ok [of sha maximum "(NewMemory, [])" c] by (simp add: queue_reach_def config_ok_def)

lemma queue_reach_good: "queue_reach sha maximum (m, fs) \<Longrightarrow> mem_good sha m"
  using queue_reach_ok [of sha maximum "(m, fs)"] by (simp add: config_ok_def)

lemma flight_steps_queue:
  assumes "flight_steps (memory_broker sha) (memory_inbox sha) (memory_effect sha) maximum c c'"
  shows "queue_steps sha maximum c c'"
  using assms by (induction rule: rtranclp_induct) (auto intro: rtranclp.rtrancl_into_rtrancl queue_step.deliver)

lemma Handle_queue:
  assumes "Handle (memory_processor sha maximum injector now) v m = (r, m')"
  shows "queue_steps sha maximum (m, fs) (m', fs)"
  using Handle_flight [OF assms, of fs] by (intro flight_steps_queue) simp

text \<open>The dead-letter queue only grows at its end while a message is handled.\<close>

definition dlq_grows :: "Memory \<Rightarrow> Memory \<Rightarrow> bool" where
  "dlq_grows m m' \<longleftrightarrow> (\<exists>ds. me_dlq m' = me_dlq m @ ds)"

lemma dlq_grows_refl [simp]: "dlq_grows m m"
  by (simp add: dlq_grows_def)

lemma dlq_grows_trans: "dlq_grows m m' \<Longrightarrow> dlq_grows m' m'' \<Longrightarrow> dlq_grows m m''"
  by (auto simp: dlq_grows_def)

lemma flight_step_grows:
  assumes "flight_step (memory_broker sha) (memory_inbox sha) (memory_effect sha) maximum c c'"
  shows "dlq_grows (fst c) (fst c')"
  using assms
proof (cases rule: flight_step.cases)
  case (receive m s fresh s' fs)
  then show ?thesis
    by (auto simp: memory_inbox_def mem_Begin_def Let_def dlq_grows_def split: option.splits if_splits)
next
  case (receive_failed m s er s' fs)
  then show ?thesis
    by (auto simp: memory_inbox_def mem_Begin_def Let_def dlq_grows_def split: option.splits if_splits)
next
  case (write_done m s s' as bs)
  then show ?thesis
    by (auto simp: memory_effect_def mem_Write_def Let_def dlq_grows_def split: option.splits if_splits)
next
  case (write_failed m s er s' as bs)
  then show ?thesis
    by (auto simp: memory_effect_def mem_Write_def Let_def dlq_grows_def split: option.splits if_splits)
next
  case (commit_done m s s' as bs)
  then show ?thesis by (auto simp: memory_inbox_def mem_Commit_def dlq_grows_def split: if_splits)
next
  case (commit_failed m s er s' as bs)
  then show ?thesis by (auto simp: memory_inbox_def mem_Commit_def dlq_grows_def split: if_splits)
next
  case (dead_lettered m now er s s' as bs)
  then have "mem_DeadLetter sha (dead_letter m er now) s = (Inr (), s')" by (simp add: memory_broker_def)
  then show ?thesis using dead_lettered by (cases rule: mem_DeadLetter_cases) (auto simp: dlq_grows_def)
next
  case (dead_letter_failed m now er s er' s' as bs)
  then have "mem_DeadLetter sha (dead_letter m er now) s = (Inl er', s')" by (simp add: memory_broker_def)
  then show ?thesis using dead_letter_failed by (cases rule: mem_DeadLetter_cases) (auto simp: dlq_grows_def)
next
  case (acked m s r s' as bs)
  then show ?thesis by (auto simp: memory_broker_def mem_Ack_def Let_def dlq_grows_def split: if_splits)
next
  case (ended s as f bs)
  then show ?thesis by simp
qed

lemma flight_steps_grows:
  assumes "flight_steps (memory_broker sha) (memory_inbox sha) (memory_effect sha) maximum c c'"
  shows "dlq_grows (fst c) (fst c')"
  using assms by (induction rule: rtranclp_induct) (auto intro: dlq_grows_trans flight_step_grows)

lemma Handle_grows:
  assumes "Handle (memory_processor sha maximum injector now) v m = (r, m')"
  shows "dlq_grows m m'"
  using flight_steps_grows [OF Handle_flight [OF assms, of "[]", simplified]] by simp

lemma Replay_cases:
  assumes "Replay (memory_processor sha maximum injector now) index m = (r, m')"
  obtains (missing) "r = Inl (problem CodeResourceNotFound)" "m' = m"
    | (already) "0 \<le> index" "nat index < length (me_dlq m)" "q_Replayed (me_dlq m ! nat index)" "r = Inr ()" "m' = m"
    | (handled) m1 er where "0 \<le> index" "nat index < length (me_dlq m)" "\<not> q_Replayed (me_dlq m ! nat index)"
        "Handle (memory_processor sha maximum injector now) ((q_Message (me_dlq m ! nat index))\<lparr>m_Attempts := 0\<rparr>)
           (set_replayed (nat index) True m) = (er, m1)"
        "r = er" "m' = (if er = Inr () then m1 else set_replayed (nat index) False m1)"
proof (cases "index < 0 \<or> index \<ge> int (length (me_dlq m)) \<or> q_Replayed (me_dlq m ! nat index)")
  case True
  show ?thesis
  proof (cases "index < 0 \<or> index \<ge> int (length (me_dlq m))")
    case True
    with assms have "r = Inl (problem CodeResourceNotFound)" "m' = m" by (simp_all add: Replay_def)
    then show ?thesis by (rule missing)
  next
    case False
    with True have i: "0 \<le> index" "nat index < length (me_dlq m)" "q_Replayed (me_dlq m ! nat index)" by auto
    with assms False have "r = Inr ()" "m' = m" by (simp_all add: Replay_def Let_def)
    with i show ?thesis by (rule already)
  qed
next
  case False
  obtain er m1 where h: "Handle (memory_processor sha maximum injector now)
      ((q_Message (me_dlq m ! nat index))\<lparr>m_Attempts := 0\<rparr>) (set_replayed (nat index) True m) = (er, m1)" by fastforce
  have "Replay (memory_processor sha maximum injector now) index m =
      (er, if er = Inr () then m1 else set_replayed (nat index) False m1)"
    using False h by (cases er) (simp_all add: Replay_def Let_def)
  with assms have "r = er \<and> m' = (if er = Inr () then m1 else set_replayed (nat index) False m1)"
    by (metis prod.inject)
  then have "r = er" "m' = (if er = Inr () then m1 else set_replayed (nat index) False m1)" by simp_all
  moreover have "0 \<le> index" "nat index < length (me_dlq m)" "\<not> q_Replayed (me_dlq m ! nat index)" using False by auto
  ultimately show ?thesis using h by (intro handled)
qed

lemma Replay_queue:
  assumes "Replay (memory_processor sha maximum injector now) index m = (r, m')"
  shows "queue_steps sha maximum (m, fs) (m', fs)"
  using assms
proof (cases rule: Replay_cases)
  case (handled m1 er)
  let ?n = "nat index"
  have h: "queue_steps sha maximum (set_replayed ?n True m, fs) (m1, fs)" by (rule Handle_queue [OF handled(4)])
  have "queue_step sha maximum (m, fs) (set_replayed ?n True m, fs)" using handled(2) by (rule mark)
  then have 1: "queue_steps sha maximum (m, fs) (m1, fs)" using h by (rule converse_rtranclp_into_rtranclp)
  have "?n < length (me_dlq m1)"
    using Handle_grows [OF handled(4)] handled(2) by (auto simp: dlq_grows_def set_replayed_def)
  then have "queue_step sha maximum (m1, fs) (set_replayed ?n False m1, fs)" by (rule mark)
  with 1 handled(6) show ?thesis by (auto intro: rtranclp.rtrancl_into_rtrancl)
qed simp_all

text \<open>A valid topic, run and task have no NUL byte, so the digested bytes determine the payload.\<close>

lemma validID_nul_free: "validID s \<Longrightarrow> nul_free s"
proof -
  have "\<not> validID_first NUL" and "\<not> validID_later NUL" by code_simp+
  then show "validID s \<Longrightarrow> nul_free s"
    by (cases s) (auto simp: validID_def nul_free_def list_all_iff)
qed

lemma message_bytes_payload:
  assumes "Validate v = None" and "Validate v' = None" and "message_bytes v' = message_bytes v"
  shows "m_Payload v' = m_Payload v"
proof -
  have "nul_free (m_Topic u) \<and> nul_free (m_RunID u) \<and> nul_free (m_TaskID u)" if "Validate u = None" for u
    using that by (auto simp: Validate_def validID_nul_free split: if_splits)
  from this [OF assms(1)] this [OF assms(2)] assms(3) show ?thesis
    by (auto simp: message_bytes_def nul_free_def append_sep_inject)
qed

lemma effect_for_payload:
  assumes "Validate v = None" and "\<forall>x. sha x = sha (message_bytes v) \<longrightarrow> x = message_bytes v"
    and "effect_for sha (messageKey v) (messageDigest sha v) x"
  shows "x = sha (m_Payload v)"
proof -
  from assms(3) obtain v' where v': "Validate v' = None" "sha (message_bytes v') = sha (message_bytes v)" "x = sha (m_Payload v')"
    by (auto simp: effect_for_def messageDigest_def)
  from assms(2) v'(2) have "message_bytes v' = message_bytes v" by blast
  from message_bytes_payload [OF assms(1) v'(1) this] v'(3) show ?thesis by simp
qed

section \<open>A concrete queue\<close>

text \<open>The identity stands for SHA-256 here; it has the one thing the examples need, no collision.\<close>

definition sha_id :: "string \<Rightarrow> string" where
  "sha_id x = x"

definition msg1 :: Message where
  "msg1 = \<lparr>m_ID = ''m1'', m_WorkspaceID = ''w'', m_ProjectID = ''p'', m_RunID = ''r'', m_TaskID = ''t'',
     m_Topic = ''topic'', m_Payload = ''payload'', m_Attempts = 0, m_AvailableAt = 0\<rparr>"

definition crash_after_effect :: "FailurePoint \<Rightarrow> err option" where
  "crash_after_effect pt = (if pt = AfterEffect then Some (Plain ''crash'') else None)"

text \<open>The first delivery dies after the effect, the second one runs to its end.\<close>

definition queue_crashed :: Memory where
  "queue_crashed = snd (Handle (memory_processor sha_id 3 (Some crash_after_effect) 10) msg1 NewMemory)"

definition queue_done :: Memory where
  "queue_done = snd (Handle (memory_processor sha_id 3 None 20) msg1 queue_crashed)"

lemma queue_crashed_reach: "queue_reach sha_id 3 (queue_crashed, [])"
  unfolding queue_reach_def queue_crashed_def by (rule Handle_queue) (rule surjective_pairing)

lemma queue_done_steps: "queue_steps sha_id 3 (queue_crashed, []) (queue_done, [])"
  unfolding queue_done_def by (rule Handle_queue) (rule surjective_pairing)

lemma queue_done_reach: "queue_reach sha_id 3 (queue_done, [])"
  using queue_crashed_reach queue_done_steps unfolding queue_reach_def by (rule rtranclp_trans)

section \<open>Properties\<close>

text \<open>C31 (write, then acknowledge). However deliveries, replays and publications interleave, and wherever
  processes die, a message that is acknowledged was begun, and is either committed with its effect
  recorded, for the content its inbox entry has, or dead-lettered.\<close>

theorem acknowledged_message_is_settled:
  assumes "queue_reach sha maximum (m, fs)" and "flag (me_acked m) k"
  shows "\<exists>d. gm_get (me_inbox m) k = Some d \<and>
    (deadLettered m k \<or> flag (me_committed m) k \<and>
      (\<exists>v. Validate v = None \<and> messageKey v = k \<and> messageDigest sha v = d \<and>
         gm_get (me_effects m) k = Some (sha (m_Payload v))))"
proof -
  have g: "mem_good sha m" using assms(1) by (rule queue_reach_good)
  with assms(2) obtain d where d: "gm_get (me_inbox m) k = Some d" "flag (me_committed m) k \<or> deadLettered m k"
    by (auto simp: mem_good_def)
  show ?thesis
  proof (cases "deadLettered m k")
    case False
    with d g obtain x where x: "gm_get (me_effects m) k = Some x" by (auto simp: mem_good_def)
    with g d(1) have "effect_for sha k d x" by (fastforce simp: mem_good_def)
    with False d x show ?thesis by (auto simp: effect_for_def)
  qed (use d in auto)
qed

theorem acknowledged_message_is_settled_witness:
  "flag (me_acked queue_done) (messageKey msg1) \<and> \<not> deadLettered queue_done (messageKey msg1) \<and>
   gm_get (me_effects queue_done) (messageKey msg1) = Some ''payload'' \<and>
   (\<exists>v. Validate v = None \<and> messageKey v = messageKey msg1 \<and>
      gm_get (me_effects queue_done) (messageKey msg1) = Some (sha_id (m_Payload v)))"
proof -
  have a: "flag (me_acked queue_done) (messageKey msg1)" and b: "\<not> deadLettered queue_done (messageKey msg1)"
    and c: "gm_get (me_effects queue_done) (messageKey msg1) = Some ''payload''" by code_simp+
  from acknowledged_message_is_settled [OF queue_done_reach a] a b c show ?thesis by blast
qed

text \<open>An effect that was recorded once stays what it is, and a message that was committed
  or acknowledged stays so, through every later history: redelivery and replay never apply the effect
  of other content under the same identity.\<close>

theorem recorded_effect_is_final:
  assumes "queue_reach sha maximum c" and "queue_steps sha maximum c c'"
  shows "(\<forall>k x. gm_get (me_effects (fst c)) k = Some x \<longrightarrow> gm_get (me_effects (fst c')) k = Some x) \<and>
    (\<forall>k. flag (me_committed (fst c)) k \<longrightarrow> flag (me_committed (fst c')) k) \<and>
    (\<forall>k. flag (me_acked (fst c)) k \<longrightarrow> flag (me_acked (fst c')) k)"
  using queue_steps_ok [OF assms(2) queue_reach_ok [OF assms(1)]] by (simp add: mem_le_def)

theorem recorded_effect_is_final_witness:
  "gm_get (me_effects queue_crashed) (messageKey msg1) = Some ''payload'' \<and> \<not> flag (me_committed queue_crashed) (messageKey msg1) \<and>
   gm_get (me_effects queue_done) (messageKey msg1) = Some ''payload''"
proof -
  have a: "gm_get (me_effects queue_crashed) (messageKey msg1) = Some ''payload''"
    and b: "\<not> flag (me_committed queue_crashed) (messageKey msg1)" by code_simp+
  from recorded_effect_is_final [OF queue_crashed_reach queue_done_steps] a b show ?thesis by simp
qed

text \<open>C32 (redelivery converges). Whatever deliveries died before, a valid message whose content is the one
  begun under its identity, or the first under it, is delivered by a run that nothing interrupts: it is
  committed and acknowledged with its own payload as the effect, and handling it again succeeds.\<close>

theorem redelivery_converges:
  assumes "queue_reach sha maximum (m, fs)" and "Validate v = None"
    and "gm_get (me_inbox m) (messageKey v) \<in> {None, Some (messageDigest sha v)}"
    and "\<forall>x. sha x = sha (message_bytes v) \<longrightarrow> x = message_bytes v"
  shows "\<exists>m'. Handle (memory_processor sha maximum None now) v m = (Inr (), m') \<and>
    gm_get (me_effects m') (messageKey v) = Some (sha (m_Payload v)) \<and>
    flag (me_committed m') (messageKey v) \<and> flag (me_acked m') (messageKey v) \<and>
    (\<exists>m''. Handle (memory_processor sha maximum None now') v m' = (Inr (), m''))"
proof -
  have g: "mem_good sha m" using assms(1) by (rule queue_reach_good)
  have only: "x = sha (m_Payload v)" if "effect_for sha (messageKey v) (messageDigest sha v) x" for x
    using that effect_for_payload [OF assms(2,4)] by simp
  with assms(3) have acc: "mem_accepts sha v m" by (simp add: mem_accepts_def)
  obtain m' where m': "Handle (memory_processor sha maximum None now) v m = (Inr (), m')" "mem_good sha m'"
      "mem_begun sha v m'" "mem_committed sha v m'" "mem_acked sha v m'"
    using memd.Handle_delivers [of sha m "memory_processor sha maximum None now", OF g _ _ _ _ assms(2) acc] by auto
  have "mem_accepts sha v m'" using m'(3) only by (simp add: mem_accepts_def mem_begun_def)
  then obtain m'' where m'': "Handle (memory_processor sha maximum None now') v m' = (Inr (), m'')"
    using memd.Handle_delivers [of sha m' "memory_processor sha maximum None now'", OF m'(2) _ _ _ _ assms(2)] by auto
  have "mem_written sha v m'"
    using m'(2,4) by (force simp: mem_good_def mem_committed_def mem_written_def mem_begun_def)
  then have "gm_get (me_effects m') (messageKey v) = Some (sha (m_Payload v))"
    using only by (auto simp: mem_written_def)
  with m' m'' show ?thesis by (auto simp: mem_committed_def mem_acked_def)
qed

theorem redelivery_converges_witness:
  "\<exists>m'. Handle (memory_processor sha_id 3 None 20) msg1 queue_crashed = (Inr (), m') \<and>
     gm_get (me_effects m') (messageKey msg1) = Some ''payload'' \<and> flag (me_acked m') (messageKey msg1)"
proof -
  have v: "Validate msg1 = None" and i: "gm_get (me_inbox queue_crashed) (messageKey msg1) \<in> {None, Some (messageDigest sha_id msg1)}"
    and p: "sha_id (m_Payload msg1) = ''payload''" by code_simp+
  have "\<forall>x. sha_id x = sha_id (message_bytes msg1) \<longrightarrow> x = message_bytes msg1" by (simp add: sha_id_def)
  from redelivery_converges [OF queue_crashed_reach v i this] p show ?thesis by auto
qed

text \<open>C33 (refinement). Every call of \<open>Handle\<close>, and every call of \<open>Replay\<close>, on any processor over the memory
  queue is a run of the small steps, at which other deliveries may come in between.\<close>

theorem calls_refine_steps:
  assumes "p = memory_processor sha maximum injector now"
  shows "(Handle p v m = (r, m') \<longrightarrow> queue_steps sha maximum (m, fs) (m', fs)) \<and>
    (Replay p index m = (r, m') \<longrightarrow> queue_steps sha maximum (m, fs) (m', fs))"
  using Handle_queue Replay_queue unfolding assms by blast

theorem calls_refine_steps_witness:
  "queue_steps sha_id 3 (queue_crashed, [(msg1, Writing)]) (queue_done, [(msg1, Writing)])"
proof -
  obtain r where "Handle (memory_processor sha_id 3 None 20) msg1 queue_crashed = (r, queue_done)"
    unfolding queue_done_def by (metis prod.collapse)
  with calls_refine_steps [OF refl] show ?thesis by blast
qed

end
