(* ===== verification/Runs.thy ===== *)
theory Runs
  imports Prelude Problem
begin

text \<open>
  The run aggregate (\<open>src/internal/runs/runs.go\<close>): the states of an agent run, the commands that move
  it, the proofs some of them need, and \<open>Apply\<close>, the one function that decides every transition.
  Histories of commands are folded by \<open>apply_all\<close> in the second half. The scope, the bounded identities
  and the snapshot of \<open>service.go\<close> are here too, since every other component names runs by them.
\<close>

section \<open>States and commands\<close>

datatype State = Created | Preparing | Planning | AwaitingInput | Executing | Validating | AwaitingReview
  | AwaitingApproval | Committing | AwaitingDomainConfirmation | Conflicted | Cancelling | Failed | Completed
  | Cancelled | Refused | Discarded

primrec State_string :: "State \<Rightarrow> string" where
  "State_string Created = ''created''"
| "State_string Preparing = ''preparing''"
| "State_string Planning = ''planning''"
| "State_string AwaitingInput = ''awaiting_input''"
| "State_string Executing = ''executing''"
| "State_string Validating = ''validating''"
| "State_string AwaitingReview = ''awaiting_review''"
| "State_string AwaitingApproval = ''awaiting_approval''"
| "State_string Committing = ''committing''"
| "State_string AwaitingDomainConfirmation = ''awaiting_domain_confirmation''"
| "State_string Conflicted = ''conflict''"
| "State_string Cancelling = ''cancelling''"
| "State_string Failed = ''failed''"
| "State_string Completed = ''completed''"
| "State_string Cancelled = ''cancelled''"
| "State_string Refused = ''refused''"
| "State_string Discarded = ''discarded''"

definition States :: "State list" where
  "States = [Created, Preparing, Planning, AwaitingInput, Executing, Validating, AwaitingReview, AwaitingApproval,
     Committing, AwaitingDomainConfirmation, Conflicted, Cancelling, Failed, Completed, Cancelled, Refused, Discarded]"

datatype CommandKind = BeginPreparation | PreparationReady | RequestInput | AcceptInput | BeginExecution
  | BeginValidation | SubmitForReview | Revise | RequestApproval | AcceptArtifact | Approve | RejectApproval
  | BeginDomainConfirmation | ConfirmDomain | RecordDomainConflict | RecordDomainRejection | Rebase
  | RequestCancellation | ReconcileCancellation | RecordFailure | RecordRefusal | Retry | Discard

primrec CommandKind_string :: "CommandKind \<Rightarrow> string" where
  "CommandKind_string BeginPreparation = ''begin-preparation''"
| "CommandKind_string PreparationReady = ''preparation-ready''"
| "CommandKind_string RequestInput = ''request-input''"
| "CommandKind_string AcceptInput = ''accept-input''"
| "CommandKind_string BeginExecution = ''begin-execution''"
| "CommandKind_string BeginValidation = ''begin-validation''"
| "CommandKind_string SubmitForReview = ''submit-for-review''"
| "CommandKind_string Revise = ''revise''"
| "CommandKind_string RequestApproval = ''request-approval''"
| "CommandKind_string AcceptArtifact = ''accept-artifact''"
| "CommandKind_string Approve = ''approve''"
| "CommandKind_string RejectApproval = ''reject-approval''"
| "CommandKind_string BeginDomainConfirmation = ''begin-domain-confirmation''"
| "CommandKind_string ConfirmDomain = ''confirm-domain''"
| "CommandKind_string RecordDomainConflict = ''record-domain-conflict''"
| "CommandKind_string RecordDomainRejection = ''record-domain-rejection''"
| "CommandKind_string Rebase = ''rebase''"
| "CommandKind_string RequestCancellation = ''request-cancellation''"
| "CommandKind_string ReconcileCancellation = ''reconcile-cancellation''"
| "CommandKind_string RecordFailure = ''record-failure''"
| "CommandKind_string RecordRefusal = ''record-refusal''"
| "CommandKind_string Retry = ''retry''"
| "CommandKind_string Discard = ''discard''"

definition Commands :: "CommandKind list" where
  "Commands = [BeginPreparation, PreparationReady, RequestInput, AcceptInput, BeginExecution, BeginValidation,
     SubmitForReview, Revise, RequestApproval, AcceptArtifact, Approve, RejectApproval, BeginDomainConfirmation,
     ConfirmDomain, RecordDomainConflict, RecordDomainRejection, Rebase, RequestCancellation, ReconcileCancellation,
     RecordFailure, RecordRefusal, Retry, Discard]"

section \<open>Proofs\<close>

record CommitProof =
  cp_ApprovalRechecked :: bool
  cp_ArtifactEligible :: bool
  cp_ActionBindingExact :: bool
  cp_AuthorizationDurable :: bool
  cp_AuthorizationID :: string
  cp_DomainOperationID :: string
  cp_ActionDigest :: string
  cp_ArtifactDigest :: string

record DomainReconciliation =
  dr_Reconciled :: bool
  dr_EffectApplied :: bool
  dr_DomainOperationID :: string

record ValidationProof =
  vp_Valid :: bool
  vp_BOMDigest :: string
  vp_SchemaDigest :: string
  vp_ValidatorVersion :: string
  vp_CatalogDigest :: string

definition validDigest :: "string \<Rightarrow> bool" where
  "validDigest value \<longleftrightarrow> HasPrefix value ''sha256:'' \<and> length value = 71 \<and>
     list_all (\<lambda>c. c \<in> set ''0123456789abcdef'') (drop 7 value)"

definition DomainReconciliation_Validate :: "DomainReconciliation \<Rightarrow> err option" where
  "DomainReconciliation_Validate p =
     (if \<not> dr_Reconciled p then Some (Plain ''the authoritative domain owner was not consulted'')
      else if dr_EffectApplied p then Some (Plain ''a governed effect that was applied cannot be failed'')
      else if dr_DomainOperationID p = '''' \<or> length (dr_DomainOperationID p) > 128
      then Some (Plain ''the reconciled domain operation identity is missing or unbounded'')
      else None)"

definition ValidationProof_Validate :: "ValidationProof \<Rightarrow> err option" where
  "ValidationProof_Validate p =
     (if \<not> vp_Valid p \<or> \<not> validDigest (vp_BOMDigest p) \<or> \<not> validDigest (vp_SchemaDigest p)
         \<or> vp_ValidatorVersion p = '''' \<or> \<not> validDigest (vp_CatalogDigest p)
      then Some (Plain ''pinned validation proof is incomplete'') else None)"

definition CommitProof_Validate :: "CommitProof \<Rightarrow> err option" where
  "CommitProof_Validate p =
     (if \<not> cp_ApprovalRechecked p \<or> \<not> cp_ArtifactEligible p \<or> \<not> cp_ActionBindingExact p
         \<or> \<not> cp_AuthorizationDurable p \<or> cp_AuthorizationID p = '''' \<or> length (cp_AuthorizationID p) > 128
         \<or> cp_DomainOperationID p = '''' \<or> length (cp_DomainOperationID p) > 128
         \<or> \<not> validDigest (cp_ActionDigest p) \<or> \<not> validDigest (cp_ArtifactDigest p)
      then Some (Plain ''commit proof is incomplete'') else None)"

section \<open>The aggregate\<close>

record EventArtifact =
  ea_ArtifactID :: string
  ea_Digest :: string
  ea_MediaType :: string
  ea_SizeBytes :: int

record Command =
  c_Kind :: CommandKind
  c_Commit :: CommitProof
  c_Validation :: ValidationProof
  c_Reconciliation :: DomainReconciliation
  c_RetryEligible :: bool
  c_Failure :: "Details option"
  c_Traceparent :: string
  c_Artifact :: "EventArtifact option"

record Run =
  r_ID :: string
  r_State :: State
  r_Version :: uint64
  r_ExecutionGeneration :: uint64
  r_Problem :: "Details option"

record Transition =
  tr_Previous :: State
  tr_Current :: State
  tr_Version :: uint64
  tr_ExecutionGeneration :: uint64
  tr_EventType :: string

definition New :: "string \<Rightarrow> err + Run" where
  "New i = (if i = '''' then Inl (Plain ''run ID is required'')
     else Inr \<lparr>r_ID = i, r_State = Created, r_Version = 1, r_ExecutionGeneration = 1, r_Problem = None\<rparr>)"

primrec allowedTarget :: "State \<Rightarrow> CommandKind \<Rightarrow> State \<times> bool" where
  "allowedTarget s BeginPreparation = (Preparing, s = Created)"
| "allowedTarget s PreparationReady = (Planning, s = Preparing)"
| "allowedTarget s RequestInput = (AwaitingInput, s = Planning)"
| "allowedTarget s AcceptInput = (Planning, s = AwaitingInput)"
| "allowedTarget s BeginExecution = (Executing, s = Planning)"
| "allowedTarget s BeginValidation = (Validating, s = Executing)"
| "allowedTarget s SubmitForReview = (AwaitingReview, s = Validating)"
| "allowedTarget s Revise = (Executing, s = AwaitingReview)"
| "allowedTarget s RequestApproval = (AwaitingApproval, s = AwaitingReview)"
| "allowedTarget s AcceptArtifact = (Completed, s = AwaitingReview)"
| "allowedTarget s Approve = (Committing, s = AwaitingApproval)"
| "allowedTarget s RejectApproval = (AwaitingReview, s = AwaitingApproval)"
| "allowedTarget s BeginDomainConfirmation = (AwaitingDomainConfirmation, s = Committing)"
| "allowedTarget s ConfirmDomain = (Completed, s = AwaitingDomainConfirmation)"
| "allowedTarget s RecordDomainConflict = (Conflicted, s = AwaitingDomainConfirmation)"
| "allowedTarget s RecordDomainRejection = (Failed, s = AwaitingDomainConfirmation)"
| "allowedTarget s Rebase = (Executing, s = Conflicted)"
| "allowedTarget s RequestCancellation = (Cancelling, s = Created \<or> s = Preparing \<or> s = Planning \<or> s = AwaitingInput
     \<or> s = Executing \<or> s = Validating \<or> s = AwaitingReview \<or> s = AwaitingApproval \<or> s = Conflicted)"
| "allowedTarget s ReconcileCancellation = (Cancelled, s = Cancelling)"
| "allowedTarget s RecordFailure = (Failed, s = Preparing \<or> s = Planning \<or> s = Executing \<or> s = Validating
     \<or> s = AwaitingInput \<or> s = AwaitingReview \<or> s = AwaitingApproval \<or> s = Conflicted \<or> s = Committing
     \<or> s = AwaitingDomainConfirmation)"
| "allowedTarget s RecordRefusal = (Refused, s = Preparing \<or> s = Planning \<or> s = Validating)"
| "allowedTarget s Retry = (Preparing, s = Failed)"
| "allowedTarget s Discard = (Discarded, s = AwaitingReview)"

text \<open>The guards of \<open>Apply\<close> after the table, in their order: the first one that refuses decides.\<close>

definition guards :: "Run \<Rightarrow> Command \<Rightarrow> err option" where
  "guards r c =
     (case (if c_Kind c = Approve then CommitProof_Validate (c_Commit c) else None) of
        Some e \<Rightarrow> Some (problem_detail CodeCommitProofMissing (Error e))
      | None \<Rightarrow>
     (if c_Kind c = SubmitForReview \<and> ValidationProof_Validate (c_Validation c) \<noteq> None
      then Some (problem CodeContractInvalid)
      else case (if c_Kind c = RecordFailure \<and> r_State r = AwaitingDomainConfirmation
                 then DomainReconciliation_Validate (c_Reconciliation c) else None) of
        Some e \<Rightarrow> Some (problem_detail CodeCommitProofMissing (Error e))
      | None \<Rightarrow>
     (if c_Kind c = Retry \<and> \<not> c_RetryEligible c then Some (problem CodeRetryIneligible)
      else if c_Kind c = RecordDomainRejection \<and>
        (case c_Failure c of
           None \<Rightarrow> True
         | Some f \<Rightarrow> d_Code f \<noteq> code_string CodeDomainRejected \<or> d_Retryability f \<noteq> ''never'')
      then Some (problem_detail CodeDomainRejected ''domain rejection must carry the stable non-retryable domain problem'')
      else None)))"

definition recorded_failure :: "Command \<Rightarrow> Details" where
  "recorded_failure c = (case c_Failure c of None \<Rightarrow> Problem.New CodeInternal '''' | Some f \<Rightarrow> f)"

definition applied :: "State \<Rightarrow> Command \<Rightarrow> Run \<Rightarrow> Run" where
  "applied target c r =
     (let r = r\<lparr>r_State := target, r_Version := r_Version r + 1\<rparr>;
          r = (if c_Kind c = Retry
               then r\<lparr>r_ExecutionGeneration := r_ExecutionGeneration r + 1, r_Problem := None\<rparr> else r)
      in if c_Kind c = RecordFailure \<or> c_Kind c = RecordDomainRejection
         then r\<lparr>r_Problem := Some (recorded_failure c)\<rparr> else r)"

definition Apply :: "Run \<Rightarrow> Command \<Rightarrow> err + Run \<times> Transition" where
  "Apply r c =
     (case allowedTarget (r_State r) (c_Kind c) of
        (target, ok) \<Rightarrow>
          (if \<not> ok
           then Inl (problem_detail CodeInvalidTransition (''command '' @ CommandKind_string (c_Kind c) @
                  '' is not allowed from '' @ State_string (r_State r)))
           else case guards r c of
             Some e \<Rightarrow> Inl e
           | None \<Rightarrow>
               (let updated = applied target c r
                in Inr (updated,
                     \<lparr>tr_Previous = r_State r, tr_Current = target, tr_Version = r_Version updated,
                      tr_ExecutionGeneration = r_ExecutionGeneration updated, tr_EventType = ''run.state-changed''\<rparr>))))"

section \<open>Scopes, identities and snapshots\<close>

record Scope =
  WorkspaceID :: string
  ProjectID :: string
  ActorID :: string

definition asciiAlphaNumeric :: "char \<Rightarrow> bool" where
  "asciiAlphaNumeric c \<longleftrightarrow> is_upper c \<or> is_lower c \<or> is_digit c"

definition validOpaqueID :: "string \<Rightarrow> bool" where
  "validOpaqueID value \<longleftrightarrow> 1 \<le> length value \<and> length value \<le> 128 \<and>
     (case value of [] \<Rightarrow> False
      | c # cs \<Rightarrow> asciiAlphaNumeric c \<and> list_all (\<lambda>d. asciiAlphaNumeric d \<or> d \<in> set ''._:-'') cs)"

definition validRunID :: "string \<Rightarrow> bool" where
  "validRunID value \<longleftrightarrow> length value \<le> 107 \<and> validOpaqueID value"

definition Scope_Validate :: "Scope \<Rightarrow> err option" where
  "Scope_Validate s =
     (if \<not> validOpaqueID (WorkspaceID s) \<or> \<not> validOpaqueID (ProjectID s) \<or> \<not> validOpaqueID (ActorID s)
      then Some (Plain ''run scope requires bounded workspace, project, and actor identities'') else None)"

text \<open>
  A \<open>json.RawMessage\<close> is the compact JSON text it holds, the empty text the nil message. Times are in
  nanoseconds, as everywhere.
\<close>

type_synonym json = string

record Target =
  tg_Type :: string
  tg_ID :: string
  tg_WorkspaceID :: string
  tg_ProjectID :: string

record IdempotencyProjection =
  ip_Scope :: string
  ip_Key :: string
  ip_CanonicalRequestDigest :: string

record Snapshot =
  sn_Kind :: string
  sn_RunID :: string
  sn_RootRunID :: string
  sn_ParentRunID :: "string option"
  sn_WorkspaceID :: string
  sn_ActorID :: string
  sn_Domain :: string
  sn_Operation :: string
  sn_Target :: Target
  sn_Definition :: json
  sn_ContractBOM :: json
  sn_Policy :: json
  sn_Budget :: json
  sn_Idempotency :: IdempotencyProjection
  sn_Status :: State
  sn_RuntimeBinding :: json
  sn_Version :: uint64
  sn_ExecutionGeneration :: uint64
  sn_Problem :: "Details option"
  sn_LatestEventID :: string
  sn_CreatedAt :: time
  sn_UpdatedAt :: time

section \<open>Histories of a run\<close>

text \<open>The commands of a history, in order; \<open>None\<close> when one of them is refused.\<close>

fun apply_all :: "Run \<Rightarrow> Command list \<Rightarrow> Run option" where
  "apply_all r [] = Some r"
| "apply_all r (c # cs) = (case Apply r c of Inl e \<Rightarrow> None | Inr (r', t) \<Rightarrow> apply_all r' cs)"

lemma apply_all_append:
  "apply_all r (cs @ ds) = (case apply_all r cs of None \<Rightarrow> None | Some r' \<Rightarrow> apply_all r' ds)"
  by (induction r cs rule: apply_all.induct) (auto split: sum.splits)

definition final :: "State \<Rightarrow> bool" where
  "final s \<longleftrightarrow> s \<in> {Completed, Cancelled, Refused, Discarded}"

lemma applied_fields [simp]:
  "r_ID (applied target c r) = r_ID r" "r_State (applied target c r) = target"
  "r_Version (applied target c r) = r_Version r + 1"
  "r_ExecutionGeneration (applied target c r) =
     (if c_Kind c = Retry then r_ExecutionGeneration r + 1 else r_ExecutionGeneration r)"
  by (simp_all add: applied_def Let_def)

text \<open>An accepted command follows the table and passes every guard.\<close>

lemma Apply_accepted:
  "Apply r c = Inr (r', t) \<longleftrightarrow>
     allowedTarget (r_State r) (c_Kind c) = (r_State r', True) \<and> guards r c = None \<and>
     r' = applied (r_State r') c r \<and>
     t = \<lparr>tr_Previous = r_State r, tr_Current = r_State r', tr_Version = r_Version r',
          tr_ExecutionGeneration = r_ExecutionGeneration r', tr_EventType = ''run.state-changed''\<rparr>"
  (is "?l = ?r")
proof
  assume ?l
  then show ?r by (auto simp: Apply_def Let_def split: prod.splits if_splits option.splits)
next
  assume r: ?r
  then have "r' = applied (r_State r') c r" by simp
  with r show ?l by (simp add: Apply_def Let_def)
qed

lemma guards_None:
  "guards r c = None \<longleftrightarrow>
     (c_Kind c = Approve \<longrightarrow> CommitProof_Validate (c_Commit c) = None) \<and>
     (c_Kind c = SubmitForReview \<longrightarrow> ValidationProof_Validate (c_Validation c) = None) \<and>
     (c_Kind c = RecordFailure \<and> r_State r = AwaitingDomainConfirmation \<longrightarrow>
        DomainReconciliation_Validate (c_Reconciliation c) = None) \<and>
     (c_Kind c = Retry \<longrightarrow> c_RetryEligible c) \<and>
     (c_Kind c = RecordDomainRejection \<longrightarrow> (\<exists>f. c_Failure c = Some f \<and>
        d_Code f = code_string CodeDomainRejected \<and> d_Retryability f = ''never''))"
  by (cases "c_Kind c") (auto simp: guards_def split: option.splits if_splits)

text \<open>
  \<open>reviewed cs\<close>: the history ends with a submission that carried a valid proof and a review that went
  back and forth over it since. \<open>approved cs\<close>: an approval with a complete commit proof came after
  such a review, and nothing but the submission to the domain owner after the approval.
\<close>

definition reviewed :: "Command list \<Rightarrow> bool" where
  "reviewed cs \<longleftrightarrow> (\<exists>as s bs. cs = as @ s # bs \<and> c_Kind s = SubmitForReview \<and>
     ValidationProof_Validate (c_Validation s) = None \<and>
     list_all (\<lambda>c. c_Kind c = RequestApproval \<or> c_Kind c = RejectApproval) bs)"

definition approved :: "Command list \<Rightarrow> bool" where
  "approved cs \<longleftrightarrow> (\<exists>as a ds. cs = as @ a # ds \<and> reviewed as \<and> c_Kind a = Approve \<and>
     CommitProof_Validate (c_Commit a) = None \<and> list_all (\<lambda>c. c_Kind c = BeginDomainConfirmation) ds)"

definition history_ok :: "State \<Rightarrow> Command list \<Rightarrow> bool" where
  "history_ok s cs \<longleftrightarrow>
     (s = AwaitingReview \<or> s = AwaitingApproval \<longrightarrow> reviewed cs) \<and>
     (s = Committing \<or> s = AwaitingDomainConfirmation \<longrightarrow> approved cs) \<and>
     (s = Completed \<longrightarrow> (\<exists>pre l. cs = pre @ [l] \<and>
        (c_Kind l = AcceptArtifact \<and> reviewed pre \<or> c_Kind l = ConfirmDomain \<and> approved pre)))"

lemma reviewed_snoc:
  "c_Kind c = SubmitForReview \<Longrightarrow> ValidationProof_Validate (c_Validation c) = None \<Longrightarrow> reviewed (cs @ [c])"
  "reviewed cs \<Longrightarrow> c_Kind c = RequestApproval \<or> c_Kind c = RejectApproval \<Longrightarrow> reviewed (cs @ [c])"
proof -
  assume "c_Kind c = SubmitForReview" "ValidationProof_Validate (c_Validation c) = None"
  then show "reviewed (cs @ [c])" unfolding reviewed_def by (intro exI [of _ cs] exI [of _ c] exI [of _ "[]"]) simp
next
  assume "reviewed cs" and c: "c_Kind c = RequestApproval \<or> c_Kind c = RejectApproval"
  then obtain as s bs where "cs = as @ s # bs" "c_Kind s = SubmitForReview"
    "ValidationProof_Validate (c_Validation s) = None"
    "list_all (\<lambda>c. c_Kind c = RequestApproval \<or> c_Kind c = RejectApproval) bs" by (auto simp: reviewed_def)
  with c show "reviewed (cs @ [c])"
    unfolding reviewed_def by (intro exI [of _ as] exI [of _ s] exI [of _ "bs @ [c]"]) simp
qed

lemma approved_snoc:
  "reviewed cs \<Longrightarrow> c_Kind c = Approve \<Longrightarrow> CommitProof_Validate (c_Commit c) = None \<Longrightarrow> approved (cs @ [c])"
  "approved cs \<Longrightarrow> c_Kind c = BeginDomainConfirmation \<Longrightarrow> approved (cs @ [c])"
proof -
  assume "reviewed cs" "c_Kind c = Approve" "CommitProof_Validate (c_Commit c) = None"
  then show "approved (cs @ [c])" unfolding approved_def by (intro exI [of _ cs] exI [of _ c] exI [of _ "[]"]) simp
next
  assume "approved cs" and c: "c_Kind c = BeginDomainConfirmation"
  then obtain as a ds where "cs = as @ a # ds" "reviewed as" "c_Kind a = Approve"
    "CommitProof_Validate (c_Commit a) = None" "list_all (\<lambda>c. c_Kind c = BeginDomainConfirmation) ds"
    by (auto simp: approved_def)
  with c show "approved (cs @ [c])"
    unfolding approved_def by (intro exI [of _ as] exI [of _ a] exI [of _ "ds @ [c]"]) simp
qed

lemma history_step:
  assumes "history_ok (r_State r) cs" and "Apply r c = Inr (r', t)"
  shows "history_ok (r_State r') (cs @ [c])"
proof -
  from assms(2) have target: "allowedTarget (r_State r) (c_Kind c) = (r_State r', True)" and g: "guards r c = None"
    by (simp_all add: Apply_accepted)
  from g have guard: "c_Kind c = Approve \<longrightarrow> CommitProof_Validate (c_Commit c) = None"
    "c_Kind c = SubmitForReview \<longrightarrow> ValidationProof_Validate (c_Validation c) = None"
    by (simp_all add: guards_None)
  show ?thesis
    using assms(1) target guard reviewed_snoc [where c = c and cs = cs] approved_snoc [where c = c and cs = cs]
    by (cases "c_Kind c") (simp_all add: history_ok_def)
qed

lemma apply_all_history:
  assumes "apply_all r cs = Some r'" and "history_ok (r_State r) pre"
  shows "history_ok (r_State r') (pre @ cs)"
  using assms
proof (induction r cs arbitrary: pre rule: apply_all.induct)
  case (2 r c cs)
  then obtain r1 t where a: "Apply r c = Inr (r1, t)" and b: "apply_all r1 cs = Some r'"
    by (auto split: sum.splits prod.splits)
  from 2(1) [OF a refl b history_step [OF 2(3) a]] show ?case by simp
qed simp

lemma apply_all_counts:
  assumes "apply_all r cs = Some r'"
  shows "r_ID r' = r_ID r \<and> r_Version r' = r_Version r + of_nat (length cs) \<and>
    r_ExecutionGeneration r' = r_ExecutionGeneration r + of_nat (length (filter (\<lambda>c. c_Kind c = Retry) cs))"
  using assms
proof (induction r cs rule: apply_all.induct)
  case (2 r c cs)
  then obtain r1 t where a: "Apply r c = Inr (r1, t)" and b: "apply_all r1 cs = Some r'"
    by (auto split: sum.splits prod.splits)
  from a have r1: "r1 = applied (r_State r1) c r" by (simp add: Apply_accepted)
  have "r_ID r1 = r_ID r" "r_Version r1 = r_Version r + 1"
    "r_ExecutionGeneration r1 = (if c_Kind c = Retry then r_ExecutionGeneration r + 1 else r_ExecutionGeneration r)"
    by (subst r1, simp)+
  with 2(1) [OF a refl b] show ?case by simp
qed simp

text \<open>A command that every guard admits.\<close>

definition digest0 :: string where
  "digest0 = ''sha256:'' @ replicate 64 (CHR ''0'')"

definition command :: "CommandKind \<Rightarrow> Command" where
  "command k = \<lparr>c_Kind = k,
     c_Commit = \<lparr>cp_ApprovalRechecked = True, cp_ArtifactEligible = True, cp_ActionBindingExact = True,
       cp_AuthorizationDurable = True, cp_AuthorizationID = ''a'', cp_DomainOperationID = ''d'',
       cp_ActionDigest = digest0, cp_ArtifactDigest = digest0\<rparr>,
     c_Validation = \<lparr>vp_Valid = True, vp_BOMDigest = digest0, vp_SchemaDigest = digest0, vp_ValidatorVersion = ''1'',
       vp_CatalogDigest = digest0\<rparr>,
     c_Reconciliation = \<lparr>dr_Reconciled = True, dr_EffectApplied = False, dr_DomainOperationID = ''d''\<rparr>,
     c_RetryEligible = True, c_Failure = Some (Problem.New CodeDomainRejected ''''), c_Traceparent = '''', c_Artifact = None\<rparr>"

lemma validDigest0: "validDigest digest0"
  by code_simp

lemma command_Kind [simp]: "c_Kind (command k) = k"
  by (simp add: command_def)

lemma guards_command: "guards r (command k) = None"
  by (simp add: guards_None command_def CommitProof_Validate_def ValidationProof_Validate_def validDigest0
      DomainReconciliation_Validate_def Problem.New_def)

lemma Apply_command:
  "allowedTarget (r_State r) k = (s, True) \<Longrightarrow> \<exists>r' t. Apply r (command k) = Inr (r', t) \<and> r_State r' = s"
  by (rule exI [of _ "applied s (command k) r"]) (simp add: Apply_accepted guards_command)

text \<open>A path through the table, and the commands that leave every state for a final one.\<close>

fun path :: "State \<Rightarrow> CommandKind list \<Rightarrow> State option" where
  "path s [] = Some s"
| "path s (k # ks) = (case allowedTarget s k of (target, ok) \<Rightarrow> if ok then path target ks else None)"

lemma apply_path:
  "path (r_State r) ks = Some s \<Longrightarrow> \<exists>r'. apply_all r (map command ks) = Some r' \<and> r_State r' = s"
proof (induction ks arbitrary: r)
  case (Cons k ks)
  then obtain target where k: "allowedTarget (r_State r) k = (target, True)" and ks: "path target ks = Some s"
    by (auto split: prod.splits if_splits)
  obtain r1 t where "Apply r (command k) = Inr (r1, t)" "r_State r1 = target" using Apply_command [OF k] by blast
  with Cons.IH [of r1] ks show ?case by auto
qed simp

primrec way_out :: "State \<Rightarrow> CommandKind list" where
  "way_out Created = [RequestCancellation, ReconcileCancellation]"
| "way_out Preparing = [RecordRefusal]"
| "way_out Planning = [RecordRefusal]"
| "way_out AwaitingInput = [AcceptInput, RecordRefusal]"
| "way_out Executing = [BeginValidation, RecordRefusal]"
| "way_out Validating = [RecordRefusal]"
| "way_out AwaitingReview = [Discard]"
| "way_out AwaitingApproval = [RejectApproval, Discard]"
| "way_out Committing = [BeginDomainConfirmation, ConfirmDomain]"
| "way_out AwaitingDomainConfirmation = [ConfirmDomain]"
| "way_out Conflicted = [RequestCancellation, ReconcileCancellation]"
| "way_out Cancelling = [ReconcileCancellation]"
| "way_out Failed = [Retry, RecordRefusal]"
| "way_out Completed = []"
| "way_out Cancelled = []"
| "way_out Refused = []"
| "way_out Discarded = []"

lemma way_out: "length (way_out s) \<le> 2 \<and> (\<exists>s'. path s (way_out s) = Some s' \<and> final s')"
  by (cases s) (simp_all add: final_def)

lemma final_closed: "final (r_State r) \<Longrightarrow> \<exists>e. Apply r c = Inl e"
  by (cases "c_Kind c") (auto simp: final_def Apply_def)

section \<open>Properties\<close>

text \<open>C34 (proofs before effects). A run that reached the commit boundary did so by an approval with a
  complete commit proof, after a review of a candidate whose validation proof is complete, with nothing
  executed in between; it is completed only from there or by accepting such a candidate. Along the way
  its version counts the accepted commands and its generation the retries.\<close>

theorem committing_run_has_its_proofs:
  assumes "New i = Inr r0" and "apply_all r0 cs = Some r"
  shows "(r_State r = Committing \<or> r_State r = AwaitingDomainConfirmation \<longrightarrow> approved cs) \<and>
    (r_State r = AwaitingReview \<or> r_State r = AwaitingApproval \<longrightarrow> reviewed cs) \<and>
    (r_State r = Completed \<longrightarrow> (\<exists>pre l. cs = pre @ [l] \<and>
       (c_Kind l = AcceptArtifact \<and> reviewed pre \<or> c_Kind l = ConfirmDomain \<and> approved pre))) \<and>
    r_ID r = i \<and> r_Version r = 1 + of_nat (length cs) \<and>
    r_ExecutionGeneration r = 1 + of_nat (length (filter (\<lambda>c. c_Kind c = Retry) cs))"
proof -
  from assms(1) have r0: "r0 = \<lparr>r_ID = i, r_State = Created, r_Version = 1, r_ExecutionGeneration = 1, r_Problem = None\<rparr>"
    by (auto simp: New_def split: if_splits)
  have "history_ok (r_State r0) []" by (simp add: r0 history_ok_def)
  from apply_all_history [OF assms(2) this] apply_all_counts [OF assms(2)] show ?thesis
    by (simp add: history_ok_def r0)
qed

definition run1 :: Run where
  "run1 = \<lparr>r_ID = ''run'', r_State = Created, r_Version = 1, r_ExecutionGeneration = 1, r_Problem = None\<rparr>"

definition to_approval :: "Command list" where
  "to_approval = map command [BeginPreparation, PreparationReady, BeginExecution, BeginValidation, SubmitForReview, RequestApproval]"

theorem committing_run_has_its_proofs_witness:
  "\<exists>r. apply_all run1 (to_approval @ [command Approve]) = Some r \<and> r_State r = Committing \<and>
     approved (to_approval @ [command Approve])"
proof -
  have n: "New ''run'' = Inr run1" by (simp add: New_def run1_def)
  have "map_option r_State (apply_all run1 (to_approval @ [command Approve])) = Some Committing" by code_simp
  then obtain r where r: "apply_all run1 (to_approval @ [command Approve]) = Some r" "r_State r = Committing" by auto
  from committing_run_has_its_proofs [OF n r(1)] r show ?thesis by simp
qed

text \<open>C35 (no stuck state). A run is closed to every command exactly in the four final states, and from every
  run at most two accepted commands lead to one of them: no state is a dead end short of the end.\<close>

theorem every_run_can_end:
  "(final (r_State r) \<longleftrightarrow> (\<forall>c. \<exists>e. Apply r c = Inl e)) \<and>
   (\<exists>cs r'. length cs \<le> 2 \<and> apply_all r cs = Some r' \<and> final (r_State r'))"
proof
  obtain s' where w: "path (r_State r) (way_out (r_State r)) = Some s'" "final s'" "length (way_out (r_State r)) \<le> 2"
    using way_out by blast
  then show ends: "\<exists>cs r'. length cs \<le> 2 \<and> apply_all r cs = Some r' \<and> final (r_State r')"
    using apply_path [OF w(1)] by (intro exI [of _ "map command (way_out (r_State r))"]) auto
  have "final (r_State r)" if refused: "\<forall>c. \<exists>e. Apply r c = Inl e"
  proof -
    from ends obtain cs r' where cs: "apply_all r cs = Some r'" "final (r_State r')" by blast
    show ?thesis
    proof (cases cs)
      case (Cons c ds)
      from refused obtain e where "Apply r c = Inl e" by blast
      with Cons cs(1) show ?thesis by simp
    qed (use cs in simp)
  qed
  with final_closed show "final (r_State r) \<longleftrightarrow> (\<forall>c. \<exists>e. Apply r c = Inl e)" by blast
qed


definition submitted1 :: Run where
  "submitted1 = run1\<lparr>r_State := AwaitingDomainConfirmation\<rparr>"


end
