(* ===== verification/Interrupts.thy ===== *)
theory Interrupts
  imports Runs
begin

text \<open>
  Human and lifecycle control of runs (\<open>src/internal/interrupts/interrupts.go\<close>, \<open>memory.go\<close>): input and
  approval requests with their deadlines, cancellation, retry, discard, child runs and progress, as the
  in-memory repository keeps them. Every method holds the repository's lock for its whole body and is
  one step on the repository. \<open>wall\<close> is what \<open>time.Now\<close> answers in the methods that ask for it. Copies
  made through JSON keep every field but those the wire form leaves out; texts are valid UTF-8.
\<close>

section \<open>Data\<close>

record WriteControl =
  wr_Scope :: Scope
  wr_RunID :: string
  wr_ExpectedVersion :: uint64
  wr_IdempotencyKey :: string
  wr_CanonicalDigest :: string
  wr_Traceparent :: string

record InputResponse =
  ir_RequestVersion :: uint64
  ir_Value :: json
  ir_ActorID :: string
  ir_AcceptedAt :: time

record InputRequest =
  in_ID :: string
  in_RunID :: string
  in_Version :: uint64
  in_Question :: string
  in_ResponseSchema :: json
  in_ExpiresAt :: time
  in_ResumeCheckpoint :: string
  in_CreatedAt :: time
  in_Response :: "InputResponse option"
  in_ExpiredAt :: "time option"

record InputResponseCommand =
  ic_RequestID :: string
  ic_RequestVersion :: uint64
  ic_Value :: json

datatype DecisionKind = DecisionApprove | DecisionReject | DecisionChange | DecisionOther string

record Decision =
  de_RequestVersion :: uint64
  de_Kind :: DecisionKind
  de_ReviewerID :: string
  de_Comment :: string
  de_AcceptedAt :: time

record ApprovalRequest =
  ap_ID :: string
  ap_RunID :: string
  ap_Version :: uint64
  ap_ActionDigest :: string
  ap_Effects :: json
  ap_ExpectedCost :: json
  ap_ReviewerPolicy :: json
  ap_ExpiresAt :: time
  ap_ResumeCheckpoint :: string
  ap_CreatedAt :: time
  ap_Decision :: "Decision option"
  ap_ExpiredAt :: "time option"

record ApprovalDecisionCommand =
  ac_RequestID :: string
  ac_RequestVersion :: uint64
  ac_Decision :: DecisionKind
  ac_ActionDigest :: string
  ac_Comment :: string

record Cancellation =
  ca_RequestedAt :: time
  ca_RequestedBy :: string
  ca_CommitPhase :: bool
  ca_DispatchStopped :: bool
  ca_ChildrenPropagated :: bool
  ca_LeasesRevoked :: bool
  ca_Reconciled :: bool
  ca_ExternalUncertain :: bool

record RetryOutcome =
  ro_Snapshot :: Snapshot
  ro_ResumeCheckpoint :: string
  ro_Replayed :: bool

datatype ChildMode = ChildRequired | ChildOptional | ChildFallback | ChildOther string

record Child =
  ch_RunID :: string
  ch_RootRunID :: string
  ch_ParentRunID :: string
  ch_WorkspaceID :: string
  ch_ProjectID :: string
  ch_ActorID :: string
  ch_ContractBOM :: json
  ch_DataPolicy :: json
  ch_Mode :: ChildMode
  ch_PredecessorRunID :: "string option"
  ch_Depth :: int
  ch_CreatedAt :: time

record ChildOutcome =
  co_State :: State
  co_Warning :: string
  co_Artifact :: string

record PendingCancellation =
  pc_Scope :: Scope
  pc_RunID :: string
  pc_RequestedAt :: time

record Progress =
  pg_Scope :: Scope
  pg_RunID :: string
  pg_State :: State
  pg_EnteredAt :: time
  pg_ProgressAt :: time
  pg_StuckAt :: "time option"

record OperationResult =
  or_Snapshot :: Snapshot
  or_Replayed :: bool

record Expiry =
  ex_Raced :: bool
  ex_Superseded :: bool
  ex_Snapshot :: Snapshot

text \<open>The dynamic type of the value a replay record keeps.\<close>

datatype replay_value =
    VInput InputRequest OperationResult
  | VApproval ApprovalRequest OperationResult
  | VResult OperationResult
  | VCancellation Cancellation OperationResult
  | VRetry RetryOutcome
  | VChild Child

record memoryReplay =
  rp_digest :: string
  rp_version :: uint64
  rp_value :: replay_value

record memoryRun =
  mr_scope :: Scope
  mr_snapshot :: Snapshot
  mr_inputs :: "InputRequest gomap"
  mr_approvals :: "ApprovalRequest gomap"
  mr_cancellation :: "Cancellation option"
  mr_progress :: Progress
  mr_retained :: "string list"

record Repository =
  re_runs :: "memoryRun gomap"
  re_replays :: "memoryReplay gomap"
  re_children :: "Child gomap"
  re_outcomes :: "ChildOutcome gomap"

definition NewMemoryRepository :: Repository where
  "NewMemoryRepository = \<lparr>re_runs = [], re_replays = [], re_children = [], re_outcomes = []\<rparr>"

section \<open>Copies through JSON\<close>

definition copy_json :: "json \<Rightarrow> json" where
  "copy_json j = (if j = '''' then ''null'' else j)"

text \<open>The wire form of a snapshot truncates its times to milliseconds.\<close>

definition contractTimestamp :: "time \<Rightarrow> time" where
  "contractTimestamp t = t - t mod 1000000"

definition cloneSnapshot :: "Snapshot \<Rightarrow> Snapshot" where
  "cloneSnapshot s = s\<lparr>
     sn_Definition := copy_json (sn_Definition s), sn_ContractBOM := copy_json (sn_ContractBOM s),
     sn_Policy := copy_json (sn_Policy s), sn_Budget := copy_json (sn_Budget s),
     sn_RuntimeBinding := copy_json (sn_RuntimeBinding s),
     sn_Problem := map_option (\<lambda>p. UnmarshalJSON (MarshalJSON p)) (sn_Problem s),
     sn_CreatedAt := contractTimestamp (sn_CreatedAt s), sn_UpdatedAt := contractTimestamp (sn_UpdatedAt s)\<rparr>"

definition cloneInput :: "InputRequest \<Rightarrow> InputRequest" where
  "cloneInput v = v\<lparr>in_ResponseSchema := copy_json (in_ResponseSchema v),
     in_Response := map_option (\<lambda>a. a\<lparr>ir_Value := copy_json (ir_Value a), ir_ActorID := ''''\<rparr>) (in_Response v)\<rparr>"

definition cloneApproval :: "ApprovalRequest \<Rightarrow> ApprovalRequest" where
  "cloneApproval v = v\<lparr>ap_Effects := copy_json (ap_Effects v), ap_ExpectedCost := copy_json (ap_ExpectedCost v),
     ap_ReviewerPolicy := copy_json (ap_ReviewerPolicy v),
     ap_Decision := map_option (\<lambda>d. d\<lparr>de_ReviewerID := ''''\<rparr>) (ap_Decision v)\<rparr>"

definition cloneChild :: "Child \<Rightarrow> Child" where
  "cloneChild v = v\<lparr>ch_ContractBOM := copy_json (ch_ContractBOM v), ch_DataPolicy := copy_json (ch_DataPolicy v)\<rparr>"

section \<open>The shared parts of the methods\<close>

definition stable :: "code \<Rightarrow> string \<Rightarrow> err" where
  "stable c detail = problem_detail c detail"

definition ReplayConflict :: "string \<Rightarrow> string \<Rightarrow> uint64 \<Rightarrow> uint64 \<Rightarrow> err option" where
  "ReplayConflict recordedDigest digest recordedVersion version =
     (if recordedDigest \<noteq> digest
      then Some (stable CodeIdempotencyKeyReused ''the idempotency key was already used with different canonical request bytes'')
      else if recordedVersion \<noteq> version
      then Some (stable CodeIdempotencyConflict ''the idempotency key was already used against a different resource revision'')
      else None)"

definition replayKey :: "WriteControl \<Rightarrow> string \<Rightarrow> string" where
  "replayKey w operation = WorkspaceID (wr_Scope w) @ [NUL] @ ProjectID (wr_Scope w) @ [NUL] @ operation @ [NUL] @ wr_IdempotencyKey w"

definition same_tenant :: "Scope \<Rightarrow> Scope \<Rightarrow> bool" where
  "same_tenant a b \<longleftrightarrow> WorkspaceID a = WorkspaceID b \<and> ProjectID a = ProjectID b"

definition scoped :: "Repository \<Rightarrow> Scope \<Rightarrow> string \<Rightarrow> err + memoryRun" where
  "scoped r scope i =
     (case gm_get (re_runs r) i of
        None \<Rightarrow> Inl (problem CodeResourceNotFound)
      | Some entry \<Rightarrow>
          (if \<not> same_tenant (mr_scope entry) scope then Inl (problem CodeResourceNotFound) else Inr entry))"

definition put_run :: "string \<Rightarrow> memoryRun \<Rightarrow> Repository \<Rightarrow> Repository" where
  "put_run i entry r = r\<lparr>re_runs := gm_put i entry (re_runs r)\<rparr>"

definition write_record :: "WriteControl \<Rightarrow> string \<Rightarrow> string \<Rightarrow> replay_value \<Rightarrow> Repository \<Rightarrow> Repository" where
  "write_record w operation digest v r =
     r\<lparr>re_replays := gm_put (replayKey w operation)
        \<lparr>rp_digest = digest, rp_version = wr_ExpectedVersion w, rp_value = v\<rparr> (re_replays r)\<rparr>"

definition prepare :: "Repository \<Rightarrow> WriteControl \<Rightarrow> string \<Rightarrow> string \<Rightarrow> err + memoryRun \<times> memoryReplay option" where
  "prepare r w operation digest =
     (if Scope_Validate (wr_Scope w) \<noteq> None \<or> wr_RunID w = '''' \<or> wr_ExpectedVersion w = 0
         \<or> wr_IdempotencyKey w = '''' \<or> digest = ''''
      then Inl (stable CodeRequestInvalid ''control write requires scope, run, version, idempotency, and digest'')
      else case scoped r (wr_Scope w) (wr_RunID w) of
        Inl e \<Rightarrow> Inl e
      | Inr entry \<Rightarrow>
          (case gm_get (re_replays r) (replayKey w operation) of
             Some replay \<Rightarrow>
               (case ReplayConflict (rp_digest replay) digest (rp_version replay) (wr_ExpectedVersion w) of
                  Some e \<Rightarrow> Inl e
                | None \<Rightarrow> Inr (entry, Some replay))
           | None \<Rightarrow>
               (if sn_Version (mr_snapshot entry) \<noteq> wr_ExpectedVersion w then Inl (problem CodeVersionConflict)
                else Inr (entry, None))))"

definition progress_at :: "Scope \<Rightarrow> Snapshot \<Rightarrow> time \<Rightarrow> Progress" where
  "progress_at scope s now = \<lparr>pg_Scope = scope, pg_RunID = sn_RunID s, pg_State = sn_Status s,
     pg_EnteredAt = now, pg_ProgressAt = now, pg_StuckAt = None\<rparr>"

definition advance :: "memoryRun \<Rightarrow> Snapshot \<Rightarrow> time \<Rightarrow> memoryRun" where
  "advance entry s now = entry\<lparr>mr_snapshot := cloneSnapshot s, mr_progress := progress_at (mr_scope entry) s now\<rparr>"

definition transition :: "Snapshot \<Rightarrow> Command \<Rightarrow> err + Snapshot" where
  "transition s c =
     (case Apply \<lparr>r_ID = sn_RunID s, r_State = sn_Status s, r_Version = sn_Version s,
                  r_ExecutionGeneration = sn_ExecutionGeneration s, r_Problem = sn_Problem s\<rparr> c of
        Inl e \<Rightarrow> Inl e
      | Inr (updated, t) \<Rightarrow>
          Inr ((cloneSnapshot s)\<lparr>sn_Status := r_State updated, sn_Version := r_Version updated,
             sn_ExecutionGeneration := r_ExecutionGeneration updated, sn_Problem := r_Problem updated\<rparr>))"

text \<open>A command of which only the kind, the trace and the given optional parts are set.\<close>

definition plain_command :: "CommandKind \<Rightarrow> string \<Rightarrow> Command" where
  "plain_command k trace = \<lparr>c_Kind = k,
     c_Commit = \<lparr>cp_ApprovalRechecked = False, cp_ArtifactEligible = False, cp_ActionBindingExact = False,
       cp_AuthorizationDurable = False, cp_AuthorizationID = '''', cp_DomainOperationID = '''',
       cp_ActionDigest = '''', cp_ArtifactDigest = ''''\<rparr>,
     c_Validation = \<lparr>vp_Valid = False, vp_BOMDigest = '''', vp_SchemaDigest = '''', vp_ValidatorVersion = '''',
       vp_CatalogDigest = ''''\<rparr>,
     c_Reconciliation = \<lparr>dr_Reconciled = False, dr_EffectApplied = False, dr_DomainOperationID = ''''\<rparr>,
     c_RetryEligible = False, c_Failure = None, c_Traceparent = trace, c_Artifact = None\<rparr>"

text \<open>A failed type assertion of the source panics; that the branch is never taken is a theorem.\<close>

definition assertion_panic :: err where
  "assertion_panic = Plain ''panic: interface conversion''"

section \<open>Reading and seeding\<close>

definition Seed :: "Scope \<Rightarrow> Snapshot \<Rightarrow> (Repository, err, unit) op" where
  "Seed scope s r =
     (if Scope_Validate scope \<noteq> None \<or> sn_RunID s = '''' \<or> sn_Version s = 0
      then (Inl (Plain ''seed run requires scope and versioned snapshot''), r)
      else (Inr (), put_run (sn_RunID s)
        \<lparr>mr_scope = scope, mr_snapshot = cloneSnapshot s, mr_inputs = [], mr_approvals = [], mr_cancellation = None,
         mr_progress = progress_at scope s (sn_UpdatedAt s), mr_retained = [''events'', ''artifacts'', ''usage'']\<rparr> r))"

definition Current :: "Scope \<Rightarrow> string \<Rightarrow> (Repository, err, Snapshot) op" where
  "Current scope i r =
     (case scoped r scope i of
        Inl e \<Rightarrow> (Inl e, r)
      | Inr entry \<Rightarrow> (Inr (cloneSnapshot (mr_snapshot entry)), r))"

definition GetRun :: "Scope \<Rightarrow> string \<Rightarrow> (Repository, err, Snapshot) op" where
  "GetRun scope i = Current scope i"

definition TransitionRun :: "Scope \<Rightarrow> string \<Rightarrow> uint64 \<Rightarrow> Command \<Rightarrow> (Repository, err, Snapshot) op" where
  "TransitionRun scope i expectedVersion c r =
     (case scoped r scope i of
        Inl e \<Rightarrow> (Inl e, r)
      | Inr entry \<Rightarrow>
          (if sn_Version (mr_snapshot entry) \<noteq> expectedVersion then (Inl (problem CodeVersionConflict), r)
           else case transition (mr_snapshot entry) c of
             Inl e \<Rightarrow> (Inl e, r)
           | Inr s \<Rightarrow>
               (let entry = advance entry s (sn_UpdatedAt s)
                in (Inr (cloneSnapshot (mr_snapshot entry)), put_run i entry r))))"

definition Input :: "Scope \<Rightarrow> string \<Rightarrow> string \<Rightarrow> (Repository, err, InputRequest) op" where
  "Input scope runID i r =
     (case scoped r scope runID of
        Inl e \<Rightarrow> (Inl e, r)
      | Inr entry \<Rightarrow>
          (case gm_get (mr_inputs entry) i of
             None \<Rightarrow> (Inl (problem CodeResourceNotFound), r)
           | Some request \<Rightarrow> (Inr (cloneInput request), r)))"

definition Approval :: "Scope \<Rightarrow> string \<Rightarrow> string \<Rightarrow> (Repository, err, ApprovalRequest) op" where
  "Approval scope runID i r =
     (case scoped r scope runID of
        Inl e \<Rightarrow> (Inl e, r)
      | Inr entry \<Rightarrow>
          (case gm_get (mr_approvals entry) i of
             None \<Rightarrow> (Inl (problem CodeResourceNotFound), r)
           | Some request \<Rightarrow> (Inr (cloneApproval request), r)))"

section \<open>Input requests\<close>

definition next_version :: "uint64 list \<Rightarrow> uint64" where
  "next_version priors =
     (let v = foldl (\<lambda>v prior. if prior \<ge> v then prior + 1 else v) 0 priors in if v = 0 then 1 else v)"

definition OpenInput :: "WriteControl \<Rightarrow> InputRequest \<Rightarrow> string \<Rightarrow> (Repository, err, InputRequest \<times> OperationResult) op" where
  "OpenInput w request digest r =
     (case prepare r w ''request-input'' digest of
        Inl e \<Rightarrow> (Inl e, r)
      | Inr (entry, Some replay) \<Rightarrow>
          (case rp_value replay of
             VInput request result \<Rightarrow> (Inr (cloneInput request, result\<lparr>or_Replayed := True\<rparr>), r)
           | _ \<Rightarrow> (Inl assertion_panic, r))
      | Inr (entry, None) \<Rightarrow>
          (case transition (mr_snapshot entry) (plain_command RequestInput (wr_Traceparent w)) of
             Inl e \<Rightarrow> (Inl e, r)
           | Inr s \<Rightarrow>
               (let request = request\<lparr>in_Version := next_version (map (in_Version \<circ> snd) (mr_inputs entry))\<rparr>;
                    entry = entry\<lparr>mr_inputs := gm_put (in_ID request) (cloneInput request) (mr_inputs entry)\<rparr>;
                    entry = advance entry s (in_CreatedAt request);
                    result = \<lparr>or_Snapshot = cloneSnapshot s, or_Replayed = False\<rparr>
                in (Inr (cloneInput request, result),
                    write_record w ''request-input'' digest (VInput (cloneInput request) result)
                      (put_run (wr_RunID w) entry r)))))"

text \<open>The replay check of the methods that answer an interrupt, before they look at the request.\<close>

definition replayed :: "Repository \<Rightarrow> WriteControl \<Rightarrow> string \<Rightarrow> string \<Rightarrow> (err + OperationResult) option" where
  "replayed r w operation digest =
     (case gm_get (re_replays r) (replayKey w operation) of
        None \<Rightarrow> None
      | Some replay \<Rightarrow>
          (case ReplayConflict (rp_digest replay) digest (rp_version replay) (wr_ExpectedVersion w) of
             Some e \<Rightarrow> Some (Inl e)
           | None \<Rightarrow>
               (case rp_value replay of
                  VResult result \<Rightarrow> Some (Inr (result\<lparr>or_Replayed := True\<rparr>))
                | _ \<Rightarrow> Some (Inl assertion_panic))))"

definition AcceptInputResponse :: "WriteControl \<Rightarrow> InputResponseCommand \<Rightarrow> string \<Rightarrow> time \<Rightarrow> (Repository, err, OperationResult) op" where
  "AcceptInputResponse w c digest now r =
     (case scoped r (wr_Scope w) (wr_RunID w) of
        Inl e \<Rightarrow> (Inl e, r)
      | Inr entry \<Rightarrow>
     (case replayed r w ''respond-input'' digest of
        Some answer \<Rightarrow> (answer, r)
      | None \<Rightarrow>
     (case gm_get (mr_inputs entry) (ic_RequestID c) of
        None \<Rightarrow> (Inl (stable CodeInputRequestStale ''input request version is not current''), r)
      | Some request \<Rightarrow>
          (if in_Version request \<noteq> ic_RequestVersion c
           then (Inl (stable CodeInputRequestStale ''input request version is not current''), r)
           else if in_Response request \<noteq> None
           then (Inl (stable CodeInputAlreadyResponded ''input request already has an immutable response''), r)
           else if in_ExpiredAt request \<noteq> None
           then (Inl (stable CodeInputRequestExpired ''the input request is durably expired and cannot be revived''), r)
           else if sn_Version (mr_snapshot entry) \<noteq> wr_ExpectedVersion w then (Inl (problem CodeVersionConflict), r)
           else if \<not> now < in_ExpiresAt request
           then (Inl (stable CodeInputRequestExpired ''the input deadline elapsed before the response was accepted''), r)
           else case transition (mr_snapshot entry) (plain_command AcceptInput (wr_Traceparent w)) of
             Inl e \<Rightarrow> (Inl e, r)
           | Inr s \<Rightarrow>
               (let request = request\<lparr>in_Response := Some \<lparr>ir_RequestVersion = ic_RequestVersion c,
                        ir_Value = ic_Value c, ir_ActorID = ActorID (wr_Scope w), ir_AcceptedAt = now\<rparr>\<rparr>;
                    entry = entry\<lparr>mr_inputs := gm_put (ic_RequestID c) request (mr_inputs entry)\<rparr>;
                    entry = advance entry s now;
                    result = \<lparr>or_Snapshot = cloneSnapshot s, or_Replayed = False\<rparr>
                in (Inr result, write_record w ''respond-input'' digest (VResult result) (put_run (wr_RunID w) entry r)))))))"

definition failure_command :: "Details \<Rightarrow> string \<Rightarrow> Command" where
  "failure_command f trace = (plain_command RecordFailure trace)\<lparr>c_Failure := Some f\<rparr>"

definition expiry :: "bool \<Rightarrow> bool \<Rightarrow> memoryRun \<Rightarrow> Expiry" where
  "expiry raced superseded entry =
     \<lparr>ex_Raced = raced, ex_Superseded = superseded, ex_Snapshot = cloneSnapshot (mr_snapshot entry)\<rparr>"

definition ExpireInput :: "WriteControl \<Rightarrow> string \<Rightarrow> Details \<Rightarrow> time \<Rightarrow> (Repository, err, Expiry) op" where
  "ExpireInput w i failure now r =
     (case scoped r (wr_Scope w) (wr_RunID w) of
        Inl e \<Rightarrow> (Inl e, r)
      | Inr entry \<Rightarrow>
          (case gm_get (mr_inputs entry) i of
             None \<Rightarrow> (Inl (problem CodeResourceNotFound), r)
           | Some request \<Rightarrow>
               (if in_Response request \<noteq> None then (Inr (expiry True False entry), r)
                else if in_ExpiredAt request \<noteq> None then (Inr (expiry False False entry), r)
                else if sn_Version (mr_snapshot entry) \<noteq> wr_ExpectedVersion w then (Inr (expiry False True entry), r)
                else case transition (mr_snapshot entry) (failure_command failure (wr_Traceparent w)) of
                  Inl e \<Rightarrow> (Inr (expiry False True entry), r)
                | Inr s \<Rightarrow>
                    (let entry = entry\<lparr>mr_inputs := gm_put i (request\<lparr>in_ExpiredAt := Some now\<rparr>) (mr_inputs entry)\<rparr>;
                         entry = advance entry s now
                     in (Inr (expiry False False entry), put_run (wr_RunID w) entry r)))))"

section \<open>Approval requests\<close>

definition OpenApproval :: "WriteControl \<Rightarrow> ApprovalRequest \<Rightarrow> string \<Rightarrow> (Repository, err, ApprovalRequest \<times> OperationResult) op" where
  "OpenApproval w request digest r =
     (case prepare r w ''request-approval'' digest of
        Inl e \<Rightarrow> (Inl e, r)
      | Inr (entry, Some replay) \<Rightarrow>
          (case rp_value replay of
             VApproval request result \<Rightarrow> (Inr (cloneApproval request, result\<lparr>or_Replayed := True\<rparr>), r)
           | _ \<Rightarrow> (Inl assertion_panic, r))
      | Inr (entry, None) \<Rightarrow>
          (case transition (mr_snapshot entry) (plain_command RequestApproval (wr_Traceparent w)) of
             Inl e \<Rightarrow> (Inl e, r)
           | Inr s \<Rightarrow>
               (let request = request\<lparr>ap_Version := next_version (map (ap_Version \<circ> snd) (mr_approvals entry))\<rparr>;
                    entry = entry\<lparr>mr_approvals := gm_put (ap_ID request) (cloneApproval request) (mr_approvals entry)\<rparr>;
                    entry = advance entry s (ap_CreatedAt request);
                    result = \<lparr>or_Snapshot = cloneSnapshot s, or_Replayed = False\<rparr>
                in (Inr (cloneApproval request, result),
                    write_record w ''request-approval'' digest (VApproval (cloneApproval request) result)
                      (put_run (wr_RunID w) entry r)))))"

definition decided :: "WriteControl \<Rightarrow> ApprovalDecisionCommand \<Rightarrow> time \<Rightarrow> ApprovalRequest \<Rightarrow> ApprovalRequest" where
  "decided w c now request = request\<lparr>ap_Decision := Some \<lparr>de_RequestVersion = ac_RequestVersion c,
     de_Kind = ac_Decision c, de_ReviewerID = ActorID (wr_Scope w), de_Comment = ac_Comment c, de_AcceptedAt = now\<rparr>\<rparr>"

text \<open>The decision is written to the entry before the transition of a rejection is tried.\<close>

definition DecideApproval :: "WriteControl \<Rightarrow> ApprovalDecisionCommand \<Rightarrow> string \<Rightarrow> time \<Rightarrow> (Repository, err, OperationResult) op" where
  "DecideApproval w c digest now r =
     (case scoped r (wr_Scope w) (wr_RunID w) of
        Inl e \<Rightarrow> (Inl e, r)
      | Inr entry \<Rightarrow>
     (case replayed r w ''decide-approval'' digest of
        Some answer \<Rightarrow> (answer, r)
      | None \<Rightarrow>
     (case gm_get (mr_approvals entry) (ac_RequestID c) of
        None \<Rightarrow> (Inl (stable CodeApprovalRequestStale ''approval decision version is not current''), r)
      | Some request \<Rightarrow>
          (if ap_Version request \<noteq> ac_RequestVersion c
           then (Inl (stable CodeApprovalRequestStale ''approval decision version is not current''), r)
           else if ap_Decision request \<noteq> None
           then (Inl (stable CodeApprovalAlreadyDecided ''approval decision is immutable''), r)
           else if ap_ExpiredAt request \<noteq> None
           then (Inl (stable CodeApprovalRequestExpired ''the approval request is durably expired and cannot be revived''), r)
           else if sn_Version (mr_snapshot entry) \<noteq> wr_ExpectedVersion w then (Inl (problem CodeVersionConflict), r)
           else if \<not> now < ap_ExpiresAt request
           then (Inl (stable CodeApprovalRequestExpired ''the approval deadline elapsed before the decision was accepted''), r)
           else
             (let entry = entry\<lparr>mr_approvals := gm_put (ac_RequestID c) (decided w c now request) (mr_approvals entry)\<rparr>;
                  answered = (\<lambda>s entry.
                    let result = \<lparr>or_Snapshot = cloneSnapshot s, or_Replayed = False\<rparr>
                    in (Inr result, write_record w ''decide-approval'' digest (VResult result) (put_run (wr_RunID w) entry r)))
              in if ac_Decision c = DecisionReject \<or> ac_Decision c = DecisionChange
                 then (case transition (mr_snapshot entry) (plain_command RejectApproval (wr_Traceparent w)) of
                         Inl e \<Rightarrow> (Inl e, put_run (wr_RunID w) entry r)
                       | Inr s \<Rightarrow> answered s (advance entry s now))
                 else answered (mr_snapshot entry)
                        (entry\<lparr>mr_progress := (mr_progress entry)\<lparr>pg_ProgressAt := now\<rparr>\<rparr>))))))"

definition ExpireApproval :: "WriteControl \<Rightarrow> string \<Rightarrow> Details \<Rightarrow> time \<Rightarrow> (Repository, err, Expiry) op" where
  "ExpireApproval w i failure now r =
     (case scoped r (wr_Scope w) (wr_RunID w) of
        Inl e \<Rightarrow> (Inl e, r)
      | Inr entry \<Rightarrow>
          (case gm_get (mr_approvals entry) i of
             None \<Rightarrow> (Inl (problem CodeResourceNotFound), r)
           | Some request \<Rightarrow>
               (if ap_Decision request \<noteq> None then (Inr (expiry True False entry), r)
                else if ap_ExpiredAt request \<noteq> None then (Inr (expiry False False entry), r)
                else if sn_Version (mr_snapshot entry) \<noteq> wr_ExpectedVersion w then (Inr (expiry False True entry), r)
                else case transition (mr_snapshot entry) (failure_command failure (wr_Traceparent w)) of
                  Inl e \<Rightarrow> (Inr (expiry False True entry), r)
                | Inr s \<Rightarrow>
                    (let entry = entry\<lparr>mr_approvals := gm_put i (request\<lparr>ap_ExpiredAt := Some now\<rparr>) (mr_approvals entry)\<rparr>;
                         entry = advance entry s now
                     in (Inr (expiry False False entry), put_run (wr_RunID w) entry r)))))"

section \<open>Cancellation\<close>

definition RequestCancel :: "WriteControl \<Rightarrow> string \<Rightarrow> time \<Rightarrow> (Repository, err, Cancellation \<times> OperationResult) op" where
  "RequestCancel w digest now r =
     (case prepare r w ''cancel'' digest of
        Inl e \<Rightarrow> (Inl e, r)
      | Inr (entry, Some replay) \<Rightarrow>
          (case rp_value replay of
             VCancellation c result \<Rightarrow> (Inr (c, result\<lparr>or_Replayed := True\<rparr>), r)
           | _ \<Rightarrow> (Inl assertion_panic, r))
      | Inr (entry, None) \<Rightarrow>
          (let commitPhase = (sn_Status (mr_snapshot entry) = Committing
                 \<or> sn_Status (mr_snapshot entry) = AwaitingDomainConfirmation);
               c = \<lparr>ca_RequestedAt = now, ca_RequestedBy = ActorID (wr_Scope w), ca_CommitPhase = commitPhase,
                    ca_DispatchStopped = False, ca_ChildrenPropagated = False, ca_LeasesRevoked = False,
                    ca_Reconciled = False, ca_ExternalUncertain = False\<rparr>;
               recorded = (\<lambda>s entry.
                 let result = \<lparr>or_Snapshot = cloneSnapshot s, or_Replayed = False\<rparr>
                 in (Inr (c, result), write_record w ''cancel'' digest (VCancellation c result)
                       (put_run (wr_RunID w) (entry\<lparr>mr_cancellation := Some c\<rparr>) r)))
           in if commitPhase then recorded (mr_snapshot entry) entry
              else case transition (mr_snapshot entry) (plain_command RequestCancellation (wr_Traceparent w)) of
                Inl e \<Rightarrow> (Inl e, r)
              | Inr s \<Rightarrow> recorded s (advance entry s now)))"

definition UnreconciledCancellations :: "(Repository, err, PendingCancellation list) op" where
  "UnreconciledCancellations r =
     (Inr (sort_key pc_RunID (concat (map (\<lambda>(k, entry).
        case mr_cancellation entry of
          None \<Rightarrow> []
        | Some c \<Rightarrow> if ca_Reconciled c then []
            else [\<lparr>pc_Scope = mr_scope entry, pc_RunID = sn_RunID (mr_snapshot entry), pc_RequestedAt = ca_RequestedAt c\<rparr>])
        (re_runs r)))), r)"

definition RecordCancellation :: "WriteControl \<Rightarrow> Cancellation \<Rightarrow> (Repository, err, unit) op" where
  "RecordCancellation w c r =
     (case scoped r (wr_Scope w) (wr_RunID w) of
        Inl e \<Rightarrow> (Inl e, r)
      | Inr entry \<Rightarrow>
          (case mr_cancellation entry of
             None \<Rightarrow> (Inl (problem CodeVersionConflict), r)
           | Some prior \<Rightarrow>
               (if ca_RequestedAt prior \<noteq> ca_RequestedAt c then (Inl (problem CodeVersionConflict), r)
                else (Inr (), put_run (wr_RunID w) (entry\<lparr>mr_cancellation := Some c\<rparr>) r))))"

definition FinishCancellation :: "WriteControl \<Rightarrow> Cancellation \<Rightarrow> (Repository, err, OperationResult) op" where
  "FinishCancellation w c r =
     (case prepare r w ''cancel-reconciled'' ''sha256:reconciled'' of
        Inl e \<Rightarrow> (Inl e, r)
      | Inr (entry, Some replay) \<Rightarrow>
          (case rp_value replay of
             VResult result \<Rightarrow> (Inr (result\<lparr>or_Replayed := True\<rparr>), r)
           | _ \<Rightarrow> (Inl assertion_panic, r))
      | Inr (entry, None) \<Rightarrow>
          (if ca_CommitPhase c \<or> ca_ExternalUncertain c \<or> \<not> ca_Reconciled c
           then (Inl (stable CodeCancellationUnreconciled ''cancellation cannot terminate before reconciliation''), r)
           else case transition (mr_snapshot entry) (plain_command ReconcileCancellation (wr_Traceparent w)) of
             Inl e \<Rightarrow> (Inl e, r)
           | Inr s \<Rightarrow>
               (let entry = (advance entry s (ca_RequestedAt c))\<lparr>mr_cancellation := Some c\<rparr>;
                    result = \<lparr>or_Snapshot = cloneSnapshot s, or_Replayed = False\<rparr>
                in (Inr result, write_record w ''cancel-reconciled'' ''sha256:reconciled'' (VResult result)
                      (put_run (wr_RunID w) entry r)))))"

section \<open>Retry and discard\<close>

definition RecordedRetry :: "WriteControl \<Rightarrow> string \<Rightarrow> (Repository, err, RetryOutcome option) op" where
  "RecordedRetry w digest r =
     (case gm_get (re_replays r) (replayKey w ''retry'') of
        None \<Rightarrow> (Inr None, r)
      | Some replay \<Rightarrow>
          (case ReplayConflict (rp_digest replay) digest (rp_version replay) (wr_ExpectedVersion w) of
             Some e \<Rightarrow> (Inl e, r)
           | None \<Rightarrow>
               (case rp_value replay of
                  VRetry result \<Rightarrow> (Inr (Some (result\<lparr>ro_Replayed := True\<rparr>)), r)
                | _ \<Rightarrow> (Inl assertion_panic, r))))"

definition RetryRun :: "WriteControl \<Rightarrow> string \<Rightarrow> string \<Rightarrow> time \<Rightarrow> (Repository, err, RetryOutcome) op" where
  "RetryRun w digest checkpoint wall r =
     (case prepare r w ''retry'' digest of
        Inl e \<Rightarrow> (Inl e, r)
      | Inr (entry, Some replay) \<Rightarrow>
          (case rp_value replay of
             VRetry result \<Rightarrow> (Inr (result\<lparr>ro_Replayed := True\<rparr>), r)
           | _ \<Rightarrow> (Inl assertion_panic, r))
      | Inr (entry, None) \<Rightarrow>
          (case transition (mr_snapshot entry) ((plain_command Retry (wr_Traceparent w))\<lparr>c_RetryEligible := True\<rparr>) of
             Inl e \<Rightarrow> (Inl e, r)
           | Inr s \<Rightarrow>
               (let result = \<lparr>ro_Snapshot = cloneSnapshot s, ro_ResumeCheckpoint = checkpoint, ro_Replayed = False\<rparr>
                in (Inr result, write_record w ''retry'' digest (VRetry result)
                      (put_run (wr_RunID w) (advance entry s wall) r)))))"

definition DiscardRun :: "WriteControl \<Rightarrow> string \<Rightarrow> time \<Rightarrow> (Repository, err, OperationResult) op" where
  "DiscardRun w digest wall r =
     (case prepare r w ''discard'' digest of
        Inl e \<Rightarrow> (Inl e, r)
      | Inr (entry, Some replay) \<Rightarrow>
          (case rp_value replay of
             VResult result \<Rightarrow> (Inr (result\<lparr>or_Replayed := True\<rparr>), r)
           | _ \<Rightarrow> (Inl assertion_panic, r))
      | Inr (entry, None) \<Rightarrow>
          (case transition (mr_snapshot entry) (plain_command Discard (wr_Traceparent w)) of
             Inl e \<Rightarrow> (Inl e, r)
           | Inr s \<Rightarrow>
               (let result = \<lparr>or_Snapshot = cloneSnapshot s, or_Replayed = False\<rparr>
                in (Inr result, write_record w ''discard'' digest (VResult result)
                      (put_run (wr_RunID w) (advance entry s wall) r)))))"

section \<open>Child runs\<close>

definition child_snapshot :: "Snapshot \<Rightarrow> Child \<Rightarrow> Snapshot" where
  "child_snapshot parent child = (cloneSnapshot parent)\<lparr>
     sn_RunID := ch_RunID child, sn_RootRunID := ch_RootRunID child, sn_ParentRunID := Some (ch_ParentRunID child),
     sn_Status := Created, sn_Version := 1, sn_ExecutionGeneration := 1, sn_Problem := None,
     sn_CreatedAt := ch_CreatedAt child, sn_UpdatedAt := ch_CreatedAt child\<rparr>"

definition child_run :: "Scope \<Rightarrow> Snapshot \<Rightarrow> Child \<Rightarrow> memoryRun" where
  "child_run scope parent child =
     \<lparr>mr_scope = scope, mr_snapshot = child_snapshot parent child, mr_inputs = [], mr_approvals = [],
      mr_cancellation = None,
      mr_progress = \<lparr>pg_Scope = scope, pg_RunID = ch_RunID child, pg_State = Created,
        pg_EnteredAt = ch_CreatedAt child, pg_ProgressAt = ch_CreatedAt child, pg_StuckAt = None\<rparr>,
      mr_retained = [''events'', ''artifacts'', ''usage'']\<rparr>"

definition CreateChild :: "WriteControl \<Rightarrow> Child \<Rightarrow> string \<Rightarrow> (Repository, err, Child) op" where
  "CreateChild w child digest r =
     (case prepare r w ''create-child'' digest of
        Inl e \<Rightarrow> (Inl e, r)
      | Inr (parent, Some replay) \<Rightarrow>
          (case rp_value replay of VChild c \<Rightarrow> (Inr c, r) | _ \<Rightarrow> (Inl assertion_panic, r))
      | Inr (parent, None) \<Rightarrow>
          (if sn_Status (mr_snapshot parent) \<noteq> Executing then (Inl (problem CodeInvalidTransition), r)
           else
             (let s = mr_snapshot parent;
                  child = child\<lparr>
                    ch_RootRunID := (if sn_RootRunID s = '''' then sn_RunID s else sn_RootRunID s),
                    ch_ContractBOM := sn_ContractBOM s, ch_DataPolicy := sn_Policy s\<rparr>;
                  r' = r\<lparr>re_children := gm_put (ch_RunID child) (cloneChild child) (re_children r)\<rparr>
              in (Inr (cloneChild child),
                  write_record w ''create-child'' digest (VChild (cloneChild child))
                    (put_run (ch_RunID child) (child_run (mr_scope parent) s child) r')))))"

definition child_in :: "Repository \<Rightarrow> Scope \<Rightarrow> string \<Rightarrow> Child option" where
  "child_in r scope i =
     (case gm_get (re_children r) i of
        None \<Rightarrow> None
      | Some child \<Rightarrow>
          (if ch_WorkspaceID child \<noteq> WorkspaceID scope \<or> ch_ProjectID child \<noteq> ProjectID scope then None else Some child))"

definition Parent :: "Scope \<Rightarrow> string \<Rightarrow> (Repository, err, Child option) op" where
  "Parent scope i r =
     (case gm_get (re_children r) i of
        None \<Rightarrow> (case scoped r scope i of Inl e \<Rightarrow> (Inl e, r) | Inr entry \<Rightarrow> (Inr None, r))
      | Some child \<Rightarrow>
          (if child_in r scope i = None then (Inl (problem CodeResourceNotFound), r)
           else (Inr (Some (cloneChild child)), r)))"

definition outcomeTrace :: string where
  "outcomeTrace = ''00-0123456789abcdef0123456789abcdef-0123456789abcdef-01''"

text \<open>The failure of a required child, recorded on its parent where the parent's state allows it.\<close>

definition fail_parent :: "Child \<Rightarrow> time \<Rightarrow> Repository \<Rightarrow> Repository" where
  "fail_parent child wall r =
     (case gm_get (re_runs r) (ch_ParentRunID child) of
        None \<Rightarrow> r
      | Some parent \<Rightarrow>
          (if sn_Status (mr_snapshot parent) \<noteq> Executing \<and> sn_Status (mr_snapshot parent) \<noteq> Validating then r
           else case transition (mr_snapshot parent) (failure_command
                  ((Problem.New CodeWorkerFailed '''')\<lparr>d_Detail := ''required child did not complete''\<rparr>) outcomeTrace) of
             Inl e \<Rightarrow> r
           | Inr s \<Rightarrow> put_run (ch_ParentRunID child) (advance parent s wall) r))"

definition RecordChildOutcome :: "Scope \<Rightarrow> string \<Rightarrow> ChildOutcome \<Rightarrow> time \<Rightarrow> (Repository, err, unit) op" where
  "RecordChildOutcome scope i v wall r =
     (case child_in r scope i of
        None \<Rightarrow> (Inl (problem CodeResourceNotFound), r)
      | Some child \<Rightarrow>
          (if co_Artifact v \<noteq> '''' \<and> (length (co_Artifact v) > 512 \<or> \<not> HasPrefix (co_Artifact v) ''artifact-lineage:'')
           then (Inl (stable CodeRequestInvalid ''artifact return must be an immutable lineage reference''), r)
           else
             (let v = (if ch_Mode child = ChildOptional \<and> co_State v \<noteq> Completed
                       then v\<lparr>co_Warning := ''optional child did not complete''\<rparr> else v);
                  r = r\<lparr>re_outcomes := gm_put i v (re_outcomes r)\<rparr>
              in (Inr (), if ch_Mode child = ChildRequired \<and> co_State v \<noteq> Completed then fail_parent child wall r else r))))"

definition ReadChildOutcome :: "Scope \<Rightarrow> string \<Rightarrow> (Repository, err, ChildOutcome) op" where
  "ReadChildOutcome scope i r =
     (case child_in r scope i of
        None \<Rightarrow> (Inl (problem CodeResourceNotFound), r)
      | Some child \<Rightarrow>
          (case gm_get (re_outcomes r) i of
             None \<Rightarrow> (Inl (stable CodeChildPredecessorIneligible ''child has no terminal outcome''), r)
           | Some v \<Rightarrow> (Inr v, r)))"

text \<open>
  \<open>Descendants\<close> passes over the map of children until a pass adds nothing. \<open>pass\<close> is one such pass: what
  it takes is the identities seen and the result so far, both in the order they were added.
\<close>

fun pass :: "Child list \<Rightarrow> string list \<times> Child list \<Rightarrow> string list \<times> Child list" where
  "pass [] acc = acc"
| "pass (c # cs) (seen, result) =
     (if ch_ParentRunID c \<in> set seen \<and> ch_RunID c \<notin> set seen
      then pass cs (seen @ [ch_RunID c], result @ [cloneChild c])
      else pass cs (seen, result))"

lemma pass_grows:
  "\<exists>ns. fst (pass cs acc) = fst acc @ ns \<and> set ns \<subseteq> ch_RunID ` set cs \<and> set ns \<inter> set (fst acc) = {}"
proof (induction cs acc rule: pass.induct)
  case (2 c cs seen result)
  show ?case
  proof (cases "ch_ParentRunID c \<in> set seen \<and> ch_RunID c \<notin> set seen")
    case True
    with 2(1) obtain ns where "fst (pass cs (seen @ [ch_RunID c], result @ [cloneChild c])) = (seen @ [ch_RunID c]) @ ns"
      "set ns \<subseteq> ch_RunID ` set cs" "set ns \<inter> set (seen @ [ch_RunID c]) = {}" by auto
    with True show ?thesis by (intro exI [of _ "ch_RunID c # ns"]) auto
  next
    case False
    with 2(2) obtain ns where "fst (pass cs (seen, result)) = seen @ ns" "set ns \<subseteq> ch_RunID ` set cs" "set ns \<inter> set seen = {}"
      by auto
    with False show ?thesis by (intro exI [of _ ns]) auto
  qed
qed simp

function descend :: "Child list \<Rightarrow> string list \<times> Child list \<Rightarrow> string list \<times> Child list" where
  "descend cs acc = (let acc' = pass cs acc in if fst acc' = fst acc then acc' else descend cs acc')"
  by pat_completeness auto
termination
proof (relation "measure (\<lambda>(cs, acc). card (ch_RunID ` set cs - set (fst acc)))")
  fix cs acc acc'
  assume acc': "acc' = pass cs acc" and more: "fst acc' \<noteq> fst acc"
  obtain ns where ns: "fst acc' = fst acc @ ns" "set ns \<subseteq> ch_RunID ` set cs" "set ns \<inter> set (fst acc) = {}"
    using pass_grows [of cs acc] acc' by auto
  with more obtain x where "x \<in> set ns" by (cases ns) auto
  with ns have "ch_RunID ` set cs - set (fst acc') \<subset> ch_RunID ` set cs - set (fst acc)" by auto
  then show "((cs, acc'), (cs, acc)) \<in> measure (\<lambda>(cs, acc). card (ch_RunID ` set cs - set (fst acc)))"
    by (simp add: psubset_card_mono)
qed simp

declare descend.simps [simp del]

definition Descendants :: "Scope \<Rightarrow> string \<Rightarrow> (Repository, err, Child list) op" where
  "Descendants scope ancestor r =
     (case (case scoped r scope ancestor of
              Inl e \<Rightarrow> (if child_in r scope ancestor = None then Some e else None)
            | Inr entry \<Rightarrow> None) of
        Some e \<Rightarrow> (Inl e, r)
      | None \<Rightarrow> (Inr (snd (descend (map snd (re_children r)) ([ancestor], []))), r))"

section \<open>Progress\<close>

definition ReadProgress :: "(Repository, err, Progress list) op" where
  "ReadProgress r = (Inr (map (mr_progress \<circ> snd) (re_runs r)), r)"

definition RecordProgress :: "Scope \<Rightarrow> string \<Rightarrow> State \<Rightarrow> time \<Rightarrow> (Repository, err, unit) op" where
  "RecordProgress scope i state at r =
     (case scoped r scope i of
        Inl e \<Rightarrow> (Inl e, r)
      | Inr entry \<Rightarrow>
          (if sn_Status (mr_snapshot entry) \<noteq> state then (Inl (problem CodeVersionConflict), r)
           else if at > pg_ProgressAt (mr_progress entry)
           then (Inr (), put_run i (entry\<lparr>mr_progress := (mr_progress entry)\<lparr>pg_ProgressAt := at\<rparr>\<rparr>) r)
           else (Inr (), r)))"

definition MarkStuck :: "Progress \<Rightarrow> time \<Rightarrow> string \<Rightarrow> (Repository, err, bool) op" where
  "MarkStuck p at owner r =
     (case scoped r (pg_Scope p) (pg_RunID p) of
        Inl e \<Rightarrow> (Inl e, r)
      | Inr entry \<Rightarrow>
          (if owner = '''' \<or> sn_Status (mr_snapshot entry) \<noteq> pg_State p \<or> pg_StuckAt (mr_progress entry) \<noteq> None
           then (Inr False, r)
           else (Inr True, put_run (pg_RunID p) (entry\<lparr>mr_progress := (mr_progress entry)\<lparr>pg_StuckAt := Some at\<rparr>\<rparr>) r)))"

section \<open>What every method keeps\<close>

text \<open>
  A request is settled once it has an answer or an expiry. \<open>input_le\<close> and \<open>approval_le\<close> relate a request
  to a later state of it; a settled one never changes again.
\<close>

definition input_ok :: "InputRequest \<Rightarrow> bool" where
  "input_ok q \<longleftrightarrow> in_Response q = None \<or> in_ExpiredAt q = None"

definition approval_ok :: "ApprovalRequest \<Rightarrow> bool" where
  "approval_ok q \<longleftrightarrow> ap_Decision q = None \<or> ap_ExpiredAt q = None"

definition input_le :: "InputRequest \<Rightarrow> InputRequest \<Rightarrow> bool" where
  "input_le q q' \<longleftrightarrow> in_Version q' = in_Version q \<and> (in_Response q \<noteq> None \<or> in_ExpiredAt q \<noteq> None \<longrightarrow> q' = q)"

definition approval_le :: "ApprovalRequest \<Rightarrow> ApprovalRequest \<Rightarrow> bool" where
  "approval_le q q' \<longleftrightarrow> ap_Version q' = ap_Version q \<and> (ap_Decision q \<noteq> None \<or> ap_ExpiredAt q \<noteq> None \<longrightarrow> q' = q)"

definition gomap_le :: "('v \<Rightarrow> 'v \<Rightarrow> bool) \<Rightarrow> 'v gomap \<Rightarrow> 'v gomap \<Rightarrow> bool" where
  "gomap_le P m m' \<longleftrightarrow> (\<forall>k v. gm_get m k = Some v \<longrightarrow> (\<exists>v'. gm_get m' k = Some v' \<and> P v v'))"

definition tenant_ok :: "Scope \<Rightarrow> bool" where
  "tenant_ok s \<longleftrightarrow> nul_free (WorkspaceID s) \<and> nul_free (ProjectID s)"

definition entry_inv :: "memoryRun \<Rightarrow> bool" where
  "entry_inv e \<longleftrightarrow> tenant_ok (mr_scope e) \<and> gm_all (\<lambda>k. input_ok) (mr_inputs e) \<and> gm_all (\<lambda>k. approval_ok) (mr_approvals e)"

definition entry_le :: "memoryRun \<Rightarrow> memoryRun \<Rightarrow> bool" where
  "entry_le e e' \<longleftrightarrow> mr_scope e' = mr_scope e \<and> gomap_le input_le (mr_inputs e) (mr_inputs e') \<and>
     gomap_le approval_le (mr_approvals e) (mr_approvals e')"

primrec value_for :: "replay_value \<Rightarrow> string set" where
  "value_for (VInput q result) = {''request-input''}"
| "value_for (VApproval q result) = {''request-approval''}"
| "value_for (VResult result) = {''respond-input'', ''decide-approval'', ''cancel-reconciled'', ''discard''}"
| "value_for (VCancellation c result) = {''cancel''}"
| "value_for (VRetry result) = {''retry''}"
| "value_for (VChild c) = {''create-child''}"

definition replay_ok :: "string \<Rightarrow> memoryReplay \<Rightarrow> bool" where
  "replay_ok k v \<longleftrightarrow> (\<exists>w operation. k = replayKey w operation \<and> tenant_ok (wr_Scope w) \<and> operation \<in> value_for (rp_value v))"

definition repo_inv :: "Repository \<Rightarrow> bool" where
  "repo_inv r \<longleftrightarrow> gm_all (\<lambda>k. entry_inv) (re_runs r) \<and> gm_all replay_ok (re_replays r)"

definition repo_le :: "Repository \<Rightarrow> Repository \<Rightarrow> bool" where
  "repo_le r r' \<longleftrightarrow> gomap_le entry_le (re_runs r) (re_runs r') \<and> gomap_le (=) (re_replays r) (re_replays r')"

definition good_change :: "Repository \<Rightarrow> Repository \<Rightarrow> bool" where
  "good_change r r' \<longleftrightarrow> (repo_inv r \<longrightarrow> repo_inv r' \<and> repo_le r r')"

lemma gomap_le_refl: "(\<And>v. P v v) \<Longrightarrow> gomap_le P m m"
  by (auto simp: gomap_le_def)

lemma gomap_le_trans:
  "gomap_le P m m' \<Longrightarrow> gomap_le P m' m'' \<Longrightarrow> (\<And>a b c. P a b \<Longrightarrow> P b c \<Longrightarrow> P a c) \<Longrightarrow> gomap_le P m m''"
  unfolding gomap_le_def by meson

lemma gomap_le_put: "(\<And>v. P v v) \<Longrightarrow> (\<And>v. gm_get m k = Some v \<Longrightarrow> P v v') \<Longrightarrow> gomap_le P m (gm_put k v' m)"
  by (auto simp: gomap_le_def gm_get_put)

lemma input_le_refl [simp]: "input_le q q"
  by (simp add: input_le_def)

lemma approval_le_refl [simp]: "approval_le q q"
  by (simp add: approval_le_def)

lemma input_le_trans: "input_le a b \<Longrightarrow> input_le b c \<Longrightarrow> input_le a c"
  by (auto simp: input_le_def)

lemma approval_le_trans: "approval_le a b \<Longrightarrow> approval_le b c \<Longrightarrow> approval_le a c"
  by (auto simp: approval_le_def)

lemma entry_le_refl [simp]: "entry_le e e"
  by (simp add: entry_le_def gomap_le_refl)

lemma entry_le_trans: "entry_le a b \<Longrightarrow> entry_le b c \<Longrightarrow> entry_le a c"
  by (auto simp: entry_le_def intro: gomap_le_trans input_le_trans approval_le_trans)

lemma repo_le_refl [simp]: "repo_le r r"
  by (simp add: repo_le_def gomap_le_refl)

lemma repo_le_trans: "repo_le a b \<Longrightarrow> repo_le b c \<Longrightarrow> repo_le a c"
  by (auto simp: repo_le_def intro: gomap_le_trans entry_le_trans)

lemma good_change_refl [simp]: "good_change r r"
  by (simp add: good_change_def)

lemma good_change_trans: "good_change a b \<Longrightarrow> good_change b c \<Longrightarrow> good_change a c"
  by (auto simp: good_change_def intro: repo_le_trans)

text \<open>The two ways a repository is written.\<close>

lemma good_put:
  assumes "gm_get (re_runs r) k = Some e" and "entry_le e e'" and "entry_inv e \<Longrightarrow> entry_inv e'"
  shows "good_change r (put_run k e' r)"
proof -
  have "repo_inv (put_run k e' r)" if i: "repo_inv r"
  proof -
    from i assms(1) have "entry_inv e" by (auto simp: repo_inv_def gm_all_def)
    then show ?thesis using i assms(3) by (simp add: repo_inv_def put_run_def gm_all_put)
  qed
  moreover have "repo_le r (put_run k e' r)"
    using assms(1,2) by (auto simp: repo_le_def put_run_def intro!: gomap_le_refl gomap_le_put)
  ultimately show ?thesis by (simp add: good_change_def)
qed

lemma good_new:
  assumes "gm_get (re_runs r) k = None" and "entry_inv e'"
  shows "good_change r (put_run k e' r)"
  using assms
  by (auto simp: good_change_def repo_inv_def repo_le_def put_run_def intro!: gm_all_put gomap_le_refl gomap_le_put)

lemma good_record:
  assumes "gm_get (re_replays r) (replayKey w operation) = None" and "tenant_ok (wr_Scope w)" and "operation \<in> value_for v"
  shows "good_change r (write_record w operation digest v r)"
proof -
  have "replay_ok (replayKey w operation) \<lparr>rp_digest = digest, rp_version = wr_ExpectedVersion w, rp_value = v\<rparr>"
    using assms(2,3) unfolding replay_ok_def by (intro exI [of _ w] exI [of _ operation]) simp
  with assms(1) show ?thesis
    by (auto simp: good_change_def repo_inv_def repo_le_def write_record_def
        intro!: gm_all_put gomap_le_refl gomap_le_put)
qed

lemma good_side: "good_change r (r\<lparr>re_children := c\<rparr>)" "good_change r (r\<lparr>re_outcomes := v\<rparr>)"
  by (simp_all add: good_change_def repo_inv_def repo_le_def gomap_le_refl)

lemma put_run_replays [simp]: "re_replays (put_run k e r) = re_replays r"
  by (simp add: put_run_def)

lemma same_tenant_ok: "same_tenant a b \<Longrightarrow> tenant_ok a \<Longrightarrow> tenant_ok b"
  by (simp add: same_tenant_def tenant_ok_def)

text \<open>Answering a control write: the entry moves on and the answer is recorded under a new key.\<close>

lemma good_answer:
  assumes "gm_get (re_runs r) k = Some e" and "same_tenant (mr_scope e) (wr_Scope w)"
    and "gm_get (re_replays r) (replayKey w operation) = None"
    and "entry_le e e'" and "entry_inv e \<Longrightarrow> entry_inv e'" and "operation \<in> value_for v"
  shows "good_change r (write_record w operation digest v (put_run k e' r))"
proof (cases "repo_inv r")
  case True
  then have "tenant_ok (wr_Scope w)"
    using assms(1,2) by (auto simp: repo_inv_def gm_all_def entry_inv_def intro: same_tenant_ok)
  with good_put [OF assms(1,4,5)] good_record [of "put_run k e' r" w operation v digest] assms(3,6)
  show ?thesis by (auto intro: good_change_trans)
qed (simp add: good_change_def)

lemma entry_le_advance [simp]: "entry_le e (advance e' s now) = entry_le e e'"
  by (simp add: entry_le_def advance_def)

lemma entry_inv_advance [simp]: "entry_inv (advance e s now) = entry_inv e"
  by (simp add: entry_inv_def advance_def)

lemma entry_le_fields [simp]:
  "entry_le e (e'\<lparr>mr_cancellation := c\<rparr>) = entry_le e e'" "entry_le e (e'\<lparr>mr_progress := p\<rparr>) = entry_le e e'"
  by (simp_all add: entry_le_def)

lemma entry_inv_fields [simp]:
  "entry_inv (e\<lparr>mr_cancellation := c\<rparr>) = entry_inv e" "entry_inv (e\<lparr>mr_progress := p\<rparr>) = entry_inv e"
  by (simp_all add: entry_inv_def)

lemma entry_put_input:
  "(\<And>q. gm_get (mr_inputs e) i = Some q \<Longrightarrow> input_le q q') \<Longrightarrow> entry_le e (e\<lparr>mr_inputs := gm_put i q' (mr_inputs e)\<rparr>)"
  "input_ok q' \<Longrightarrow> entry_inv e \<Longrightarrow> entry_inv (e\<lparr>mr_inputs := gm_put i q' (mr_inputs e)\<rparr>)"
  by (simp_all add: entry_le_def entry_inv_def gomap_le_refl gomap_le_put gm_all_put)

lemma entry_put_approval:
  "(\<And>q. gm_get (mr_approvals e) i = Some q \<Longrightarrow> approval_le q q') \<Longrightarrow>
     entry_le e (e\<lparr>mr_approvals := gm_put i q' (mr_approvals e)\<rparr>)"
  "approval_ok q' \<Longrightarrow> entry_inv e \<Longrightarrow> entry_inv (e\<lparr>mr_approvals := gm_put i q' (mr_approvals e)\<rparr>)"
  by (simp_all add: entry_le_def entry_inv_def gomap_le_refl gomap_le_put gm_all_put)

lemma scoped_Inr:
  "scoped r scope i = Inr e \<longleftrightarrow> gm_get (re_runs r) i = Some e \<and> same_tenant (mr_scope e) scope"
  by (auto simp: scoped_def split: option.splits if_splits)

lemma prepare_fresh:
  assumes "prepare r w operation digest = Inr (e, None)"
  shows "gm_get (re_runs r) (wr_RunID w) = Some e \<and> same_tenant (mr_scope e) (wr_Scope w) \<and>
    gm_get (re_replays r) (replayKey w operation) = None \<and> sn_Version (mr_snapshot e) = wr_ExpectedVersion w \<and>
    Scope_Validate (wr_Scope w) = None"
  using assms by (auto simp: prepare_def scoped_Inr split: if_splits sum.splits option.splits)

lemma prepare_replay:
  assumes "prepare r w operation digest = Inr (e, Some v)"
  shows "gm_get (re_replays r) (replayKey w operation) = Some v \<and> Scope_Validate (wr_Scope w) = None \<and>
    rp_digest v = digest \<and> rp_version v = wr_ExpectedVersion w \<and> scoped r (wr_Scope w) (wr_RunID w) = Inr e"
  using assms by (auto simp: prepare_def ReplayConflict_def split: if_splits sum.splits option.splits)

lemma validOpaqueID_nul_free: "validOpaqueID s \<Longrightarrow> nul_free s"
proof -
  have "\<not> asciiAlphaNumeric NUL" and "NUL \<notin> set ''._:-''" by code_simp+
  then show "validOpaqueID s \<Longrightarrow> nul_free s"
    by (cases s) (simp add: validOpaqueID_def, simp add: validOpaqueID_def nul_free_def list_all_iff, metis)
qed

text \<open>Each method, in the order of the source.\<close>

lemma Seed_good:
  assumes "gm_get (re_runs r) (sn_RunID s) = None"
  shows "good_change r (snd (Seed scope s r))"
proof (cases "Scope_Validate scope")
  case None
  then have "tenant_ok scope"
    by (auto simp: Scope_Validate_def tenant_ok_def validOpaqueID_nul_free split: if_splits)
  then show ?thesis using assms None
    by (auto simp: Seed_def entry_inv_def intro!: good_new)
qed (simp add: Seed_def)

lemma TransitionRun_good: "good_change r (snd (TransitionRun scope i v c r))"
  by (auto simp: TransitionRun_def Let_def scoped_Inr split: sum.splits intro: good_put)

lemma OpenInput_good:
  assumes "in_Response request = None" and "in_ExpiredAt request = None"
    and "\<And>e. gm_get (re_runs r) (wr_RunID w) = Some e \<Longrightarrow> gm_get (mr_inputs e) (in_ID request) = None"
  shows "good_change r (snd (OpenInput w request digest r))"
proof (cases "\<exists>e. prepare r w ''request-input'' digest = Inr (e, None)")
  case True
  then obtain e where e: "prepare r w ''request-input'' digest = Inr (e, None)" by blast
  note p = prepare_fresh [OF this]
  show ?thesis
  proof (cases "transition (mr_snapshot e) (plain_command RequestInput (wr_Traceparent w))")
    case (Inr s)
    with e p assms show ?thesis
      by (auto simp: OpenInput_def Let_def input_ok_def cloneInput_def intro!: good_answer entry_put_input)
  qed (simp add: OpenInput_def e)
next
  case False
  then have "snd (OpenInput w request digest r) = r"
    by (auto simp: OpenInput_def split: sum.splits prod.splits option.splits replay_value.splits)
  then show ?thesis by simp
qed

lemma replayed_None: "replayed r w operation digest = None \<longleftrightarrow> gm_get (re_replays r) (replayKey w operation) = None"
  by (auto simp: replayed_def split: option.splits replay_value.splits)

lemma AcceptInputResponse_cases:
  obtains (same) "snd (AcceptInputResponse w c digest now r) = r"
        "(\<exists>er. fst (AcceptInputResponse w c digest now r) = Inl er) \<or> replayed r w ''respond-input'' digest \<noteq> None"
    | (accepted) e q s where "scoped r (wr_Scope w) (wr_RunID w) = Inr e"
        "gm_get (re_replays r) (replayKey w ''respond-input'') = None"
        "gm_get (mr_inputs e) (ic_RequestID c) = Some q" "in_Version q = ic_RequestVersion c"
        "in_Response q = None" "in_ExpiredAt q = None" "now < in_ExpiresAt q"
        "transition (mr_snapshot e) (plain_command AcceptInput (wr_Traceparent w)) = Inr s"
        "AcceptInputResponse w c digest now r =
          (Inr \<lparr>or_Snapshot = cloneSnapshot s, or_Replayed = False\<rparr>,
           write_record w ''respond-input'' digest (VResult \<lparr>or_Snapshot = cloneSnapshot s, or_Replayed = False\<rparr>)
             (put_run (wr_RunID w) (advance (e\<lparr>mr_inputs := gm_put (ic_RequestID c)
               (q\<lparr>in_Response := Some \<lparr>ir_RequestVersion = ic_RequestVersion c, ir_Value = ic_Value c,
                  ir_ActorID = ActorID (wr_Scope w), ir_AcceptedAt = now\<rparr>\<rparr>) (mr_inputs e)\<rparr>) s now) r))"
proof (cases "scoped r (wr_Scope w) (wr_RunID w)")
  case (Inl er)
  then show ?thesis by (intro same) (simp_all add: AcceptInputResponse_def)
next
  case (Inr e)
  show ?thesis
  proof (cases "replayed r w ''respond-input'' digest")
    case (Some answer)
    with Inr show ?thesis by (intro same) (simp_all add: AcceptInputResponse_def)
  next
    case None
    show ?thesis
    proof (cases "gm_get (mr_inputs e) (ic_RequestID c)")
      case None
      with Inr \<open>replayed r w _ digest = None\<close> show ?thesis by (intro same) (simp_all add: AcceptInputResponse_def)
    next
      case (Some q)
      show ?thesis
      proof (cases "in_Version q \<noteq> ic_RequestVersion c \<or> in_Response q \<noteq> None \<or> in_ExpiredAt q \<noteq> None
          \<or> sn_Version (mr_snapshot e) \<noteq> wr_ExpectedVersion w \<or> \<not> now < in_ExpiresAt q
          \<or> (\<exists>er. transition (mr_snapshot e) (plain_command AcceptInput (wr_Traceparent w)) = Inl er)")
        case True
        with Inr None Some show ?thesis by (intro same) (auto simp: AcceptInputResponse_def)
      next
        case False
        then obtain s where "transition (mr_snapshot e) (plain_command AcceptInput (wr_Traceparent w)) = Inr s"
          by (cases "transition (mr_snapshot e) (plain_command AcceptInput (wr_Traceparent w))") auto
        moreover have "gm_get (re_replays r) (replayKey w ''respond-input'') = None"
          using None by (simp add: replayed_None)
        ultimately show ?thesis using False Inr None Some
          by (intro accepted [of e q s]) (simp_all add: AcceptInputResponse_def Let_def)
      qed
    qed
  qed
qed

lemma AcceptInputResponse_good: "good_change r (snd (AcceptInputResponse w c digest now r))"
proof (cases rule: AcceptInputResponse_cases [of w c digest now r])
  case (accepted e q s)
  then show ?thesis
    by (auto simp: scoped_Inr input_le_def input_ok_def intro!: good_answer entry_put_input)
qed simp

lemma ExpireInput_good: "good_change r (snd (ExpireInput w i failure now r))"
  by (auto simp: ExpireInput_def Let_def scoped_Inr input_le_def input_ok_def
      split: sum.splits option.splits if_splits intro!: good_put entry_put_input)

lemma OpenApproval_good:
  assumes "ap_Decision request = None" and "ap_ExpiredAt request = None"
    and "\<And>e. gm_get (re_runs r) (wr_RunID w) = Some e \<Longrightarrow> gm_get (mr_approvals e) (ap_ID request) = None"
  shows "good_change r (snd (OpenApproval w request digest r))"
proof (cases "\<exists>e. prepare r w ''request-approval'' digest = Inr (e, None)")
  case True
  then obtain e where e: "prepare r w ''request-approval'' digest = Inr (e, None)" by blast
  note p = prepare_fresh [OF this]
  show ?thesis
  proof (cases "transition (mr_snapshot e) (plain_command RequestApproval (wr_Traceparent w))")
    case (Inr s)
    with e p assms show ?thesis
      by (auto simp: OpenApproval_def Let_def approval_ok_def cloneApproval_def intro!: good_answer entry_put_approval)
  qed (simp add: OpenApproval_def e)
next
  case False
  then have "snd (OpenApproval w request digest r) = r"
    by (auto simp: OpenApproval_def split: sum.splits prod.splits option.splits replay_value.splits)
  then show ?thesis by simp
qed

lemma DecideApproval_cases:
  obtains (same) "snd (DecideApproval w c digest now r) = r"
    | (written) e q e' where "scoped r (wr_Scope w) (wr_RunID w) = Inr e"
        "gm_get (re_replays r) (replayKey w ''decide-approval'') = None"
        "gm_get (mr_approvals e) (ac_RequestID c) = Some q" "ap_Decision q = None" "ap_ExpiredAt q = None"
        "entry_le (e\<lparr>mr_approvals := gm_put (ac_RequestID c) (decided w c now q) (mr_approvals e)\<rparr>) e'"
        "entry_inv (e\<lparr>mr_approvals := gm_put (ac_RequestID c) (decided w c now q) (mr_approvals e)\<rparr>) = entry_inv e'"
        "(\<exists>result. DecideApproval w c digest now r = (Inr result,
             write_record w ''decide-approval'' digest (VResult result) (put_run (wr_RunID w) e' r))) \<or>
         (\<exists>er. DecideApproval w c digest now r = (Inl er, put_run (wr_RunID w) e' r))"
proof (cases "scoped r (wr_Scope w) (wr_RunID w)")
  case (Inl er)
  then show ?thesis by (intro same) (simp add: DecideApproval_def)
next
  case (Inr e)
  show ?thesis
  proof (cases "replayed r w ''decide-approval'' digest")
    case (Some answer)
    with Inr show ?thesis by (intro same) (simp add: DecideApproval_def)
  next
    case None
    show ?thesis
    proof (cases "gm_get (mr_approvals e) (ac_RequestID c)")
      case None
      with Inr \<open>replayed r w _ digest = None\<close> show ?thesis by (intro same) (simp add: DecideApproval_def)
    next
      case (Some q)
      let ?e = "e\<lparr>mr_approvals := gm_put (ac_RequestID c) (decided w c now q) (mr_approvals e)\<rparr>"
      let ?p = "mr_progress e"
      show ?thesis
      proof (cases "ap_Version q \<noteq> ac_RequestVersion c \<or> ap_Decision q \<noteq> None \<or> ap_ExpiredAt q \<noteq> None
          \<or> sn_Version (mr_snapshot e) \<noteq> wr_ExpectedVersion w \<or> \<not> now < ap_ExpiresAt q")
        case True
        with Inr None Some show ?thesis by (intro same) (auto simp: DecideApproval_def)
      next
        case False
        have "gm_get (re_replays r) (replayKey w ''decide-approval'') = None"
          using None by (simp add: replayed_None)
        note c = this False Inr None Some
        show ?thesis
        proof (cases "ac_Decision c = DecisionReject \<or> ac_Decision c = DecisionChange")
          case False
          with c show ?thesis
            by (intro written [of e q "?e\<lparr>mr_progress := ?p\<lparr>pg_ProgressAt := now\<rparr>\<rparr>"])
              (simp_all add: DecideApproval_def Let_def)
        next
          case True
          show ?thesis
          proof (cases "transition (mr_snapshot e) (plain_command RejectApproval (wr_Traceparent w))")
            case (Inl er)
            with c True show ?thesis
              by (intro written [of e q ?e]) (simp_all add: DecideApproval_def Let_def)
          next
            case (Inr s)
            with c True show ?thesis
              by (intro written [of e q "advance ?e s now"]) (simp_all add: DecideApproval_def Let_def)
          qed
        qed
      qed
    qed
  qed
qed

lemma DecideApproval_good: "good_change r (snd (DecideApproval w c digest now r))"
proof (cases rule: DecideApproval_cases [of w c digest now r])
  case (written e q e')
  let ?e = "e\<lparr>mr_approvals := gm_put (ac_RequestID c) (decided w c now q) (mr_approvals e)\<rparr>"
  have "approval_le q (decided w c now q)" "approval_ok (decided w c now q)"
    using written(4,5) by (simp_all add: approval_le_def approval_ok_def decided_def)
  then have le: "entry_le e e'" and i: "entry_inv e \<Longrightarrow> entry_inv e'"
    using written(3) entry_le_trans [OF entry_put_approval(1) written(6)] entry_put_approval(2) written(7) by auto
  from written(8) show ?thesis
  proof
    assume "\<exists>result. DecideApproval w c digest now r = (Inr result,
        write_record w ''decide-approval'' digest (VResult result) (put_run (wr_RunID w) e' r))"
    then obtain result where "snd (DecideApproval w c digest now r) =
        write_record w ''decide-approval'' digest (VResult result) (put_run (wr_RunID w) e' r)" by auto
    with written(1,2) le i show ?thesis by (auto simp: scoped_Inr intro!: good_answer)
  next
    assume "\<exists>er. DecideApproval w c digest now r = (Inl er, put_run (wr_RunID w) e' r)"
    with written(1) le i show ?thesis by (auto simp: scoped_Inr intro!: good_put)
  qed
qed simp

lemma ExpireApproval_good: "good_change r (snd (ExpireApproval w i failure now r))"
  by (auto simp: ExpireApproval_def Let_def scoped_Inr approval_le_def approval_ok_def
      split: sum.splits option.splits if_splits intro!: good_put entry_put_approval)

lemma RequestCancel_good: "good_change r (snd (RequestCancel w digest now r))"
proof (cases "\<exists>e. prepare r w ''cancel'' digest = Inr (e, None)")
  case True
  then obtain e where e: "prepare r w ''cancel'' digest = Inr (e, None)" by blast
  note p = prepare_fresh [OF this]
  show ?thesis
    using e p by (auto simp: RequestCancel_def Let_def split: sum.splits intro!: good_answer)
next
  case False
  then have "snd (RequestCancel w digest now r) = r"
    by (auto simp: RequestCancel_def split: sum.splits prod.splits option.splits replay_value.splits)
  then show ?thesis by simp
qed

lemma RecordCancellation_good: "good_change r (snd (RecordCancellation w c r))"
  by (auto simp: RecordCancellation_def scoped_Inr split: sum.splits option.splits intro!: good_put)

lemma FinishCancellation_good: "good_change r (snd (FinishCancellation w c r))"
proof (cases "\<exists>e. prepare r w ''cancel-reconciled'' ''sha256:reconciled'' = Inr (e, None)")
  case True
  then obtain e where e: "prepare r w ''cancel-reconciled'' ''sha256:reconciled'' = Inr (e, None)" by blast
  note p = prepare_fresh [OF this]
  show ?thesis
    using e p by (auto simp: FinishCancellation_def Let_def split: sum.splits intro!: good_answer)
next
  case False
  then have "snd (FinishCancellation w c r) = r"
    by (auto simp: FinishCancellation_def split: sum.splits prod.splits option.splits replay_value.splits)
  then show ?thesis by simp
qed

lemma RetryRun_good: "good_change r (snd (RetryRun w digest checkpoint wall r))"
proof (cases "\<exists>e. prepare r w ''retry'' digest = Inr (e, None)")
  case True
  then obtain e where e: "prepare r w ''retry'' digest = Inr (e, None)" by blast
  note p = prepare_fresh [OF this]
  show ?thesis
    using e p by (auto simp: RetryRun_def Let_def split: sum.splits intro!: good_answer)
next
  case False
  then have "snd (RetryRun w digest checkpoint wall r) = r"
    by (auto simp: RetryRun_def split: sum.splits prod.splits option.splits replay_value.splits)
  then show ?thesis by simp
qed

lemma DiscardRun_good: "good_change r (snd (DiscardRun w digest wall r))"
proof (cases "\<exists>e. prepare r w ''discard'' digest = Inr (e, None)")
  case True
  then obtain e where e: "prepare r w ''discard'' digest = Inr (e, None)" by blast
  note p = prepare_fresh [OF this]
  show ?thesis
    using e p by (auto simp: DiscardRun_def Let_def split: sum.splits intro!: good_answer)
next
  case False
  then have "snd (DiscardRun w digest wall r) = r"
    by (auto simp: DiscardRun_def split: sum.splits prod.splits option.splits replay_value.splits)
  then show ?thesis by simp
qed

lemma child_run_inv: "tenant_ok scope \<Longrightarrow> entry_inv (child_run scope s c)"
  by (simp add: entry_inv_def child_run_def)

lemma CreateChild_good:
  assumes "gm_get (re_runs r) (ch_RunID child) = None"
  shows "good_change r (snd (CreateChild w child digest r))"
proof (cases "\<exists>e. prepare r w ''create-child'' digest = Inr (e, None) \<and> sn_Status (mr_snapshot e) = Executing \<and> repo_inv r")
  case True
  then obtain e where e: "prepare r w ''create-child'' digest = Inr (e, None)" "sn_Status (mr_snapshot e) = Executing" "repo_inv r"
    by blast
  note p = prepare_fresh [OF e(1)]
  then have t: "tenant_ok (mr_scope e)" using e(3) by (auto simp: repo_inv_def gm_all_def entry_inv_def)
  with p have tw: "tenant_ok (wr_Scope w)" by (auto intro: same_tenant_ok)
  let ?c = "child\<lparr>ch_RootRunID := (if sn_RootRunID (mr_snapshot e) = '''' then sn_RunID (mr_snapshot e)
      else sn_RootRunID (mr_snapshot e)), ch_ContractBOM := sn_ContractBOM (mr_snapshot e),
      ch_DataPolicy := sn_Policy (mr_snapshot e)\<rparr>"
  let ?r1 = "r\<lparr>re_children := gm_put (ch_RunID child) (cloneChild ?c) (re_children r)\<rparr>"
  let ?r2 = "put_run (ch_RunID child) (child_run (mr_scope e) (mr_snapshot e) ?c) ?r1"
  have 1: "good_change r ?r1" by (rule good_side)
  have 2: "good_change ?r1 ?r2" using assms by (intro good_new child_run_inv t) simp
  have 3: "good_change ?r2 (write_record w ''create-child'' digest (VChild (cloneChild ?c)) ?r2)"
    using p tw by (intro good_record) simp_all
  have "snd (CreateChild w child digest r) = write_record w ''create-child'' digest (VChild (cloneChild ?c)) ?r2"
    using e by (simp add: CreateChild_def Let_def)
  then show ?thesis using good_change_trans [OF good_change_trans [OF 1 2] 3] by simp
next
  case False
  then have "snd (CreateChild w child digest r) = r \<or> \<not> repo_inv r"
    by (auto simp: CreateChild_def Let_def split: sum.splits prod.splits option.splits replay_value.splits)
  then show ?thesis by (auto simp: good_change_def)
qed

lemma fail_parent_good: "good_change r (fail_parent child wall r)"
  by (auto simp: fail_parent_def split: option.splits sum.splits intro!: good_put)

lemma RecordChildOutcome_good: "good_change r (snd (RecordChildOutcome scope i v wall r))"
  by (auto simp: RecordChildOutcome_def Let_def split: option.splits
      intro!: good_side good_change_trans [OF good_side(2) fail_parent_good])

lemma RecordProgress_good: "good_change r (snd (RecordProgress scope i state at r))"
  by (auto simp: RecordProgress_def scoped_Inr split: sum.splits intro!: good_put)

lemma MarkStuck_good: "good_change r (snd (MarkStuck p at owner r))"
  by (auto simp: MarkStuck_def scoped_Inr split: sum.splits intro!: good_put)

section \<open>Histories of the repository\<close>

text \<open>
  Every method that writes. The service allocates the identities of new requests and runs, and opens a
  request without an answer or an expiry; the rules for those methods say so.
\<close>

inductive repo_step :: "Repository \<Rightarrow> Repository \<Rightarrow> bool" where
  seed: "gm_get (re_runs r) (sn_RunID s) = None \<Longrightarrow> repo_step r (snd (Seed scope s r))"
| transition: "repo_step r (snd (TransitionRun scope i v c r))"
| open_input: "in_Response request = None \<Longrightarrow> in_ExpiredAt request = None \<Longrightarrow>
    \<forall>e. gm_get (re_runs r) (wr_RunID w) = Some e \<longrightarrow> gm_get (mr_inputs e) (in_ID request) = None \<Longrightarrow>
    repo_step r (snd (OpenInput w request digest r))"
| accept_input: "repo_step r (snd (AcceptInputResponse w response digest now r))"
| expire_input: "repo_step r (snd (ExpireInput w i failure now r))"
| open_approval: "ap_Decision approval = None \<Longrightarrow> ap_ExpiredAt approval = None \<Longrightarrow>
    \<forall>e. gm_get (re_runs r) (wr_RunID w) = Some e \<longrightarrow> gm_get (mr_approvals e) (ap_ID approval) = None \<Longrightarrow>
    repo_step r (snd (OpenApproval w approval digest r))"
| decide_approval: "repo_step r (snd (DecideApproval w decision digest now r))"
| expire_approval: "repo_step r (snd (ExpireApproval w i failure now r))"
| request_cancellation: "repo_step r (snd (RequestCancel w digest now r))"
| record_cancellation: "repo_step r (snd (RecordCancellation w cancellation r))"
| finish_cancellation: "repo_step r (snd (FinishCancellation w cancellation r))"
| retry: "repo_step r (snd (RetryRun w digest checkpoint now r))"
| discard: "repo_step r (snd (DiscardRun w digest now r))"
| create_child: "gm_get (re_runs r) (ch_RunID child) = None \<Longrightarrow> repo_step r (snd (CreateChild w child digest r))"
| record_outcome: "repo_step r (snd (RecordChildOutcome scope i outcome now r))"
| record_progress: "repo_step r (snd (RecordProgress scope i state now r))"
| mark_stuck: "repo_step r (snd (MarkStuck p now owner r))"

abbreviation repo_steps :: "Repository \<Rightarrow> Repository \<Rightarrow> bool" where
  "repo_steps \<equiv> repo_step\<^sup>*\<^sup>*"

definition repo_reach :: "Repository \<Rightarrow> bool" where
  "repo_reach r \<longleftrightarrow> repo_steps NewMemoryRepository r"

lemma repo_step_good: "repo_step r r' \<Longrightarrow> good_change r r'"
proof (induction rule: repo_step.induct)
  case (open_input request r w digest)
  then show ?case by (intro OpenInput_good) simp_all
next
  case (open_approval approval r w digest)
  then show ?case by (intro OpenApproval_good) simp_all
qed (simp_all add: Seed_good TransitionRun_good AcceptInputResponse_good ExpireInput_good DecideApproval_good
    ExpireApproval_good RequestCancel_good RecordCancellation_good FinishCancellation_good RetryRun_good
    DiscardRun_good CreateChild_good RecordChildOutcome_good RecordProgress_good MarkStuck_good)

lemma repo_steps_good: "repo_steps r r' \<Longrightarrow> good_change r r'"
  by (induction rule: rtranclp_induct) (auto intro: good_change_trans repo_step_good)

lemma repo_reach_inv: "repo_reach r \<Longrightarrow> repo_inv r"
  using repo_steps_good [of NewMemoryRepository r]
  by (simp add: repo_reach_def good_change_def repo_inv_def NewMemoryRepository_def)

lemma repo_reach_le: "repo_reach r \<Longrightarrow> repo_steps r r' \<Longrightarrow> repo_inv r' \<and> repo_le r r'"
  using repo_steps_good [of r r'] repo_reach_inv [of r] by (simp add: good_change_def)

section \<open>Type assertions\<close>

lemma value_for_nul_free: "operation \<in> value_for v \<Longrightarrow> nul_free operation"
proof -
  have "list_all nul_free [''request-input'', ''request-approval'', ''respond-input'', ''decide-approval'',
      ''cancel-reconciled'', ''discard'', ''cancel'', ''retry'', ''create-child'']"
    by (simp add: nul_free_def NUL_def)
  then show "operation \<in> value_for v \<Longrightarrow> nul_free operation" by (cases v) auto
qed

lemma replayKey_operation:
  assumes "replayKey w a = replayKey w' b" and "tenant_ok (wr_Scope w)" and "tenant_ok (wr_Scope w')"
    and "nul_free a" and "nul_free b"
  shows "a = b"
  using assms by (auto simp: replayKey_def tenant_ok_def nul_free_def append_sep_inject)

lemma replay_value:
  assumes "repo_inv r" and "gm_get (re_replays r) (replayKey w operation) = Some v"
    and "tenant_ok (wr_Scope w)" and "nul_free operation"
  shows "operation \<in> value_for (rp_value v)"
proof -
  from assms(1,2) have "replay_ok (replayKey w operation) v" by (simp add: repo_inv_def gm_all_def)
  then obtain w' op where k: "replayKey w operation = replayKey w' op" "tenant_ok (wr_Scope w')" "op \<in> value_for (rp_value v)"
    by (auto simp: replay_ok_def)
  from replayKey_operation [OF k(1) assms(3) k(2) assms(4) value_for_nul_free [OF k(3)]] k(3) show ?thesis by simp
qed

lemma Scope_Validate_tenant_ok: "Scope_Validate s = None \<Longrightarrow> tenant_ok s"
  by (auto simp: Scope_Validate_def tenant_ok_def validOpaqueID_nul_free split: if_splits)

lemma prepare_value:
  assumes "repo_inv r" and "prepare r w operation digest = Inr (e, Some v)" and "nul_free operation"
  shows "operation \<in> value_for (rp_value v)"
  using prepare_replay [OF assms(2)] replay_value [OF assms(1) _ Scope_Validate_tenant_ok assms(3)] by blast

lemma nul_free_operations [simp]:
  "nul_free ''request-input''" "nul_free ''request-approval''" "nul_free ''respond-input''"
  "nul_free ''decide-approval''" "nul_free ''cancel-reconciled''" "nul_free ''discard''" "nul_free ''cancel''"
  "nul_free ''retry''" "nul_free ''create-child''"
  by (simp_all add: nul_free_def NUL_def)

lemma problem_not_panic [simp]: "problem c \<noteq> assertion_panic" "stable c d \<noteq> assertion_panic" "problem_detail c d \<noteq> assertion_panic"
  by (simp_all add: problem_def problem_detail_def stable_def assertion_panic_def)

lemma guards_not_panic: "guards r c \<noteq> Some assertion_panic"
  by (auto simp: guards_def split: option.splits)

lemma transition_not_panic: "transition s c \<noteq> Inl assertion_panic"
  using guards_not_panic
  by (auto simp: transition_def Apply_def Let_def split: sum.splits prod.splits if_splits option.splits)

lemma scoped_not_panic: "scoped r scope i \<noteq> Inl assertion_panic"
  by (auto simp: scoped_def split: option.splits)

lemma ReplayConflict_not_panic: "ReplayConflict d d' v v' \<noteq> Some assertion_panic"
  by (auto simp: ReplayConflict_def)

lemma prepare_not_panic: "prepare r w operation digest \<noteq> Inl assertion_panic"
  using scoped_not_panic ReplayConflict_not_panic
  by (auto simp: prepare_def split: sum.splits option.splits)

lemma replayed_not_panic:
  assumes "repo_inv r" and "scoped r (wr_Scope w) i = Inr e" and "operation = ''respond-input'' \<or> operation = ''decide-approval''"
  shows "replayed r w operation digest \<noteq> Some (Inl assertion_panic)"
proof (cases "gm_get (re_replays r) (replayKey w operation)")
  case (Some v)
  have "tenant_ok (wr_Scope w)"
    using assms(1,2) by (auto simp: scoped_Inr repo_inv_def gm_all_def entry_inv_def intro: same_tenant_ok)
  then have "operation \<in> value_for (rp_value v)" using assms(3) by (intro replay_value [OF assms(1) Some]) auto
  with Some assms(3) ReplayConflict_not_panic show ?thesis
    by (cases "rp_value v") (auto simp: replayed_def split: option.splits)
qed (simp add: replayed_def)

lemma prepare_outcomes:
  assumes "repo_inv r" and "nul_free operation"
  obtains (refused) er where "prepare r w operation digest = Inl er" "er \<noteq> assertion_panic"
    | (recorded) e v where "prepare r w operation digest = Inr (e, Some v)" "operation \<in> value_for (rp_value v)"
    | (fresh) e where "prepare r w operation digest = Inr (e, None)"
proof (cases "prepare r w operation digest")
  case (Inl er)
  with prepare_not_panic show ?thesis by (intro refused [of er]) auto
next
  case (Inr p)
  then obtain e x where p: "prepare r w operation digest = Inr (e, x)" by (cases p) auto
  show ?thesis
  proof (cases x)
    case None
    with p show ?thesis by (intro fresh [of e]) simp
  next
    case (Some v)
    with p have p': "prepare r w operation digest = Inr (e, Some v)" by simp
    then show ?thesis by (rule recorded) (rule prepare_value [OF assms(1) p' assms(2)])
  qed
qed

lemma transition_error_not_panic: "transition s c = Inl er \<Longrightarrow> er \<noteq> assertion_panic"
  using transition_not_panic by auto

lemma replayed_error_not_panic:
  assumes "repo_inv r" and "scoped r (wr_Scope w) i = Inr e" and "operation = ''respond-input'' \<or> operation = ''decide-approval''"
    and "replayed r w operation digest = Some answer"
  shows "answer \<noteq> Inl assertion_panic"
  using replayed_not_panic [OF assms(1-3), of digest] assms(4) by auto

lemma OpenInput_not_panic:
  assumes "repo_inv r" shows "fst (OpenInput w request digest r) \<noteq> Inl assertion_panic"
  by (cases rule: prepare_outcomes [OF assms nul_free_operations(1), of w digest])
    (auto simp: OpenInput_def Let_def dest: transition_error_not_panic split: replay_value.splits sum.splits)

lemma OpenApproval_not_panic:
  assumes "repo_inv r" shows "fst (OpenApproval w request digest r) \<noteq> Inl assertion_panic"
  by (cases rule: prepare_outcomes [OF assms nul_free_operations(2), of w digest])
    (auto simp: OpenApproval_def Let_def dest: transition_error_not_panic split: replay_value.splits sum.splits)

lemma FinishCancellation_not_panic:
  assumes "repo_inv r" shows "fst (FinishCancellation w c r) \<noteq> Inl assertion_panic"
  by (cases rule: prepare_outcomes [OF assms nul_free_operations(5), of w "''sha256:reconciled''"])
    (auto simp: FinishCancellation_def Let_def dest: transition_error_not_panic split: replay_value.splits sum.splits)

lemma DiscardRun_not_panic:
  assumes "repo_inv r" shows "fst (DiscardRun w digest wall r) \<noteq> Inl assertion_panic"
  by (cases rule: prepare_outcomes [OF assms nul_free_operations(6), of w digest])
    (auto simp: DiscardRun_def Let_def dest: transition_error_not_panic split: replay_value.splits sum.splits)

lemma RequestCancel_not_panic:
  assumes "repo_inv r" shows "fst (RequestCancel w digest now r) \<noteq> Inl assertion_panic"
  by (cases rule: prepare_outcomes [OF assms nul_free_operations(7), of w digest])
    (auto simp: RequestCancel_def Let_def dest: transition_error_not_panic split: replay_value.splits sum.splits)

lemma RetryRun_not_panic:
  assumes "repo_inv r" shows "fst (RetryRun w digest checkpoint wall r) \<noteq> Inl assertion_panic"
  by (cases rule: prepare_outcomes [OF assms nul_free_operations(8), of w digest])
    (auto simp: RetryRun_def Let_def dest: transition_error_not_panic split: replay_value.splits sum.splits)

lemma CreateChild_not_panic:
  assumes "repo_inv r" shows "fst (CreateChild w child digest r) \<noteq> Inl assertion_panic"
  by (cases rule: prepare_outcomes [OF assms nul_free_operations(9), of w digest])
    (auto simp: CreateChild_def Let_def split: replay_value.splits)

lemma RecordedRetry_not_panic:
  assumes "repo_inv r" and "Scope_Validate (wr_Scope w) = None"
  shows "fst (RecordedRetry w digest r) \<noteq> Inl assertion_panic"
proof (cases "gm_get (re_replays r) (replayKey w ''retry'')")
  case (Some v)
  from replay_value [OF assms(1) Some Scope_Validate_tenant_ok [OF assms(2)] nul_free_operations(8)] Some ReplayConflict_not_panic
  show ?thesis by (cases "rp_value v") (auto simp: RecordedRetry_def split: option.splits)
qed (simp add: RecordedRetry_def)

lemma AcceptInputResponse_not_panic:
  assumes "repo_inv r" shows "fst (AcceptInputResponse w c digest now r) \<noteq> Inl assertion_panic"
  using scoped_not_panic [of r "wr_Scope w" "wr_RunID w"]
  by (auto simp: AcceptInputResponse_def Let_def split: sum.splits option.splits
      dest: transition_error_not_panic replayed_error_not_panic [OF assms])

lemma DecideApproval_not_panic:
  assumes "repo_inv r" shows "fst (DecideApproval w c digest now r) \<noteq> Inl assertion_panic"
  using scoped_not_panic [of r "wr_Scope w" "wr_RunID w"]
  by (auto simp: DecideApproval_def Let_def split: sum.splits option.splits
      dest: transition_error_not_panic replayed_error_not_panic [OF assms])

lemmas not_panic = OpenInput_not_panic AcceptInputResponse_not_panic OpenApproval_not_panic DecideApproval_not_panic
  RequestCancel_not_panic FinishCancellation_not_panic RecordedRetry_not_panic RetryRun_not_panic
  DiscardRun_not_panic CreateChild_not_panic

section \<open>Descendants\<close>

definition parent_of :: "Child list \<Rightarrow> (string \<times> string) set" where
  "parent_of cs = {(ch_ParentRunID c, ch_RunID c) | c. c \<in> set cs}"

text \<open>What every pass keeps: the result lists the identities seen after the first, each once, all of them below the ancestor.\<close>

definition descent :: "Child list \<Rightarrow> string \<Rightarrow> string list \<times> Child list \<Rightarrow> bool" where
  "descent cs a acc \<longleftrightarrow> fst acc = a # map ch_RunID (snd acc) \<and> distinct (fst acc) \<and>
     (\<forall>i \<in> set (fst acc). (a, i) \<in> (parent_of cs)\<^sup>*) \<and> set (snd acc) \<subseteq> cloneChild ` set cs"

lemma cloneChild_RunID [simp]: "ch_RunID (cloneChild c) = ch_RunID c"
  by (simp add: cloneChild_def)

lemma pass_descent:
  assumes "descent all a acc" and "set cs \<subseteq> set all"
  shows "descent all a (pass cs acc)"
  using assms
proof (induction cs acc rule: pass.induct)
  case (2 c cs seen result)
  show ?case
  proof (cases "ch_ParentRunID c \<in> set seen \<and> ch_RunID c \<notin> set seen")
    case True
    with 2(3) have "(a, ch_ParentRunID c) \<in> (parent_of all)\<^sup>*" by (auto simp: descent_def)
    moreover have "(ch_ParentRunID c, ch_RunID c) \<in> parent_of all" using 2(4) by (auto simp: parent_of_def)
    ultimately have "(a, ch_RunID c) \<in> (parent_of all)\<^sup>*" by simp
    with True 2(3,4) have "descent all a (seen @ [ch_RunID c], result @ [cloneChild c])" by (auto simp: descent_def)
    with 2(1) [OF True _ ] 2(4) True show ?thesis by simp
  next
    case False
    then have "pass (c # cs) (seen, result) = pass cs (seen, result)" by auto
    with 2(2) [OF False 2(3)] 2(4) show ?thesis by simp
  qed
qed simp

text \<open>A pass that adds nothing has found every child of what is seen.\<close>

lemma pass_closed:
  assumes "fst (pass cs acc) = fst acc" and "c \<in> set cs" and "ch_ParentRunID c \<in> set (fst acc)"
  shows "ch_RunID c \<in> set (fst acc)"
  using assms
proof (induction cs acc rule: pass.induct)
  case (2 d cs seen result)
  have "\<not> (ch_ParentRunID d \<in> set seen \<and> ch_RunID d \<notin> set seen)"
  proof
    assume new: "ch_ParentRunID d \<in> set seen \<and> ch_RunID d \<notin> set seen"
    then have "fst (pass cs (seen @ [ch_RunID d], result @ [cloneChild d])) = seen" using 2(3) by simp
    moreover obtain ns where "fst (pass cs (seen @ [ch_RunID d], result @ [cloneChild d])) = (seen @ [ch_RunID d]) @ ns"
      using pass_grows [of cs "(seen @ [ch_RunID d], result @ [cloneChild d])"] by auto
    ultimately show False by simp
  qed
  with 2(2-5) show ?case by auto
qed simp

lemma descend_descent:
  "descent cs a acc \<Longrightarrow> descent cs a (descend cs acc) \<and>
     (\<forall>c \<in> set cs. ch_ParentRunID c \<in> set (fst (descend cs acc)) \<longrightarrow> ch_RunID c \<in> set (fst (descend cs acc)))"
proof (induction cs acc rule: descend.induct)
  case (1 cs acc)
  have d: "descent cs a (pass cs acc)" using 1(2) by (rule pass_descent) simp
  show ?case
  proof (cases "fst (pass cs acc) = fst acc")
    case True
    then have e: "descend cs acc = pass cs acc" by (simp add: descend.simps [of cs acc] Let_def)
    have "\<forall>c \<in> set cs. ch_ParentRunID c \<in> set (fst acc) \<longrightarrow> ch_RunID c \<in> set (fst acc)"
      using pass_closed [OF True] by blast
    with d True show ?thesis by (simp add: e)
  next
    case False
    then have e: "descend cs acc = descend cs (pass cs acc)" by (simp add: descend.simps [of cs acc] Let_def)
    show ?thesis unfolding e by (rule 1(1) [OF refl False d])
  qed
qed

lemma descend_subtree:
  assumes "descend cs ([a], []) = acc"
  shows "distinct (map ch_RunID (snd acc)) \<and> ch_RunID ` set (snd acc) = {i. (a, i) \<in> (parent_of cs)\<^sup>+} - {a} \<and>
    set (snd acc) \<subseteq> cloneChild ` set cs"
proof -
  have "descent cs a ([a], [])" by (simp add: descent_def)
  from descend_descent [OF this] have d: "descent cs a acc"
    and closed: "\<forall>c \<in> set cs. ch_ParentRunID c \<in> set (fst acc) \<longrightarrow> ch_RunID c \<in> set (fst acc)"
    unfolding assms by auto
  have "i \<in> set (fst acc)" if "(a, i) \<in> (parent_of cs)\<^sup>*" for i
    using that
  proof (induction rule: rtrancl_induct)
    case base
    then show ?case using d by (simp add: descent_def)
  next
    case (step x y)
    then show ?case using closed by (auto simp: parent_of_def)
  qed
  with d have "set (fst acc) = {i. (a, i) \<in> (parent_of cs)\<^sup>*}" by (auto simp: descent_def)
  moreover have "set (fst acc) = insert a (ch_RunID ` set (snd acc))" "a \<notin> ch_RunID ` set (snd acc)"
    using d by (auto simp: descent_def)
  ultimately have "ch_RunID ` set (snd acc) = {i. (a, i) \<in> (parent_of cs)\<^sup>*} - {a}" by blast
  also have "\<dots> = {i. (a, i) \<in> (parent_of cs)\<^sup>+} - {a}" by (auto simp: rtrancl_eq_or_trancl)
  finally show ?thesis using d by (auto simp: descent_def)
qed

lemma repo_le_run:
  assumes "repo_le r r'" and "gm_get (re_runs r) k = Some e"
  obtains e' where "gm_get (re_runs r') k = Some e'" "entry_le e e'"
  using assms unfolding repo_le_def gomap_le_def by blast

lemma repo_le_replay:
  "repo_le r r' \<Longrightarrow> gm_get (re_replays r) k = Some v \<Longrightarrow> gm_get (re_replays r') k = Some v"
  unfolding repo_le_def gomap_le_def by blast

lemma AcceptInputResponse_recorded:
  assumes "AcceptInputResponse w c digest now r = (Inr result, r1)"
  shows "\<exists>e rp. scoped r (wr_Scope w) (wr_RunID w) = Inr e \<and>
    gm_get (re_replays r1) (replayKey w ''respond-input'') = Some rp \<and> rp_digest rp = digest \<and>
    rp_version rp = wr_ExpectedVersion w \<and>
    (\<exists>res. rp_value rp = VResult res \<and> res\<lparr>or_Replayed := True\<rparr> = result\<lparr>or_Replayed := True\<rparr>)"
proof -
  obtain e where e: "scoped r (wr_Scope w) (wr_RunID w) = Inr e"
    using assms by (cases "scoped r (wr_Scope w) (wr_RunID w)") (simp_all add: AcceptInputResponse_def)
  show ?thesis
  proof (cases "replayed r w ''respond-input'' digest")
    case (Some answer)
    with assms e have "answer = Inr result" "r1 = r" by (simp_all add: AcceptInputResponse_def)
    with Some obtain rp res where "gm_get (re_replays r1) (replayKey w ''respond-input'') = Some rp" "rp_digest rp = digest"
        "rp_version rp = wr_ExpectedVersion w" "rp_value rp = VResult res" "result = res\<lparr>or_Replayed := True\<rparr>"
      by (auto simp: replayed_def ReplayConflict_def split: option.splits if_splits replay_value.splits)
    with e show ?thesis by simp
  next
    case None
    show ?thesis
    proof (cases rule: AcceptInputResponse_cases [of w c digest now r])
      case same
      with assms None show ?thesis by simp
    next
      case (accepted e' q s)
      with assms e show ?thesis by (auto simp: write_record_def gm_get_put)
    qed
  qed
qed

section \<open>A concrete repository\<close>

definition scope1 :: Scope where
  "scope1 = \<lparr>WorkspaceID = ''w'', ProjectID = ''p'', ActorID = ''a''\<rparr>"

definition snapshot1 :: "State \<Rightarrow> Snapshot" where
  "snapshot1 s = \<lparr>sn_Kind = ''AgentRun'', sn_RunID = ''run'', sn_RootRunID = ''run'', sn_ParentRunID = None,
     sn_WorkspaceID = ''w'', sn_ActorID = ''a'', sn_Domain = ''d'', sn_Operation = ''o'',
     sn_Target = \<lparr>tg_Type = ''t'', tg_ID = ''t'', tg_WorkspaceID = ''w'', tg_ProjectID = ''p''\<rparr>,
     sn_Definition = '''', sn_ContractBOM = '''', sn_Policy = '''', sn_Budget = '''',
     sn_Idempotency = \<lparr>ip_Scope = '''', ip_Key = '''', ip_CanonicalRequestDigest = ''''\<rparr>, sn_Status = s,
     sn_RuntimeBinding = '''', sn_Version = 1, sn_ExecutionGeneration = 1, sn_Problem = None, sn_LatestEventID = '''',
     sn_CreatedAt = 0, sn_UpdatedAt = 0\<rparr>"

definition write1 :: "string \<Rightarrow> uint64 \<Rightarrow> WriteControl" where
  "write1 k v = \<lparr>wr_Scope = scope1, wr_RunID = ''run'', wr_ExpectedVersion = v, wr_IdempotencyKey = k,
     wr_CanonicalDigest = ''d'', wr_Traceparent = ''''\<rparr>"

definition input1 :: InputRequest where
  "input1 = \<lparr>in_ID = ''i'', in_RunID = ''run'', in_Version = 0, in_Question = ''q'', in_ResponseSchema = ''{}'',
     in_ExpiresAt = 100, in_ResumeCheckpoint = '''', in_CreatedAt = 10, in_Response = None, in_ExpiredAt = None\<rparr>"

definition approval1 :: ApprovalRequest where
  "approval1 = \<lparr>ap_ID = ''i'', ap_RunID = ''run'', ap_Version = 0, ap_ActionDigest = ''d'', ap_Effects = '''',
     ap_ExpectedCost = '''', ap_ReviewerPolicy = '''', ap_ExpiresAt = 100, ap_ResumeCheckpoint = '''',
     ap_CreatedAt = 10, ap_Decision = None, ap_ExpiredAt = None\<rparr>"

definition response1 :: InputResponseCommand where
  "response1 = \<lparr>ic_RequestID = ''i'', ic_RequestVersion = 1, ic_Value = ''true''\<rparr>"

definition decision1 :: "DecisionKind \<Rightarrow> ApprovalDecisionCommand" where
  "decision1 k = \<lparr>ac_RequestID = ''i'', ac_RequestVersion = 1, ac_Decision = k, ac_ActionDigest = ''d'', ac_Comment = ''''\<rparr>"

definition seeded :: "State \<Rightarrow> Repository" where
  "seeded s = snd (Seed scope1 (snapshot1 s) NewMemoryRepository)"

definition asked :: Repository where
  "asked = snd (OpenInput (write1 ''k1'' 1) input1 ''d1'' (seeded Planning))"

definition answered :: Repository where
  "answered = snd (AcceptInputResponse (write1 ''k2'' 2) response1 ''d2'' 50 asked)"

text \<open>An approval request of a run that was cancelled before the reviewer answered.\<close>

definition cancelled_review :: Repository where
  "cancelled_review = snd (RequestCancel (write1 ''k2'' 2) ''d2'' 20
     (snd (OpenApproval (write1 ''k1'' 1) approval1 ''d1'' (seeded AwaitingReview))))"

lemma seeded_reach: "repo_reach (seeded s)"
  unfolding repo_reach_def seeded_def
  by (rule r_into_rtranclp, rule repo_step.seed) (simp add: NewMemoryRepository_def)

lemma asked_reach: "repo_reach asked"
proof -
  have "\<forall>e. gm_get (re_runs (seeded Planning)) (wr_RunID (write1 ''k1'' 1)) = Some e \<longrightarrow> gm_get (mr_inputs e) (in_ID input1) = None"
    by (simp add: seeded_def Seed_def put_run_def NewMemoryRepository_def gm_get_put)
  then have "repo_step (seeded Planning) asked"
    unfolding asked_def by (intro repo_step.open_input) (simp_all add: input1_def)
  with seeded_reach show ?thesis unfolding repo_reach_def by (rule rtranclp.rtrancl_into_rtrancl)
qed

lemma answered_step: "repo_steps asked answered"
  unfolding answered_def by (rule r_into_rtranclp) (rule repo_step.accept_input)

lemma answered_reach: "repo_reach answered"
  using asked_reach answered_step unfolding repo_reach_def by (rule rtranclp_trans)

section \<open>Properties\<close>

text \<open>C37 (answer or expiry). In every reachable repository an input request has an answer or an expiry, never
  both, and an approval request a decision or an expiry; whichever came first is what the request keeps
  through every later history, with the version it was asked under.\<close>

theorem answer_or_expiry:
  assumes "repo_reach r" and "repo_steps r r'" and "gm_get (re_runs r) k = Some e"
  shows "\<exists>e'. gm_get (re_runs r') k = Some e' \<and>
    (\<forall>i q. gm_get (mr_inputs e) i = Some q \<longrightarrow> (in_Response q = None \<or> in_ExpiredAt q = None) \<and>
       (\<exists>q'. gm_get (mr_inputs e') i = Some q' \<and> in_Version q' = in_Version q \<and>
          (in_Response q \<noteq> None \<or> in_ExpiredAt q \<noteq> None \<longrightarrow> q' = q))) \<and>
    (\<forall>i q. gm_get (mr_approvals e) i = Some q \<longrightarrow> (ap_Decision q = None \<or> ap_ExpiredAt q = None) \<and>
       (\<exists>q'. gm_get (mr_approvals e') i = Some q' \<and> ap_Version q' = ap_Version q \<and>
          (ap_Decision q \<noteq> None \<or> ap_ExpiredAt q \<noteq> None \<longrightarrow> q' = q)))"
proof -
  have "entry_inv e" using repo_reach_inv [OF assms(1)] assms(3) by (auto simp: repo_inv_def gm_all_def)
  moreover obtain e' where "gm_get (re_runs r') k = Some e'" "entry_le e e'"
    by (rule repo_le_run [OF conjunct2 [OF repo_reach_le [OF assms(1,2)]] assms(3)])
  ultimately show ?thesis
    by (auto simp: entry_inv_def entry_le_def gm_all_def gomap_le_def input_ok_def approval_ok_def input_le_def approval_le_def)
qed

theorem answer_or_expiry_witness:
  "\<exists>e e' q'. gm_get (re_runs asked) ''run'' = Some e \<and> gm_get (re_runs answered) ''run'' = Some e' \<and>
     gm_get (mr_inputs e') ''i'' = Some q' \<and> in_Version q' = 1"
proof -
  have "map_option (\<lambda>e. map_option in_Version (gm_get (mr_inputs e) ''i'')) (gm_get (re_runs asked) ''run'') = Some (Some 1)"
    by code_simp
  then obtain e q where "gm_get (re_runs asked) ''run'' = Some e" "gm_get (mr_inputs e) ''i'' = Some q" "in_Version q = 1"
    by auto
  with answer_or_expiry [OF asked_reach answered_step this(1)] show ?thesis by fastforce
qed

text \<open>Once an answer to an interrupt was accepted, the same control write gets the
  same result, marked as a replay, and changes nothing, whenever it is repeated and whatever happened to
  the run since; with other canonical bytes or another expected version it is refused with its own code.\<close>

theorem accepted_answer_replays:
  assumes "repo_reach r" and "AcceptInputResponse w c digest now r = (Inr result, r1)" and "repo_steps r1 r2"
  shows "AcceptInputResponse w c digest now' r2 = (Inr (result\<lparr>or_Replayed := True\<rparr>), r2) \<and>
    (digest' \<noteq> digest \<longrightarrow> AcceptInputResponse w c' digest' now' r2 = (Inl (stable CodeIdempotencyKeyReused
       ''the idempotency key was already used with different canonical request bytes''), r2)) \<and>
    (v \<noteq> wr_ExpectedVersion w \<longrightarrow> AcceptInputResponse (w\<lparr>wr_ExpectedVersion := v\<rparr>) c' digest now' r2 =
       (Inl (stable CodeIdempotencyConflict ''the idempotency key was already used against a different resource revision''), r2))"
proof -
  obtain e rp where e: "scoped r (wr_Scope w) (wr_RunID w) = Inr e"
    and rp: "gm_get (re_replays r1) (replayKey w ''respond-input'') = Some rp" "rp_digest rp = digest"
      "rp_version rp = wr_ExpectedVersion w" "\<exists>res. rp_value rp = VResult res \<and> res\<lparr>or_Replayed := True\<rparr> = result\<lparr>or_Replayed := True\<rparr>"
    using AcceptInputResponse_recorded [OF assms(2)] by blast
  have step: "repo_step r r1" using repo_step.accept_input [of r w c digest now] assms(2) by simp
  have reach: "repo_reach r1"
    using rtranclp.rtrancl_into_rtrancl [OF assms(1) [unfolded repo_reach_def] step] by (simp add: repo_reach_def)
  have le: "repo_le r r2"
    by (rule conjunct2 [OF repo_reach_le [OF assms(1) converse_rtranclp_into_rtranclp [OF step assms(3)]]])
  from e have "gm_get (re_runs r) (wr_RunID w) = Some e" "same_tenant (mr_scope e) (wr_Scope w)"
    by (simp_all add: scoped_Inr)
  with repo_le_run [OF le this(1)] obtain e2 where e2: "scoped r2 (wr_Scope w) (wr_RunID w) = Inr e2"
    by (metis scoped_Inr entry_le_def)
  have "gm_get (re_replays r2) (replayKey w ''respond-input'') = Some rp"
    by (rule repo_le_replay [OF conjunct2 [OF repo_reach_le [OF reach assms(3)]] rp(1)])
  with e2 rp(2-) show ?thesis
    by (auto simp: AcceptInputResponse_def replayed_def ReplayConflict_def replayKey_def)
qed

theorem accepted_answer_replays_witness:
  "\<exists>result. AcceptInputResponse (write1 ''k2'' 2) response1 ''d2'' 70 answered = (Inr (result\<lparr>or_Replayed := True\<rparr>), answered)"
proof -
  have "(case AcceptInputResponse (write1 ''k2'' 2) response1 ''d2'' 50 asked of (Inl er, s) \<Rightarrow> False | (Inr v, s) \<Rightarrow> True)"
    by code_simp
  then obtain result where "AcceptInputResponse (write1 ''k2'' 2) response1 ''d2'' 50 asked = (Inr result, answered)"
    unfolding answered_def by (auto split: prod.splits sum.splits)
  from accepted_answer_replays [OF asked_reach this rtranclp.rtrancl_refl] show ?thesis by blast
qed

text \<open>C38 (descendants). The walk over the children ends whatever parent links they have, cycles included, and
  answers exactly the runs below the ancestor by the parent relation, each once and never the ancestor.\<close>

theorem descendants_are_the_subtree:
  "\<exists>answer. Descendants scope a r = (answer, r) \<and>
    (\<forall>ds. answer = Inr ds \<longrightarrow> distinct (map ch_RunID ds) \<and>
       ch_RunID ` set ds = {i. (a, i) \<in> (parent_of (map snd (re_children r)))\<^sup>+} - {a} \<and>
       set ds \<subseteq> cloneChild ` snd ` set (re_children r)) \<and>
    (\<forall>er. answer = Inl er \<longrightarrow> er = problem CodeResourceNotFound \<and> child_in r scope a = None)"
proof (cases "(\<exists>er. scoped r scope a = Inl er) \<and> child_in r scope a = None")
  case True
  then obtain er where "scoped r scope a = Inl er" by blast
  then have "er = problem CodeResourceNotFound" by (auto simp: scoped_def split: option.splits if_splits)
  with True \<open>scoped r scope a = Inl er\<close> show ?thesis by (auto simp: Descendants_def)
next
  case False
  then have "Descendants scope a r = (Inr (snd (descend (map snd (re_children r)) ([a], []))), r)"
    by (auto simp: Descendants_def split: sum.splits)
  with descend_subtree [of "map snd (re_children r)" a, OF refl] show ?thesis by auto
qed

theorem descendants_are_the_subtree_witness:
  "\<exists>answer. Descendants scope1 ''run'' answered = (answer, answered) \<and> (\<forall>ds. answer = Inr ds \<longrightarrow> distinct (map ch_RunID ds))"
  by (rule exE [OF descendants_are_the_subtree [of scope1 "''run''" answered]], elim conjE, rule exI, rule conjI,
      assumption, intro allI impI, drule spec, drule (1) mp, elim conjE, assumption)




end
