(* ===== verification/Workflow.thy ===== *)
theory Workflow
  imports Prelude Problem
begin

text \<open>
  The durable business workflow of an agent run (\<open>src/internal/workflow/workflow.go\<close>): the data that
  crosses its boundaries, the ports \<open>Operations\<close> and \<open>Host\<close>, and \<open>AgentRunWorkflow\<close>. A host supplies two
  durable calls, \<open>Step\<close> and \<open>AwaitSignal\<close>, and the workflow sees nothing else: it is a tree of such calls
  (\<open>prog\<close>), which a host runs. \<open>Workflow_Memory\<close> holds the in-memory host.

  The bytes a step records are the document \<open>doc\<close>; encoding it as JSON and reading it back gives the same
  document. An operation is a function of the world it acts on. A nil pointer that the source
  dereferences is the error \<open>nil_panic\<close>.
\<close>

section \<open>Identities\<close>

record Scope =
  WorkspaceID :: string
  ProjectID :: string
  ActorID :: string

record RunKey =
  k_RunID :: string
  k_Generation :: uint64

definition show_uint64 :: "uint64 \<Rightarrow> string" where
  "show_uint64 w = show_int (uint w)"

definition WorkflowID :: "RunKey \<Rightarrow> string" where
  "WorkflowID k = k_RunID k @ '':g'' @ show_uint64 (k_Generation k)"

record RunInput =
  i_Key :: RunKey
  i_Scope :: Scope
  i_Traceparent :: string

definition asciiAlphaNumeric :: "char \<Rightarrow> bool" where
  "asciiAlphaNumeric c \<longleftrightarrow> is_upper c \<or> is_lower c \<or> is_digit c"

definition validOpaqueID :: "string \<Rightarrow> bool" where
  "validOpaqueID value \<longleftrightarrow>
     (case value of [] \<Rightarrow> False
      | c # cs \<Rightarrow> length value \<le> 128 \<and> asciiAlphaNumeric c \<and>
          list_all (\<lambda>c. asciiAlphaNumeric c \<or> c \<in> set ''._:-'') cs)"

definition lowerHexDigit :: "char \<Rightarrow> bool" where
  "lowerHexDigit c \<longleftrightarrow> is_digit c \<or> (CHR ''a'' \<le> c \<and> c \<le> CHR ''f'')"

definition validTraceparent :: "string \<Rightarrow> bool" where
  "validTraceparent v \<longleftrightarrow>
     length v = 55 \<and> v ! 2 = CHR ''-'' \<and> v ! 35 = CHR ''-'' \<and> v ! 52 = CHR ''-'' \<and>
     list_all (\<lambda>i. i = 2 \<or> i = 35 \<or> i = 52 \<or> lowerHexDigit (v ! i)) [0..<55] \<and>
     take 2 v \<noteq> ''ff'' \<and> take 32 (drop 3 v) \<noteq> replicate 32 (CHR ''0'') \<and>
     take 16 (drop 36 v) \<noteq> replicate 16 (CHR ''0'')"

definition RunInput_Validate :: "RunInput \<Rightarrow> err option" where
  "RunInput_Validate i =
     (if \<not> validOpaqueID (k_RunID (i_Key i)) \<or> length (k_RunID (i_Key i)) > 107
      then Some (Plain ''agent run workflow: bounded run identity is required'')
      else if k_Generation (i_Key i) < 1
      then Some (Plain ''agent run workflow: execution generation must be positive'')
      else if \<not> validOpaqueID (WorkspaceID (i_Scope i)) \<or> \<not> validOpaqueID (ProjectID (i_Scope i))
         \<or> \<not> validOpaqueID (ActorID (i_Scope i))
      then Some (Plain ''agent run workflow: bounded workspace, project, and actor identities are required'')
      else if i_Traceparent i \<noteq> '''' \<and> \<not> validTraceparent (i_Traceparent i)
      then Some (Plain ''agent run workflow: traceparent must be empty or use the W3C format'')
      else None)"

datatype TerminalState = TerminalCompleted | TerminalFailed | TerminalCancelled | TerminalRefused
  | TerminalSuperseded | TerminalUnresolved

primrec TerminalState_string :: "TerminalState \<Rightarrow> string" where
  "TerminalState_string TerminalCompleted = ''completed''"
| "TerminalState_string TerminalFailed = ''failed''"
| "TerminalState_string TerminalCancelled = ''cancelled''"
| "TerminalState_string TerminalRefused = ''refused''"
| "TerminalState_string TerminalSuperseded = ''superseded''"
| "TerminalState_string TerminalUnresolved = ''unresolved''"

record RunOutcome =
  o_Key :: RunKey
  o_Terminal :: TerminalState
  o_Problem :: "Details option"

record OpID =
  op_WorkflowID :: string
  op_Step :: string

definition OpID_Key :: "OpID \<Rightarrow> string" where
  "OpID_Key o' = op_WorkflowID o' @ '':'' @ op_Step o'"

section \<open>What crosses the boundaries\<close>

type_synonym rawjson = string

datatype Phase = PhasePlan | PhaseRevise

text \<open>Of \<open>src/internal/agent/decision.go\<close>: the decision a turn resolves to, and the usage it carries.\<close>

record Usage =
  u_ModelCalls :: int
  u_InputTokens :: int
  u_OutputTokens :: int
  u_CostMicros :: int

datatype DecisionKind = DecisionContinue | DecisionToolCall | DecisionDelegate | DecisionNeedInput
  | DecisionFinal | DecisionRefuse | DecisionOther string

record ToolCallDecision =
  tc_ToolID :: string
  tc_Arguments :: rawjson

record DelegateDecision =
  de_DelegateID :: string
  de_Input :: rawjson

record FinalDecision =
  fd_Candidate :: rawjson
  fd_Summary :: string

text \<open>The payloads of one text field are that text: a note, a question and a reason.\<close>

record TurnDecision =
  td_Kind :: DecisionKind
  td_Continue :: "string option"
  td_ToolCall :: "ToolCallDecision option"
  td_Delegate :: "DelegateDecision option"
  td_NeedInput :: "string option"
  td_Final :: "FinalDecision option"
  td_Refuse :: "string option"

record DelegationCarry =
  dc_State :: string
  dc_DelegateID :: string
  dc_ReasonCode :: string
  dc_CandidateArtifactID :: string
  dc_CandidateDigest :: string
  dc_CandidateMediaType :: string
  dc_CandidateSizeBytes :: int

record Carry =
  c_Notes :: "string list"
  c_InputValue :: rawjson
  c_ReviewReason :: string
  c_Usage :: Usage
  c_Delegations :: int
  c_Version :: uint64
  c_Delegation :: "DelegationCarry option"

record Halt =
  h_Problem :: Details
  h_Behavior :: TerminalState

record PrepareResult =
  pr_Superseded :: bool
  pr_Refused :: "Details option"
  pr_TurnLimit :: int
  pr_DefinitionID :: string
  pr_DefinitionDigest :: string
  pr_Version :: uint64

record TurnInput =
  ti_Run :: RunInput
  ti_Turn :: nat
  ti_Phase :: Phase
  ti_Carry :: Carry

record TurnResult =
  tr_Superseded :: bool
  tr_Decision :: TurnDecision
  tr_Carry :: Carry
  tr_Halt :: "Halt option"

record DecisionRecord =
  dr_Run :: RunInput
  dr_Turn :: nat
  dr_Phase :: Phase
  dr_Decision :: TurnDecision

record Ack =
  a_Superseded :: bool
  a_Raced :: bool
  a_Version :: uint64
  a_Halt :: "Halt option"

text \<open>\<open>ActionInput\<close>, \<open>DelegationInput\<close> and \<open>FinalizeInput\<close> have the same fields in the source.\<close>

record ActionInput =
  ai_Run :: RunInput
  ai_Turn :: nat
  ai_Phase :: Phase
  ai_Decision :: TurnDecision
  ai_Carry :: Carry

type_synonym DelegationInput = ActionInput
type_synonym FinalizeInput = ActionInput

record ActionResult =
  ar_Superseded :: bool
  ar_Carry :: Carry
  ar_Halt :: "Halt option"

record DelegationOpened =
  do_Superseded :: bool
  do_Refused :: bool
  do_TurnLimit :: int
  do_SpecialistID :: string
  do_SpecialistDigest :: string
  do_Carry :: Carry
  do_Halt :: "Halt option"

record DelegateTurnInput =
  di_Run :: RunInput
  di_Turn :: nat
  di_DelegateTurn :: nat
  di_Last :: bool
  di_Phase :: Phase
  di_SpecialistID :: string
  di_SpecialistDigest :: string
  di_Input :: rawjson
  di_Carry :: Carry

record DelegateTurnResult =
  dt_Superseded :: bool
  dt_Done :: bool
  dt_Carry :: Carry
  dt_Halt :: "Halt option"

record InterruptOpen =
  io_Run :: RunInput
  io_Turn :: nat
  io_Question :: string
  io_Version :: uint64

record InterruptOpened =
  id_Superseded :: bool
  id_RequestID :: string
  id_TimeoutMillis :: int
  id_Version :: uint64
  id_Halt :: "Halt option"

record InterruptRef =
  if_Run :: RunInput
  if_Turn :: nat
  if_RequestID :: string

record InputRead =
  ir_Superseded :: bool
  ir_Accepted :: bool
  ir_Expired :: bool
  ir_RemainingMillis :: int
  ir_Value :: rawjson
  ir_Version :: uint64

record ApprovalRead =
  ap_Superseded :: bool
  ap_Decided :: bool
  ap_Kind :: string
  ap_Reason :: string
  ap_Expired :: bool
  ap_RemainingMillis :: int
  ap_Version :: uint64

record ExpireRequest =
  er_Run :: RunInput
  er_Turn :: nat
  er_RequestID :: string
  er_Kind :: string
  er_Version :: uint64

record FinalizeResult =
  fr_Superseded :: bool
  fr_Rejected :: "Details option"
  fr_ArtifactDigest :: string
  fr_Version :: uint64

record ReviewInput =
  rv_Run :: RunInput
  rv_Turn :: nat
  rv_ArtifactDigest :: string
  rv_Version :: uint64

record ReviewResult =
  rr_Superseded :: bool
  rr_Accepted :: bool
  rr_RequestID :: string
  rr_TimeoutMillis :: int
  rr_Version :: uint64
  rr_Halt :: "Halt option"

record CommitInput =
  ci_Run :: RunInput
  ci_Turn :: nat
  ci_RequestID :: string
  ci_ArtifactDigest :: string
  ci_Version :: uint64

record CommitResult =
  cr_Superseded :: bool
  cr_Outcome :: string
  cr_Problem :: "Details option"
  cr_Version :: uint64
  cr_Halt :: "Halt option"
  cr_Unsettled :: bool
  cr_RetryAfterMillis :: int
  cr_Escalated :: bool

record ReviseInput =
  ri_Run :: RunInput
  ri_Turn :: nat
  ri_Reason :: string
  ri_FromConflict :: bool
  ri_Version :: uint64

record TerminalInput =
  tm_Run :: RunInput
  tm_Turn :: nat
  tm_Kind :: TerminalState
  tm_Problem :: "Details option"
  tm_Version :: uint64

section \<open>The ports\<close>

text \<open>
  The application pipeline, on a world \<open>'w\<close>. Each operation is idempotent for its \<open>OpID\<close>: the engine may
  invoke it again when its effect was made and its outcome not recorded.
\<close>

record 'w Operations =
  ops_Prepare :: "OpID \<Rightarrow> RunInput \<Rightarrow> ('w, err, PrepareResult) op"
  ops_ExecuteTurn :: "OpID \<Rightarrow> TurnInput \<Rightarrow> ('w, err, TurnResult) op"
  ops_RecordDecision :: "OpID \<Rightarrow> DecisionRecord \<Rightarrow> ('w, err, Ack) op"
  ops_ExecuteAction :: "OpID \<Rightarrow> ActionInput \<Rightarrow> ('w, err, ActionResult) op"
  ops_OpenDelegation :: "OpID \<Rightarrow> DelegationInput \<Rightarrow> ('w, err, DelegationOpened) op"
  ops_ExecuteDelegateTurn :: "OpID \<Rightarrow> DelegateTurnInput \<Rightarrow> ('w, err, DelegateTurnResult) op"
  ops_OpenInput :: "OpID \<Rightarrow> InterruptOpen \<Rightarrow> ('w, err, InterruptOpened) op"
  ops_ReadInput :: "OpID \<Rightarrow> InterruptRef \<Rightarrow> ('w, err, InputRead) op"
  ops_ExpireInterrupt :: "OpID \<Rightarrow> ExpireRequest \<Rightarrow> ('w, err, Ack) op"
  ops_FinalizeCandidate :: "OpID \<Rightarrow> FinalizeInput \<Rightarrow> ('w, err, FinalizeResult) op"
  ops_ResolveReview :: "OpID \<Rightarrow> ReviewInput \<Rightarrow> ('w, err, ReviewResult) op"
  ops_ReadApproval :: "OpID \<Rightarrow> InterruptRef \<Rightarrow> ('w, err, ApprovalRead) op"
  ops_Revise :: "OpID \<Rightarrow> ReviseInput \<Rightarrow> ('w, err, Ack) op"
  ops_Commit :: "OpID \<Rightarrow> CommitInput \<Rightarrow> ('w, err, CommitResult) op"
  ops_Terminalize :: "OpID \<Rightarrow> TerminalInput \<Rightarrow> ('w, err, Ack) op"

section \<open>Calls to the host\<close>

text \<open>The value a step records, by the type the source instantiates \<open>step\<close> with.\<close>

datatype step_value = VPrepare PrepareResult | VTurn TurnResult | VAck Ack | VAction ActionResult
  | VOpened DelegationOpened | VDelegate DelegateTurnResult | VInterrupt InterruptOpened | VInput InputRead
  | VFinalize FinalizeResult | VReview ReviewResult | VApproval ApprovalRead | VCommit CommitResult

record doc =
  sd_Value :: "step_value option"
  sd_Problem :: "Details option"

text \<open>
  What a call answers instead of a result: the engine stopped or cancelled the execution, or the
  operation failed.
\<close>

datatype wf_err = EngineStopped | EngineCancelled | Failed err

datatype ('w, 'r) prog =
    Return 'r
  | Step string "('w, err, doc) op" "wf_err + doc \<Rightarrow> ('w, 'r) prog"
  | AwaitSignal string int "wf_err + string \<times> bool \<Rightarrow> ('w, 'r) prog"

primrec bind :: "('w, 'a) prog \<Rightarrow> ('a \<Rightarrow> ('w, 'b) prog) \<Rightarrow> ('w, 'b) prog" where
  "bind (Return x) f = f x"
| "bind (Step n g k) f = Step n g (\<lambda>x. bind (k x) f)"
| "bind (AwaitSignal t d k) f = AwaitSignal t d (\<lambda>x. bind (k x) f)"

record 'a codec =
  enc :: "'a \<Rightarrow> step_value"
  dec :: "step_value \<Rightarrow> 'a option"

definition prepare_doc :: "PrepareResult codec" where
  "prepare_doc = \<lparr>enc = VPrepare, dec = (\<lambda>v. case v of VPrepare x \<Rightarrow> Some x | _ \<Rightarrow> None)\<rparr>"

definition turn_doc :: "TurnResult codec" where
  "turn_doc = \<lparr>enc = VTurn, dec = (\<lambda>v. case v of VTurn x \<Rightarrow> Some x | _ \<Rightarrow> None)\<rparr>"

definition ack_doc :: "Ack codec" where
  "ack_doc = \<lparr>enc = VAck, dec = (\<lambda>v. case v of VAck x \<Rightarrow> Some x | _ \<Rightarrow> None)\<rparr>"

definition action_doc :: "ActionResult codec" where
  "action_doc = \<lparr>enc = VAction, dec = (\<lambda>v. case v of VAction x \<Rightarrow> Some x | _ \<Rightarrow> None)\<rparr>"

definition opened_doc :: "DelegationOpened codec" where
  "opened_doc = \<lparr>enc = VOpened, dec = (\<lambda>v. case v of VOpened x \<Rightarrow> Some x | _ \<Rightarrow> None)\<rparr>"

definition delegate_doc :: "DelegateTurnResult codec" where
  "delegate_doc = \<lparr>enc = VDelegate, dec = (\<lambda>v. case v of VDelegate x \<Rightarrow> Some x | _ \<Rightarrow> None)\<rparr>"

definition interrupt_doc :: "InterruptOpened codec" where
  "interrupt_doc = \<lparr>enc = VInterrupt, dec = (\<lambda>v. case v of VInterrupt x \<Rightarrow> Some x | _ \<Rightarrow> None)\<rparr>"

definition input_doc :: "InputRead codec" where
  "input_doc = \<lparr>enc = VInput, dec = (\<lambda>v. case v of VInput x \<Rightarrow> Some x | _ \<Rightarrow> None)\<rparr>"

definition finalize_doc :: "FinalizeResult codec" where
  "finalize_doc = \<lparr>enc = VFinalize, dec = (\<lambda>v. case v of VFinalize x \<Rightarrow> Some x | _ \<Rightarrow> None)\<rparr>"

definition review_doc :: "ReviewResult codec" where
  "review_doc = \<lparr>enc = VReview, dec = (\<lambda>v. case v of VReview x \<Rightarrow> Some x | _ \<Rightarrow> None)\<rparr>"

definition approval_doc :: "ApprovalRead codec" where
  "approval_doc = \<lparr>enc = VApproval, dec = (\<lambda>v. case v of VApproval x \<Rightarrow> Some x | _ \<Rightarrow> None)\<rparr>"

definition commit_doc :: "CommitResult codec" where
  "commit_doc = \<lparr>enc = VCommit, dec = (\<lambda>v. case v of VCommit x \<Rightarrow> Some x | _ \<Rightarrow> None)\<rparr>"

text \<open>What \<open>step\<close> hands to the host, and what it makes of the recorded document.\<close>

definition record_outcome :: "'a codec \<Rightarrow> ('w, err, 'a) op \<Rightarrow> ('w, err, doc) op" where
  "record_outcome c fn w =
     (case fn w of
        (Inr value, w') \<Rightarrow> (Inr \<lparr>sd_Value = Some (enc c value), sd_Problem = None\<rparr>, w')
      | (Inl e, w') \<Rightarrow>
          (case as_Details e of
             None \<Rightarrow> (Inl e, w')
           | Some details \<Rightarrow> (Inr \<lparr>sd_Value = None, sd_Problem = Some details\<rparr>, w')))"

definition read_outcome :: "'a codec \<Rightarrow> string \<Rightarrow> wf_err + doc \<Rightarrow> wf_err + 'a" where
  "read_outcome c stepName raw =
     (case raw of
        Inl e \<Rightarrow> Inl e
      | Inr out \<Rightarrow>
          (case sd_Problem out of
             Some details \<Rightarrow> Inl (Failed (Problem details))
           | None \<Rightarrow>
               (case sd_Value out of
                  None \<Rightarrow> Inl (Failed (Plain (''durable step '' @ stepName @ '' recorded neither a value nor a problem'')))
                | Some v \<Rightarrow>
                    (case dec c v of
                       None \<Rightarrow> Inl (Failed (Wrapped (''decode durable step '' @ stepName) (Plain ''unmarshal'')))
                     | Some x \<Rightarrow> Inr x))))"

definition step :: "'a codec \<Rightarrow> string \<Rightarrow> ('w, err, 'a) op \<Rightarrow> ('w, wf_err + 'a) prog" where
  "step c stepName fn = Step stepName (record_outcome c fn) (\<lambda>raw. Return (read_outcome c stepName raw))"

definition await :: "string \<Rightarrow> int \<Rightarrow> ('w, wf_err + string \<times> bool) prog" where
  "await topic timeout = AwaitSignal topic timeout Return"

text \<open>\<open>problemOf\<close> keeps a typed problem and hides every other error.\<close>

definition problemOf :: "wf_err \<Rightarrow> Details" where
  "problemOf e =
     (case (case e of Failed e \<Rightarrow> as_Details e | _ \<Rightarrow> None) of
        Some details \<Rightarrow> details
      | None \<Rightarrow> (New CodeInternal '''')\<lparr>d_Detail := ''durable operation failed''\<rparr>)"

definition internal_because :: "string \<Rightarrow> Details" where
  "internal_because detail = (New CodeInternal '''')\<lparr>d_Detail := detail\<rparr>"

definition nil_panic :: wf_err where
  "nil_panic = Failed (Plain ''panic: invalid memory address or nil pointer dereference'')"

section \<open>Names of durable steps\<close>

text \<open>\<open>%04d\<close> and \<open>%02d\<close> of a number that is not negative.\<close>

definition pad :: "nat \<Rightarrow> nat \<Rightarrow> string" where
  "pad k n = (let ds = nat_digits n in replicate (k - length ds) (CHR ''0'') @ ds)"

definition name :: "string \<Rightarrow> nat \<Rightarrow> string" where
  "name prefix turn = prefix @ ''-'' @ pad 4 turn"

definition delegateName :: "nat \<Rightarrow> nat \<Rightarrow> string" where
  "delegateName turn delegateTurn = ''delegate-turn-'' @ pad 4 turn @ ''-'' @ pad 4 delegateTurn"

definition InputTopic :: "string \<Rightarrow> string" where
  "InputTopic requestID = ''input:'' @ requestID"

definition ApprovalTopic :: "string \<Rightarrow> string" where
  "ApprovalTopic requestID = ''approval:'' @ requestID"

definition DomainTopic :: "string \<Rightarrow> string" where
  "DomainTopic runID = ''domain:'' @ runID"

definition maximumWakes :: nat where "maximumWakes = 64"
definition commitHoldWakes :: nat where "commitHoldWakes = 64"
definition MaximumCommitWakes :: nat where "MaximumCommitWakes = 4096"
definition maximumDelegateTurns :: int where "maximumDelegateTurns = 1024"

text \<open>A duration in nanoseconds, of a field that holds milliseconds.\<close>

definition Millisecond :: int where
  "Millisecond = 1000000"

definition millis :: "int \<Rightarrow> int" where
  "millis ms = wrap64 (ms * Millisecond)"

section \<open>The workflow\<close>

text \<open>The receiver \<open>runContext\<close>: the operations and the input. The host's \<open>WorkflowID\<close> is the one of the key.\<close>

record 'w runContext =
  rc_ops :: "'w Operations"
  rc_input :: RunInput

definition rc_op :: "'w runContext \<Rightarrow> string \<Rightarrow> OpID" where
  "rc_op r stepName = \<lparr>op_WorkflowID = WorkflowID (i_Key (rc_input r)), op_Step = stepName\<rparr>"

definition outcome :: "'w runContext \<Rightarrow> TerminalState \<Rightarrow> Details option \<Rightarrow> RunOutcome" where
  "outcome r kind details = \<lparr>o_Key = i_Key (rc_input r), o_Terminal = kind, o_Problem = details\<rparr>"

definition superseded :: "'w runContext \<Rightarrow> wf_err + RunOutcome" where
  "superseded r = Inr (outcome r TerminalSuperseded None)"

definition terminal :: "'w runContext \<Rightarrow> nat \<Rightarrow> TerminalState \<Rightarrow> Details option \<Rightarrow> ('w, wf_err + RunOutcome) prog" where
  "terminal r turn kind details =
     (let stepName = name (''terminal-'' @ TerminalState_string kind) turn
      in bind (step ack_doc stepName (ops_Terminalize (rc_ops r) (rc_op r stepName)
              \<lparr>tm_Run = rc_input r, tm_Turn = turn, tm_Kind = kind, tm_Problem = details, tm_Version = 0\<rparr>)) (\<lambda>ack.
         case ack of
           Inl e \<Rightarrow> Return (Inl e)
         | Inr ack \<Rightarrow> Return (if a_Superseded ack then superseded r else Inr (outcome r kind details))))"

definition wf_fail :: "'w runContext \<Rightarrow> nat \<Rightarrow> Details \<Rightarrow> ('w, wf_err + RunOutcome) prog" where
  "wf_fail r turn details = terminal r turn TerminalFailed (Some details)"

definition halt :: "'w runContext \<Rightarrow> nat \<Rightarrow> Halt \<Rightarrow> ('w, wf_err + RunOutcome) prog" where
  "halt r turn h =
     terminal r turn (if h_Behavior h \<noteq> TerminalRefused then TerminalFailed else h_Behavior h) (Some (h_Problem h))"

definition revise :: "'w runContext \<Rightarrow> nat \<Rightarrow> string \<Rightarrow> bool \<Rightarrow> uint64 \<Rightarrow> ('w, wf_err + Ack) prog" where
  "revise r turn reason fromConflict version =
     (let stepName = name ''revise'' turn
      in step ack_doc stepName (ops_Revise (rc_ops r) (rc_op r stepName)
           \<lparr>ri_Run = rc_input r, ri_Turn = turn, ri_Reason = reason, ri_FromConflict = fromConflict, ri_Version = version\<rparr>))"

text \<open>
  The waiting helpers return a value, or end the run: with an outcome (the pointer that is not nil) or
  with an error.
\<close>

type_synonym ('w, 'a) waiting = "('w, wf_err + RunOutcome + 'a) prog"

definition ended :: "wf_err + RunOutcome \<Rightarrow> wf_err + RunOutcome + 'a" where
  "ended x = (case x of Inl e \<Rightarrow> Inl e | Inr v \<Rightarrow> Inr (Inl v))"

definition leave :: "('w, wf_err + RunOutcome) prog \<Rightarrow> ('w, wf_err + RunOutcome + 'a) prog" where
  "leave p = bind p (\<lambda>x. Return (ended x))"

text \<open>\<open>None\<close> when an accepted response or decision won the race.\<close>

definition expire :: "'w runContext \<Rightarrow> nat \<Rightarrow> nat \<Rightarrow> string \<Rightarrow> string \<Rightarrow> uint64 \<Rightarrow> ('w, wf_err + RunOutcome option) prog" where
  "expire r turn wake requestID kind version =
     (let stepName = name (''expire-'' @ kind @ ''-'' @ pad 2 wake) turn
      in bind (step ack_doc stepName (ops_ExpireInterrupt (rc_ops r) (rc_op r stepName)
              \<lparr>er_Run = rc_input r, er_Turn = turn, er_RequestID = requestID, er_Kind = kind, er_Version = version\<rparr>)) (\<lambda>ack.
         Return (case ack of
           Inl e \<Rightarrow> Inl e
         | Inr ack \<Rightarrow>
             (if a_Raced ack then Inr None
              else if a_Superseded ack then map_sum id Some (superseded r)
              else Inr (Some (outcome r TerminalFailed (Some ((New (if kind = ''approval'' then CodeApprovalRequestExpired
                     else CodeInputRequestExpired) '''')\<lparr>d_Detail := ''the durable '' @ kind @
                     '' deadline elapsed before a response was accepted''\<rparr>))))))))"

function await_input :: "'w runContext \<Rightarrow> nat \<Rightarrow> string \<Rightarrow> nat \<Rightarrow> int \<Rightarrow> ('w, InputRead) waiting" where
  "await_input r turn requestID wake timeout =
     (if \<not> wake < maximumWakes
      then leave (wf_fail r turn (internal_because ''input wait exceeded the bounded wake budget''))
      else bind (await (InputTopic requestID) timeout) (\<lambda>signal.
        case signal of
          Inl e \<Rightarrow> Return (Inl e)
        | Inr (_, timedOut) \<Rightarrow>
            (let stepName = name (''read-input-'' @ pad 2 wake) turn
             in bind (step input_doc stepName (ops_ReadInput (rc_ops r) (rc_op r stepName)
                    \<lparr>if_Run = rc_input r, if_Turn = turn, if_RequestID = requestID\<rparr>)) (\<lambda>read.
               case read of
                 Inl e \<Rightarrow> leave (wf_fail r turn (problemOf e))
               | Inr read \<Rightarrow>
                   (if ir_Superseded read then Return (ended (superseded r))
                    else if ir_Accepted read then Return (Inr (Inr read))
                    else if timedOut \<or> ir_Expired read
                    then bind (expire r turn wake requestID ''input'' (ir_Version read)) (\<lambda>x.
                      case x of
                        Inl e \<Rightarrow> Return (Inl e)
                      | Inr (Some out) \<Rightarrow> Return (Inr (Inl out))
                      | Inr None \<Rightarrow> await_input r turn requestID (wake + 1) Millisecond)
                    else await_input r turn requestID (wake + 1) (millis (ir_RemainingMillis read)))))))"
  by pat_completeness auto
termination
  by (relation "measure (\<lambda>(r, turn, requestID, wake, timeout). maximumWakes - wake)") auto

declare await_input.simps [simp del]

definition awaitInput :: "'w runContext \<Rightarrow> nat \<Rightarrow> InterruptOpened \<Rightarrow> ('w, InputRead) waiting" where
  "awaitInput r turn opened = await_input r turn (id_RequestID opened) 0 (millis (id_TimeoutMillis opened))"

function await_approval :: "'w runContext \<Rightarrow> nat \<Rightarrow> string \<Rightarrow> nat \<Rightarrow> int \<Rightarrow> ('w, ApprovalRead) waiting" where
  "await_approval r turn requestID wake timeout =
     (if \<not> wake < maximumWakes
      then leave (wf_fail r turn (internal_because ''approval wait exceeded the bounded wake budget''))
      else bind (await (ApprovalTopic requestID) timeout) (\<lambda>signal.
        case signal of
          Inl e \<Rightarrow> Return (Inl e)
        | Inr (_, timedOut) \<Rightarrow>
            (let stepName = name (''read-approval-'' @ pad 2 wake) turn
             in bind (step approval_doc stepName (ops_ReadApproval (rc_ops r) (rc_op r stepName)
                    \<lparr>if_Run = rc_input r, if_Turn = turn, if_RequestID = requestID\<rparr>)) (\<lambda>read.
               case read of
                 Inl e \<Rightarrow> leave (wf_fail r turn (problemOf e))
               | Inr read \<Rightarrow>
                   (if ap_Superseded read then Return (ended (superseded r))
                    else if ap_Decided read then Return (Inr (Inr read))
                    else if timedOut \<or> ap_Expired read
                    then bind (expire r turn wake requestID ''approval'' (ap_Version read)) (\<lambda>x.
                      case x of
                        Inl e \<Rightarrow> Return (Inl e)
                      | Inr (Some out) \<Rightarrow> Return (Inr (Inl out))
                      | Inr None \<Rightarrow> await_approval r turn requestID (wake + 1) Millisecond)
                    else await_approval r turn requestID (wake + 1) (millis (ap_RemainingMillis read)))))))"
  by pat_completeness auto
termination
  by (relation "measure (\<lambda>(r, turn, requestID, wake, timeout). maximumWakes - wake)") auto

declare await_approval.simps [simp del]

definition awaitApproval :: "'w runContext \<Rightarrow> nat \<Rightarrow> ReviewResult \<Rightarrow> ('w, ApprovalRead) waiting" where
  "awaitApproval r turn review = await_approval r turn (rr_RequestID review) 0 (millis (rr_TimeoutMillis review))"

definition commit_name :: "nat \<Rightarrow> nat \<Rightarrow> string" where
  "commit_name turn wake = (if wake > 0 then name (''commit-'' @ pad 2 wake) turn else name ''commit'' turn)"

definition unresolved :: "'w runContext \<Rightarrow> RunOutcome" where
  "unresolved r = outcome r TerminalUnresolved (Some ((New CodeDomainOutcomeUncertain '''')\<lparr>
     d_Retryability := ''operator-action'',
     d_Detail := ''the governed effect is durably escalated; the run holds at the submit boundary for operator resolution''\<rparr>))"

function commit_hold :: "'w runContext \<Rightarrow> nat \<Rightarrow> string \<Rightarrow> string \<Rightarrow> nat \<Rightarrow> uint64 \<Rightarrow> ('w, CommitResult) waiting" where
  "commit_hold r turn requestID artifactDigest wake version =
     (if \<not> wake < MaximumCommitWakes
      then Return (Inl (Failed (Plain ''commit reconciliation exhausted its spin guard without a durable escalation'')))
      else let stepName = commit_name turn wake
           in bind (step commit_doc stepName (ops_Commit (rc_ops r) (rc_op r stepName)
                \<lparr>ci_Run = rc_input r, ci_Turn = turn, ci_RequestID = requestID, ci_ArtifactDigest = artifactDigest,
                 ci_Version = version\<rparr>)) (\<lambda>committed.
             case committed of
               Inl e \<Rightarrow> leave (wf_fail r turn (problemOf e))
             | Inr committed \<Rightarrow>
                 (if cr_Superseded committed then Return (ended (superseded r))
                  else case cr_Halt committed of
                    Some h \<Rightarrow> leave (halt r turn h)
                  | None \<Rightarrow>
                      (if \<not> cr_Unsettled committed then Return (Inr (Inr committed))
                       else if cr_Escalated committed \<and> wake + 1 \<ge> commitHoldWakes
                       then Return (Inr (Inl (unresolved r)))
                       else bind (await (DomainTopic (k_RunID (i_Key (rc_input r))))
                                (max Millisecond (millis (cr_RetryAfterMillis committed)))) (\<lambda>signal.
                         case signal of
                           Inl e \<Rightarrow> Return (Inl e)
                         | Inr _ \<Rightarrow> commit_hold r turn requestID artifactDigest (wake + 1) (cr_Version committed))))))"
  by pat_completeness auto
termination
  by (relation "measure (\<lambda>(r, turn, requestID, artifactDigest, wake, version). MaximumCommitWakes - wake)") auto

declare commit_hold.simps [simp del]

definition commit :: "'w runContext \<Rightarrow> nat \<Rightarrow> string \<Rightarrow> string \<Rightarrow> uint64 \<Rightarrow> ('w, CommitResult) waiting" where
  "commit r turn requestID artifactDigest version = commit_hold r turn requestID artifactDigest 0 version"

text \<open>
  The Specialist turns of one delegation: the loop ends with the carry of the turn that concluded it, or
  with the end of the run.
\<close>

function delegate_turns :: "'w runContext \<Rightarrow> nat \<Rightarrow> Phase \<Rightarrow> DelegationOpened \<Rightarrow> rawjson \<Rightarrow> nat \<Rightarrow> Carry \<Rightarrow> ('w, Carry) waiting" where
  "delegate_turns r turn phase opened request delegateTurn carry =
     (if \<not> int delegateTurn < do_TurnLimit opened
      then leave (wf_fail r turn (internal_because ''delegation exhausted its bounded turns without a durable conclusion''))
      else let stepName = delegateName turn delegateTurn
           in bind (step delegate_doc stepName (ops_ExecuteDelegateTurn (rc_ops r) (rc_op r stepName)
                \<lparr>di_Run = rc_input r, di_Turn = turn, di_DelegateTurn = delegateTurn,
                 di_Last = (int delegateTurn = do_TurnLimit opened - 1), di_Phase = phase,
                 di_SpecialistID = do_SpecialistID opened, di_SpecialistDigest = do_SpecialistDigest opened,
                 di_Input = request, di_Carry = carry\<rparr>)) (\<lambda>result.
             case result of
               Inl e \<Rightarrow> leave (wf_fail r turn (problemOf e))
             | Inr result \<Rightarrow>
                 (if dt_Superseded result then Return (ended (superseded r))
                  else case dt_Halt result of
                    Some h \<Rightarrow> leave (halt r turn h)
                  | None \<Rightarrow>
                      (if dt_Done result then Return (Inr (Inr (dt_Carry result)))
                       else delegate_turns r turn phase opened request (delegateTurn + 1) (dt_Carry result)))))"
  by pat_completeness auto
termination
  by (relation "measure (\<lambda>(r, turn, phase, opened, request, delegateTurn, carry). nat (do_TurnLimit opened) - delegateTurn)") auto

declare delegate_turns.simps [simp del]

text \<open>
  The cases of the turn's decision. Each continues the loop with the phase and the carry of the next turn,
  or ends the run.
\<close>

type_synonym 'w turn_prog = "('w, Phase \<times> Carry) waiting"

definition on_refuse :: "'w runContext \<Rightarrow> nat \<Rightarrow> TurnDecision \<Rightarrow> 'w turn_prog" where
  "on_refuse r turn d =
     (case td_Refuse d of
        None \<Rightarrow> Return (Inl nil_panic)
      | Some reason \<Rightarrow> leave (terminal r turn TerminalRefused (Some ((New CodePolicyDenied '''')\<lparr>d_Detail := reason\<rparr>))))"

definition on_tool_call :: "'w runContext \<Rightarrow> nat \<Rightarrow> Phase \<Rightarrow> TurnDecision \<Rightarrow> Carry \<Rightarrow> 'w turn_prog" where
  "on_tool_call r turn phase d carry =
     (let stepName = name ''action'' turn
      in bind (step action_doc stepName (ops_ExecuteAction (rc_ops r) (rc_op r stepName)
           \<lparr>ai_Run = rc_input r, ai_Turn = turn, ai_Phase = phase, ai_Decision = d, ai_Carry = carry\<rparr>)) (\<lambda>action.
        case action of
          Inl e \<Rightarrow> leave (wf_fail r turn (problemOf e))
        | Inr action \<Rightarrow>
            (if ar_Superseded action then Return (ended (superseded r))
             else case ar_Halt action of
               Some h \<Rightarrow> leave (halt r turn h)
             | None \<Rightarrow> Return (Inr (Inr (phase, ar_Carry action))))))"

definition on_delegate :: "'w runContext \<Rightarrow> nat \<Rightarrow> Phase \<Rightarrow> TurnDecision \<Rightarrow> Carry \<Rightarrow> 'w turn_prog" where
  "on_delegate r turn phase d carry =
     (let stepName = name ''delegate-open'' turn
      in bind (step opened_doc stepName (ops_OpenDelegation (rc_ops r) (rc_op r stepName)
           \<lparr>ai_Run = rc_input r, ai_Turn = turn, ai_Phase = phase, ai_Decision = d, ai_Carry = carry\<rparr>)) (\<lambda>opened.
        case opened of
          Inl e \<Rightarrow> leave (wf_fail r turn (problemOf e))
        | Inr opened \<Rightarrow>
            (if do_Superseded opened then Return (ended (superseded r))
             else case do_Halt opened of
               Some h \<Rightarrow> leave (halt r turn h)
             | None \<Rightarrow>
                 (if do_Refused opened then Return (Inr (Inr (phase, do_Carry opened)))
                  else if do_TurnLimit opened < 1 \<or> do_TurnLimit opened > maximumDelegateTurns
                  then leave (wf_fail r turn (internal_because ''delegation opened outside the bounded specialist turn limit''))
                  else case td_Delegate d of
                    None \<Rightarrow> Return (Inl nil_panic)
                  | Some delegate \<Rightarrow>
                      bind (delegate_turns r turn phase opened (de_Input delegate) 0 (do_Carry opened)) (\<lambda>x.
                        Return (map_sum id (map_sum id (Pair phase)) x))))))"

definition on_need_input :: "'w runContext \<Rightarrow> nat \<Rightarrow> Phase \<Rightarrow> TurnDecision \<Rightarrow> Carry \<Rightarrow> 'w turn_prog" where
  "on_need_input r turn phase d carry =
     (if phase \<noteq> PhasePlan
      then leave (terminal r turn TerminalFailed (Some ((New CodeInvalidTransition '''')\<lparr>
             d_Detail := ''input requests are legal only during planning''\<rparr>)))
      else case td_NeedInput d of
        None \<Rightarrow> Return (Inl nil_panic)
      | Some question \<Rightarrow>
          (let stepName = name ''open-input'' turn
           in bind (step interrupt_doc stepName (ops_OpenInput (rc_ops r) (rc_op r stepName)
                \<lparr>io_Run = rc_input r, io_Turn = turn, io_Question = question, io_Version = c_Version carry\<rparr>)) (\<lambda>opened.
             case opened of
               Inl e \<Rightarrow> leave (wf_fail r turn (problemOf e))
             | Inr opened \<Rightarrow>
                 (if id_Superseded opened then Return (ended (superseded r))
                  else case id_Halt opened of
                    Some h \<Rightarrow> leave (halt r turn h)
                  | None \<Rightarrow>
                      bind (awaitInput r turn opened) (\<lambda>x.
                        Return (map_sum id (map_sum id (\<lambda>read.
                          (phase, carry\<lparr>c_InputValue := ir_Value read, c_Version := ir_Version read\<rparr>))) x))))))"

text \<open>After a rejection or a conflict: the revision, and the carry of the revising turn.\<close>

definition revising :: "'w runContext \<Rightarrow> nat \<Rightarrow> string \<Rightarrow> bool \<Rightarrow> string \<Rightarrow> Carry \<Rightarrow> 'w turn_prog" where
  "revising r turn reason fromConflict reviewReason carry =
     bind (revise r turn reason fromConflict (c_Version carry)) (\<lambda>revised.
       case revised of
         Inl e \<Rightarrow> leave (wf_fail r turn (problemOf e))
       | Inr revised \<Rightarrow>
           (if a_Superseded revised then Return (ended (superseded r))
            else case a_Halt revised of
              Some h \<Rightarrow> leave (halt r turn h)
            | None \<Rightarrow> Return (Inr (Inr (PhaseRevise,
                carry\<lparr>c_Version := a_Version revised, c_ReviewReason := reviewReason\<rparr>)))))"

definition on_approved :: "'w runContext \<Rightarrow> nat \<Rightarrow> string \<Rightarrow> string \<Rightarrow> Carry \<Rightarrow> 'w turn_prog" where
  "on_approved r turn requestID artifactDigest carry =
     bind (commit r turn requestID artifactDigest (c_Version carry)) (\<lambda>x.
       case x of
         Inl e \<Rightarrow> Return (Inl e)
       | Inr (Inl out) \<Rightarrow> Return (Inr (Inl out))
       | Inr (Inr committed) \<Rightarrow>
           (let carry = carry\<lparr>c_Version := cr_Version committed\<rparr>
            in if cr_Outcome committed = ''completed'' then Return (Inr (Inl (outcome r TerminalCompleted None)))
               else if cr_Outcome committed = ''failed''
               then Return (Inr (Inl (outcome r TerminalFailed (cr_Problem committed))))
               else if cr_Outcome committed = ''conflict''
               then revising r turn ''authoritative domain state moved; rebase required'' True ''domain-conflict'' carry
               else leave (wf_fail r turn (internal_because ''commit produced an unknown outcome''))))"

definition on_review :: "'w runContext \<Rightarrow> nat \<Rightarrow> FinalizeResult \<Rightarrow> ReviewResult \<Rightarrow> Carry \<Rightarrow> 'w turn_prog" where
  "on_review r turn finalized review carry =
     bind (awaitApproval r turn review) (\<lambda>x.
       case x of
         Inl e \<Rightarrow> Return (Inl e)
       | Inr (Inl out) \<Rightarrow> Return (Inr (Inl out))
       | Inr (Inr approval) \<Rightarrow>
           (let carry = carry\<lparr>c_Version := ap_Version approval\<rparr>
            in if ap_Kind approval = ''approve''
               then on_approved r turn (rr_RequestID review) (fr_ArtifactDigest finalized) carry
               else revising r turn (ap_Reason approval) False (ap_Reason approval) carry))"

definition on_final :: "'w runContext \<Rightarrow> nat \<Rightarrow> Phase \<Rightarrow> TurnDecision \<Rightarrow> Carry \<Rightarrow> 'w turn_prog" where
  "on_final r turn phase d carry =
     (let stepName = name ''finalize'' turn
      in bind (step finalize_doc stepName (ops_FinalizeCandidate (rc_ops r) (rc_op r stepName)
           \<lparr>ai_Run = rc_input r, ai_Turn = turn, ai_Phase = phase, ai_Decision = d, ai_Carry = carry\<rparr>)) (\<lambda>finalized.
        case finalized of
          Inl e \<Rightarrow> leave (wf_fail r turn (problemOf e))
        | Inr finalized \<Rightarrow>
            (if fr_Superseded finalized then Return (ended (superseded r))
             else case fr_Rejected finalized of
               Some details \<Rightarrow> leave (terminal r turn TerminalRefused (Some details))
             | None \<Rightarrow>
                 (let stepName = name ''review'' turn
                  in bind (step review_doc stepName (ops_ResolveReview (rc_ops r) (rc_op r stepName)
                       \<lparr>rv_Run = rc_input r, rv_Turn = turn, rv_ArtifactDigest = fr_ArtifactDigest finalized,
                        rv_Version = fr_Version finalized\<rparr>)) (\<lambda>review.
                    case review of
                      Inl e \<Rightarrow> leave (wf_fail r turn (problemOf e))
                    | Inr review \<Rightarrow>
                        (if rr_Superseded review then Return (ended (superseded r))
                         else case rr_Halt review of
                           Some h \<Rightarrow> leave (halt r turn h)
                         | None \<Rightarrow>
                             (if rr_Accepted review then Return (Inr (Inl (outcome r TerminalCompleted None)))
                              else on_review r turn finalized review (carry\<lparr>c_Version := rr_Version review\<rparr>))))))))"

definition on_decision :: "'w runContext \<Rightarrow> nat \<Rightarrow> Phase \<Rightarrow> TurnDecision \<Rightarrow> Carry \<Rightarrow> 'w turn_prog" where
  "on_decision r turn phase d carry =
     (case td_Kind d of
        DecisionContinue \<Rightarrow> Return (Inr (Inr (phase, carry)))
      | DecisionRefuse \<Rightarrow> on_refuse r turn d
      | DecisionToolCall \<Rightarrow> on_tool_call r turn phase d carry
      | DecisionDelegate \<Rightarrow> on_delegate r turn phase d carry
      | DecisionNeedInput \<Rightarrow> on_need_input r turn phase d carry
      | DecisionFinal \<Rightarrow> on_final r turn phase d carry
      | DecisionOther _ \<Rightarrow> leave (wf_fail r turn (internal_because ''turn produced an unknown decision kind'')))"

definition one_turn :: "'w runContext \<Rightarrow> nat \<Rightarrow> Phase \<Rightarrow> Carry \<Rightarrow> 'w turn_prog" where
  "one_turn r turn phase carry =
     (let stepName = name ''turn'' turn
      in bind (step turn_doc stepName (ops_ExecuteTurn (rc_ops r) (rc_op r stepName)
           \<lparr>ti_Run = rc_input r, ti_Turn = turn, ti_Phase = phase, ti_Carry = carry\<rparr>)) (\<lambda>turnResult.
        case turnResult of
          Inl e \<Rightarrow> leave (wf_fail r turn (problemOf e))
        | Inr turnResult \<Rightarrow>
            (if tr_Superseded turnResult then Return (ended (superseded r))
             else case tr_Halt turnResult of
               Some h \<Rightarrow> leave (halt r turn h)
             | None \<Rightarrow>
                 (let stepName = name ''decision'' turn
                  in bind (step ack_doc stepName (ops_RecordDecision (rc_ops r) (rc_op r stepName)
                       \<lparr>dr_Run = rc_input r, dr_Turn = turn, dr_Phase = phase, dr_Decision = tr_Decision turnResult\<rparr>)) (\<lambda>recorded.
                    case recorded of
                      Inl e \<Rightarrow> leave (wf_fail r turn (problemOf e))
                    | Inr recorded \<Rightarrow>
                        (if a_Superseded recorded then Return (ended (superseded r))
                         else on_decision r turn phase (tr_Decision turnResult) (tr_Carry turnResult)))))))"

function turns :: "'w runContext \<Rightarrow> int \<Rightarrow> nat \<Rightarrow> Phase \<Rightarrow> Carry \<Rightarrow> ('w, wf_err + RunOutcome) prog" where
  "turns r limit turn phase carry =
     (if \<not> int turn < limit
      then terminal r turn TerminalFailed (Some ((New CodeLimitExceeded '''')\<lparr>
             d_Detail := ''agent run reached the pinned definition turn limit''\<rparr>))
      else bind (one_turn r turn phase carry) (\<lambda>x.
        case x of
          Inl e \<Rightarrow> Return (Inl e)
        | Inr (Inl out) \<Rightarrow> Return (Inr out)
        | Inr (Inr (phase, carry)) \<Rightarrow> turns r limit (turn + 1) phase carry))"
  by pat_completeness auto
termination
  by (relation "measure (\<lambda>(r, limit, turn, phase, carry). nat limit - turn)") auto

declare turns.simps [simp del]

definition first_carry :: "uint64 \<Rightarrow> Carry" where
  "first_carry version = \<lparr>c_Notes = [], c_InputValue = '''', c_ReviewReason = '''',
     c_Usage = \<lparr>u_ModelCalls = 0, u_InputTokens = 0, u_OutputTokens = 0, u_CostMicros = 0\<rparr>, c_Delegations = 0,
     c_Version = version, c_Delegation = None\<rparr>"

definition AgentRunWorkflow :: "'w Operations \<Rightarrow> RunInput \<Rightarrow> ('w, wf_err + RunOutcome) prog" where
  "AgentRunWorkflow ops input =
     (case RunInput_Validate input of
        Some e \<Rightarrow> Return (Inl (Failed e))
      | None \<Rightarrow>
          (let r = \<lparr>rc_ops = ops, rc_input = input\<rparr>
           in bind (step prepare_doc ''prepare'' (ops_Prepare ops (rc_op r ''prepare'') input)) (\<lambda>prep.
             case prep of
               Inl e \<Rightarrow> wf_fail r 0 (problemOf e)
             | Inr prep \<Rightarrow>
                 (if pr_Superseded prep then Return (superseded r)
                  else case pr_Refused prep of
                    Some details \<Rightarrow> terminal r 0 TerminalRefused (Some details)
                  | None \<Rightarrow> turns r (pr_TurnLimit prep) 0 PhasePlan (first_carry (pr_Version prep))))))"

section \<open>Reasoning about programs\<close>

text \<open>
  A run of a program against any host is a path through the tree: the calls with the answers they got,
  in order, and the result. \<open>wp Q t p\<close> says that every path that continues the events \<open>t\<close> through \<open>p\<close>
  ends in \<open>Q\<close>.
\<close>

datatype event = Stepped string "wf_err + doc" | Awaited string int "wf_err + string \<times> bool"

inductive path :: "('w, 'r) prog \<Rightarrow> event list \<Rightarrow> 'r \<Rightarrow> bool" where
  path_return: "path (Return r) [] r"
| path_step: "path (k x) t r \<Longrightarrow> path (Step n g k) (Stepped n x # t) r"
| path_await: "path (k x) t r \<Longrightarrow> path (AwaitSignal tp d k) (Awaited tp d x # t) r"

inductive_cases path_returnE: "path (Return r) t r'"
inductive_cases path_stepE: "path (Step n g k) t r"
inductive_cases path_awaitE: "path (AwaitSignal tp d k) t r"

primrec wp :: "(event list \<Rightarrow> 'r \<Rightarrow> bool) \<Rightarrow> event list \<Rightarrow> ('w, 'r) prog \<Rightarrow> bool" where
  "wp Q t (Return r) = Q t r"
| "wp Q t (Step n g k) = (\<forall>x. wp Q (t @ [Stepped n x]) (k x))"
| "wp Q t (AwaitSignal tp d k) = (\<forall>x. wp Q (t @ [Awaited tp d x]) (k x))"

lemma wp_path: "wp Q t p \<Longrightarrow> path p t' r \<Longrightarrow> Q (t @ t') r"
proof (induction p arbitrary: t t')
  case (Step n g k)
  then show ?case by (elim path_stepE) fastforce
next
  case (AwaitSignal tp d k)
  then show ?case by (elim path_awaitE) fastforce
qed (auto elim: path_returnE)

lemma wp_bind: "wp Q t (bind p f) = wp (\<lambda>t r. wp Q t (f r)) t p"
  by (induction p arbitrary: t) auto

lemma wp_mono: "wp Q t p \<Longrightarrow> (\<And>t r. Q t r \<Longrightarrow> Q' t r) \<Longrightarrow> wp Q' t p"
  by (induction p arbitrary: t) auto

lemma wp_step [simp]: "wp Q t (step c n g) = (\<forall>x. Q (t @ [Stepped n x]) (read_outcome c n x))"
  by (simp add: step_def)

lemma wp_await [simp]: "wp Q t (await tp d) = (\<forall>x. Q (t @ [Awaited tp d x]) x)"
  by (simp add: await_def)

lemma wp_leave: "wp Q t (leave p) = wp (\<lambda>t r. Q t (ended r)) t p"
  by (simp add: leave_def wp_bind)

lemma path_exists: "\<exists>t r. path p t r"
proof (induction p)
  case (Step n g k)
  then show ?case by (meson path_step rangeI)
next
  case (AwaitSignal tp d k)
  then show ?case by (meson path_await rangeI)
qed (auto intro: path_return)

text \<open>
  When every call answers the same error from some point on, the result is determined. An engine
  that stops or cancels an execution answers so; \<open>robust A p\<close> says that whenever that happens the
  program waits for nothing more (\<open>quits\<close>) and ends with a result \<open>A\<close> accepts.
\<close>

primrec answer :: "wf_err \<Rightarrow> ('w, 'r) prog \<Rightarrow> 'r" where
  "answer e (Return r) = r"
| "answer e (Step n g k) = answer e (k (Inl e))"
| "answer e (AwaitSignal tp d k) = answer e (k (Inl e))"

lemma answer_bind: "answer e (bind p f) = answer e (f (answer e p))"
  by (induction p) auto

primrec quits :: "wf_err \<Rightarrow> ('w, 'r) prog \<Rightarrow> bool" where
  "quits e (Return r) = True"
| "quits e (Step n g k) = quits e (k (Inl e))"
| "quits e (AwaitSignal tp d k) = False"

lemma quits_bind: "quits e (bind p f) \<longleftrightarrow> quits e p \<and> quits e (f (answer e p))"
  by (induction p) auto

primrec robust :: "('r \<Rightarrow> wf_err \<Rightarrow> bool) \<Rightarrow> ('w, 'r) prog \<Rightarrow> bool" where
  "robust A (Return r) = True"
| "robust A (Step n g k) = ((\<forall>e. quits e (k (Inl e)) \<and> A (answer e (k (Inl e))) e) \<and> (\<forall>x. robust A (k x)))"
| "robust A (AwaitSignal tp d k) = ((\<forall>e. quits e (k (Inl e)) \<and> A (answer e (k (Inl e))) e) \<and> (\<forall>x. robust A (k x)))"

lemma robust_bind:
  "robust (\<lambda>r e. quits e (f r) \<and> A (answer e (f r)) e) p \<Longrightarrow> (\<And>r. robust A (f r)) \<Longrightarrow> robust A (bind p f)"
  by (induction p) (auto simp: answer_bind quits_bind)

lemma robust_mono: "robust A p \<Longrightarrow> (\<And>r e. A r e \<Longrightarrow> B r e) \<Longrightarrow> robust B p"
  by (induction p) auto

section \<open>Giving up\<close>

abbreviation gives_up :: "('w, wf_err + 'a) prog \<Rightarrow> bool" where
  "gives_up \<equiv> robust (\<lambda>r e. r = Inl e)"

lemma read_outcome_Inl [simp]: "read_outcome c n (Inl e) = Inl e"
  by (simp add: read_outcome_def)

lemma ended_Inl [simp]: "ended (Inl e) = Inl e"
  by (simp add: ended_def)

lemma answer_step [simp]: "answer e (step c n g) = Inl e"
  by (simp add: step_def)

lemma answer_await [simp]: "answer e (await tp d) = Inl e"
  by (simp add: await_def)

lemma answer_terminal [simp]: "answer e (terminal r turn kind details) = Inl e"
  by (simp add: terminal_def Let_def answer_bind)

lemma answer_fail [simp]: "answer e (wf_fail r turn details) = Inl e" "answer e (halt r turn h) = Inl e"
  by (simp_all add: wf_fail_def halt_def)

lemma answer_leave [simp]: "answer e (leave p) = ended (answer e p)"
  by (simp add: leave_def answer_bind)

lemma answer_expire [simp]: "answer e (expire r turn wake i kind v) = Inl e"
  by (simp add: expire_def Let_def answer_bind)

lemma answer_revise [simp]: "answer e (revise r turn reason b v) = Inl e"
  by (simp add: revise_def Let_def)

lemma answer_await_input [simp]: "answer e (await_input r turn i wake timeout) = Inl e"
  by (subst await_input.simps) (simp add: answer_bind)

lemma answer_await_approval [simp]: "answer e (await_approval r turn i wake timeout) = Inl e"
  by (subst await_approval.simps) (simp add: answer_bind)

lemma answer_commit_hold [simp]:
  "wake < MaximumCommitWakes \<Longrightarrow> answer e (commit_hold r turn i d wake v) = Inl e"
  by (subst commit_hold.simps) (simp add: answer_bind Let_def)

lemma answer_delegate_turns [simp]: "answer e (delegate_turns r turn phase opened request n carry) = Inl e"
  by (subst delegate_turns.simps) (simp add: answer_bind Let_def)

lemma answer_one_turn [simp]: "answer e (one_turn r turn phase carry) = Inl e"
  by (simp add: one_turn_def answer_bind Let_def)

lemma answer_revising [simp]: "answer e (revising r turn reason b reviewReason carry) = Inl e"
  by (simp add: revising_def answer_bind)

lemma answer_on_approved [simp]: "answer e (on_approved r turn i d carry) = Inl e"
  by (simp add: on_approved_def commit_def answer_bind MaximumCommitWakes_def)

lemma answer_on_review [simp]: "answer e (on_review r turn finalized review carry) = Inl e"
  by (simp add: on_review_def awaitApproval_def answer_bind)

lemma robust_step [simp]: "robust A (step c n g) \<longleftrightarrow> (\<forall>e. A (Inl e) e)"
  by (simp add: step_def)

lemma robust_await [simp]: "robust A (await tp d) \<longleftrightarrow> (\<forall>e. A (Inl e) e)"
  by (simp add: await_def)

lemma quits_step [simp]: "quits e (step c n g)"
  by (simp add: step_def)

lemma quits_terminal [simp]: "quits e (terminal r turn kind details)" "quits e (wf_fail r turn details')" "quits e (halt r turn h)"
  by (simp_all add: wf_fail_def halt_def terminal_def Let_def quits_bind)

lemma quits_leave [simp]: "quits e (leave p) = quits e p"
  by (simp add: leave_def quits_bind)

lemma gives_up_bind:
  "gives_up p \<Longrightarrow> (\<And>e. answer e (f (Inl e)) = Inl e) \<Longrightarrow> (\<And>e. quits e (f (Inl e))) \<Longrightarrow> (\<And>x. gives_up (f x)) \<Longrightarrow> gives_up (bind p f)"
  by (rule robust_bind) (auto elim: robust_mono)

lemma gives_up_terminal [intro, simp]: "gives_up (terminal r turn kind details)"
  by (auto simp: terminal_def Let_def intro!: gives_up_bind split: sum.split)

lemma gives_up_fail [intro, simp]: "gives_up (wf_fail r turn details)" "gives_up (halt r turn h)"
  by (simp_all add: wf_fail_def halt_def)

lemma gives_up_leave [intro, simp]: "gives_up p \<Longrightarrow> gives_up (leave p)"
  by (auto simp: leave_def intro!: gives_up_bind)

lemma gives_up_expire [intro, simp]: "gives_up (expire r turn wake i kind v)"
  by (auto simp: expire_def Let_def intro!: gives_up_bind)

lemma gives_up_await_input [intro, simp]: "gives_up (await_input r turn i wake timeout)"
proof (induction "maximumWakes - wake" arbitrary: wake timeout rule: less_induct)
  case less
  show ?case
    by (subst await_input.simps)
      (auto simp: Let_def intro!: gives_up_bind less diff_less_mono2 split: sum.split option.split prod.split)
qed

lemma gives_up_await_approval [intro, simp]: "gives_up (await_approval r turn i wake timeout)"
proof (induction "maximumWakes - wake" arbitrary: wake timeout rule: less_induct)
  case less
  show ?case
    by (subst await_approval.simps)
      (auto simp: Let_def intro!: gives_up_bind less diff_less_mono2 split: sum.split option.split prod.split)
qed

lemma gives_up_commit_hold [intro, simp]: "gives_up (commit_hold r turn i d wake v)"
proof (induction "MaximumCommitWakes - wake" arbitrary: wake v rule: less_induct)
  case less
  show ?case
    by (subst commit_hold.simps)
      (auto simp: Let_def intro!: gives_up_bind less diff_less_mono2 split: sum.split option.split prod.split)
qed

lemma gives_up_delegate_turns [intro, simp]: "gives_up (delegate_turns r turn phase opened request n carry)"
proof (induction "nat (do_TurnLimit opened) - n" arbitrary: n carry rule: less_induct)
  case less
  show ?case
    by (subst delegate_turns.simps)
      (auto simp: Let_def intro!: gives_up_bind less diff_less_mono2 split: sum.split option.split prod.split)
qed

lemma gives_up_revising [intro, simp]: "gives_up (revising r turn reason b reviewReason carry)"
  by (auto simp: revising_def revise_def Let_def intro!: gives_up_bind split: sum.split option.split)

lemma gives_up_on_approved [intro, simp]: "gives_up (on_approved r turn i d carry)"
  by (auto simp: on_approved_def commit_def Let_def intro!: gives_up_bind split: sum.split)

lemma gives_up_on_review [intro, simp]: "gives_up (on_review r turn finalized review carry)"
  by (auto simp: on_review_def awaitApproval_def Let_def intro!: gives_up_bind split: sum.split)

lemma gives_up_on_decision [intro, simp]: "gives_up (on_decision r turn phase d carry)"
  by (auto simp: on_decision_def on_refuse_def on_tool_call_def on_delegate_def on_need_input_def on_final_def
      awaitInput_def Let_def intro!: gives_up_bind split: sum.split option.split DecisionKind.split)

lemma gives_up_one_turn [intro, simp]: "gives_up (one_turn r turn phase carry)"
  by (auto simp: one_turn_def Let_def intro!: gives_up_bind split: sum.split option.split)

lemma gives_up_turns [intro, simp]: "gives_up (turns r limit turn phase carry)"
proof (induction "nat limit - turn" arbitrary: turn phase carry rule: less_induct)
  case less
  show ?case
    by (subst turns.simps) (auto simp: Let_def intro!: gives_up_bind less diff_less_mono2 split: sum.split prod.split)
qed

lemma gives_up_workflow: "gives_up (AgentRunWorkflow ops input)"
  by (auto simp: AgentRunWorkflow_def Let_def intro!: gives_up_bind split: sum.split option.split)

section \<open>Every step has a name of its own\<close>

lemma pad_num: "is_num (pad k n) \<and> num_value 0 (pad k n) = n"
  using nat_digits_num [of n] by (auto simp: pad_def Let_def is_num_def num_value_append list_all_iff is_digit_def)

lemma pad_inject: "pad k m = pad k' n \<Longrightarrow> m = n"
  using pad_num by metis

lemma dash_not_num: "is_num s \<Longrightarrow> CHR ''-'' \<notin> set s"
  by (auto simp: is_num_def list_all_iff is_digit_def)

text \<open>The number after the last dash of a name, and what stands before it, are determined.\<close>

lemma last_dash_inject:
  assumes "p @ CHR ''-'' # s = q @ CHR ''-'' # u" and "is_num s" and "is_num u"
  shows "p = q \<and> s = u"
proof -
  have "rev s @ CHR ''-'' # rev p = rev u @ CHR ''-'' # rev q"
    using arg_cong [OF assms(1), of rev] by simp
  moreover have "CHR ''-'' \<notin> set (rev s)" "CHR ''-'' \<notin> set (rev u)" using assms(2,3) dash_not_num by simp_all
  ultimately show ?thesis by (simp add: append_sep_inject)
qed

definition numbered :: "nat \<Rightarrow> string \<Rightarrow> nat \<Rightarrow> string" where
  "numbered k p n = p @ ''-'' @ pad k n"

lemma numbered_inject: "numbered k p m = numbered k' q n \<Longrightarrow> p = q \<and> m = n"
  unfolding numbered_def using last_dash_inject pad_num pad_inject by (metis append_Cons append_Nil)

lemma numbered_digit: "numbered k p n \<noteq> [] \<and> is_digit (last (numbered k p n))"
  using pad_num [of k n] by (auto simp: numbered_def is_num_def list_all_iff)

lemma name_numbered: "name p turn = numbered 4 p turn" "name (p @ ''-'' @ pad 2 wake) turn = numbered 4 (numbered 2 p wake) turn"
  "delegateName turn n = numbered 4 (numbered 4 ''delegate-turn'' turn) n"
  by (simp_all add: name_def numbered_def delegateName_def)

datatype label = LPrepare | Named string nat | Waked string nat nat | Delegated nat nat

primrec label_name :: "label \<Rightarrow> string" where
  "label_name LPrepare = ''prepare''"
| "label_name (Named p turn) = name p turn"
| "label_name (Waked p wake turn) = name (p @ ''-'' @ pad 2 wake) turn"
| "label_name (Delegated turn n) = delegateName turn n"

text \<open>
  The place of a step on a path: the turn, the stage of the turn, and the round of the stage. Along any
  path the places increase, so no name comes twice.
\<close>

definition named_stage :: "string \<Rightarrow> nat option" where
  "named_stage = map_of [(''turn'', 0), (''decision'', 1), (''action'', 2), (''delegate-open'', 2), (''open-input'', 2),
     (''finalize'', 2), (''review'', 3), (''commit'', 5), (''revise'', 6), (''terminal-failed'', 7), (''terminal-refused'', 7)]"

definition waked_stage :: "string \<Rightarrow> (nat \<times> nat) option" where
  "waked_stage = map_of [(''read-input'', (3, 0)), (''expire-input'', (3, 1)), (''read-approval'', (4, 0)),
     (''expire-approval'', (4, 1)), (''commit'', (5, 0))]"

definition at :: "nat \<Rightarrow> nat \<Rightarrow> nat \<Rightarrow> nat" where
  "at turn stage round = 100000 * Suc turn + 10000 * stage + round"

primrec place :: "label \<Rightarrow> nat option" where
  "place LPrepare = Some 0"
| "place (Named p turn) = map_option (\<lambda>s. at turn s 0) (named_stage p)"
| "place (Waked p wake turn) = (case waked_stage p of None \<Rightarrow> None
     | Some (s, i) \<Rightarrow> if wake < 4096 then Some (at turn s (2 * wake + i)) else None)"
| "place (Delegated turn n) = (if n < 1024 then Some (at turn 3 n) else None)"

lemma named_not_num: "named_stage p = Some s \<Longrightarrow> p \<noteq> numbered k q n"
proof -
  assume "named_stage p = Some s"
  then have "\<not> is_digit (last p)" by (auto simp: named_stage_def is_digit_def less_eq_char_def split: if_splits)
  then show ?thesis using numbered_digit by metis
qed

lemma prepare_not_num: "''prepare'' \<noteq> numbered k q n"
proof -
  have "\<not> is_digit (last ''prepare'')" by (simp add: is_digit_def less_eq_char_def)
  then show ?thesis using numbered_digit by metis
qed

lemma waked_not_delegate: "waked_stage p = Some x \<Longrightarrow> p \<noteq> ''delegate-turn''"
  by (auto simp: waked_stage_def split: if_splits)

primrec label_number :: "label \<Rightarrow> (string \<times> nat) option" where
  "label_number LPrepare = None"
| "label_number (Named p turn) = Some (p, turn)"
| "label_number (Waked p wake turn) = Some (numbered 2 p wake, turn)"
| "label_number (Delegated turn n) = Some (numbered 4 ''delegate-turn'' turn, n)"

lemma label_name_number:
  "label_name l = (case label_number l of None \<Rightarrow> ''prepare'' | Some (p, n) \<Rightarrow> numbered 4 p n)"
proof (cases l)
  case (Named p turn)
  then show ?thesis by (simp add: name_numbered(1))
next
  case (Waked p wake turn)
  then show ?thesis by (simp only: label_name.simps label_number.simps name_numbered(2) option.case prod.case)
next
  case (Delegated turn n)
  then show ?thesis by (simp only: label_name.simps label_number.simps name_numbered(3) option.case prod.case)
qed simp

lemma label_name_inject:
  assumes "label_name l = label_name l'" and "place l \<noteq> None" and "place l' \<noteq> None"
  shows "l = l'"
proof -
  have "label_number l = label_number l'"
    using assms(1) prepare_not_num prepare_not_num [symmetric]
    by (auto simp: label_name_number split: option.splits dest: numbered_inject)
  with assms(2,3) show ?thesis
    by (cases l; cases l') (auto split: option.splits if_splits dest: numbered_inject named_not_num
        named_not_num [symmetric] waked_not_delegate waked_not_delegate [symmetric])
qed

definition steps :: "event list \<Rightarrow> string list" where
  "steps t = List.map_filter (\<lambda>ev. case ev of Stepped n x \<Rightarrow> Some n | Awaited tp d x \<Rightarrow> None) t"

lemma steps_append [simp]: "steps (t @ u) = steps t @ steps u"
  by (simp add: steps_def map_filter_def)

lemma steps_single [simp]: "steps [Stepped n x] = [n]" "steps [Awaited tp d y] = []" "steps [] = []"
  by (simp_all add: steps_def map_filter_def)

lemma steps_Cons: "steps (Stepped n x # t) = n # steps t" "steps (Awaited tp d y # t) = steps t"
  by (simp_all add: steps_def map_filter_def)

text \<open>\<open>ranked Q b p\<close>: the steps of every path through \<open>p\<close> have increasing places from \<open>b\<close> on.\<close>

primrec ranked :: "(nat \<Rightarrow> 'r \<Rightarrow> bool) \<Rightarrow> nat \<Rightarrow> ('w, 'r) prog \<Rightarrow> bool" where
  "ranked Q b (Return r) = Q b r"
| "ranked Q b (Step n g k) = (\<exists>l p. label_name l = n \<and> place l = Some p \<and> b \<le> p \<and> (\<forall>x. ranked Q (Suc p) (k x)))"
| "ranked Q b (AwaitSignal tp d k) = (\<forall>x. ranked Q b (k x))"

lemma ranked_mono: "ranked Q b p \<Longrightarrow> (\<And>b r. Q b r \<Longrightarrow> Q' b r) \<Longrightarrow> ranked Q' b p"
  by (induction p arbitrary: b) auto

lemma ranked_bind: "ranked (\<lambda>b r. ranked Q b (f r)) b p \<Longrightarrow> ranked Q b (bind p f)"
  by (induction p arbitrary: b) auto

lemma ranked_bind_via: "ranked R b p \<Longrightarrow> (\<And>b r. R b r \<Longrightarrow> ranked Q b (f r)) \<Longrightarrow> ranked Q b (bind p f)"
  by (rule ranked_bind) (rule ranked_mono)

lemma ranked_bind_step:
  "label_name l = n \<Longrightarrow> place l = Some p \<Longrightarrow> b \<le> p \<Longrightarrow> (\<And>x. ranked Q (Suc p) (f x)) \<Longrightarrow>
    ranked Q b (bind (step c n g) f)"
  by (auto simp: step_def)

lemma ranked_named:
  "named_stage q = Some s \<Longrightarrow> b \<le> at turn s 0 \<Longrightarrow> (\<And>x. ranked Q (at turn s 1) (f x)) \<Longrightarrow>
    ranked Q b (bind (step c (name q turn) g) f)"
  by (rule ranked_bind_step [of "Named q turn" _ "at turn s 0"]) (simp_all add: at_def)

lemma ranked_waked:
  "pre = q @ ''-'' @ pad 2 wake \<Longrightarrow> waked_stage q = Some (s, i) \<Longrightarrow> wake < 4096 \<Longrightarrow> b \<le> at turn s (2 * wake + i) \<Longrightarrow>
    (\<And>x. ranked Q (at turn s (2 * wake + i + 1)) (f x)) \<Longrightarrow>
    ranked Q b (bind (step c (name pre turn) g) f)"
  by (rule ranked_bind_step [of "Waked q wake turn" _ "at turn s (2 * wake + i)"]) (simp_all add: at_def)

lemma ranked_delegated:
  "n < 1024 \<Longrightarrow> b \<le> at turn 3 n \<Longrightarrow> (\<And>x. ranked Q (at turn 3 (n + 1)) (f x)) \<Longrightarrow>
    ranked Q b (bind (step c (delegateName turn n) g) f)"
  by (rule ranked_bind_step [of "Delegated turn n" _ "at turn 3 n"]) (simp_all add: at_def)

lemma ranked_bind_await: "(\<And>x. ranked Q b (f x)) \<Longrightarrow> ranked Q b (bind (await tp d) f)"
  by (simp add: await_def)

definition in_turn :: "nat \<Rightarrow> nat \<Rightarrow> 'r \<Rightarrow> bool" where
  "in_turn turn b r \<longleftrightarrow> b \<le> at (Suc turn) 0 0"

definition reaches :: "nat \<Rightarrow> nat \<Rightarrow> nat \<Rightarrow> wf_err + RunOutcome + 'a \<Rightarrow> bool" where
  "reaches turn m b r \<longleftrightarrow> b \<le> at (Suc turn) 0 0 \<and> ((\<exists>x. r = Inr (Inr x)) \<longrightarrow> b \<le> m)"

lemma ended_Inr_Inr [simp]: "ended x \<noteq> Inr (Inr y)"
  by (simp add: ended_def split: sum.split)

lemma reaches_simps [simp]: "reaches turn m b (ended x) = (b \<le> at (Suc turn) 0 0)"
  "reaches turn m b (Inl e) = (b \<le> at (Suc turn) 0 0)" "reaches turn m b (Inr (Inl out)) = (b \<le> at (Suc turn) 0 0)"
  "reaches turn m b (Inr (Inr v)) = (b \<le> at (Suc turn) 0 0 \<and> b \<le> m)"
  by (auto simp: reaches_def)

lemma ranked_terminal:
  assumes "b \<le> at turn 7 0" and "kind = TerminalFailed \<or> kind = TerminalRefused"
  shows "ranked (in_turn turn) b (terminal r turn kind details)"
  unfolding terminal_def Let_def
  by (rule ranked_named [of _ 7]) (use assms in \<open>auto simp: named_stage_def in_turn_def at_def split: sum.split\<close>)

lemma ranked_leave:
  assumes "b \<le> at turn 7 0"
  shows "ranked (reaches turn m) b (leave (wf_fail r turn details))" "ranked (reaches turn m) b (leave (halt r turn h))"
    "kind = TerminalFailed \<or> kind = TerminalRefused \<Longrightarrow> ranked (reaches turn m) b (leave (terminal r turn kind details'))"
  unfolding leave_def wf_fail_def halt_def
  by (rule ranked_bind_via [OF ranked_terminal], use assms in \<open>auto simp: in_turn_def\<close>)+

lemma at_le:
  "k \<le> k' \<Longrightarrow> at turn s k \<le> at turn s k'"
  "s < s' \<Longrightarrow> k \<le> 10000 \<Longrightarrow> at turn s k \<le> at turn s' k'"
  "s \<le> 8 \<Longrightarrow> k \<le> 10000 \<Longrightarrow> at turn s k \<le> at (Suc turn) 0 k'"
  by (simp_all add: at_def)

lemma ranked_expire:
  assumes "wake < maximumWakes"
  shows "ranked (\<lambda>b r. b = at turn 3 (2 * Suc wake)) (at turn 3 (2 * wake + 1)) (expire r turn wake i ''input'' v)"
    "ranked (\<lambda>b r. b = at turn 4 (2 * Suc wake)) (at turn 4 (2 * wake + 1)) (expire r turn wake i ''approval'' v)"
  unfolding expire_def Let_def
  by (rule ranked_waked [of _ "''expire-input''" wake 3 1] ranked_waked [of _ "''expire-approval''" wake 4 1];
      use assms in \<open>simp add: waked_stage_def maximumWakes_def split: sum.split\<close>)+

lemma ranked_lower:
  assumes low: "\<And>b b' r. Q b r \<Longrightarrow> b' \<le> b \<Longrightarrow> Q b' r"
  shows "ranked Q b p \<Longrightarrow> b' \<le> b \<Longrightarrow> ranked Q b' p"
proof (induction p arbitrary: b b')
  case (Step n g k)
  from Step.prems(1) obtain l p where "label_name l = n" "place l = Some p" "b \<le> p" "\<forall>x. ranked Q (Suc p) (k x)"
    by auto
  with Step.prems(2) show ?case by (auto intro!: exI [of _ l])
next
  case (AwaitSignal tp d k)
  have "ranked Q b' (k x)" for x
    by (rule AwaitSignal.IH [OF rangeI _ AwaitSignal.prems(2)]) (use AwaitSignal.prems(1) in simp)
  then show ?case by simp
qed (auto intro: low)

lemma reaches_lower: "ranked (reaches turn m) b p \<Longrightarrow> b' \<le> b \<Longrightarrow> ranked (reaches turn m) b' p"
  by (erule ranked_lower [rotated]) (auto simp: reaches_def)

lemma ranked_lower_any: "ranked (\<lambda>b r. True) b p \<Longrightarrow> b' \<le> b \<Longrightarrow> ranked (\<lambda>b r. True) b' p"
  by (rule ranked_lower)

lemma ranked_await_input:
  "wake \<le> maximumWakes \<Longrightarrow> ranked (reaches turn (at turn 4 0)) (at turn 3 (2 * wake)) (await_input r turn i wake timeout)"
proof (induction "maximumWakes - wake" arbitrary: wake timeout rule: less_induct)
  case less
  show ?case
  proof (cases "wake < maximumWakes")
    case False
    with less.prems show ?thesis
      by (subst await_input.simps) (simp add: ranked_leave at_le maximumWakes_def)
  next
    case True
    have IH: "ranked (reaches turn (at turn 4 0)) (at turn 3 (2 * wake + 2)) (await_input r turn i (Suc wake) d)" for d
      using less.hyps [of "Suc wake" d] True by simp
    have IH': "ranked (reaches turn (at turn 4 0)) (at turn 3 (2 * wake + 0 + 1)) (await_input r turn i (wake + 1) d)" for d
      using reaches_lower [OF IH] by (simp add: at_le)
    have expired: "ranked (reaches turn (at turn 4 0)) (at turn 3 (2 * wake + 0 + 1)) (bind (expire r turn wake i ''input'' v) (\<lambda>x.
        case x of Inl e \<Rightarrow> Return (Inl e) | Inr (Some out) \<Rightarrow> Return (Inr (Inl out))
        | Inr None \<Rightarrow> await_input r turn i (wake + 1) Millisecond))" for v
      using True IH
      by (simp del: mult_Suc_right) (rule ranked_bind_via [OF ranked_expire(1) [OF True, simplified]],
        auto simp: at_le maximumWakes_def split: sum.split option.split)
    show ?thesis
      by (subst await_input.simps, simp only: True not_True_eq_False if_False, rule ranked_bind_await)
        (use True in \<open>auto simp only: Let_def split: sum.split prod.split if_splits
          intro!: ranked_waked [of _ "''read-input''" wake 3 0] ranked_leave expired IH';
          simp add: at_le waked_stage_def maximumWakes_def\<close>)
  qed
qed

lemma ranked_await_approval:
  "wake \<le> maximumWakes \<Longrightarrow> ranked (reaches turn (at turn 5 0)) (at turn 4 (2 * wake)) (await_approval r turn i wake timeout)"
proof (induction "maximumWakes - wake" arbitrary: wake timeout rule: less_induct)
  case less
  show ?case
  proof (cases "wake < maximumWakes")
    case False
    with less.prems show ?thesis
      by (subst await_approval.simps) (simp add: ranked_leave at_le maximumWakes_def)
  next
    case True
    have IH: "ranked (reaches turn (at turn 5 0)) (at turn 4 (2 * wake + 2)) (await_approval r turn i (Suc wake) d)" for d
      using less.hyps [of "Suc wake" d] True by simp
    have IH': "ranked (reaches turn (at turn 5 0)) (at turn 4 (2 * wake + 0 + 1)) (await_approval r turn i (wake + 1) d)" for d
      using reaches_lower [OF IH] by (simp add: at_le)
    have expired: "ranked (reaches turn (at turn 5 0)) (at turn 4 (2 * wake + 0 + 1)) (bind (expire r turn wake i ''approval'' v) (\<lambda>x.
        case x of Inl e \<Rightarrow> Return (Inl e) | Inr (Some out) \<Rightarrow> Return (Inr (Inl out))
        | Inr None \<Rightarrow> await_approval r turn i (wake + 1) Millisecond))" for v
      using True IH
      by (simp del: mult_Suc_right) (rule ranked_bind_via [OF ranked_expire(2) [OF True, simplified]],
        auto simp: at_le maximumWakes_def split: sum.split option.split)
    show ?thesis
      by (subst await_approval.simps, simp only: True not_True_eq_False if_False, rule ranked_bind_await)
        (use True in \<open>auto simp only: Let_def split: sum.split prod.split if_splits
          intro!: ranked_waked [of _ "''read-approval''" wake 4 0] ranked_leave expired IH';
          simp add: at_le waked_stage_def maximumWakes_def\<close>)
  qed
qed

lemma ranked_commit:
  assumes "wake < 4096" and "\<And>x. ranked Q (at turn 5 (2 * wake + 1)) (f x)"
  shows "ranked Q (at turn 5 (2 * wake)) (bind (step c (commit_name turn wake) g) f)"
proof (cases wake)
  case 0
  with assms show ?thesis
    by (auto simp: commit_name_def named_stage_def intro!: ranked_named [of "''commit''" 5])
next
  case (Suc w)
  with assms show ?thesis
    by (auto simp: commit_name_def waked_stage_def intro!: ranked_waked [of _ "''commit''" wake 5 0])
qed

lemma ranked_commit_hold:
  "wake \<le> MaximumCommitWakes \<Longrightarrow> ranked (reaches turn (at turn 6 0)) (at turn 5 (2 * wake)) (commit_hold r turn i d wake v)"
proof (induction "MaximumCommitWakes - wake" arbitrary: wake v rule: less_induct)
  case less
  show ?case
  proof (cases "wake < MaximumCommitWakes")
    case False
    with less.prems show ?thesis
      by (subst commit_hold.simps) (simp add: at_le MaximumCommitWakes_def)
  next
    case True
    have IH: "ranked (reaches turn (at turn 6 0)) (at turn 5 (2 * wake + 2)) (commit_hold r turn i d (Suc wake) v')" for v'
      using less.hyps [of "Suc wake" v'] True by simp
    have IH': "ranked (reaches turn (at turn 6 0)) (at turn 5 (2 * wake + 1)) (commit_hold r turn i d (wake + 1) v')" for v'
      using reaches_lower [OF IH] by (simp add: at_le)
    show ?thesis
      by (subst commit_hold.simps, simp only: True not_True_eq_False if_False Let_def,
          rule ranked_commit [OF True [unfolded MaximumCommitWakes_def]])
        (use True in \<open>auto simp only: Let_def split: sum.split prod.split option.split if_splits
          intro!: ranked_bind_await ranked_leave IH'\<close>; (use True in \<open>simp add: at_le MaximumCommitWakes_def\<close>))
  qed
qed

lemma ranked_delegate_turns:
  assumes "do_TurnLimit opened \<le> maximumDelegateTurns"
  shows "n \<le> nat (do_TurnLimit opened) \<Longrightarrow>
    ranked (reaches turn (at turn 4 0)) (at turn 3 n) (delegate_turns r turn phase opened request n carry)"
proof (induction "nat (do_TurnLimit opened) - n" arbitrary: n carry rule: less_induct)
  case less
  show ?case
  proof (cases "int n < do_TurnLimit opened")
    case False
    with less.prems assms show ?thesis
      by (subst delegate_turns.simps) (simp add: ranked_leave at_le maximumDelegateTurns_def)
  next
    case True
    have IH: "ranked (reaches turn (at turn 4 0)) (at turn 3 (n + 1)) (delegate_turns r turn phase opened request (n + 1) carry')" for carry'
      using less.hyps [of "Suc n" carry'] True by simp
    have small: "n < 1024" using True assms by (simp add: maximumDelegateTurns_def)
    show ?thesis
      by (subst delegate_turns.simps, simp only: True not_True_eq_False if_False Let_def,
          rule ranked_delegated [OF small order_refl])
        (use True assms in \<open>auto simp only: Let_def split: sum.split prod.split option.split if_splits
          intro!: ranked_leave IH\<close>; (use True assms in \<open>simp add: at_le maximumDelegateTurns_def\<close>))
  qed
qed

abbreviation to_next :: "nat \<Rightarrow> nat \<Rightarrow> wf_err + RunOutcome + 'a \<Rightarrow> bool" where
  "to_next turn \<equiv> reaches turn (at (Suc turn) 0 0)"

lemma ranked_revising:
  "b \<le> at turn 6 0 \<Longrightarrow> ranked (to_next turn) b (revising r turn reason c reviewReason carry)"
  unfolding revising_def revise_def Let_def
  by (rule ranked_named [of _ 6])
    (auto simp: named_stage_def at_le split: sum.split option.split intro!: ranked_leave)

lemma reaches_via:
  "ranked (reaches turn m) b p \<Longrightarrow> (\<And>b e. b \<le> at (Suc turn) 0 0 \<Longrightarrow> ranked Q b (f (Inl e))) \<Longrightarrow>
    (\<And>b out. b \<le> at (Suc turn) 0 0 \<Longrightarrow> ranked Q b (f (Inr (Inl out)))) \<Longrightarrow>
    (\<And>b x. b \<le> at (Suc turn) 0 0 \<Longrightarrow> b \<le> m \<Longrightarrow> ranked Q b (f (Inr (Inr x)))) \<Longrightarrow> ranked Q b (bind p f)"
  by (erule ranked_bind_via) (metis reaches_def sum.exhaust)

lemma ranked_on_approved: "ranked (to_next turn) (at turn 5 0) (on_approved r turn i d carry)"
  unfolding on_approved_def commit_def
  by (rule reaches_via [OF ranked_commit_hold [of 0, simplified]])
    (auto simp: Let_def intro!: ranked_revising ranked_leave elim: order_trans [OF _ at_le(2)])

lemma ranked_on_review: "ranked (to_next turn) (at turn 4 0) (on_review r turn finalized review carry)"
  unfolding on_review_def awaitApproval_def
  by (rule reaches_via [OF ranked_await_approval [of 0, simplified]])
    (auto simp: Let_def intro!: ranked_revising reaches_lower [OF ranked_on_approved] elim: order_trans [OF _ at_le(2)])

lemma ranked_on_final: "b \<le> at turn 2 0 \<Longrightarrow> ranked (to_next turn) b (on_final r turn phase d carry)"
  unfolding on_final_def Let_def
  by (rule ranked_named [of _ 2], simp add: named_stage_def, assumption)
    (auto simp: at_le named_stage_def split: sum.split option.split
      intro!: ranked_leave ranked_named [of "''review''" 3] reaches_lower [OF ranked_on_review])

lemma ranked_on_tool_call: "b \<le> at turn 2 0 \<Longrightarrow> ranked (to_next turn) b (on_tool_call r turn phase d carry)"
  unfolding on_tool_call_def Let_def
  by (rule ranked_named [of _ 2], simp add: named_stage_def, assumption)
    (auto simp: at_le named_stage_def split: sum.split option.split intro!: ranked_leave)

lemma ranked_on_delegate: "b \<le> at turn 2 0 \<Longrightarrow> ranked (to_next turn) b (on_delegate r turn phase d carry)"
  unfolding on_delegate_def Let_def
  by (rule ranked_named [of _ 2], simp add: named_stage_def, assumption)
    (auto simp: at_le split: sum.split option.split intro!: ranked_leave
      reaches_via [OF reaches_lower [OF ranked_delegate_turns [of _ 0]]])

lemma ranked_on_need_input: "b \<le> at turn 2 0 \<Longrightarrow> ranked (to_next turn) b (on_need_input r turn phase d carry)"
  unfolding on_need_input_def Let_def awaitInput_def
  by (auto simp: at_le named_stage_def split: sum.split option.split
      intro!: ranked_leave ranked_named [of "''open-input''" 2]
        reaches_via [OF reaches_lower [OF ranked_await_input [of 0]]] elim: order_trans)

lemma ranked_on_decision:
  assumes "b \<le> at turn 2 0" shows "ranked (to_next turn) b (on_decision r turn phase d carry)"
proof -
  have "b \<le> at turn 7 0" "b \<le> at (Suc turn) 0 0" using assms by (simp_all add: at_def)
  with assms show ?thesis
    by (auto simp: on_decision_def on_refuse_def split: DecisionKind.split option.split
        intro!: ranked_leave ranked_on_final ranked_on_tool_call ranked_on_delegate ranked_on_need_input)
qed

lemma ranked_one_turn: "ranked (to_next turn) (at turn 0 0) (one_turn r turn phase carry)"
  unfolding one_turn_def Let_def
  by (rule ranked_named [of _ 0], simp add: named_stage_def, rule order_refl)
    (auto simp: at_le named_stage_def split: sum.split option.split
      intro!: ranked_leave ranked_named [of "''decision''" 1] ranked_on_decision)

lemma ranked_turns: "ranked (\<lambda>b r. True) (at turn 0 0) (turns r limit turn phase carry)"
proof (induction "nat limit - turn" arbitrary: turn phase carry rule: less_induct)
  case less
  show ?case
  proof (cases "int turn < limit")
    case False
    then show ?thesis
      by (subst turns.simps) (auto simp: at_le intro!: ranked_mono [OF ranked_terminal])
  next
    case True
    have lower: "ranked (\<lambda>b r. True) b (turns r limit (Suc turn) phase' carry')" if "b \<le> at (Suc turn) 0 0" for b phase' carry'
      using ranked_lower_any [OF less.hyps [of "Suc turn" phase' carry'] that] True by simp
    show ?thesis
      by (subst turns.simps, simp only: True not_True_eq_False if_False, rule reaches_via [OF ranked_one_turn])
        (auto intro!: lower)
  qed
qed

lemma ranked_workflow: "ranked (\<lambda>b r. True) 0 (AgentRunWorkflow ops input)"
proof (cases "RunInput_Validate input")
  case None
  have fail: "ranked (\<lambda>b r. True) (Suc 0) (terminal r 0 kind details)"
    if "kind = TerminalFailed \<or> kind = TerminalRefused" for r :: "'a runContext" and kind details
    using that by (intro ranked_mono [OF ranked_terminal]) (simp_all add: at_def)
  have turns: "ranked (\<lambda>b r. True) (Suc 0) (turns r limit 0 phase carry)" for r :: "'a runContext" and limit phase carry
    by (rule ranked_lower_any [OF ranked_turns]) (simp add: at_def)
  from None show ?thesis
    by (auto simp: AgentRunWorkflow_def Let_def wf_fail_def split: sum.split option.split
        intro!: ranked_bind_step [of LPrepare] fail turns)
qed (simp add: AgentRunWorkflow_def)

lemma ranked_path:
  assumes "ranked Q b p" and "path p t r"
  shows "\<exists>ls. steps t = map label_name ls \<and> sorted_wrt (<) (map (\<lambda>l. the (place l)) ls) \<and>
    (\<forall>l \<in> set ls. \<exists>q. place l = Some q \<and> b \<le> q)"
  using assms(2,1)
proof (induction arbitrary: b rule: path.induct)
  case (path_return r)
  show ?case by simp
next
  case (path_step k x t r n g)
  from path_step.prems obtain l q where l: "label_name l = n" "place l = Some q" "b \<le> q" "ranked Q (Suc q) (k x)"
    by auto
  from path_step.IH [OF l(4)] obtain ls where ls: "steps t = map label_name ls"
      "sorted_wrt (<) (map (\<lambda>l. the (place l)) ls)" "\<forall>l \<in> set ls. \<exists>q'. place l = Some q' \<and> Suc q \<le> q'"
    by blast
  have "steps (Stepped n x # t) = map label_name (l # ls)" using ls(1) l(1) by (simp add: steps_Cons)
  moreover have "sorted_wrt (<) (map (\<lambda>l. the (place l)) (l # ls))" using ls(2,3) l(2) by fastforce
  moreover have "\<forall>l' \<in> set (l # ls). \<exists>q'. place l' = Some q' \<and> b \<le> q'" using ls(3) l(2,3) by fastforce
  ultimately show ?case by blast
next
  case (path_await k x t r tp d)
  then show ?case by (simp add: steps_Cons)
qed

lemma ranked_distinct:
  assumes "ranked Q b p" and "path p t r" shows "distinct (steps t)"
proof -
  obtain ls where ls: "steps t = map label_name ls" "sorted_wrt (<) (map (\<lambda>l. the (place l)) ls)"
      "\<forall>l \<in> set ls. \<exists>q. place l = Some q \<and> b \<le> q"
    using ranked_path [OF assms] by blast
  have "distinct ls" using ls(2) strict_sorted_iff distinct_map by blast
  moreover have "inj_on label_name (set ls)" using ls(3) label_name_inject by (force simp: inj_on_def)
  ultimately show ?thesis using ls(1) by (simp add: distinct_map)
qed

section \<open>How many calls a run makes\<close>

primrec calls_le :: "('w, 'r) prog \<Rightarrow> nat \<Rightarrow> bool" where
  "calls_le (Return r) n = True"
| "calls_le (Step s g k) n = (0 < n \<and> (\<forall>x. calls_le (k x) (n - 1)))"
| "calls_le (AwaitSignal tp d k) n = (0 < n \<and> (\<forall>x. calls_le (k x) (n - 1)))"

lemma calls_mono: "calls_le p m \<Longrightarrow> m \<le> n \<Longrightarrow> calls_le p n"
proof (induction p arbitrary: m n)
  case (Step s g k)
  have "calls_le (k x) (n - 1)" for x
    by (rule Step.IH [OF rangeI]) (use Step.prems in \<open>auto intro: diff_le_mono\<close>)
  with Step.prems show ?case by simp
next
  case (AwaitSignal tp d k)
  have "calls_le (k x) (n - 1)" for x
    by (rule AwaitSignal.IH [OF rangeI]) (use AwaitSignal.prems in \<open>auto intro: diff_le_mono\<close>)
  with AwaitSignal.prems show ?case by simp
qed simp

lemma calls_bind:
  assumes f: "\<And>r. calls_le (f r) n"
  shows "calls_le p m \<Longrightarrow> calls_le (bind p f) (m + n)"
proof (induction p arbitrary: m)
  case (Return x)
  show ?case using calls_mono [OF f, of "m + n" x] by simp
next
  case (Step s g k)
  have "calls_le (bind (k x) f) (m - 1 + n)" for x
    by (rule Step.IH [OF rangeI]) (use Step.prems in simp)
  with Step.prems show ?case by simp
next
  case (AwaitSignal tp d k)
  have "calls_le (bind (k x) f) (m - 1 + n)" for x
    by (rule AwaitSignal.IH [OF rangeI]) (use AwaitSignal.prems in simp)
  with AwaitSignal.prems show ?case by simp
qed

lemma calls_path: "calls_le p n \<Longrightarrow> path p t r \<Longrightarrow> length t \<le> n"
proof (induction p arbitrary: t n)
  case (Step s g k)
  from Step.prems(2) obtain x u where "t = Stepped s x # u" "path (k x) u r" by (elim path_stepE)
  with Step.IH [of "k x" "n - 1" u] Step.prems(1) show ?case by auto
next
  case (AwaitSignal tp d k)
  from AwaitSignal.prems(2) obtain x u where "t = Awaited tp d x # u" "path (k x) u r" by (elim path_awaitE)
  with AwaitSignal.IH [of "k x" "n - 1" u] AwaitSignal.prems(1) show ?case by auto
qed (auto elim: path_returnE)

lemma calls_bind_step: "(\<And>x. calls_le (f x) n) \<Longrightarrow> calls_le (bind (step c s g) f) (Suc n)"
  by (simp add: step_def)

lemma calls_bind_await: "(\<And>x. calls_le (f x) n) \<Longrightarrow> calls_le (bind (await tp d) f) (Suc n)"
  by (simp add: await_def)

lemma calls_terminal: "calls_le (terminal r turn kind details) (Suc n)"
  by (auto simp: terminal_def Let_def intro!: calls_bind_step split: sum.split)

lemma calls_leave:
  "calls_le (leave (terminal r turn kind details)) (Suc n)"
  "calls_le (leave (wf_fail r turn details')) (Suc n)"
  "calls_le (leave (halt r turn h)) (Suc n)"
  unfolding leave_def wf_fail_def halt_def
  by (rule calls_bind [where n = 0, simplified], simp, rule calls_terminal)+

lemma calls_leave_pos:
  "0 < n \<Longrightarrow> calls_le (leave (terminal r turn kind details)) n"
  "0 < n \<Longrightarrow> calls_le (leave (wf_fail r turn details')) n"
  "0 < n \<Longrightarrow> calls_le (leave (halt r turn h)) n"
  by (cases n; simp add: calls_leave)+

lemma calls_bind_step_pos: "0 < n \<Longrightarrow> (\<And>x. calls_le (f x) (n - 1)) \<Longrightarrow> calls_le (bind (step c s g) f) n"
  by (simp add: step_def)

lemma calls_expire: "calls_le (expire r turn wake i kind v) (Suc 0)"
  by (auto simp: expire_def Let_def intro!: calls_bind_step)

lemma calls_await_input: "maximumWakes - wake = k \<Longrightarrow> calls_le (await_input r turn i wake timeout) (3 * k + 1)"
proof (induction k arbitrary: wake timeout)
  case 0
  then show ?case by (subst await_input.simps) (simp add: calls_leave)
next
  case (Suc k)
  then have w: "wake < maximumWakes" and IH: "calls_le (await_input r turn i (Suc wake) d) (3 * k + 1)" for d by simp_all
  have "calls_le (bind (expire r turn wake i ''input'' v) (\<lambda>x. case x of Inl e \<Rightarrow> Return (Inl e)
      | Inr (Some out) \<Rightarrow> Return (Inr (Inl out)) | Inr None \<Rightarrow> await_input r turn i (wake + 1) Millisecond))
      (Suc 0 + (3 * k + 1))" for v
    by (rule calls_bind [OF _ calls_expire]) (auto split: sum.split option.split intro: IH [simplified])
  then have "calls_le (await_input r turn i wake timeout) (Suc (Suc (Suc (3 * k + 1))))" using w
    by (subst await_input.simps) (auto simp: Let_def split: sum.split
        intro!: calls_bind_await calls_bind_step calls_leave calls_mono [OF IH])
  then show ?case by (simp add: numeral_3_eq_3)
qed

lemma calls_await_approval: "maximumWakes - wake = k \<Longrightarrow> calls_le (await_approval r turn i wake timeout) (3 * k + 1)"
proof (induction k arbitrary: wake timeout)
  case 0
  then show ?case by (subst await_approval.simps) (simp add: calls_leave)
next
  case (Suc k)
  then have w: "wake < maximumWakes" and IH: "calls_le (await_approval r turn i (Suc wake) d) (3 * k + 1)" for d by simp_all
  have "calls_le (bind (expire r turn wake i ''approval'' v) (\<lambda>x. case x of Inl e \<Rightarrow> Return (Inl e)
      | Inr (Some out) \<Rightarrow> Return (Inr (Inl out)) | Inr None \<Rightarrow> await_approval r turn i (wake + 1) Millisecond))
      (Suc 0 + (3 * k + 1))" for v
    by (rule calls_bind [OF _ calls_expire]) (auto split: sum.split option.split intro: IH [simplified])
  then have "calls_le (await_approval r turn i wake timeout) (Suc (Suc (Suc (3 * k + 1))))" using w
    by (subst await_approval.simps) (auto simp: Let_def split: sum.split
        intro!: calls_bind_await calls_bind_step calls_leave calls_mono [OF IH])
  then show ?case by (simp add: numeral_3_eq_3)
qed

lemma calls_commit_hold: "MaximumCommitWakes - wake = k \<Longrightarrow> calls_le (commit_hold r turn i d wake v) (2 * k + 1)"
proof (induction k arbitrary: wake v)
  case 0
  then show ?case by (subst commit_hold.simps) simp
next
  case (Suc k)
  then have w: "wake < MaximumCommitWakes" and IH: "calls_le (commit_hold r turn i d (Suc wake) v') (2 * k + 1)" for v'
    by simp_all
  have "calls_le (commit_hold r turn i d wake v) (Suc (Suc (2 * k + 1)))" using w
    by (subst commit_hold.simps) (auto simp: Let_def split: sum.split option.split
        intro!: calls_bind_await calls_bind_step calls_leave calls_mono [OF IH])
  then show ?case by simp
qed

lemma calls_delegate_turns:
  "nat (do_TurnLimit opened) - n = k \<Longrightarrow> calls_le (delegate_turns r turn phase opened request n carry) (k + 1)"
proof (induction k arbitrary: n carry)
  case 0
  then have "\<not> int n < do_TurnLimit opened" by simp
  then show ?case by (subst delegate_turns.simps) (simp add: calls_leave)
next
  case (Suc k)
  then have w: "int n < do_TurnLimit opened"
    and IH: "calls_le (delegate_turns r turn phase opened request (Suc n) carry') (k + 1)" for carry'
    by simp_all
  have "calls_le (delegate_turns r turn phase opened request n carry) (Suc (k + 1))" using w
    by (subst delegate_turns.simps) (auto simp: Let_def split: sum.split option.split
        intro!: calls_bind_step calls_leave calls_mono [OF IH])
  then show ?case by simp
qed

text \<open>The longest turn reviews a candidate, waits for the approval, commits it, and revises.\<close>

definition turn_calls :: nat where
  "turn_calls = 8392"

lemma calls_revising: "calls_le (revising r turn reason c reviewReason carry) 2"
  unfolding revising_def revise_def Let_def numeral_2_eq_2
  by (auto split: sum.split option.split intro!: calls_bind_step calls_leave)

lemma calls_on_approved: "calls_le (on_approved r turn i d carry) 8195"
proof -
  have "calls_le (on_approved r turn i d carry) (2 * MaximumCommitWakes + 1 + 2)"
    unfolding on_approved_def commit_def
    by (rule calls_bind [OF _ calls_commit_hold])
      (auto simp: Let_def numeral_2_eq_2 split: sum.split intro!: calls_leave calls_revising [unfolded numeral_2_eq_2])
  then show ?thesis by (simp add: MaximumCommitWakes_def)
qed

lemma calls_on_review: "calls_le (on_review r turn finalized review carry) 8388"
proof -
  have "calls_le (on_review r turn finalized review carry) (3 * maximumWakes + 1 + 8195)"
    unfolding on_review_def awaitApproval_def
    by (rule calls_bind [OF _ calls_await_approval])
      (auto simp: Let_def split: sum.split intro!: calls_on_approved calls_mono [OF calls_revising])
  then show ?thesis by (simp add: maximumWakes_def)
qed

lemma calls_on_delegate: "calls_le (on_delegate r turn phase d carry) 1026"
proof -
  have "calls_le (bind (delegate_turns r turn phase opened request 0 c) (\<lambda>x. Return (map_sum id (map_sum id (Pair phase)) x))) 1025"
    if "do_TurnLimit opened \<le> maximumDelegateTurns" for opened request c
    by (rule calls_mono [OF calls_bind [where n = 0, OF _ calls_delegate_turns [OF refl]]])
      (use that in \<open>simp_all add: maximumDelegateTurns_def\<close>)
  then have "calls_le (on_delegate r turn phase d carry) (Suc 1025)"
    unfolding on_delegate_def Let_def
    by (intro calls_bind_step) (auto split: sum.split option.split intro!: calls_leave_pos)
  then show ?thesis by simp
qed

lemma calls_on_decision: "calls_le (on_decision r turn phase d carry) 8390"
proof -
  have input: "calls_le (bind (awaitInput r turn opened) (\<lambda>x. Return (map_sum id (map_sum id f) x))) 8389" for opened f
    unfolding awaitInput_def
    by (rule calls_mono [OF calls_bind [where n = 0, OF _ calls_await_input [OF refl]]]) (simp_all add: maximumWakes_def)
  show ?thesis
    by (auto simp: on_decision_def on_refuse_def on_tool_call_def on_need_input_def on_final_def Let_def
        split: DecisionKind.split option.split sum.split
        intro!: calls_leave_pos calls_bind_step_pos calls_mono [OF calls_on_delegate] calls_mono [OF calls_on_review] input)
qed

lemma calls_one_turn: "calls_le (one_turn r turn phase carry) turn_calls"
  by (auto simp: one_turn_def Let_def turn_calls_def split: option.split sum.split
      intro!: calls_leave_pos calls_bind_step_pos calls_mono [OF calls_on_decision])

lemma calls_turns: "nat limit - turn = k \<Longrightarrow> calls_le (turns r limit turn phase carry) (turn_calls * k + 1)"
proof (induction k arbitrary: turn phase carry)
  case 0
  then have "\<not> int turn < limit" by simp
  then show ?case by (subst turns.simps) (simp add: calls_terminal)
next
  case (Suc k)
  then have w: "int turn < limit"
    and IH: "calls_le (turns r limit (Suc turn) phase' carry') (turn_calls * k + 1)" for phase' carry'
    by simp_all
  have "calls_le (turns r limit turn phase carry) (turn_calls + (turn_calls * k + 1))"
    by (subst turns.simps, simp only: w not_True_eq_False if_False, rule calls_bind [OF _ calls_one_turn])
      (auto intro!: calls_mono [OF IH] split: sum.split)
  then show ?case by simp
qed

text \<open>What a step recorded, when it recorded a value.\<close>

fun answered :: "event \<Rightarrow> (string \<times> step_value) option" where
  "answered (Stepped n (Inr d)) = (case (sd_Problem d, sd_Value d) of (None, Some v) \<Rightarrow> Some (n, v) | _ \<Rightarrow> None)"
| "answered _ = None"

definition codec_ok :: "'a codec \<Rightarrow> bool" where
  "codec_ok c \<longleftrightarrow> (\<forall>v x. dec c v = Some x \<longleftrightarrow> v = enc c x)"

lemma codecs_ok [simp]:
  "codec_ok prepare_doc" "codec_ok turn_doc" "codec_ok ack_doc" "codec_ok action_doc" "codec_ok opened_doc"
  "codec_ok delegate_doc" "codec_ok interrupt_doc" "codec_ok input_doc" "codec_ok finalize_doc" "codec_ok review_doc"
  "codec_ok approval_doc" "codec_ok commit_doc"
  by (auto simp: codec_ok_def prepare_doc_def turn_doc_def ack_doc_def action_doc_def opened_doc_def delegate_doc_def
      interrupt_doc_def input_doc_def finalize_doc_def review_doc_def approval_doc_def commit_doc_def
      split: step_value.splits)

lemma read_outcome_answered:
  "codec_ok c \<Longrightarrow> read_outcome c n raw = Inr v \<longleftrightarrow> answered (Stepped n raw) = Some (n, enc c v)"
  unfolding codec_ok_def by (cases raw) (auto simp: read_outcome_def split: option.splits; metis option.distinct(1) option.inject)+

lemma calls_workflow:
  assumes "path (AgentRunWorkflow ops input) t r"
    and "\<And>prep. answered (hd t) = Some (''prepare'', VPrepare prep) \<Longrightarrow> pr_TurnLimit prep \<le> limit"
  shows "length t \<le> turn_calls * nat limit + 2"
proof (cases "RunInput_Validate input")
  case (Some e)
  with assms(1) show ?thesis by (auto simp: AgentRunWorkflow_def elim: path_returnE)
next
  case None
  let ?r = "\<lparr>rc_ops = ops, rc_input = input\<rparr>"
  from assms(1) None obtain raw u where t: "t = Stepped ''prepare'' raw # u"
    and u: "path (case read_outcome prepare_doc ''prepare'' raw of
             Inl e \<Rightarrow> wf_fail ?r 0 (problemOf e)
           | Inr prep \<Rightarrow>
               (if pr_Superseded prep then Return (superseded ?r)
                else case pr_Refused prep of
                  Some details \<Rightarrow> terminal ?r 0 TerminalRefused (Some details)
                | None \<Rightarrow> turns ?r (pr_TurnLimit prep) 0 PhasePlan (first_carry (pr_Version prep)))) u r"
    by (auto simp: AgentRunWorkflow_def Let_def step_def elim: path_stepE)
  let ?n = "turn_calls * nat limit + 1"
  have "calls_le (case read_outcome prepare_doc ''prepare'' raw of
             Inl e \<Rightarrow> wf_fail ?r 0 (problemOf e)
           | Inr prep \<Rightarrow>
               (if pr_Superseded prep then Return (superseded ?r)
                else case pr_Refused prep of
                  Some details \<Rightarrow> terminal ?r 0 TerminalRefused (Some details)
                | None \<Rightarrow> turns ?r (pr_TurnLimit prep) 0 PhasePlan (first_carry (pr_Version prep)))) ?n"
  proof (cases "read_outcome prepare_doc ''prepare'' raw")
    case (Inl e)
    then show ?thesis by (simp add: wf_fail_def calls_terminal)
  next
    case (Inr prep)
    then have "answered (hd t) = Some (''prepare'', VPrepare prep)"
      by (simp add: read_outcome_answered t) (simp add: prepare_doc_def)
    from assms(2) [OF this] have le: "turn_calls * (nat (pr_TurnLimit prep) - 0) + 1 \<le> ?n" by (simp add: nat_mono)
    from Inr show ?thesis
      by (simp add: calls_terminal calls_mono [OF calls_turns [OF refl] le [unfolded Nat.add_0_right], simplified] split: option.split)
  qed
  from calls_path [OF this u] show ?thesis by (simp add: t)
qed

section \<open>What an outcome rests on\<close>

primrec says_superseded :: "step_value \<Rightarrow> bool" where
  "says_superseded (VPrepare x) = pr_Superseded x"
| "says_superseded (VTurn x) = tr_Superseded x"
| "says_superseded (VAck x) = a_Superseded x"
| "says_superseded (VAction x) = ar_Superseded x"
| "says_superseded (VOpened x) = do_Superseded x"
| "says_superseded (VDelegate x) = dt_Superseded x"
| "says_superseded (VInterrupt x) = id_Superseded x"
| "says_superseded (VInput x) = ir_Superseded x"
| "says_superseded (VFinalize x) = fr_Superseded x"
| "says_superseded (VReview x) = rr_Superseded x"
| "says_superseded (VApproval x) = ap_Superseded x"
| "says_superseded (VCommit x) = cr_Superseded x"

definition approved_in :: "event list \<Rightarrow> bool" where
  "approved_in t \<longleftrightarrow> (\<exists>ev \<in> set t. \<exists>n a. answered ev = Some (n, VApproval a) \<and> ap_Decided a \<and> ap_Kind a = ''approve'')"

definition committed_as :: "event list \<Rightarrow> (CommitResult \<Rightarrow> bool) \<Rightarrow> bool" where
  "committed_as t P \<longleftrightarrow> approved_in t \<and> (\<exists>n c. answered (last t) = Some (n, VCommit c) \<and> P c)"

definition acked_as :: "event list \<Rightarrow> (string \<Rightarrow> Ack \<Rightarrow> bool) \<Rightarrow> bool" where
  "acked_as t P \<longleftrightarrow> (\<exists>n a. answered (last t) = Some (n, VAck a) \<and> \<not> a_Superseded a \<and> P n a)"

definition ground :: "event list \<Rightarrow> RunOutcome \<Rightarrow> bool" where
  "ground t out \<longleftrightarrow> t \<noteq> [] \<and>
     (case o_Terminal out of
        TerminalCompleted \<Rightarrow>
          (\<exists>n v. answered (last t) = Some (n, VReview v) \<and> rr_Accepted v) \<or>
          committed_as t (\<lambda>c. \<not> cr_Unsettled c \<and> cr_Outcome c = ''completed'')
      | TerminalUnresolved \<Rightarrow> committed_as t (\<lambda>c. cr_Unsettled c \<and> cr_Escalated c)
      | TerminalSuperseded \<Rightarrow> (\<exists>n v. answered (last t) = Some (n, v) \<and> says_superseded v)
      | TerminalCancelled \<Rightarrow> False
      | TerminalRefused \<Rightarrow> acked_as t (\<lambda>n a. \<exists>turn. n = name ''terminal-refused'' turn)
      | TerminalFailed \<Rightarrow>
          acked_as t (\<lambda>n a. \<exists>turn. n = name ''terminal-failed'' turn) \<or>
          acked_as t (\<lambda>n a. \<not> a_Raced a \<and> (\<exists>kind wake turn. n = name (''expire-'' @ kind @ ''-'' @ pad 2 wake) turn)) \<or>
          committed_as t (\<lambda>c. \<not> cr_Unsettled c \<and> cr_Outcome c = ''failed''))"

definition finished :: "event list \<Rightarrow> wf_err + RunOutcome \<Rightarrow> bool" where
  "finished t r \<longleftrightarrow> (\<forall>out. r = Inr out \<longrightarrow> ground t out)"

definition waited :: "(event list \<Rightarrow> 'a \<Rightarrow> bool) \<Rightarrow> event list \<Rightarrow> wf_err + RunOutcome + 'a \<Rightarrow> bool" where
  "waited R t r \<longleftrightarrow> (\<forall>out. r = Inr (Inl out) \<longrightarrow> ground t out) \<and> (\<forall>v. r = Inr (Inr v) \<longrightarrow> R t v)"

lemma waited_simps [simp]: "waited R t (Inl e)" "waited R t (Inr (Inl out)) = ground t out" "waited R t (Inr (Inr v)) = R t v"
  "finished t (Inl e)" "finished t (Inr out) = ground t out" "waited R t (ended x) = finished t x"
  by (auto simp: waited_def finished_def ended_def split: sum.splits)

lemma wp_bind_step:
  assumes "codec_ok c" and "\<And>x e. wp Q (t @ [Stepped n x]) (f (Inl e))"
    and "\<And>ev v. answered ev = Some (n, enc c v) \<Longrightarrow> wp Q (t @ [ev]) (f (Inr v))"
  shows "wp Q t (bind (step c n g) f)"
proof -
  have "wp Q (t @ [Stepped n x]) (f (read_outcome c n x))" for x
  proof (cases "read_outcome c n x")
    case (Inr v)
    then have "answered (Stepped n x) = Some (n, enc c v)" by (simp add: read_outcome_answered assms(1))
    from assms(3) [OF this] Inr show ?thesis by simp
  qed (simp add: assms(2))
  then show ?thesis by (simp add: wp_bind)
qed

lemma wp_bind_await: "(\<And>x. wp Q (t @ [Awaited tp d x]) (f x)) \<Longrightarrow> wp Q t (bind (await tp d) f)"
  by (simp add: wp_bind)

lemma enc_simps [simp]: "enc prepare_doc = VPrepare" "enc turn_doc = VTurn" "enc ack_doc = VAck" "enc action_doc = VAction"
  "enc opened_doc = VOpened" "enc delegate_doc = VDelegate" "enc interrupt_doc = VInterrupt" "enc input_doc = VInput"
  "enc finalize_doc = VFinalize" "enc review_doc = VReview" "enc approval_doc = VApproval" "enc commit_doc = VCommit"
  by (simp_all add: prepare_doc_def turn_doc_def ack_doc_def action_doc_def opened_doc_def delegate_doc_def
      interrupt_doc_def input_doc_def finalize_doc_def review_doc_def approval_doc_def commit_doc_def)

lemma approved_append [simp]: "approved_in t \<Longrightarrow> approved_in (t @ u)"
  by (auto simp: approved_in_def)

lemma superseded_ground:
  "answered ev = Some (n, v) \<Longrightarrow> says_superseded v \<Longrightarrow> finished (t @ [ev]) (superseded r)"
  by (simp add: superseded_def ground_def outcome_def)

lemma finished_superseded [simp]:
  "finished t (superseded r) \<longleftrightarrow> t \<noteq> [] \<and> (\<exists>n v. answered (last t) = Some (n, v) \<and> says_superseded v)"
  by (simp add: superseded_def ground_def outcome_def)

lemma wp_terminal:
  assumes "kind = TerminalFailed \<or> kind = TerminalRefused"
  shows "wp finished t (terminal r turn kind details)"
  unfolding terminal_def Let_def
proof (rule wp_bind_step)
  fix ev ack
  assume "answered ev = Some (name (''terminal-'' @ TerminalState_string kind) turn, enc ack_doc ack)"
  with assms show "wp finished (t @ [ev]) (case Inr ack of Inl e \<Rightarrow> Return (Inl e)
      | Inr ack \<Rightarrow> Return (if a_Superseded ack then superseded r else Inr (outcome r kind details)))"
    by (auto simp: ground_def outcome_def acked_as_def intro: superseded_ground)
qed simp_all

lemma wp_leave_terminal:
  "kind = TerminalFailed \<or> kind = TerminalRefused \<Longrightarrow> wp (waited R) t (leave (terminal r turn kind details))"
  "wp (waited R) t (leave (wf_fail r turn details'))" "wp (waited R) t (leave (halt r turn h))"
  unfolding leave_def wp_bind wf_fail_def halt_def by (auto intro!: wp_mono [OF wp_terminal])

lemma wp_bind_expire:
  assumes "\<And>t e. wp Q t (f (Inl e))" and "\<And>t out. ground t out \<Longrightarrow> wp Q t (f (Inr (Some out)))"
    and "\<And>t. wp Q t (f (Inr None))"
  shows "wp Q t (bind (expire r turn wake i kind v) f)"
proof -
  have "wp (\<lambda>t x. \<forall>out. x = Inr (Some out) \<longrightarrow> ground t out) t (expire r turn wake i kind v)"
    unfolding expire_def Let_def
  proof (rule wp_bind_step)
    fix ev ack
    assume ev: "answered ev = Some (name (''expire-'' @ kind @ ''-'' @ pad 2 wake) turn, enc ack_doc ack)"
    have "ground (t @ [ev]) (outcome r TerminalFailed d)" if "\<not> a_Raced ack" "\<not> a_Superseded ack" for d
      using ev that by (auto simp: ground_def outcome_def acked_as_def)
    moreover have "ground (t @ [ev]) (outcome r TerminalSuperseded None)" if "a_Superseded ack"
      using superseded_ground [OF ev, where r = r] that by (simp add: superseded_def)
    ultimately show "wp (\<lambda>t x. \<forall>out. x = Inr (Some out) \<longrightarrow> ground t out) (t @ [ev]) (Return (case Inr ack of
        Inl e \<Rightarrow> Inl e
      | Inr ack \<Rightarrow>
          (if a_Raced ack then Inr None
           else if a_Superseded ack then map_sum id Some (superseded r)
           else Inr (Some (outcome r TerminalFailed (Some ((New (if kind = ''approval'' then CodeApprovalRequestExpired
                  else CodeInputRequestExpired) '''')\<lparr>d_Detail := ''the durable '' @ kind @
                  '' deadline elapsed before a response was accepted''\<rparr>)))))))"
      by (simp add: superseded_def)
  qed simp_all
  then show ?thesis unfolding wp_bind
  proof (rule wp_mono)
    fix t and x :: "wf_err + RunOutcome option"
    assume "\<forall>out. x = Inr (Some out) \<longrightarrow> ground t out"
    with assms show "wp Q t (f x)" by (cases x; cases "projr x") auto
  qed
qed

lemma wp_bind_waited:
  assumes "wp (waited R) t p" and "\<And>t e. wp Q t (f (Inl e))" and "\<And>t out. ground t out \<Longrightarrow> wp Q t (f (Inr (Inl out)))"
    and "\<And>t v. R t v \<Longrightarrow> wp Q t (f (Inr (Inr v)))"
  shows "wp Q t (bind p f)"
  unfolding wp_bind using assms(1)
proof (rule wp_mono)
  fix t x
  assume "waited R t x"
  with assms(2-) show "wp Q t (f x)" by (cases x; cases "projr x") auto
qed

lemma wp_await_input: "wp (waited (\<lambda>t v. True)) t (await_input r turn i wake timeout)"
proof (induction "maximumWakes - wake" arbitrary: wake timeout t rule: less_induct)
  case less
  show ?case
  proof (cases "wake < maximumWakes")
    case True
    have IH: "wp (waited (\<lambda>t v. True)) t (await_input r turn i (wake + 1) d)" for t d
      using less.hyps [of "Suc wake" t d] True by (simp add: diff_less_mono2)
    show ?thesis
      by (subst await_input.simps, simp only: True not_True_eq_False if_False Let_def, rule wp_bind_await)
        (auto split: sum.split intro!: wp_bind_step wp_leave_terminal IH [simplified] wp_bind_expire)
  qed (subst await_input.simps, simp add: wp_leave_terminal)
qed

lemma wp_await_approval:
  "wp (waited (\<lambda>t v. \<exists>n. answered (last t) = Some (n, VApproval v) \<and> ap_Decided v \<and> t \<noteq> [])) t (await_approval r turn i wake timeout)"
proof (induction "maximumWakes - wake" arbitrary: wake timeout t rule: less_induct)
  case less
  show ?case
  proof (cases "wake < maximumWakes")
    case True
    have IH: "wp (waited (\<lambda>t v. \<exists>n. answered (last t) = Some (n, VApproval v) \<and> ap_Decided v \<and> t \<noteq> [])) t
        (await_approval r turn i (wake + 1) d)" for t d
      using less.hyps [of "Suc wake" t d] True by (simp add: diff_less_mono2)
    show ?thesis
      by (subst await_approval.simps, simp only: True not_True_eq_False if_False Let_def, rule wp_bind_await)
        (auto split: sum.split intro!: wp_bind_step wp_leave_terminal IH [simplified] wp_bind_expire)
  qed (subst await_approval.simps, simp add: wp_leave_terminal)
qed

lemma committed_as_last: "approved_in t \<Longrightarrow> answered ev = Some (n, VCommit c) \<Longrightarrow> committed_as (t @ [ev]) P \<longleftrightarrow> P c"
  by (simp add: committed_as_def)

lemma ground_unresolved: "ground t (unresolved r) \<longleftrightarrow> t \<noteq> [] \<and> committed_as t (\<lambda>c. cr_Unsettled c \<and> cr_Escalated c)"
  by (simp add: unresolved_def ground_def outcome_def)

lemma wp_commit_hold:
  "approved_in t \<Longrightarrow> wp (waited (\<lambda>t c. committed_as t (\<lambda>c'. c' = c \<and> \<not> cr_Unsettled c) \<and> t \<noteq> [])) t (commit_hold r turn i d wake v)"
proof (induction "MaximumCommitWakes - wake" arbitrary: wake v t rule: less_induct)
  case less
  show ?case
  proof (cases "wake < MaximumCommitWakes")
    case True
    have IH: "wp (waited (\<lambda>t c. committed_as t (\<lambda>c'. c' = c \<and> \<not> cr_Unsettled c) \<and> t \<noteq> [])) t (commit_hold r turn i d (Suc wake) v')"
      if "approved_in t" for t v'
      using less.hyps [of "Suc wake" t v'] True that by (simp add: diff_less_mono2)
    show ?thesis
      by (subst commit_hold.simps, simp only: True not_True_eq_False if_False Let_def, rule wp_bind_step)
        (use less.prems in \<open>auto split: sum.split option.split intro!: wp_bind_await wp_leave_terminal IH
          simp: ground_unresolved committed_as_last\<close>)
  qed (subst commit_hold.simps, simp)
qed

lemma wp_delegate_turns: "wp (waited (\<lambda>t v. True)) t (delegate_turns r turn phase opened request n carry)"
proof (induction "nat (do_TurnLimit opened) - n" arbitrary: n carry t rule: less_induct)
  case less
  show ?case
  proof (cases "int n < do_TurnLimit opened")
    case True
    have IH: "wp (waited (\<lambda>t v. True)) t (delegate_turns r turn phase opened request (Suc n) carry')" for t carry'
      using less.hyps [of "Suc n" t carry'] True by simp
    show ?thesis
      by (subst delegate_turns.simps, simp only: True not_True_eq_False if_False Let_def, rule wp_bind_step)
        (auto split: sum.split option.split intro!: wp_leave_terminal IH)
  qed (subst delegate_turns.simps, simp add: wp_leave_terminal)
qed

abbreviation goes_on :: "event list \<Rightarrow> wf_err + RunOutcome + 'a \<Rightarrow> bool" where
  "goes_on \<equiv> waited (\<lambda>t v. True)"

lemma wp_revising: "wp goes_on t (revising r turn reason c reviewReason carry)"
  unfolding revising_def revise_def Let_def
  by (rule wp_bind_step) (auto split: sum.split option.split intro!: wp_leave_terminal)

lemma wp_on_approved: "approved_in t \<Longrightarrow> wp goes_on t (on_approved r turn i d carry)"
  unfolding on_approved_def commit_def
  by (rule wp_bind_waited [OF wp_commit_hold])
    (auto simp: Let_def ground_def outcome_def committed_as_def intro!: wp_leave_terminal wp_revising)

lemma wp_on_review: "wp goes_on t (on_review r turn finalized review carry)"
  unfolding on_review_def awaitApproval_def
proof (rule wp_bind_waited [OF wp_await_approval])
  fix t approval
  assume a: "\<exists>n. answered (last t) = Some (n, VApproval approval) \<and> ap_Decided approval \<and> t \<noteq> []"
  have "approved_in t" if "ap_Kind approval = ''approve''"
    using a that last_in_set by (auto simp: approved_in_def)
  then show "wp goes_on t (case Inr (Inr approval) of Inl e \<Rightarrow> Return (Inl e) | Inr (Inl out) \<Rightarrow> Return (Inr (Inl out))
      | Inr (Inr approval) \<Rightarrow> (let carry = carry\<lparr>c_Version := ap_Version approval\<rparr>
          in if ap_Kind approval = ''approve''
             then on_approved r turn (rr_RequestID review) (fr_ArtifactDigest finalized) carry
             else revising r turn (ap_Reason approval) False (ap_Reason approval) carry))"
    by (auto simp: Let_def intro!: wp_on_approved wp_revising)
qed simp_all

lemma wp_on_decision: "wp goes_on t (on_decision r turn phase d carry)"
  by (auto simp: on_decision_def on_refuse_def on_tool_call_def on_delegate_def on_need_input_def on_final_def
      awaitInput_def Let_def ground_def outcome_def split: DecisionKind.split option.split sum.split
      intro!: wp_leave_terminal wp_bind_step wp_on_review wp_bind_waited [OF wp_delegate_turns] wp_bind_waited [OF wp_await_input])

lemma wp_one_turn: "wp goes_on t (one_turn r turn phase carry)"
  by (auto simp: one_turn_def Let_def split: option.split sum.split intro!: wp_leave_terminal wp_bind_step wp_on_decision)

lemma wp_turns: "wp finished t (turns r limit turn phase carry)"
proof (induction "nat limit - turn" arbitrary: turn phase carry t rule: less_induct)
  case less
  show ?case
  proof (cases "int turn < limit")
    case True
    have IH: "wp finished t (turns r limit (Suc turn) phase' carry')" for t phase' carry'
      using less.hyps [of "Suc turn" t phase' carry'] True by simp
    show ?thesis
      by (subst turns.simps, simp only: True not_True_eq_False if_False, rule wp_bind_waited [OF wp_one_turn])
        (auto intro!: IH)
  qed (subst turns.simps, simp add: wp_terminal)
qed

lemma wp_workflow: "wp finished [] (AgentRunWorkflow ops input)"
  by (auto simp: AgentRunWorkflow_def Let_def wf_fail_def split: option.split sum.split
      intro!: wp_bind_step wp_terminal wp_turns)

section \<open>A concrete pipeline\<close>

fun follows :: "('w, 'r) prog \<Rightarrow> event list \<Rightarrow> 'r option" where
  "follows (Return r) [] = Some r"
| "follows (Step n g k) (Stepped n' x # t) = (if n = n' then follows (k x) t else None)"
| "follows (AwaitSignal tp d k) (Awaited tp' d' x # t) = (if tp = tp' \<and> d = d' then follows (k x) t else None)"
| "follows _ _ = None"

lemma follows_path: "follows p t = Some r \<Longrightarrow> path p t r"
  by (induction p t rule: follows.induct) (auto intro: path.intros split: if_splits)

text \<open>An operation that leaves its key in the world, once.\<close>

definition once :: "'r \<Rightarrow> OpID \<Rightarrow> (string list, err, 'r) op" where
  "once r i w = (Inr r, if OpID_Key i \<in> set w then w else OpID_Key i # w)"

definition demo_carry :: Carry where
  "demo_carry = first_carry 2"

definition demo_decision :: TurnDecision where
  "demo_decision = \<lparr>td_Kind = DecisionFinal, td_Continue = None, td_ToolCall = None, td_Delegate = None,
     td_NeedInput = None, td_Final = Some \<lparr>fd_Candidate = ''{}'', fd_Summary = ''''\<rparr>, td_Refuse = None\<rparr>"

definition demo_ack :: Ack where
  "demo_ack = \<lparr>a_Superseded = False, a_Raced = False, a_Version = 3, a_Halt = None\<rparr>"

definition demo_commit :: CommitResult where
  "demo_commit = \<lparr>cr_Superseded = False, cr_Outcome = ''completed'', cr_Problem = None, cr_Version = 6, cr_Halt = None,
     cr_Unsettled = False, cr_RetryAfterMillis = 0, cr_Escalated = False\<rparr>"

text \<open>One turn finds the candidate, a reviewer approves it, and the commit completes.\<close>

definition demo :: "string list Operations" where
  "demo = \<lparr>
     ops_Prepare = (\<lambda>i _. once \<lparr>pr_Superseded = False, pr_Refused = None, pr_TurnLimit = 2, pr_DefinitionID = ''d'',
       pr_DefinitionDigest = '''', pr_Version = 1\<rparr> i),
     ops_ExecuteTurn = (\<lambda>i _. once \<lparr>tr_Superseded = False, tr_Decision = demo_decision, tr_Carry = demo_carry, tr_Halt = None\<rparr> i),
     ops_RecordDecision = (\<lambda>i _. once demo_ack i),
     ops_ExecuteAction = (\<lambda>i _. once \<lparr>ar_Superseded = False, ar_Carry = demo_carry, ar_Halt = None\<rparr> i),
     ops_OpenDelegation = (\<lambda>i _. once \<lparr>do_Superseded = False, do_Refused = True, do_TurnLimit = 1, do_SpecialistID = '''',
       do_SpecialistDigest = '''', do_Carry = demo_carry, do_Halt = None\<rparr> i),
     ops_ExecuteDelegateTurn = (\<lambda>i _. once \<lparr>dt_Superseded = False, dt_Done = True, dt_Carry = demo_carry, dt_Halt = None\<rparr> i),
     ops_OpenInput = (\<lambda>i _. once \<lparr>id_Superseded = False, id_RequestID = ''i'', id_TimeoutMillis = 1000, id_Version = 3, id_Halt = None\<rparr> i),
     ops_ReadInput = (\<lambda>i _. once \<lparr>ir_Superseded = False, ir_Accepted = True, ir_Expired = False, ir_RemainingMillis = 0,
       ir_Value = '''', ir_Version = 3\<rparr> i),
     ops_ExpireInterrupt = (\<lambda>i _. once demo_ack i),
     ops_FinalizeCandidate = (\<lambda>i _. once \<lparr>fr_Superseded = False, fr_Rejected = None, fr_ArtifactDigest = ''a'', fr_Version = 3\<rparr> i),
     ops_ResolveReview = (\<lambda>i _. once \<lparr>rr_Superseded = False, rr_Accepted = False, rr_RequestID = ''q'', rr_TimeoutMillis = 1000,
       rr_Version = 4, rr_Halt = None\<rparr> i),
     ops_ReadApproval = (\<lambda>i _. once \<lparr>ap_Superseded = False, ap_Decided = True, ap_Kind = ''approve'', ap_Reason = '''',
       ap_Expired = False, ap_RemainingMillis = 0, ap_Version = 5\<rparr> i),
     ops_Revise = (\<lambda>i _. once demo_ack i),
     ops_Commit = (\<lambda>i _. once demo_commit i),
     ops_Terminalize = (\<lambda>i _. once demo_ack i)\<rparr>"

definition demo_input :: RunInput where
  "demo_input = \<lparr>i_Key = \<lparr>k_RunID = ''run'', k_Generation = 1\<rparr>,
     i_Scope = \<lparr>WorkspaceID = ''w'', ProjectID = ''p'', ActorID = ''a''\<rparr>, i_Traceparent = ''''\<rparr>"

definition recorded :: "string \<Rightarrow> step_value \<Rightarrow> event" where
  "recorded n v = Stepped n (Inr \<lparr>sd_Value = Some v, sd_Problem = None\<rparr>)"

definition demo_trace :: "event list" where
  "demo_trace =
    [recorded ''prepare'' (VPrepare \<lparr>pr_Superseded = False, pr_Refused = None, pr_TurnLimit = 2, pr_DefinitionID = ''d'',
       pr_DefinitionDigest = '''', pr_Version = 1\<rparr>),
     recorded ''turn-0000'' (VTurn \<lparr>tr_Superseded = False, tr_Decision = demo_decision, tr_Carry = demo_carry, tr_Halt = None\<rparr>),
     recorded ''decision-0000'' (VAck demo_ack),
     recorded ''finalize-0000'' (VFinalize \<lparr>fr_Superseded = False, fr_Rejected = None, fr_ArtifactDigest = ''a'', fr_Version = 3\<rparr>),
     recorded ''review-0000'' (VReview \<lparr>rr_Superseded = False, rr_Accepted = False, rr_RequestID = ''q'', rr_TimeoutMillis = 1000,
       rr_Version = 4, rr_Halt = None\<rparr>),
     Awaited ''approval:q'' 1000000000 (Inr (''y'', False)),
     recorded ''read-approval-00-0000'' (VApproval \<lparr>ap_Superseded = False, ap_Decided = True, ap_Kind = ''approve'', ap_Reason = '''',
       ap_Expired = False, ap_RemainingMillis = 0, ap_Version = 5\<rparr>),
     recorded ''commit-0000'' (VCommit demo_commit)]"

lemma demo_path:
  "path (AgentRunWorkflow demo demo_input) demo_trace
     (Inr \<lparr>o_Key = \<lparr>k_RunID = ''run'', k_Generation = 1\<rparr>, o_Terminal = TerminalCompleted, o_Problem = None\<rparr>)"
  by (rule follows_path) code_simp

section \<open>Properties\<close>

text \<open>C2 (grounded outcomes). Whatever host runs the workflow and whatever its operations answer, an outcome rests
  on what was recorded last: a completed run on an accepted review, or on a commit that completed after an
  approving decision; a run released as unresolved on a commit that reported a durable escalation, after an
  approval; a superseded run on an operation that said so; a refused or failed run on the terminal operation,
  an expiry that no answer raced, or a failed commit. The workflow itself never answers cancelled.\<close>

theorem outcomes_are_grounded:
  assumes "path (AgentRunWorkflow ops input) t (Inr out)"
  shows "ground t out"
  using wp_path [OF wp_workflow assms] by simp

theorem outcomes_are_grounded_witness:
  "ground demo_trace \<lparr>o_Key = \<lparr>k_RunID = ''run'', k_Generation = 1\<rparr>, o_Terminal = TerminalCompleted, o_Problem = None\<rparr> \<and>
   length demo_trace = 8"
  using outcomes_are_grounded [OF demo_path] by (simp add: demo_trace_def)

text \<open>C4 (step identities). No run of the workflow uses the name of a durable step twice, whatever its
  operations answer: the record of a step never answers for another one.\<close>

theorem step_names_are_unique:
  assumes "path (AgentRunWorkflow ops input) t r"
  shows "distinct (steps t)"
  using ranked_distinct [OF ranked_workflow assms] .

theorem step_names_are_unique_witness: "distinct (steps demo_trace) \<and> length (steps demo_trace) = 7"
proof -
  have "length (steps demo_trace) = 7" by code_simp
  then show ?thesis using step_names_are_unique [OF demo_path] by simp
qed

text \<open>C3 (every run ends). A run makes at most 8392 calls to its host for every turn the prepared definition
  allows, and two more: the loops over wakes, commit reconciliations and Specialist turns all end.\<close>

theorem workflow_calls_are_bounded:
  assumes "path (AgentRunWorkflow ops input) t r"
    and "\<And>prep. answered (hd t) = Some (''prepare'', VPrepare prep) \<Longrightarrow> pr_TurnLimit prep \<le> limit"
  shows "length t \<le> 8392 * nat limit + 2"
  using calls_workflow [OF assms] by (simp add: turn_calls_def)

theorem workflow_calls_are_bounded_witness: "length demo_trace \<le> 8392 * nat 2 + 2"
  by (rule workflow_calls_are_bounded [OF demo_path]) (simp add: demo_trace_def recorded_def)

text \<open>From any point of any run, when the host answers every further call with one and the same
  error, as an engine does that stopped or cancelled the execution, the workflow ends with that error, and
  waits for nothing on the way.\<close>

theorem workflow_gives_up:
  "robust (\<lambda>r e. r = Inl e) (AgentRunWorkflow ops input)"
  by (rule gives_up_workflow)

end
