(* ===== verification/Workflow_Memory.thy ===== *)
theory Workflow_Memory
  imports Workflow
begin

text \<open>
  The in-memory engine behind the durable runtime port (\<open>src/internal/workflow/memory/runtime.go\<close>): the
  records it keeps of a workflow, its \<open>Step\<close> and \<open>AwaitSignal\<close>, and the runtime's operations on the store.

  One execution runs on a \<open>machine\<close>: the instance with its records, the world the operations act on, the
  clock, and what arrives from outside while the execution waits; steps take no time. A process that
  stops, as \<open>Stop\<close> does to an execution, is the field \<open>ma_life\<close>: the number of records it still makes.
  With \<open>ma_late\<close> it stops between an operation's effect and the record of it.
\<close>

section \<open>Records\<close>

record stepRecord =
  sr_output :: doc
  sr_failed :: bool
  sr_reason :: string

record awaitRecord =
  aw_deadline :: time
  aw_done :: bool
  aw_timedOut :: bool
  aw_payload :: string

record wf_instance =
  wi_input :: RunInput
  wi_steps :: "stepRecord gomap"
  wi_awaits :: "(nat \<times> awaitRecord) list"
  wi_signals :: "string list gomap"
  wi_seenKeys :: "bool gomap"
  wi_outcome :: "RunOutcome option"
  wi_failure :: "wf_err option"
  wi_cancelled :: bool
  wi_running :: bool

definition new_instance :: "RunInput \<Rightarrow> wf_instance" where
  "new_instance input = \<lparr>wi_input = input, wi_steps = [], wi_awaits = [], wi_signals = [], wi_seenKeys = [],
     wi_outcome = None, wi_failure = None, wi_cancelled = False, wi_running = False\<rparr>"

type_synonym Store = "wf_instance gomap"

definition store_instance :: "RunInput \<Rightarrow> Store \<Rightarrow> wf_instance \<times> Store" where
  "store_instance input s =
     (let i = WorkflowID (i_Key input)
      in case gm_get s i of
           Some entry \<Rightarrow> (entry, s)
         | None \<Rightarrow> (new_instance input, gm_put i (new_instance input) s))"

section \<open>Signals and cancellation\<close>

definition queue_of :: "wf_instance \<Rightarrow> string \<Rightarrow> string list" where
  "queue_of entry topic = (case gm_get (wi_signals entry) topic of None \<Rightarrow> [] | Some q \<Rightarrow> q)"

definition signal_entry :: "string \<Rightarrow> string \<Rightarrow> string \<Rightarrow> wf_instance \<Rightarrow> wf_instance" where
  "signal_entry topic payload idempotencyKey entry =
     (let dedup = topic @ [NUL] @ idempotencyKey
      in if idempotencyKey \<noteq> '''' \<and> gm_get (wi_seenKeys entry) dedup = Some True then entry
         else entry\<lparr>wi_seenKeys := (if idempotencyKey \<noteq> '''' then gm_put dedup True (wi_seenKeys entry) else wi_seenKeys entry),
                wi_signals := gm_put topic (queue_of entry topic @ [payload]) (wi_signals entry)\<rparr>)"

definition Signal :: "RunKey \<Rightarrow> string \<Rightarrow> string \<Rightarrow> string \<Rightarrow> (Store, err, unit) op" where
  "Signal k topic payload idempotencyKey s =
     (case gm_get s (WorkflowID k) of
        None \<Rightarrow> (Inl (Plain (''signal unknown workflow '' @ WorkflowID k)), s)
      | Some entry \<Rightarrow> (Inr (), gm_put (WorkflowID k) (signal_entry topic payload idempotencyKey entry) s))"

definition cancelled_outcome :: "wf_instance \<Rightarrow> RunOutcome" where
  "cancelled_outcome entry = \<lparr>o_Key = i_Key (wi_input entry), o_Terminal = TerminalCancelled, o_Problem = None\<rparr>"

definition cancel_entry :: "wf_instance \<Rightarrow> wf_instance" where
  "cancel_entry entry =
     (let entry = entry\<lparr>wi_cancelled := True\<rparr>
      in if \<not> wi_running entry \<and> wi_outcome entry = None \<and> wi_failure entry = None
         then entry\<lparr>wi_outcome := Some (cancelled_outcome entry)\<rparr> else entry)"

definition CancelRun :: "RunKey \<Rightarrow> (Store, err, unit) op" where
  "CancelRun k s =
     (case gm_get s (WorkflowID k) of
        None \<Rightarrow> (Inl (Plain (''cancel unknown workflow '' @ WorkflowID k)), s)
      | Some entry \<Rightarrow> (Inr (), gm_put (WorkflowID k) (cancel_entry entry) s))"

definition Outcome :: "RunKey \<Rightarrow> Store \<Rightarrow> RunOutcome option" where
  "Outcome k s = (case gm_get s (WorkflowID k) of None \<Rightarrow> None | Some entry \<Rightarrow> wi_outcome entry)"

text \<open>\<open>True\<close> when the call starts an execution.\<close>

definition StartRun :: "RunInput \<Rightarrow> (Store, err, bool) op" where
  "StartRun input s =
     (case RunInput_Validate input of
        Some e \<Rightarrow> (Inl e, s)
      | None \<Rightarrow>
          (case store_instance input s of
             (entry, s) \<Rightarrow>
               (if wi_outcome entry \<noteq> None \<or> wi_failure entry \<noteq> None \<or> wi_running entry then (Inr False, s)
                else (Inr True, gm_put (WorkflowID (i_Key input)) (entry\<lparr>wi_running := True\<rparr>) s))))"

section \<open>The host\<close>

datatype arrival = Deliver time string string string | Cancel time

primrec arrives_at :: "arrival \<Rightarrow> time" where
  "arrives_at (Deliver t topic payload idempotencyKey) = t"
| "arrives_at (Cancel t) = t"

record 'w machine =
  ma_entry :: wf_instance
  ma_world :: 'w
  ma_now :: time
  ma_arrivals :: "arrival list"
  ma_seq :: nat
  ma_life :: "nat option"
  ma_late :: bool

definition stopped :: "'w machine \<Rightarrow> bool" where
  "stopped m \<longleftrightarrow> ma_life m = Some 0 \<and> \<not> ma_late m"

definition tick :: "'w machine \<Rightarrow> 'w machine" where
  "tick m = m\<lparr>ma_life := map_option (\<lambda>n. n - 1) (ma_life m)\<rparr>"

definition record_step :: "string \<Rightarrow> err + doc \<Rightarrow> 'w machine \<Rightarrow> 'w machine" where
  "record_step stepName r m =
     (let rec = (case r of
            Inl e \<Rightarrow> \<lparr>sr_output = \<lparr>sd_Value = None, sd_Problem = None\<rparr>, sr_failed = True, sr_reason = Error e\<rparr>
          | Inr out \<Rightarrow> \<lparr>sr_output = out, sr_failed = False, sr_reason = ''''\<rparr>);
          entry = ma_entry m
      in tick (m\<lparr>ma_entry := entry\<lparr>wi_steps := gm_put stepName rec (wi_steps entry)\<rparr>\<rparr>))"

definition replayed_step :: "stepRecord \<Rightarrow> wf_err + doc" where
  "replayed_step rec = (if sr_failed rec then Inl (Failed (Plain (sr_reason rec))) else Inr (sr_output rec))"

definition host_Step :: "string \<Rightarrow> ('w, err, doc) op \<Rightarrow> ('w machine, wf_err, doc) op" where
  "host_Step stepName fn m =
     (case gm_get (wi_steps (ma_entry m)) stepName of
        Some rec \<Rightarrow> (replayed_step rec, m)
      | None \<Rightarrow>
          (if wi_cancelled (ma_entry m) then (Inl EngineCancelled, m)
           else if stopped m then (Inl EngineStopped, m)
           else case fn (ma_world m) of (r, w) \<Rightarrow>
             (let m = m\<lparr>ma_world := w\<rparr>
              in if ma_life m = Some 0 then (Inl EngineStopped, m\<lparr>ma_late := False\<rparr>)
                 else (map_sum Failed id r, record_step stepName r m))))"

definition arrive :: "arrival \<Rightarrow> 'w machine \<Rightarrow> 'w machine" where
  "arrive a m = m\<lparr>ma_now := max (ma_now m) (arrives_at a),
     ma_entry := (case a of Deliver t topic payload idempotencyKey \<Rightarrow> signal_entry topic payload idempotencyKey (ma_entry m)
                  | Cancel t \<Rightarrow> cancel_entry (ma_entry m))\<rparr>"

definition put_await :: "nat \<Rightarrow> awaitRecord \<Rightarrow> 'w machine \<Rightarrow> 'w machine" where
  "put_await seq rec m = (let entry = ma_entry m in m\<lparr>ma_entry := entry\<lparr>wi_awaits := gm_put seq rec (wi_awaits entry)\<rparr>\<rparr>)"

text \<open>
  One look at the entry: cancelled, a signal, the deadline, or nothing yet. The record is the one of
  this wait, with its deadline.
\<close>

definition look :: "string \<Rightarrow> nat \<Rightarrow> awaitRecord \<Rightarrow> 'w machine \<Rightarrow> ((wf_err + string \<times> bool) \<times> 'w machine) option" where
  "look topic seq rec m =
     (if wi_cancelled (ma_entry m) then Some (Inl EngineCancelled, m)
      else case queue_of (ma_entry m) topic of
        payload # rest \<Rightarrow>
          (let entry = ma_entry m;
               m = m\<lparr>ma_entry := entry\<lparr>wi_signals := gm_put topic rest (wi_signals entry)\<rparr>\<rparr>
           in Some (Inr (payload, False), put_await seq (rec\<lparr>aw_done := True, aw_payload := payload\<rparr>) m))
      | [] \<Rightarrow>
          (if \<not> ma_now m < aw_deadline rec
           then Some (Inr ('''', True), put_await seq (rec\<lparr>aw_done := True, aw_timedOut := True\<rparr>) m)
           else if stopped m then Some (Inl EngineStopped, m)
           else None))"

lemma look_None: "look topic seq rec m = None \<Longrightarrow> ma_now m < aw_deadline rec"
  by (auto simp: look_def Let_def split: if_splits list.splits)

lemma tick_simps [simp]: "ma_entry (tick m) = ma_entry m" "ma_world (tick m) = ma_world m" "ma_now (tick m) = ma_now m"
  "ma_arrivals (tick m) = ma_arrivals m" "ma_seq (tick m) = ma_seq m" "ma_late (tick m) = ma_late m"
  by (simp_all add: tick_def)

lemma arrive_simps [simp]: "ma_arrivals (arrive a m) = ma_arrivals m" "ma_world (arrive a m) = ma_world m"
  "ma_seq (arrive a m) = ma_seq m" "ma_life (arrive a m) = ma_life m" "ma_late (arrive a m) = ma_late m"
  by (simp_all add: arrive_def)

text \<open>Between two looks: the next arrival, or the timer.\<close>

function wait_loop :: "string \<Rightarrow> nat \<Rightarrow> awaitRecord \<Rightarrow> ('w machine, wf_err, string \<times> bool) op" where
  "wait_loop topic seq rec m =
     (case look topic seq rec m of
        Some found \<Rightarrow> found
      | None \<Rightarrow>
          (case ma_arrivals m of
             a # rest \<Rightarrow>
               (if arrives_at a < aw_deadline rec then wait_loop topic seq rec (tick (arrive a (m\<lparr>ma_arrivals := rest\<rparr>)))
                else wait_loop topic seq rec (tick (m\<lparr>ma_now := aw_deadline rec\<rparr>)))
           | [] \<Rightarrow> wait_loop topic seq rec (tick (m\<lparr>ma_now := aw_deadline rec\<rparr>))))"
  by pat_completeness auto
termination
  by (relation "measures [\<lambda>(topic, seq, rec, m). length (ma_arrivals m), \<lambda>(topic, seq, rec, m). nat (aw_deadline rec - ma_now m)]")
    (auto dest: look_None)

declare wait_loop.simps [simp del]

definition host_AwaitSignal :: "string \<Rightarrow> int \<Rightarrow> ('w machine, wf_err, string \<times> bool) op" where
  "host_AwaitSignal topic timeout m =
     (let seq = ma_seq m;
          m = m\<lparr>ma_seq := seq + 1\<rparr>
      in case gm_get (wi_awaits (ma_entry m)) seq of
           Some rec \<Rightarrow>
             (if aw_done rec then (Inr (aw_payload rec, aw_timedOut rec), m) else wait_loop topic seq rec m)
         | None \<Rightarrow>
             (let rec = \<lparr>aw_deadline = ma_now m + timeout, aw_done = False, aw_timedOut = False, aw_payload = ''''\<rparr>
              in wait_loop topic seq rec (put_await seq rec m)))"

section \<open>An execution\<close>

primrec run :: "('w, 'r) prog \<Rightarrow> 'w machine \<Rightarrow> 'r \<times> 'w machine" where
  "run (Return r) m = (r, m)"
| "run (Step n g k) m = (case host_Step n g m of (x, m) \<Rightarrow> run (k x) m)"
| "run (AwaitSignal tp d k) m = (case host_AwaitSignal tp d m of (x, m) \<Rightarrow> run (k x) m)"

definition concluded :: "wf_instance \<Rightarrow> bool" where
  "concluded entry \<longleftrightarrow> wi_outcome entry \<noteq> None \<or> wi_failure entry \<noteq> None"

definition conclude :: "wf_err + RunOutcome \<Rightarrow> wf_instance \<Rightarrow> wf_instance" where
  "conclude r entry =
     (let entry = entry\<lparr>wi_running := False\<rparr>
      in case r of
           Inl EngineStopped \<Rightarrow> entry
         | Inl EngineCancelled \<Rightarrow> entry\<lparr>wi_outcome := Some (cancelled_outcome entry)\<rparr>
         | Inl e \<Rightarrow> entry\<lparr>wi_failure := Some e\<rparr>
         | Inr out \<Rightarrow> entry\<lparr>wi_outcome := Some out\<rparr>)"

text \<open>A process drives the workflow: with a new host, whose waits are numbered from the first.\<close>

definition drive :: "'w Operations \<Rightarrow> 'w machine \<Rightarrow> 'w machine" where
  "drive ops m =
     (case run (AgentRunWorkflow ops (wi_input (ma_entry m))) (m\<lparr>ma_seq := 0\<rparr>) of
        (r, m) \<Rightarrow> m\<lparr>ma_entry := conclude r (ma_entry m)\<rparr>)"

section \<open>Stopping and starting again\<close>

text \<open>A new process over the records an old one left, that does not stop: its host counts the waits from \<open>s\<close>.\<close>

definition resume :: "nat \<Rightarrow> 'w machine \<Rightarrow> 'w machine" where
  "resume s m = m\<lparr>ma_seq := s, ma_life := None, ma_late := False\<rparr>"

lemma resume_simps [simp]:
  "ma_entry (resume s m) = ma_entry m" "ma_world (resume s m) = ma_world m" "ma_now (resume s m) = ma_now m"
  "ma_arrivals (resume s m) = ma_arrivals m" "ma_seq (resume s m) = s" "ma_life (resume s m) = None" "\<not> ma_late (resume s m)"
  "\<not> stopped (resume s m)" "tick (resume s m) = resume s m" "resume s (tick m) = resume s m" "resume s (resume s' m) = resume s m"
  "arrive a (resume s m) = resume s (arrive a m)" "put_await q rec (resume s m) = resume s (put_await q rec m)"
  "record_step n x (resume s m) = resume s (record_step n x m)" "resume s (m\<lparr>ma_late := l\<rparr>) = resume s m"
  "put_await q rec (m\<lparr>ma_seq := s\<rparr>) = (put_await q rec m)\<lparr>ma_seq := s\<rparr>"
  "resume s (m\<lparr>ma_seq := q\<rparr>) = resume s m" "(resume s m)\<lparr>ma_seq := q\<rparr> = resume q m"
  "(resume s m)\<lparr>ma_arrivals := as\<rparr> = resume s (m\<lparr>ma_arrivals := as\<rparr>)" "(resume s m)\<lparr>ma_now := t\<rparr> = resume s (m\<lparr>ma_now := t\<rparr>)"
  "(resume s m)\<lparr>ma_world := w\<rparr> = resume s (m\<lparr>ma_world := w\<rparr>)" "(resume s m)\<lparr>ma_entry := en\<rparr> = resume s (m\<lparr>ma_entry := en\<rparr>)"
  by (simp_all add: resume_def stopped_def tick_def arrive_def put_await_def record_step_def Let_def split: arrival.split)

lemma signal_entry_records [simp]: "wi_steps (signal_entry t p i en) = wi_steps en" "wi_awaits (signal_entry t p i en) = wi_awaits en"
  "wi_cancelled (signal_entry t p i en) = wi_cancelled en" "wi_input (signal_entry t p i en) = wi_input en"
  "wi_running (signal_entry t p i en) = wi_running en"
  by (simp_all add: signal_entry_def Let_def)

lemma cancel_entry_records [simp]: "wi_steps (cancel_entry en) = wi_steps en" "wi_awaits (cancel_entry en) = wi_awaits en"
  "wi_cancelled (cancel_entry en)" "wi_input (cancel_entry en) = wi_input en" "wi_running (cancel_entry en) = wi_running en"
  by (simp_all add: cancel_entry_def Let_def)

lemma arrive_records [simp]: "wi_steps (ma_entry (arrive a m)) = wi_steps (ma_entry m)"
  "wi_awaits (ma_entry (arrive a m)) = wi_awaits (ma_entry m)" "wi_input (ma_entry (arrive a m)) = wi_input (ma_entry m)"
  "wi_running (ma_entry (arrive a m)) = wi_running (ma_entry m)"
  by (cases a; simp add: arrive_def)+

subsection \<open>Waiting\<close>

lemma look_resume:
  "look topic seq rec (resume s m) =
     (case look topic seq rec m of None \<Rightarrow> None
      | Some (x, m') \<Rightarrow> if x = Inl EngineStopped then None else Some (x, resume s m'))"
  by (auto simp: look_def Let_def split: list.splits)

lemma look_stopped: "look topic seq rec m = Some (Inl EngineStopped, m') \<Longrightarrow> m' = m \<and> stopped m \<and> \<not> wi_cancelled (ma_entry m)"
  by (auto simp: look_def Let_def split: list.splits if_splits)

lemma look_cancelled: "look topic seq rec m = Some (Inl EngineCancelled, m') \<Longrightarrow> m' = m \<and> wi_cancelled (ma_entry m)"
  by (auto simp: look_def Let_def split: list.splits if_splits)

lemma look_failed: "look topic seq rec m \<noteq> Some (Inl (Failed e), m')"
  by (auto simp: look_def Let_def split: list.splits if_splits)

lemma look_value:
  "look topic seq rec m = Some (Inr v, m') \<Longrightarrow> \<not> aw_timedOut rec \<Longrightarrow> aw_payload rec = '''' \<Longrightarrow>
    \<exists>rec'. wi_awaits (ma_entry m') = gm_put seq rec' (wi_awaits (ma_entry m)) \<and> aw_done rec' \<and>
      v = (aw_payload rec', aw_timedOut rec') \<and> wi_steps (ma_entry m') = wi_steps (ma_entry m) \<and> ma_seq m' = ma_seq m \<and>
      wi_input (ma_entry m') = wi_input (ma_entry m)"
  by (auto simp: look_def Let_def put_await_def split: list.splits if_splits)

text \<open>The state the loop goes on with when there was nothing yet.\<close>

definition wake :: "awaitRecord \<Rightarrow> 'w machine \<Rightarrow> 'w machine" where
  "wake rec m =
     (case ma_arrivals m of
        a # rest \<Rightarrow> if arrives_at a < aw_deadline rec then tick (arrive a (m\<lparr>ma_arrivals := rest\<rparr>)) else tick (m\<lparr>ma_now := aw_deadline rec\<rparr>)
      | [] \<Rightarrow> tick (m\<lparr>ma_now := aw_deadline rec\<rparr>))"

lemma wait_loop_unfold:
  "wait_loop topic seq rec m =
     (case look topic seq rec m of Some found \<Rightarrow> found | None \<Rightarrow> wait_loop topic seq rec (wake rec m))"
  by (subst wait_loop.simps) (simp add: wake_def split: option.split list.split)

lemma wake_resume [simp]: "wake rec (resume s m) = resume s (wake rec m)"
  by (simp add: wake_def split: list.split)

lemma wake_concluded: "wi_running (ma_entry m) \<Longrightarrow> concluded (ma_entry (wake rec m)) = concluded (ma_entry m)"
  by (auto simp: wake_def concluded_def arrive_def signal_entry_def cancel_entry_def Let_def split: list.split arrival.split)

lemma wake_records [simp]: "wi_steps (ma_entry (wake rec m)) = wi_steps (ma_entry m)"
  "wi_awaits (ma_entry (wake rec m)) = wi_awaits (ma_entry m)" "ma_seq (wake rec m) = ma_seq m"
  "wi_input (ma_entry (wake rec m)) = wi_input (ma_entry m)" "wi_running (ma_entry (wake rec m)) = wi_running (ma_entry m)"
  by (auto simp: wake_def split: list.split)

lemma wait_loop_induct [case_names loop]:
  assumes loop: "\<And>m. (look topic seq rec m = None \<Longrightarrow> P (wake rec m)) \<Longrightarrow> P m"
  shows "P m"
proof (induction m rule: wf_induct_rule [OF wf_measures [of "[\<lambda>m. length (ma_arrivals m), \<lambda>m. nat (aw_deadline rec - ma_now m)]"]])
  case (1 m)
  show ?case
  proof (rule loop)
    assume "look topic seq rec m = None"
    then have "ma_now m < aw_deadline rec" by (rule look_None)
    then show "P (wake rec m)" by (intro 1) (auto simp: wake_def split: list.split)
  qed
qed

definition quiet :: "awaitRecord \<Rightarrow> bool" where
  "quiet rec \<longleftrightarrow> \<not> aw_done rec \<and> \<not> aw_timedOut rec \<and> aw_payload rec = ''''"

definition awaits_ok :: "wf_instance \<Rightarrow> bool" where
  "awaits_ok en \<longleftrightarrow> (\<forall>s rec. gm_get (wi_awaits en) s = Some rec \<and> \<not> aw_done rec \<longrightarrow> quiet rec)"

text \<open>What a process keeps of the records: steps, and waits that are done.\<close>

definition grows :: "'w machine \<Rightarrow> 'w machine \<Rightarrow> bool" where
  "grows m m' \<longleftrightarrow> (\<forall>n rec. gm_get (wi_steps (ma_entry m)) n = Some rec \<longrightarrow> gm_get (wi_steps (ma_entry m')) n = Some rec) \<and>
     (\<forall>s rec. gm_get (wi_awaits (ma_entry m)) s = Some rec \<and> aw_done rec \<longrightarrow> gm_get (wi_awaits (ma_entry m')) s = Some rec) \<and>
     wi_input (ma_entry m') = wi_input (ma_entry m) \<and> wi_running (ma_entry m') = wi_running (ma_entry m) \<and>
     (wi_running (ma_entry m) \<longrightarrow> concluded (ma_entry m') = concluded (ma_entry m)) \<and>
     (awaits_ok (ma_entry m) \<longrightarrow> awaits_ok (ma_entry m'))"

lemma grows_refl [simp]: "grows m m"
  by (simp add: grows_def)

lemma grows_trans: "grows m m' \<Longrightarrow> grows m' m'' \<Longrightarrow> grows m m''"
  by (simp add: grows_def)

lemma grows_step: "grows m m' \<Longrightarrow> gm_get (wi_steps (ma_entry m)) n = Some rec \<Longrightarrow> gm_get (wi_steps (ma_entry m')) n = Some rec"
  by (simp add: grows_def)

lemma grows_await:
  "grows m m' \<Longrightarrow> gm_get (wi_awaits (ma_entry m)) s = Some rec \<Longrightarrow> aw_done rec \<Longrightarrow> gm_get (wi_awaits (ma_entry m')) s = Some rec"
  by (simp add: grows_def)

lemma wait_keeps:
  "wait_loop topic seq rec m = (x, m') \<Longrightarrow> wi_steps (ma_entry m') = wi_steps (ma_entry m) \<and> ma_seq m' = ma_seq m \<and>
    wi_input (ma_entry m') = wi_input (ma_entry m) \<and> wi_running (ma_entry m') = wi_running (ma_entry m) \<and>
    (wi_running (ma_entry m) \<longrightarrow> concluded (ma_entry m') = concluded (ma_entry m))"
proof (induction m rule: wait_loop_induct [of topic seq rec])
  case (loop m)
  show ?case
  proof (cases "look topic seq rec m")
    case None
    then show ?thesis using loop by (auto simp: wait_loop_unfold [of topic seq rec m] wake_concluded)
  next
    case (Some a)
    then show ?thesis using loop.prems
      by (auto simp: wait_loop_unfold [of topic seq rec m] look_def Let_def put_await_def concluded_def split: if_splits list.splits)
  qed
qed

lemma wait_error:
  "wait_loop topic seq rec m = (Inl e, m') \<Longrightarrow> wi_awaits (ma_entry m') = wi_awaits (ma_entry m) \<and>
    (e = EngineStopped \<and> stopped m' \<and> \<not> wi_cancelled (ma_entry m') \<or> e = EngineCancelled \<and> wi_cancelled (ma_entry m')) \<and>
    wait_loop topic seq rec (resume s m') = wait_loop topic seq rec (resume s m)"
proof (induction m rule: wait_loop_induct [of topic seq rec])
  case (loop m)
  show ?case
  proof (cases "look topic seq rec m")
    case None
    then have "look topic seq rec (resume s m) = None" by (simp add: look_resume)
    then have "wait_loop topic seq rec (resume s m) = wait_loop topic seq rec (resume s (wake rec m))"
      by (simp add: wait_loop_unfold [of topic seq rec "resume s m"])
    then show ?thesis using loop None by (simp add: wait_loop_unfold [of topic seq rec m])
  next
    case (Some a)
    then have "look topic seq rec m = Some (Inl e, m')" using loop.prems by (simp add: wait_loop_unfold [of topic seq rec m])
    then show ?thesis by (cases e) (auto dest: look_stopped look_cancelled simp: look_failed)
  qed
qed

lemma wait_value:
  "wait_loop topic seq rec m = (Inr v, m') \<Longrightarrow> quiet rec \<Longrightarrow>
    \<exists>rec'. wi_awaits (ma_entry m') = gm_put seq rec' (wi_awaits (ma_entry m)) \<and> aw_done rec' \<and> v = (aw_payload rec', aw_timedOut rec')"
proof (induction m rule: wait_loop_induct [of topic seq rec])
  case (loop m)
  show ?case
  proof (cases "look topic seq rec m")
    case None
    then show ?thesis using loop by (simp add: wait_loop_unfold [of topic seq rec m])
  next
    case (Some a)
    then have "look topic seq rec m = Some (Inr v, m')" using loop.prems by (simp add: wait_loop_unfold [of topic seq rec m])
    then show ?thesis using loop.prems(2) look_value [of topic seq rec m v m'] by (auto simp: quiet_def)
  qed
qed

text \<open>A wait that was not stopped ends in the same way whatever the life of the process.\<close>

lemma wait_resume:
  "wait_loop topic seq rec m = (x, m') \<Longrightarrow> x \<noteq> Inl EngineStopped \<Longrightarrow> wait_loop topic seq rec (resume s m) = (x, resume s m')"
proof (induction m rule: wait_loop_induct [of topic seq rec])
  case (loop m)
  show ?case
  proof (cases "look topic seq rec m")
    case None
    then have "look topic seq rec (resume s m) = None" by (simp add: look_resume)
    then show ?thesis using loop None
      by (simp add: wait_loop_unfold [of topic seq rec "resume s m"] wait_loop_unfold [of topic seq rec m])
  next
    case (Some a)
    then have "look topic seq rec m = Some (x, m')" using loop.prems by (simp add: wait_loop_unfold [of topic seq rec m])
    then have "look topic seq rec (resume s m) = Some (x, resume s m')" using loop.prems(2) by (simp add: look_resume)
    then show ?thesis by (simp add: wait_loop_unfold [of topic seq rec "resume s m"])
  qed
qed

subsection \<open>Operations that can be made again\<close>

text \<open>
  Made again after its effect, an operation answers the same and changes nothing. Its errors are typed
  problems or plain ones: of another error a record keeps the text alone.
\<close>

definition repeatable :: "('w, err, 'a) op \<Rightarrow> bool" where
  "repeatable g \<longleftrightarrow> (\<forall>w. g (snd (g w)) = g w \<and> (\<forall>e. fst (g w) = Inl e \<longrightarrow> as_Details e \<noteq> None \<or> e = Plain (Error e)))"

definition recordable :: "('w, err, doc) op \<Rightarrow> bool" where
  "recordable g \<longleftrightarrow> (\<forall>w. g (snd (g w)) = g w \<and> (\<forall>e. fst (g w) = Inl e \<longrightarrow> e = Plain (Error e)))"

lemma recordable_outcome: "repeatable g \<Longrightarrow> recordable (record_outcome c g)"
proof -
  have world: "snd (record_outcome c g w) = snd (g w)" for w
    by (simp add: record_outcome_def split: prod.split sum.split option.split)
  have same: "g w = g w' \<Longrightarrow> record_outcome c g w = record_outcome c g w'" for w w'
    by (simp add: record_outcome_def)
  have raw: "fst (record_outcome c g w) = Inl e \<Longrightarrow> fst (g w) = Inl e \<and> as_Details e = None" for w e
    by (auto simp: record_outcome_def split: prod.splits sum.splits option.splits)
  assume g: "repeatable g"
  then have "record_outcome c g (snd (g w)) = record_outcome c g w" for w by (intro same) (simp add: repeatable_def)
  moreover have "fst (record_outcome c g w) = Inl e \<Longrightarrow> e = Plain (Error e)" for w e
    using raw [of w e] g by (force simp: repeatable_def)
  ultimately show ?thesis by (simp add: recordable_def world)
qed

definition repeatable_ops :: "'w Operations \<Rightarrow> bool" where
  "repeatable_ops ops \<longleftrightarrow> (\<forall>i x. repeatable (ops_Prepare ops i x)) \<and> (\<forall>i x. repeatable (ops_ExecuteTurn ops i x)) \<and>
     (\<forall>i x. repeatable (ops_RecordDecision ops i x)) \<and> (\<forall>i x. repeatable (ops_ExecuteAction ops i x)) \<and>
     (\<forall>i x. repeatable (ops_OpenDelegation ops i x)) \<and> (\<forall>i x. repeatable (ops_ExecuteDelegateTurn ops i x)) \<and>
     (\<forall>i x. repeatable (ops_OpenInput ops i x)) \<and> (\<forall>i x. repeatable (ops_ReadInput ops i x)) \<and>
     (\<forall>i x. repeatable (ops_ExpireInterrupt ops i x)) \<and> (\<forall>i x. repeatable (ops_FinalizeCandidate ops i x)) \<and>
     (\<forall>i x. repeatable (ops_ResolveReview ops i x)) \<and> (\<forall>i x. repeatable (ops_ReadApproval ops i x)) \<and>
     (\<forall>i x. repeatable (ops_Revise ops i x)) \<and> (\<forall>i x. repeatable (ops_Commit ops i x)) \<and>
     (\<forall>i x. repeatable (ops_Terminalize ops i x))"

lemma repeatable_opsD:
  assumes "repeatable_ops ops"
  shows "repeatable (ops_Prepare ops i a1)" "repeatable (ops_ExecuteTurn ops i a2)" "repeatable (ops_RecordDecision ops i a3)"
    "repeatable (ops_ExecuteAction ops i a4)" "repeatable (ops_OpenDelegation ops i a5)"
    "repeatable (ops_ExecuteDelegateTurn ops i a6)" "repeatable (ops_OpenInput ops i a7)" "repeatable (ops_ReadInput ops i a8)"
    "repeatable (ops_ExpireInterrupt ops i a9)" "repeatable (ops_FinalizeCandidate ops i a10)"
    "repeatable (ops_ResolveReview ops i a11)" "repeatable (ops_ReadApproval ops i a12)" "repeatable (ops_Revise ops i a13)"
    "repeatable (ops_Commit ops i a14)" "repeatable (ops_Terminalize ops i a15)"
  using assms by (simp_all add: repeatable_ops_def)

primrec sound :: "('w, 'r) prog \<Rightarrow> bool" where
  "sound (Return r) = True"
| "sound (Step n g k) = (recordable g \<and> (\<forall>x. sound (k x)))"
| "sound (AwaitSignal tp d k) = (\<forall>x. sound (k x))"

lemma sound_bind: "sound p \<Longrightarrow> (\<And>x. sound (f x)) \<Longrightarrow> sound (bind p f)"
  by (induction p) auto

lemma sound_step: "repeatable g \<Longrightarrow> sound (step c n g)"
  by (simp add: step_def recordable_outcome)

lemma sound_await [simp]: "sound (await tp d)"
  by (simp add: await_def)

lemma sound_leave: "sound p \<Longrightarrow> sound (leave p)"
  by (auto simp: leave_def intro!: sound_bind)

text \<open>The operations of the workflow's own call sites.\<close>

lemma sound_terminal: "repeatable_ops (rc_ops r) \<Longrightarrow> sound (terminal r turn kind details)"
  by (auto simp: terminal_def Let_def intro!: sound_bind sound_step repeatable_opsD split: sum.split)

lemma sound_fail: "repeatable_ops (rc_ops r) \<Longrightarrow> sound (wf_fail r turn details)" "repeatable_ops (rc_ops r) \<Longrightarrow> sound (halt r turn h)"
  by (simp_all add: wf_fail_def halt_def sound_terminal)

lemma sound_expire: "repeatable_ops (rc_ops r) \<Longrightarrow> sound (expire r turn w i kind v)"
  by (auto simp: expire_def Let_def intro!: sound_bind sound_step repeatable_opsD)

lemmas sound_intros = sound_bind sound_step sound_leave sound_terminal sound_fail sound_expire repeatable_opsD

lemma sound_await_input: "repeatable_ops (rc_ops r) \<Longrightarrow> sound (await_input r turn i w timeout)"
proof (induction "maximumWakes - w" arbitrary: w timeout rule: less_induct)
  case less
  show ?case
    by (subst await_input.simps)
      (auto simp: Let_def intro!: sound_intros less diff_less_mono2 split: sum.split option.split prod.split)
qed

lemma sound_await_approval: "repeatable_ops (rc_ops r) \<Longrightarrow> sound (await_approval r turn i w timeout)"
proof (induction "maximumWakes - w" arbitrary: w timeout rule: less_induct)
  case less
  show ?case
    by (subst await_approval.simps)
      (auto simp: Let_def intro!: sound_intros less diff_less_mono2 split: sum.split option.split prod.split)
qed

lemma sound_commit_hold: "repeatable_ops (rc_ops r) \<Longrightarrow> sound (commit_hold r turn i d w v)"
proof (induction "MaximumCommitWakes - w" arbitrary: w v rule: less_induct)
  case less
  show ?case
    by (subst commit_hold.simps)
      (auto simp: Let_def intro!: sound_intros less diff_less_mono2 split: sum.split option.split prod.split)
qed

lemma sound_delegate_turns: "repeatable_ops (rc_ops r) \<Longrightarrow> sound (delegate_turns r turn phase opened request n carry)"
proof (induction "nat (do_TurnLimit opened) - n" arbitrary: n carry rule: less_induct)
  case less
  show ?case
    by (subst delegate_turns.simps)
      (auto simp: Let_def intro!: sound_intros less diff_less_mono2 split: sum.split option.split prod.split)
qed

lemma sound_revising: "repeatable_ops (rc_ops r) \<Longrightarrow> sound (revising r turn reason b reviewReason carry)"
  by (auto simp: revising_def revise_def Let_def intro!: sound_intros split: sum.split option.split)

lemma sound_on_approved: "repeatable_ops (rc_ops r) \<Longrightarrow> sound (on_approved r turn i d carry)"
  by (auto simp: on_approved_def commit_def Let_def intro!: sound_intros sound_commit_hold sound_revising split: sum.split)

lemma sound_on_review: "repeatable_ops (rc_ops r) \<Longrightarrow> sound (on_review r turn finalized review carry)"
  by (auto simp: on_review_def awaitApproval_def Let_def
      intro!: sound_intros sound_await_approval sound_on_approved sound_revising split: sum.split)

lemma sound_on_decision: "repeatable_ops (rc_ops r) \<Longrightarrow> sound (on_decision r turn phase d carry)"
  by (auto simp: on_decision_def on_refuse_def on_tool_call_def on_delegate_def on_need_input_def on_final_def
      awaitInput_def Let_def intro!: sound_intros sound_await_input sound_delegate_turns sound_on_review
      split: sum.split option.split DecisionKind.split)

lemma sound_one_turn: "repeatable_ops (rc_ops r) \<Longrightarrow> sound (one_turn r turn phase carry)"
  by (auto simp: one_turn_def Let_def intro!: sound_intros sound_on_decision split: sum.split option.split)

lemma sound_turns: "repeatable_ops (rc_ops r) \<Longrightarrow> sound (turns r limit turn phase carry)"
proof (induction "nat limit - turn" arbitrary: turn phase carry rule: less_induct)
  case less
  show ?case
    by (subst turns.simps) (auto simp: Let_def intro!: sound_intros sound_one_turn less diff_less_mono2 split: sum.split prod.split)
qed

lemma sound_workflow: "repeatable_ops ops \<Longrightarrow> sound (AgentRunWorkflow ops input)"
  by (auto simp: AgentRunWorkflow_def Let_def intro!: sound_intros sound_turns split: sum.split option.split)

subsection \<open>Programs over the records of a stopped process\<close>

text \<open>
  \<open>unmade en p\<close>: none of the steps of \<open>p\<close> is recorded. \<open>coherent\<close>: the recorded calls are the first ones
  of the path, and nothing after the first that is not recorded is.
\<close>

primrec unmade :: "wf_instance \<Rightarrow> ('w, 'r) prog \<Rightarrow> bool" where
  "unmade en (Return r) = True"
| "unmade en (Step n g k) = (gm_get (wi_steps en) n = None \<and> (\<forall>x. unmade en (k x)))"
| "unmade en (AwaitSignal tp d k) = (\<forall>x. unmade en (k x))"

primrec coherent :: "wf_instance \<Rightarrow> nat \<Rightarrow> ('w, 'r) prog \<Rightarrow> bool" where
  "coherent en s (Return r) = True"
| "coherent en s (Step n g k) =
     (case gm_get (wi_steps en) n of None \<Rightarrow> (\<forall>x. unmade en (k x)) | Some rec \<Rightarrow> coherent en s (k (replayed_step rec)))"
| "coherent en s (AwaitSignal tp d k) =
     (case gm_get (wi_awaits en) s of
        None \<Rightarrow> (\<forall>x. unmade en (k x))
      | Some rec \<Rightarrow> if aw_done rec then coherent en (Suc s) (k (Inr (aw_payload rec, aw_timedOut rec)))
                    else (\<forall>x. unmade en (k x)))"

definition open_wait :: "wf_instance \<Rightarrow> nat \<Rightarrow> bool" where
  "open_wait en s \<longleftrightarrow> \<not> (\<exists>rec. gm_get (wi_awaits en) s = Some rec \<and> aw_done rec)"

lemma coherent_open: "open_wait en s \<Longrightarrow> coherent en s (AwaitSignal tp d k) = (\<forall>x. unmade en (k x))"
  by (auto simp: open_wait_def split: option.split)

lemma unmade_cong: "wi_steps en = wi_steps en' \<Longrightarrow> unmade en p = unmade en' p"
  by (induction p) auto

lemma unmade_put:
  "ranked Q b p \<Longrightarrow> place l = Some q \<Longrightarrow> q < b \<Longrightarrow> unmade en p \<Longrightarrow>
    wi_steps en' = gm_put (label_name l) rec (wi_steps en) \<Longrightarrow> unmade en' p"
proof (induction p arbitrary: b)
  case (Step n g k)
  then obtain l' q' where l': "label_name l' = n" "place l' = Some q'" "b \<le> q'" "\<forall>x. ranked Q (Suc q') (k x)"
    by auto
  have "label_name l \<noteq> n" using label_name_inject [of l l'] l' Step.prems(2,3) by auto
  moreover have "unmade en' (k x)" for x
    using Step.IH [of _ "Suc q'"] l'(3,4) Step.prems by (simp add: less_Suc_eq_le)
  ultimately show ?case using Step.prems by (simp add: gm_get_put)
qed auto

lemma unmade_coherent: "unmade en p \<Longrightarrow> coherent en s p"
  by (induction p arbitrary: s) (auto split: option.split)

definition halted :: "wf_err \<Rightarrow> 'w machine \<Rightarrow> bool" where
  "halted e m \<longleftrightarrow> (if wi_cancelled (ma_entry m) then e = EngineCancelled else e = EngineStopped \<and> stopped m)"

lemma halted_resume: "halted e m \<Longrightarrow> e \<noteq> EngineStopped \<Longrightarrow> halted e (resume s m)"
  by (simp add: halted_def split: if_splits)

text \<open>A stopped or cancelled process makes no record and touches nothing.\<close>

lemma run_halted: "quits e p \<Longrightarrow> unmade (ma_entry m) p \<Longrightarrow> halted e m \<Longrightarrow> run p m = (answer e p, m)"
  by (induction p) (auto simp: host_Step_def halted_def split: if_splits)

lemma step_cases:
  assumes run: "host_Step n g m = (x, m1)" and g: "recordable g"
  obtains (replayed) rec where "gm_get (wi_steps (ma_entry m)) n = Some rec" "x = replayed_step rec" "m1 = m"
  | (halted) e where "gm_get (wi_steps (ma_entry m)) n = None" "x = Inl e" "halted e m1" "ma_entry m1 = ma_entry m" "ma_seq m1 = ma_seq m"
      "host_Step n g (resume s m1) = host_Step n g (resume s m)"
      "e \<noteq> EngineStopped \<Longrightarrow> host_Step n g (resume s m) = (x, resume s m1)"
  | (made) rec where "gm_get (wi_steps (ma_entry m)) n = None" "x = replayed_step rec"
      "wi_steps (ma_entry m1) = gm_put n rec (wi_steps (ma_entry m))" "grows m m1" "ma_seq m1 = ma_seq m"
      "host_Step n g (resume s m) = (x, resume s m1)"
proof (cases "gm_get (wi_steps (ma_entry m)) n")
  case (Some rec)
  then show ?thesis using run by (intro replayed [of rec]) (simp_all add: host_Step_def)
next
  case None
  consider "wi_cancelled (ma_entry m) \<or> stopped m" | "\<not> wi_cancelled (ma_entry m)" "\<not> stopped m" by blast
  then show ?thesis
  proof cases
    case 1
    then show ?thesis using run None
      by (intro halted [of "if wi_cancelled (ma_entry m) then EngineCancelled else EngineStopped"])
        (auto simp: host_Step_def halted_def split: if_splits)
  next
    case 2
    obtain r w where gw: "g (ma_world m) = (r, w)" by (cases "g (ma_world m)")
    have again: "g w = (r, w)" using g gw by (metis recordable_def snd_conv)
    show ?thesis
    proof (cases "ma_life m = Some 0")
      case True
      then have "x = Inl EngineStopped" "m1 = m\<lparr>ma_world := w, ma_late := False\<rparr>"
        using run None 2 gw by (simp_all add: host_Step_def Let_def)
      then show ?thesis using None 2 gw again True
        by (intro halted [of EngineStopped]) (simp_all add: host_Step_def halted_def stopped_def resume_def Let_def)
    next
      case False
      then have x: "x = map_sum Failed id r" and m1: "m1 = record_step n r (m\<lparr>ma_world := w\<rparr>)"
        using run None 2 gw by (simp_all add: host_Step_def Let_def)
      have plain: "r = Inl e \<Longrightarrow> e = Plain (Error e)" for e using g gw by (metis recordable_def fst_conv)
      define rec where "rec = (case r of
            Inl e \<Rightarrow> \<lparr>sr_output = \<lparr>sd_Value = None, sd_Problem = None\<rparr>, sr_failed = True, sr_reason = Error e\<rparr>
          | Inr out \<Rightarrow> \<lparr>sr_output = out, sr_failed = False, sr_reason = ''''\<rparr>)"
      have "wi_steps (ma_entry m1) = gm_put n rec (wi_steps (ma_entry m))"
        "wi_awaits (ma_entry m1) = wi_awaits (ma_entry m)" "ma_seq m1 = ma_seq m"
        "wi_input (ma_entry m1) = wi_input (ma_entry m)" "wi_running (ma_entry m1) = wi_running (ma_entry m)"
        "concluded (ma_entry m1) = concluded (ma_entry m)"
        by (simp_all add: m1 record_step_def rec_def Let_def concluded_def)
      moreover from this have "grows m m1" using None by (auto simp: grows_def gm_get_put awaits_ok_def)
      moreover have "replayed_step rec = x" using plain by (cases r) (auto simp: rec_def x replayed_step_def)
      moreover have "host_Step n g (resume s m) = (x, resume s m1)" using None 2 gw by (simp add: host_Step_def x m1)
      ultimately show ?thesis using None by (intro made [of rec]) simp_all
    qed
  qed
qed

lemma await_cases:
  assumes run: "host_AwaitSignal tp d m = (x, m1)" and ok: "awaits_ok (ma_entry m)"
  obtains (replayed) rec where "gm_get (wi_awaits (ma_entry m)) (ma_seq m) = Some rec" "aw_done rec"
      "x = Inr (aw_payload rec, aw_timedOut rec)" "m1 = m\<lparr>ma_seq := Suc (ma_seq m)\<rparr>"
  | (halted) e where "open_wait (ma_entry m) (ma_seq m)" "open_wait (ma_entry m1) (ma_seq m)"
      "x = Inl e" "halted e m1"
      "wi_steps (ma_entry m1) = wi_steps (ma_entry m)" "grows m m1" "ma_seq m1 = Suc (ma_seq m)"
      "host_AwaitSignal tp d (resume (ma_seq m) m1) = host_AwaitSignal tp d (resume (ma_seq m) m)"
      "e \<noteq> EngineStopped \<Longrightarrow> host_AwaitSignal tp d (resume (ma_seq m) m) = (x, resume (ma_seq m1) m1)"
  | (made) rec where "open_wait (ma_entry m) (ma_seq m)"
      "gm_get (wi_awaits (ma_entry m1)) (ma_seq m) = Some rec" "aw_done rec" "x = Inr (aw_payload rec, aw_timedOut rec)"
      "wi_steps (ma_entry m1) = wi_steps (ma_entry m)" "grows m m1" "ma_seq m1 = Suc (ma_seq m)"
      "host_AwaitSignal tp d (resume (ma_seq m) m) = (x, resume (ma_seq m1) m1)"
proof (cases "\<exists>rec. gm_get (wi_awaits (ma_entry m)) (ma_seq m) = Some rec \<and> aw_done rec")
  case True
  then show ?thesis using run by (auto simp: host_AwaitSignal_def Let_def intro: replayed)
next
  case False
  define fresh where "fresh = \<lparr>aw_deadline = ma_now m + d, aw_done = False, aw_timedOut = False, aw_payload = ''''\<rparr>"
  define rec where "rec = (case gm_get (wi_awaits (ma_entry m)) (ma_seq m) of None \<Rightarrow> fresh | Some rec \<Rightarrow> rec)"
  define m0 where "m0 = (let m0 = m\<lparr>ma_seq := Suc (ma_seq m)\<rparr> in
    case gm_get (wi_awaits (ma_entry m)) (ma_seq m) of None \<Rightarrow> put_await (ma_seq m) fresh m0 | Some rec \<Rightarrow> m0)"
  have quiet: "quiet rec" using ok False by (auto simp: rec_def awaits_ok_def quiet_def fresh_def split: option.split)
  have wait: "wait_loop tp (ma_seq m) rec m0 = (x, m1)"
    using run False by (auto simp: host_AwaitSignal_def Let_def rec_def m0_def fresh_def split: option.splits)
  have again: "host_AwaitSignal tp d (resume (ma_seq m) m) = wait_loop tp (ma_seq m) rec (resume (Suc (ma_seq m)) m0)"
    using False by (auto simp: host_AwaitSignal_def Let_def rec_def m0_def fresh_def split: option.splits)
  have m0: "gm_get (wi_awaits (ma_entry m0)) (ma_seq m) = Some rec" "wi_steps (ma_entry m0) = wi_steps (ma_entry m)"
    "ma_seq m0 = Suc (ma_seq m)" "wi_input (ma_entry m0) = wi_input (ma_entry m)"
    "wi_running (ma_entry m0) = wi_running (ma_entry m)" "concluded (ma_entry m0) = concluded (ma_entry m)"
    "gm_get (wi_awaits (ma_entry m0)) s = (if s = ma_seq m then Some rec else gm_get (wi_awaits (ma_entry m)) s)" for s
    by (auto simp: m0_def rec_def Let_def put_await_def gm_get_put concluded_def split: option.split)
  note keeps = wait_keeps [OF wait]
  have unopened: "open_wait (ma_entry m) (ma_seq m)" using False by (simp add: open_wait_def)
  show ?thesis
  proof (cases x)
    case (Inl e)
    note err = wait_error [OF wait [unfolded Inl]]
    have get1: "gm_get (wi_awaits (ma_entry m1)) s = (if s = ma_seq m then Some rec else gm_get (wi_awaits (ma_entry m)) s)" for s
      using err m0(7) by simp
    have "gm_get (wi_awaits (ma_entry m)) s = Some r \<and> aw_done r \<longrightarrow> gm_get (wi_awaits (ma_entry m1)) s = Some r" for s r
      using False by (auto simp: get1)
    moreover have "awaits_ok (ma_entry m1)" using ok quiet by (auto simp: awaits_ok_def get1)
    ultimately have "grows m m1" using m0(2-6) keeps by (simp add: grows_def)
    moreover have "host_AwaitSignal tp d (resume (ma_seq m) m1) = host_AwaitSignal tp d (resume (ma_seq m) m)"
      using err m0 quiet unfolding again by (simp add: host_AwaitSignal_def Let_def quiet_def)
    moreover have "e \<noteq> EngineStopped \<Longrightarrow> host_AwaitSignal tp d (resume (ma_seq m) m) = (x, resume (ma_seq m1) m1)"
      using wait_resume [OF wait] m0 keeps unfolding again Inl by simp
    moreover have "halted e m1" using err by (auto simp: halted_def)
    moreover have "open_wait (ma_entry m1) (ma_seq m)" using quiet by (simp add: open_wait_def get1 quiet_def)
    moreover have "wi_steps (ma_entry m1) = wi_steps (ma_entry m)" "ma_seq m1 = Suc (ma_seq m)" using keeps m0(2,3) by simp_all
    ultimately show ?thesis using halted [of e] unopened Inl by blast
  next
    case (Inr v)
    from wait_value [OF wait [unfolded Inr] quiet] obtain rec' where
      rec': "wi_awaits (ma_entry m1) = gm_put (ma_seq m) rec' (wi_awaits (ma_entry m0))" "aw_done rec'"
        "v = (aw_payload rec', aw_timedOut rec')" by blast
    have get1: "gm_get (wi_awaits (ma_entry m1)) s = (if s = ma_seq m then Some rec' else gm_get (wi_awaits (ma_entry m)) s)" for s
      using rec'(1) m0(7) by (simp add: gm_get_put)
    have "gm_get (wi_awaits (ma_entry m)) s = Some r \<and> aw_done r \<longrightarrow> gm_get (wi_awaits (ma_entry m1)) s = Some r" for s r
      using False by (auto simp: get1)
    moreover have "awaits_ok (ma_entry m1)" using ok rec'(2) by (auto simp: awaits_ok_def get1)
    ultimately have "grows m m1" using m0(2-6) keeps by (simp add: grows_def)
    moreover have "host_AwaitSignal tp d (resume (ma_seq m) m) = (x, resume (ma_seq m1) m1)"
      using wait_resume [OF wait] m0 keeps unfolding again Inr by simp
    ultimately show ?thesis using unopened keeps m0(2,3) rec' Inr by (intro made [of rec']) (simp_all add: gm_get_put)
  qed
qed

text \<open>
  What a process that stopped left is a beginning of what an uninterrupted one makes: resumed, it goes on
  to the same end.
\<close>

lemma run_resume:
  "ranked Q b p \<Longrightarrow> gives_up p \<Longrightarrow> sound p \<Longrightarrow> awaits_ok (ma_entry m) \<Longrightarrow> coherent (ma_entry m) (ma_seq m) p \<Longrightarrow>
    run p m = (r, m') \<Longrightarrow>
    grows m m' \<and> coherent (ma_entry m') (ma_seq m) p \<and> run p (resume (ma_seq m) m') = run p (resume (ma_seq m) m) \<and>
    (r \<noteq> Inl EngineStopped \<longrightarrow> run p (resume (ma_seq m) m) = (r, resume (ma_seq m') m'))"
proof (induction p arbitrary: b m)
  case (Return x)
  then show ?case by auto
next
  case (Step n g k)
  obtain x m1 where host: "host_Step n g m = (x, m1)" by (cases "host_Step n g m")
  with Step.prems have rest: "run (k x) m1 = (r, m')" by simp
  from Step.prems obtain l q where l: "label_name l = n" "place l = Some q" "\<forall>x. ranked Q (Suc q) (k x)" by auto
  have "recordable g" using Step.prems by simp
  with host show ?case
  proof (cases rule: step_cases [where s = "ma_seq m"])
    case (replayed rec)
    then have "coherent (ma_entry m1) (ma_seq m1) (k x)" using Step.prems by simp
    note IH = Step.IH [OF rangeI spec [OF l(3)] _ _ _ this rest]
    from replayed IH Step.prems have "grows m m'" by simp
    then have "gm_get (wi_steps (ma_entry m')) n = Some rec" using replayed by (simp add: grows_step)
    then show ?thesis using IH Step.prems replayed by (auto simp: host_Step_def)
  next
    case (halted e)
    have q: "quits e (k x)" "answer e (k x) = Inl e" using Step.prems(2) halted(2) by simp_all
    have un: "\<forall>x. unmade (ma_entry m1) (k x)" using Step.prems halted by simp
    have inert: "run (k x) m1 = (answer e (k x), m1)"
      "e \<noteq> EngineStopped \<Longrightarrow> run (k x) (resume s m1) = (answer e (k x), resume s m1)" for s
      using run_halted [OF q(1) _ halted(3)] run_halted [OF q(1) _ halted_resume [OF halted(3)]] un by simp_all
    from inert(1) have m': "m' = m1" "r = Inl e" using rest q by simp_all
    then show ?thesis using halted un inert q by (auto simp: grows_def awaits_ok_def)
  next
    case (made rec)
    have "unmade (ma_entry m) (k x)" using Step.prems made by simp
    then have "unmade (ma_entry m1) (k x)" using unmade_put l made by blast
    note IH = Step.IH [OF rangeI spec [OF l(3)] _ _ _ unmade_coherent [OF this] rest]
    have IH: "grows m1 m'" "coherent (ma_entry m') (ma_seq m) (k x)" "run (k x) (resume (ma_seq m) m') = run (k x) (resume (ma_seq m) m1)"
        "r \<noteq> Inl EngineStopped \<Longrightarrow> run (k x) (resume (ma_seq m) m1) = (r, resume (ma_seq m') m')"
      using IH Step.prems made by (auto simp: grows_def)
    have "gm_get (wi_steps (ma_entry m')) n = Some rec" using IH(1) made by (simp add: grows_step gm_get_put)
    then show ?thesis using IH made grows_trans [OF made(4) IH(1)] by (simp add: host_Step_def)
  qed
next
  case (AwaitSignal tp d k)
  obtain x m1 where host: "host_AwaitSignal tp d m = (x, m1)" by (cases "host_AwaitSignal tp d m")
  with AwaitSignal.prems have rest: "run (k x) m1 = (r, m')" by simp
  have rk: "ranked Q b (k x)" using AwaitSignal.prems by simp
  from host AwaitSignal.prems(4) show ?case
  proof (cases rule: await_cases)
    case (replayed rec)
    then have "coherent (ma_entry m1) (ma_seq m1) (k x)" using AwaitSignal.prems by simp
    note IH = AwaitSignal.IH [OF rangeI rk _ _ _ this rest]
    have grow: "grows m1 m'" using IH AwaitSignal.prems replayed by simp
    then have "gm_get (wi_awaits (ma_entry m')) (ma_seq m) = Some rec" using replayed by (simp add: grows_await)
    moreover have "grows m m'" using grow replayed by (simp add: grows_def)
    ultimately show ?thesis using IH AwaitSignal.prems replayed by (auto simp: host_AwaitSignal_def Let_def)
  next
    case (halted e)
    have q: "quits e (k x)" "answer e (k x) = Inl e" using AwaitSignal.prems(2) halted(3) by simp_all
    have un: "\<forall>x. unmade (ma_entry m1) (k x)" using AwaitSignal.prems(5) halted(1)
      by (simp add: coherent_open unmade_cong [OF halted(5)] del: coherent.simps)
    have inert: "run (k x) m1 = (answer e (k x), m1)"
      "e \<noteq> EngineStopped \<Longrightarrow> run (k x) (resume s m1) = (answer e (k x), resume s m1)" for s
      using run_halted [OF q(1) _ halted(4)] run_halted [OF q(1) _ halted_resume [OF halted(4)]] un by simp_all
    from inert(1) have m': "m' = m1" "r = Inl e" using rest q by simp_all
    then show ?thesis using halted un inert q by (simp add: coherent_open [OF halted(2)] del: coherent.simps)
  next
    case (made rec)
    have "unmade (ma_entry m1) (k x)" using AwaitSignal.prems(5) made(1)
      by (simp add: coherent_open unmade_cong [OF made(5)] del: coherent.simps)
    note IH = AwaitSignal.IH [OF rangeI rk _ _ _ unmade_coherent [OF this] rest]
    have IH: "grows m1 m'" "coherent (ma_entry m') (Suc (ma_seq m)) (k x)"
        "run (k x) (resume (Suc (ma_seq m)) m') = run (k x) (resume (Suc (ma_seq m)) m1)"
        "r \<noteq> Inl EngineStopped \<Longrightarrow> run (k x) (resume (Suc (ma_seq m)) m1) = (r, resume (ma_seq m') m')"
      using IH AwaitSignal.prems made by (auto simp: grows_def)
    have "gm_get (wi_awaits (ma_entry m')) (ma_seq m) = Some rec" using IH(1) made by (simp add: grows_await)
    then show ?thesis using IH made grows_trans [OF made(6) IH(1)] by (simp add: host_AwaitSignal_def Let_def)
  qed
qed

section \<open>Crashes\<close>

text \<open>A new process takes up an execution that has not ended, and may stop in its turn.\<close>

definition restart :: "nat option \<times> bool \<Rightarrow> 'w machine \<Rightarrow> 'w machine" where
  "restart c m = (let entry = ma_entry m in m\<lparr>ma_entry := entry\<lparr>wi_running := True\<rparr>, ma_life := fst c, ma_late := snd c\<rparr>)"

primrec survive :: "'w Operations \<Rightarrow> (nat option \<times> bool) list \<Rightarrow> 'w machine \<Rightarrow> 'w machine" where
  "survive ops [] m = m"
| "survive ops (c # cs) m = survive ops cs (if concluded (ma_entry m) then m else drive ops (restart c m))"

text \<open>What is left when a process that does not stop comes last.\<close>

definition ends :: "'w Operations \<Rightarrow> 'w machine \<Rightarrow> 'w machine" where
  "ends ops m = resume 0 (survive ops [(None, False)] m)"

definition takes_up :: "'w Operations \<Rightarrow> 'w machine \<Rightarrow> bool" where
  "takes_up ops m \<longleftrightarrow> concluded (ma_entry m) \<or>
     awaits_ok (ma_entry m) \<and> coherent (ma_entry m) 0 (AgentRunWorkflow ops (wi_input (ma_entry m)))"

lemma coherent_cong: "wi_steps en = wi_steps en' \<Longrightarrow> wi_awaits en = wi_awaits en' \<Longrightarrow> coherent en s p = coherent en' s p"
  by (induction p arbitrary: s) (auto split: option.split cong: unmade_cong)

lemma awaits_ok_cong: "wi_awaits en = wi_awaits en' \<Longrightarrow> awaits_ok en = awaits_ok en'"
  by (simp add: awaits_ok_def)

lemma conclude_simps [simp]: "wi_steps (conclude r en) = wi_steps en" "wi_awaits (conclude r en) = wi_awaits en"
  "wi_input (conclude r en) = wi_input en" "\<not> wi_running (conclude r en)"
  by (simp_all add: conclude_def Let_def split: sum.split wf_err.split)

lemma concluded_conclude: "\<not> concluded en \<Longrightarrow> concluded (conclude r en) \<longleftrightarrow> r \<noteq> Inl EngineStopped"
  by (auto simp: concluded_def conclude_def Let_def split: sum.split wf_err.split)

lemma ends_cases: "concluded (ma_entry m) \<Longrightarrow> ends ops m = resume 0 m"
  "\<not> concluded (ma_entry m) \<Longrightarrow> ends ops m = resume 0 (drive ops (restart (None, False) m))"
  by (simp_all add: ends_def)

lemma drive_restart:
  "run (AgentRunWorkflow ops (wi_input (ma_entry m))) ((restart c m)\<lparr>ma_seq := 0\<rparr>) = (r, m') \<Longrightarrow>
    drive ops (restart c m) = m'\<lparr>ma_entry := conclude r (ma_entry m')\<rparr>"
  by (simp add: drive_def restart_def Let_def)

lemma restart_stopped:
  assumes "wi_running (ma_entry m)"
  shows "(restart (None, False) (m\<lparr>ma_entry := conclude (Inl EngineStopped) (ma_entry m)\<rparr>))\<lparr>ma_seq := 0\<rparr> = resume 0 m"
proof -
  have "(ma_entry m)\<lparr>wi_running := True\<rparr> = ma_entry m" using assms by simp
  then show ?thesis by (simp add: restart_def conclude_def resume_def Let_def)
qed

lemma drive_again:
  assumes ops: "repeatable_ops ops" and m: "takes_up ops m" "\<not> concluded (ma_entry m)"
  shows "takes_up ops (drive ops (restart c m)) \<and> ends ops (drive ops (restart c m)) = ends ops m"
proof -
  define p where "p = AgentRunWorkflow ops (wi_input (ma_entry m))"
  define m0 where "m0 = (restart c m)\<lparr>ma_seq := 0\<rparr>"
  obtain r m' where run: "run p m0 = (r, m')" by (cases "run p m0")
  have m0: "wi_steps (ma_entry m0) = wi_steps (ma_entry m)" "wi_awaits (ma_entry m0) = wi_awaits (ma_entry m)"
    "wi_input (ma_entry m0) = wi_input (ma_entry m)" "wi_running (ma_entry m0)" "ma_seq m0 = 0" "\<not> concluded (ma_entry m0)"
    using m by (simp_all add: m0_def restart_def Let_def concluded_def)
  have "awaits_ok (ma_entry m0)" "coherent (ma_entry m0) (ma_seq m0) p"
    using m m0 coherent_cong [OF m0(1,2), of 0 p] awaits_ok_cong [OF m0(2)] by (simp_all add: takes_up_def p_def)
  from run_resume [OF ranked_workflow gives_up_workflow sound_workflow [OF ops] this [unfolded p_def] run [unfolded p_def]]
  have again: "grows m0 m'" "coherent (ma_entry m') 0 p" "run p (resume 0 m') = run p (resume 0 m0)"
    "r \<noteq> Inl EngineStopped \<Longrightarrow> run p (resume 0 m0) = (r, resume (ma_seq m') m')"
    by (simp_all add: p_def m0)
  have m': "wi_input (ma_entry m') = wi_input (ma_entry m)" "wi_running (ma_entry m')" "\<not> concluded (ma_entry m')"
    "awaits_ok (ma_entry m')"
    using again(1) m0 \<open>awaits_ok (ma_entry m0)\<close> by (simp_all add: grows_def)
  have d: "drive ops (restart c m) = m'\<lparr>ma_entry := conclude r (ma_entry m')\<rparr>"
    using run m0(3) by (simp add: drive_def p_def m0_def)
  have fresh: "(restart (None, False) m)\<lparr>ma_seq := 0\<rparr> = resume 0 m0" by (simp add: m0_def restart_def resume_def Let_def)
  show ?thesis
  proof (cases "r = Inl EngineStopped")
    case True
    then have "(restart (None, False) (drive ops (restart c m)))\<lparr>ma_seq := 0\<rparr> = resume 0 m'"
      using restart_stopped [OF m'(2)] by (simp add: d)
    moreover have "\<not> concluded (ma_entry (drive ops (restart c m)))" "wi_input (ma_entry (drive ops (restart c m))) = wi_input (ma_entry m)"
      using True m' by (simp_all add: d concluded_conclude)
    moreover have "takes_up ops (drive ops (restart c m))"
      using again(2) m'(1,4) coherent_cong [of "conclude r (ma_entry m')" "ma_entry m'" 0 p]
        awaits_ok_cong [of "conclude r (ma_entry m')" "ma_entry m'"] by (simp add: takes_up_def d p_def)
    moreover have "drive ops (restart (None, False) (drive ops (restart c m))) = drive ops (restart (None, False) m)"
      using calculation again(3) fresh by (cases "run p (resume 0 m0)") (simp add: drive_restart p_def)
    ultimately show ?thesis using m(2) by (simp add: ends_cases)
  next
    case False
    then have "drive ops (restart (None, False) m) = (resume (ma_seq m') m')\<lparr>ma_entry := conclude r (ma_entry m')\<rparr>"
      using again(4) fresh by (simp add: drive_restart p_def)
    moreover have "concluded (ma_entry (drive ops (restart c m)))" using False m'(3) by (simp add: d concluded_conclude)
    ultimately show ?thesis using m(2) by (simp add: ends_cases takes_up_def d)
  qed
qed

lemma survive_ends:
  "repeatable_ops ops \<Longrightarrow> takes_up ops m \<Longrightarrow> ends ops (survive ops cs m) = ends ops m"
  by (induction cs arbitrary: m) (simp_all add: drive_again)

section \<open>Reaching an end\<close>

text \<open>A program whose calls are never answered that the engine stopped does not say so itself.\<close>

primrec honest :: "('w, wf_err + 'a) prog \<Rightarrow> bool" where
  "honest (Return r) = (r \<noteq> Inl EngineStopped)"
| "honest (Step n g k) = (\<forall>x. x \<noteq> Inl EngineStopped \<longrightarrow> honest (k x))"
| "honest (AwaitSignal tp d k) = (\<forall>x. x \<noteq> Inl EngineStopped \<longrightarrow> honest (k x))"

lemma honest_bind: "honest p \<Longrightarrow> (\<And>x. x \<noteq> Inl EngineStopped \<Longrightarrow> honest (f x)) \<Longrightarrow> honest (bind p f)"
  by (induction p) auto

lemma honest_step [simp]: "honest (step c n g)"
  by (auto simp: step_def read_outcome_def split: sum.split option.split)

lemma honest_await [simp]: "honest (await tp d)"
  by (auto simp: await_def)

lemma ended_stopped [simp]: "ended x = Inl EngineStopped \<longleftrightarrow> x = Inl EngineStopped"
  by (simp add: ended_def split: sum.split)

lemma superseded_stopped [simp]: "superseded r \<noteq> Inl e"
  by (simp add: superseded_def)

lemma honest_leave [intro, simp]: "honest p \<Longrightarrow> honest (leave p)"
  by (auto simp: leave_def intro!: honest_bind)

lemma honest_terminal [simp]: "honest (terminal r turn kind details)" "honest (wf_fail r turn details')" "honest (halt r turn h)"
  by (auto simp: wf_fail_def halt_def terminal_def Let_def intro!: honest_bind split: sum.split)

lemma honest_expire [simp]: "honest (expire r turn w i kind v)"
  by (auto simp: expire_def superseded_def Let_def intro!: honest_bind split: sum.split)

lemma honest_await_input [simp]: "honest (await_input r turn i w timeout)"
proof (induction "maximumWakes - w" arbitrary: w timeout rule: less_induct)
  case less
  show ?case
    by (subst await_input.simps)
      (auto simp: Let_def intro!: honest_bind less diff_less_mono2 split: sum.split option.split prod.split)
qed

lemma honest_await_approval [simp]: "honest (await_approval r turn i w timeout)"
proof (induction "maximumWakes - w" arbitrary: w timeout rule: less_induct)
  case less
  show ?case
    by (subst await_approval.simps)
      (auto simp: Let_def intro!: honest_bind less diff_less_mono2 split: sum.split option.split prod.split)
qed

lemma honest_commit_hold [simp]: "honest (commit_hold r turn i d w v)"
proof (induction "MaximumCommitWakes - w" arbitrary: w v rule: less_induct)
  case less
  show ?case
    by (subst commit_hold.simps)
      (auto simp: Let_def intro!: honest_bind less diff_less_mono2 split: sum.split option.split prod.split)
qed

lemma honest_delegate_turns [simp]: "honest (delegate_turns r turn phase opened request n carry)"
proof (induction "nat (do_TurnLimit opened) - n" arbitrary: n carry rule: less_induct)
  case less
  show ?case
    by (subst delegate_turns.simps)
      (auto simp: Let_def intro!: honest_bind less diff_less_mono2 split: sum.split option.split prod.split)
qed

lemma honest_revising [simp]: "honest (revising r turn reason b reviewReason carry)"
  by (auto simp: revising_def revise_def Let_def intro!: honest_bind split: sum.split option.split)

lemma honest_on_approved [simp]: "honest (on_approved r turn i d carry)"
  by (auto simp: on_approved_def commit_def Let_def intro!: honest_bind split: sum.split)

lemma honest_on_review [simp]: "honest (on_review r turn finalized review carry)"
  by (auto simp: on_review_def awaitApproval_def Let_def intro!: honest_bind split: sum.split)

lemma honest_on_decision [simp]: "honest (on_decision r turn phase d carry)"
  by (auto simp: on_decision_def on_refuse_def on_tool_call_def on_delegate_def on_need_input_def on_final_def nil_panic_def
      awaitInput_def Let_def map_sum_def intro!: honest_bind split: sum.split option.split DecisionKind.split)

lemma honest_one_turn [simp]: "honest (one_turn r turn phase carry)"
  by (auto simp: one_turn_def Let_def intro!: honest_bind split: sum.split option.split)

lemma honest_turns [simp]: "honest (turns r limit turn phase carry)"
proof (induction "nat limit - turn" arbitrary: turn phase carry rule: less_induct)
  case less
  show ?case
    by (subst turns.simps) (auto simp: Let_def intro!: honest_bind less diff_less_mono2 split: sum.split prod.split)
qed

lemma honest_workflow: "honest (AgentRunWorkflow ops input)"
  by (auto simp: AgentRunWorkflow_def Let_def intro!: honest_bind split: sum.split option.split)

text \<open>A process that does not stop is never answered so.\<close>

lemma step_alive: "host_Step n g m = (x, m') \<Longrightarrow> ma_life m = None \<Longrightarrow> \<not> ma_late m \<Longrightarrow>
    x \<noteq> Inl EngineStopped \<and> ma_life m' = None \<and> \<not> ma_late m'"
  by (auto simp: host_Step_def stopped_def replayed_step_def record_step_def tick_def Let_def split: option.splits if_splits prod.splits sum.splits)

lemma wait_alive:
  "wait_loop topic seq rec m = (x, m') \<Longrightarrow> ma_life m = None \<Longrightarrow> \<not> ma_late m \<Longrightarrow>
    x \<noteq> Inl EngineStopped \<and> ma_life m' = None \<and> \<not> ma_late m'"
proof (induction m rule: wait_loop_induct [of topic seq rec])
  case (loop m)
  show ?case
  proof (cases "look topic seq rec m")
    case None
    then show ?thesis using loop
      by (simp add: wait_loop_unfold [of topic seq rec m] wake_def tick_def split: list.splits if_splits)
  next
    case (Some a)
    then show ?thesis using loop.prems
      by (auto simp: wait_loop_unfold [of topic seq rec m] look_def Let_def put_await_def stopped_def split: if_splits list.splits)
  qed
qed

lemma await_alive: "host_AwaitSignal tp d m = (x, m') \<Longrightarrow> ma_life m = None \<Longrightarrow> \<not> ma_late m \<Longrightarrow>
    x \<noteq> Inl EngineStopped \<and> ma_life m' = None \<and> \<not> ma_late m'"
  by (auto simp: host_AwaitSignal_def put_await_def Let_def split: option.splits if_splits dest: wait_alive)

lemma run_alive: "honest p \<Longrightarrow> run p m = (r, m') \<Longrightarrow> ma_life m = None \<Longrightarrow> \<not> ma_late m \<Longrightarrow> r \<noteq> Inl EngineStopped"
proof (induction p arbitrary: m)
  case (Step n g k)
  obtain x m1 where "host_Step n g m = (x, m1)" by (cases "host_Step n g m")
  with Step show ?case using step_alive [of n g m x m1] Step.IH [OF rangeI, of x m1] by simp
next
  case (AwaitSignal tp d k)
  obtain x m1 where "host_AwaitSignal tp d m = (x, m1)" by (cases "host_AwaitSignal tp d m")
  with AwaitSignal show ?case using await_alive [of tp d m x m1] AwaitSignal.IH [OF rangeI, of x m1] by simp
qed auto

lemma unmade_fresh: "wi_steps en = [] \<Longrightarrow> unmade en p"
  by (induction p) simp_all

lemma repeatable_once: "repeatable (once r i)"
  by (simp add: repeatable_def once_def)

lemma repeatable_demo: "repeatable_ops demo"
  by (simp add: repeatable_ops_def demo_def repeatable_once)

text \<open>The pipeline of one turn, and the reviewer's decision after half a second, delivered twice.\<close>

definition demo_machine :: "string list machine" where
  "demo_machine = \<lparr>ma_entry = new_instance demo_input, ma_world = [], ma_now = 0,
     ma_arrivals = [Deliver 500000000 ''approval:q'' ''y'' ''key'', Deliver 500000001 ''approval:q'' ''y'' ''key''],
     ma_seq = 0, ma_life = None, ma_late = False\<rparr>"

section \<open>Properties\<close>

text \<open>C1 (crashes are invisible). When every operation of the pipeline, made again, answers the same and changes
  nothing, a fresh execution survives any crashes: processes that stop after any number of records, or between an
  operation's effect and its record, leave an execution that a process that runs on brings to the same records,
  outcome, world and time as one uninterrupted process would have.\<close>

theorem crashes_are_invisible:
  assumes "repeatable_ops ops" and "wi_steps (ma_entry m) = []" and "wi_awaits (ma_entry m) = []"
  shows "ends ops (survive ops cs m) = ends ops m"
  using assms by (intro survive_ends) (simp_all add: takes_up_def awaits_ok_def unmade_coherent unmade_fresh)

theorem crashes_are_invisible_witness:
  "ends demo (survive demo [(Some 3, True), (Some 0, True), (Some 1, False)] demo_machine) = ends demo demo_machine \<and>
   map_option o_Terminal (wi_outcome (ma_entry (ends demo demo_machine))) = Some TerminalCompleted \<and>
   \<not> concluded (ma_entry (survive demo [(Some 3, True), (Some 0, True), (Some 1, False)] demo_machine))"
proof (intro conjI)
  show "ends demo (survive demo [(Some 3, True), (Some 0, True), (Some 1, False)] demo_machine) = ends demo demo_machine"
    by (rule crashes_are_invisible) (simp_all add: repeatable_demo demo_machine_def new_instance_def)
  show "map_option o_Terminal (wi_outcome (ma_entry (ends demo demo_machine))) = Some TerminalCompleted" by code_simp
  show "\<not> concluded (ma_entry (survive demo [(Some 3, True), (Some 0, True), (Some 1, False)] demo_machine))" by code_simp
qed

text \<open>C5 (an execution ends). A process that does not stop brings every execution, whatever was recorded
  before, whatever arrives and whatever the operations answer, to an outcome or to a failure.\<close>

theorem execution_ends: "concluded (ma_entry (ends ops m))"
proof (cases "concluded (ma_entry m)")
  case False
  obtain r m' where run: "run (AgentRunWorkflow ops (wi_input (ma_entry m))) ((restart (None, False) m)\<lparr>ma_seq := 0\<rparr>) = (r, m')"
    by (cases "run (AgentRunWorkflow ops (wi_input (ma_entry m))) ((restart (None, False) m)\<lparr>ma_seq := 0\<rparr>)")
  have "r \<noteq> Inl EngineStopped" by (rule run_alive [OF honest_workflow run]) (simp_all add: restart_def Let_def)
  then show ?thesis using False drive_restart [OF run]
    by (auto simp: ends_cases concluded_def conclude_def Let_def split: sum.split wf_err.split)
qed (simp add: ends_cases)

end
