(* ===== verification/Domain_Commit.thy ===== *)
theory Domain_Commit
  imports Runs
begin

text \<open>
  The submission journal of governed effects (\<open>src/internal/domaincommit/commit.go\<close>): an operation is recorded
  before it is sent, and moves through issuance and uncertainty to the decision of its owner. Every method of
  \<open>MemoryStore\<close> holds the store's lock for its whole body and is one step on the store. Lemmas: the status of an
  operation only moves forward (\<open>moved\<close>), a run has at most one undecided operation (\<open>store_inv\<close>).
\<close>

section \<open>Operations\<close>

record CommitScope =
  cs_WorkspaceID :: string
  cs_ProjectID :: string

datatype Status = Recorded | Issued | Awaiting | Escalated | Applied | ConflictStatus | RejectedStatus

record Operation =
  op_Scope :: CommitScope
  op_RunID :: string
  op_ID :: string
  op_AuthorizationID :: string
  op_AuthorizationJWS :: string
  op_ActionDigest :: string
  op_ArtifactDigest :: string
  op_ExpectedRevision :: string
  op_IdempotencyKey :: string
  op_RequestDigest :: string
  op_Status :: Status
  op_AuthorizationConsumed :: bool
  op_ReconcileAttempts :: uint64
  op_FirstUncertainAt :: time
  op_EscalatedAt :: time
  op_ResolvedBy :: string
  op_ResolutionBasis :: string
  op_CreatedAt :: time
  op_UpdatedAt :: time

definition decided :: "Status \<Rightarrow> bool" where
  "decided s \<longleftrightarrow> s = Applied \<or> s = ConflictStatus \<or> s = RejectedStatus"

definition undecided :: "Status \<Rightarrow> bool" where
  "undecided s \<longleftrightarrow> s = Recorded \<or> s = Issued \<or> s = Awaiting \<or> s = Escalated"

lemma undecided_iff: "undecided s \<longleftrightarrow> \<not> decided s"
  by (cases s) (simp_all add: decided_def undecided_def)

definition statusTransition :: "Status \<Rightarrow> Status \<Rightarrow> bool" where
  "statusTransition current target \<longleftrightarrow>
     (if current = target then True
      else case current of
        Recorded \<Rightarrow> target = Issued
      | Issued \<Rightarrow> target = Awaiting \<or> target = Escalated \<or> target = Applied \<or> target = ConflictStatus \<or> target = RejectedStatus
      | Awaiting \<Rightarrow> target = Escalated \<or> target = Applied \<or> target = ConflictStatus \<or> target = RejectedStatus
      | Escalated \<Rightarrow> target = Applied \<or> target = ConflictStatus \<or> target = RejectedStatus
      | _ \<Rightarrow> False)"

section \<open>The memory store\<close>

type_synonym MemoryStore = "Operation gomap"

definition NewMemoryStore :: MemoryStore where
  "NewMemoryStore = []"

definition operationKey :: "CommitScope \<Rightarrow> string \<Rightarrow> string" where
  "operationKey scope i = scoped_key (cs_WorkspaceID scope) (cs_ProjectID scope) i"

definition active_entry :: "CommitScope \<Rightarrow> string \<Rightarrow> Operation \<Rightarrow> bool" where
  "active_entry scope runID v \<longleftrightarrow> op_Scope v = scope \<and> op_RunID v = runID \<and> undecided (op_Status v)"

definition ActiveForRun :: "CommitScope \<Rightarrow> string \<Rightarrow> MemoryStore \<Rightarrow> Operation option" where
  "ActiveForRun scope runID s = find (active_entry scope runID) (map snd s)"

definition mem_Create :: "Operation \<Rightarrow> (MemoryStore, err, unit) op" where
  "mem_Create v s =
     (case ActiveForRun (op_Scope v) (op_RunID v) s of
        Some prior \<Rightarrow> (if prior = v then (Inr (), s) else (Inl (problem CodeIdempotencyConflict), s))
      | None \<Rightarrow>
          (case gm_get s (operationKey (op_Scope v) (op_ID v)) of
             Some prior \<Rightarrow> (if prior \<noteq> v then (Inl (problem CodeIdempotencyConflict), s) else (Inr (), s))
           | None \<Rightarrow> (Inr (), gm_put (operationKey (op_Scope v) (op_ID v)) v s)))"

definition updated :: "Status \<Rightarrow> time \<Rightarrow> bool \<Rightarrow> Operation \<Rightarrow> Operation" where
  "updated status now consumed v = v\<lparr>op_Status := status, op_UpdatedAt := now,
     op_AuthorizationConsumed := op_AuthorizationConsumed v \<or> consumed\<rparr>"

definition update_op :: "CommitScope \<Rightarrow> string \<Rightarrow> Status \<Rightarrow> time \<Rightarrow> bool \<Rightarrow> (MemoryStore, err, unit) op" where
  "update_op scope i status now consumed s =
     (case gm_get s (operationKey scope i) of
        None \<Rightarrow> (Inl (problem CodeResourceNotFound), s)
      | Some v \<Rightarrow>
          (if now < op_UpdatedAt v \<or> \<not> statusTransition (op_Status v) status \<or> consumed \<noteq> decided status
           then (Inl (problem CodeInvalidTransition), s)
           else (Inr (), gm_put (operationKey scope i) (updated status now consumed v) s)))"

definition mem_MarkIssued :: "CommitScope \<Rightarrow> string \<Rightarrow> time \<Rightarrow> (MemoryStore, err, unit) op" where
  "mem_MarkIssued scope i now = update_op scope i Issued now False"

definition mem_MarkAwaiting :: "CommitScope \<Rightarrow> string \<Rightarrow> time \<Rightarrow> (MemoryStore, err, unit) op" where
  "mem_MarkAwaiting scope i now = update_op scope i Awaiting now False"

definition mem_Finalize :: "CommitScope \<Rightarrow> string \<Rightarrow> Status \<Rightarrow> time \<Rightarrow> (MemoryStore, err, unit) op" where
  "mem_Finalize scope i status now = update_op scope i status now True"

definition counted :: "time \<Rightarrow> Operation \<Rightarrow> Operation" where
  "counted now v = v\<lparr>op_ReconcileAttempts := op_ReconcileAttempts v + 1,
     op_FirstUncertainAt := (if op_FirstUncertainAt v = 0 then now else op_FirstUncertainAt v), op_UpdatedAt := now\<rparr>"

definition mem_RecordReconcile :: "CommitScope \<Rightarrow> string \<Rightarrow> time \<Rightarrow> (MemoryStore, err, Operation) op" where
  "mem_RecordReconcile scope i now s =
     (case gm_get s (operationKey scope i) of
        None \<Rightarrow> (Inl (problem CodeResourceNotFound), s)
      | Some v \<Rightarrow>
          (if op_Status v \<noteq> Issued \<and> op_Status v \<noteq> Awaiting then (Inl (problem CodeInvalidTransition), s)
           else if now < op_UpdatedAt v then (Inl (problem CodeInvalidTransition), s)
           else (Inr (counted now v), gm_put (operationKey scope i) (counted now v) s)))"

definition mem_Escalate :: "CommitScope \<Rightarrow> string \<Rightarrow> time \<Rightarrow> (MemoryStore, err, unit) op" where
  "mem_Escalate scope i now s =
     (case gm_get s (operationKey scope i) of
        None \<Rightarrow> (Inl (problem CodeResourceNotFound), s)
      | Some v \<Rightarrow>
          (if op_Status v = Escalated then (Inr (), s)
           else case update_op scope i Escalated now False s of
             (Inl e, s) \<Rightarrow> (Inl e, s)
           | (Inr u, s) \<Rightarrow>
               (case gm_get s (operationKey scope i) of
                  None \<Rightarrow> (Inr (), s)
                | Some v \<Rightarrow> (Inr (), gm_put (operationKey scope i) (v\<lparr>op_EscalatedAt := now\<rparr>) s))))"

definition mem_Resolve :: "CommitScope \<Rightarrow> string \<Rightarrow> Status \<Rightarrow> string \<Rightarrow> string \<Rightarrow> time \<Rightarrow> (MemoryStore, err, Operation) op" where
  "mem_Resolve scope i result resolvedBy basis now s =
     (if \<not> decided result then (Inl (problem CodeInvalidTransition), s)
      else if resolvedBy = '''' \<or> basis = '''' then (Inl (problem CodeRequestInvalid), s)
      else case gm_get s (operationKey scope i) of
        None \<Rightarrow> (Inl (problem CodeResourceNotFound), s)
      | Some v \<Rightarrow>
          (if op_Status v \<noteq> Escalated
           then (if op_Status v = result \<and> op_ResolvedBy v = resolvedBy \<and> op_ResolutionBasis v = basis
                 then (Inr v, s) else (Inl (problem CodeInvalidTransition), s))
           else case update_op scope i result now True s of
             (Inl e, s) \<Rightarrow> (Inl e, s)
           | (Inr u, s) \<Rightarrow>
               (case gm_get s (operationKey scope i) of
                  None \<Rightarrow> (Inl (problem CodeResourceNotFound), s)
                | Some v \<Rightarrow>
                    (let v = v\<lparr>op_ResolvedBy := resolvedBy, op_ResolutionBasis := basis\<rparr>
                     in (Inr v, gm_put (operationKey scope i) v s)))))"

text \<open>The last created operation of a run, decided or not; of two created at once, the first visited.\<close>

fun latest :: "CommitScope \<Rightarrow> string \<Rightarrow> Operation list \<Rightarrow> Operation option \<Rightarrow> Operation option" where
  "latest scope runID [] found = found"
| "latest scope runID (v # vs) found =
     (if op_Scope v \<noteq> scope \<or> op_RunID v \<noteq> runID then latest scope runID vs found
      else latest scope runID vs (case found of None \<Rightarrow> Some v
        | Some l \<Rightarrow> if op_CreatedAt l < op_CreatedAt v then Some v else Some l))"

definition LatestForRun :: "CommitScope \<Rightarrow> string \<Rightarrow> MemoryStore \<Rightarrow> Operation option" where
  "LatestForRun scope runID s = latest scope runID (map snd s) None"

definition mem_Get :: "CommitScope \<Rightarrow> string \<Rightarrow> MemoryStore \<Rightarrow> err + Operation" where
  "mem_Get scope i s =
     (case gm_get s (operationKey scope i) of None \<Rightarrow> Inl (problem CodeResourceNotFound) | Some v \<Rightarrow> Inr v)"

section \<open>How operations evolve\<close>

text \<open>What no method ever changes of an operation, and the direction in which the rest moves.\<close>

fun rank :: "Status \<Rightarrow> nat" where
  "rank Recorded = 0" | "rank Issued = 1" | "rank Awaiting = 2" | "rank Escalated = 3" | "rank _ = 4"

lemma statusTransition_rank: "statusTransition a b \<longleftrightarrow> a = b \<or> a = Recorded \<and> b = Issued \<or> a \<noteq> Recorded \<and> rank a < rank b"
  by (cases a; cases b) (simp_all add: statusTransition_def)

definition same_identity :: "Operation \<Rightarrow> Operation \<Rightarrow> bool" where
  "same_identity a b \<longleftrightarrow> op_Scope b = op_Scope a \<and> op_RunID b = op_RunID a \<and> op_ID b = op_ID a \<and>
     op_AuthorizationID b = op_AuthorizationID a \<and> op_AuthorizationJWS b = op_AuthorizationJWS a \<and>
     op_ActionDigest b = op_ActionDigest a \<and> op_ArtifactDigest b = op_ArtifactDigest a \<and>
     op_ExpectedRevision b = op_ExpectedRevision a \<and> op_IdempotencyKey b = op_IdempotencyKey a \<and>
     op_RequestDigest b = op_RequestDigest a \<and> op_CreatedAt b = op_CreatedAt a"

definition op_le :: "Operation \<Rightarrow> Operation \<Rightarrow> bool" where
  "op_le a b \<longleftrightarrow> same_identity a b \<and> op_UpdatedAt a \<le> op_UpdatedAt b \<and>
     (op_Status a = op_Status b \<or> rank (op_Status a) < rank (op_Status b)) \<and>
     (decided (op_Status a) \<longrightarrow> op_ResolvedBy b = op_ResolvedBy a \<and> op_ResolutionBasis b = op_ResolutionBasis a)"

lemma decided_rank: "decided s \<longleftrightarrow> rank s = 4"
  by (cases s) (simp_all add: decided_def)

lemma rank_le: "rank s \<le> 4"
  by (cases s) simp_all

lemma op_le_refl [simp]: "op_le a a"
  by (simp add: op_le_def same_identity_def)

lemma op_le_trans: "op_le a b \<Longrightarrow> op_le b c \<Longrightarrow> op_le a c"
  using rank_le [of "op_Status b"] by (auto simp: op_le_def same_identity_def decided_rank)

lemma op_le_decided: "op_le a b \<Longrightarrow> decided (op_Status a) \<Longrightarrow> op_Status b = op_Status a"
  using rank_le [of "op_Status b"] by (auto simp: op_le_def decided_rank)

lemma op_le_undecided: "op_le a b \<Longrightarrow> undecided (op_Status b) \<Longrightarrow> undecided (op_Status a)"
  using rank_le [of "op_Status b"] by (auto simp: op_le_def decided_rank undecided_iff)

text \<open>An operation whose own record is consistent: consumed exactly when decided, resolved only on evidence.\<close>

definition op_ok :: "Operation \<Rightarrow> bool" where
  "op_ok v \<longleftrightarrow> (op_AuthorizationConsumed v \<longleftrightarrow> decided (op_Status v)) \<and>
     (op_ResolvedBy v \<noteq> '''' \<longrightarrow> op_ResolutionBasis v \<noteq> '''' \<and> decided (op_Status v))"

definition fresh_operation :: "Operation \<Rightarrow> bool" where
  "fresh_operation v \<longleftrightarrow> op_Status v = Recorded \<and> \<not> op_AuthorizationConsumed v \<and> op_ResolvedBy v = ''''"

lemma fresh_operation_ok: "fresh_operation v \<Longrightarrow> op_ok v"
  by (simp add: fresh_operation_def op_ok_def decided_def)

text \<open>What one method may do: nothing, add one operation, or move one forward.\<close>

definition moved :: "MemoryStore \<Rightarrow> MemoryStore \<Rightarrow> bool" where
  "moved s t \<longleftrightarrow> (gm_ok s \<longrightarrow> gm_ok t) \<and> (gm_get t = gm_get s \<or>
     (\<exists>k v w. gm_get s k = Some v \<and> gm_get t = (gm_get s)(k \<mapsto> w) \<and> op_le v w \<and> (op_ok v \<longrightarrow> op_ok w)))"

lemma moved_refl [simp]: "moved s s"
  by (simp add: moved_def)

lemma moved_put: "gm_get s k = Some v \<Longrightarrow> op_le v w \<Longrightarrow> (op_ok v \<Longrightarrow> op_ok w) \<Longrightarrow> moved s (gm_put k w s)"
  unfolding moved_def by (intro conjI impI disjI2 exI [of _ k] exI [of _ v] exI [of _ w]) (auto simp: gm_ok_put update_conv)

lemma moved_put_put: "gm_get s k = Some v \<Longrightarrow> op_le v w \<Longrightarrow> (op_ok v \<Longrightarrow> op_ok w) \<Longrightarrow> moved s (gm_put k w (gm_put k u s))"
  unfolding moved_def by (intro conjI impI disjI2 exI [of _ k] exI [of _ v] exI [of _ w]) (auto simp: gm_ok_put update_conv)

lemma updated_forward:
  assumes "statusTransition (op_Status v) status" and "\<not> now < op_UpdatedAt v" and "consumed = decided status"
  shows "op_le v (updated status now consumed v) \<and> (op_ok v \<longrightarrow> op_ok (updated status now consumed v))"
  using assms by (cases "op_Status v"; cases status) (auto simp: op_le_def same_identity_def updated_def statusTransition_rank op_ok_def decided_def)

lemma moved_update: "moved s (snd (update_op scope i status now consumed s))"
  using updated_forward by (auto simp: update_op_def split: option.splits intro!: moved_put)

lemma moved_RecordReconcile: "moved s (snd (mem_RecordReconcile scope i now s))"
  by (auto simp: mem_RecordReconcile_def counted_def op_le_def same_identity_def op_ok_def decided_def split: option.splits intro!: moved_put)

lemma update_opE:
  assumes "update_op scope i status now consumed s = (Inr u, t)"
  obtains v where "gm_get s (operationKey scope i) = Some v" and "statusTransition (op_Status v) status"
    and "\<not> now < op_UpdatedAt v" and "consumed = decided status"
    and "t = gm_put (operationKey scope i) (updated status now consumed v) s"
  using assms by (auto simp: update_op_def split: option.splits if_splits)

lemma update_op_Inl: "update_op scope i status now consumed s = (Inl e, t) \<Longrightarrow> t = s"
  by (auto simp: update_op_def split: option.splits if_splits)

lemma moved_Escalate: "moved s (snd (mem_Escalate scope i now s))"
proof -
  have "moved s (gm_put (operationKey scope i) (w\<lparr>op_EscalatedAt := now\<rparr>) t)"
    if u: "update_op scope i Escalated now False s = (Inr u, t)" and g: "gm_get t (operationKey scope i) = Some w" for u t w
    using u
  proof (rule update_opE)
    fix v
    assume v: "gm_get s (operationKey scope i) = Some v" "statusTransition (op_Status v) Escalated" "\<not> now < op_UpdatedAt v"
      "False = decided Escalated" "t = gm_put (operationKey scope i) (updated Escalated now False v) s"
    have "w = updated Escalated now False v" using g v(5) by (simp add: gm_get_put)
    show ?thesis unfolding v(5) \<open>w = _\<close>
      by (rule moved_put_put [OF v(1)]) (use updated_forward [OF v(2-4)] in \<open>simp_all add: op_le_def same_identity_def op_ok_def\<close>)
  qed
  then show ?thesis using moved_update [of s scope i Escalated now False]
    by (auto simp: mem_Escalate_def split: option.splits prod.splits sum.splits dest: update_op_Inl)
qed

lemma moved_Resolve: "moved s (snd (mem_Resolve scope i result resolvedBy basis now s))"
proof -
  have "moved s (gm_put (operationKey scope i) (w\<lparr>op_ResolvedBy := resolvedBy, op_ResolutionBasis := basis\<rparr>) t)"
    if u: "update_op scope i result now True s = (Inr u, t)" and g: "gm_get t (operationKey scope i) = Some w"
      and e: "gm_get s (operationKey scope i) = Some v" "op_Status v = Escalated" and b: "basis \<noteq> ''''" for u t v w
    using u
  proof (rule update_opE)
    fix x
    assume x: "gm_get s (operationKey scope i) = Some x" "statusTransition (op_Status x) result" "\<not> now < op_UpdatedAt x"
      "True = decided result" "t = gm_put (operationKey scope i) (updated result now True x) s"
    have w: "w = updated result now True x" "x = v" using g x(1,5) e(1) by (simp_all add: gm_get_put)
    show ?thesis unfolding x(5) w(1)
      by (rule moved_put_put [OF x(1)]) (use updated_forward [OF x(2-4)] x(4) e(2) w b in
        \<open>simp_all add: op_le_def same_identity_def op_ok_def updated_def decided_rank\<close>)
  qed
  then show ?thesis using moved_update [of s scope i result now True]
    by (auto simp: mem_Resolve_def Let_def split: option.splits prod.splits sum.splits if_splits dest: update_op_Inl)
qed

section \<open>Any sequence of calls\<close>

datatype store_call =
    CallCreate Operation
  | CallMarkIssued CommitScope string time
  | CallMarkAwaiting CommitScope string time
  | CallFinalize CommitScope string Status time
  | CallRecordReconcile CommitScope string time
  | CallEscalate CommitScope string time
  | CallResolve CommitScope string Status string string time

primrec call_store :: "store_call \<Rightarrow> MemoryStore \<Rightarrow> MemoryStore" where
  "call_store (CallCreate v) s = snd (mem_Create v s)"
| "call_store (CallMarkIssued scope i now) s = snd (mem_MarkIssued scope i now s)"
| "call_store (CallMarkAwaiting scope i now) s = snd (mem_MarkAwaiting scope i now s)"
| "call_store (CallFinalize scope i status now) s = snd (mem_Finalize scope i status now s)"
| "call_store (CallRecordReconcile scope i now) s = snd (mem_RecordReconcile scope i now s)"
| "call_store (CallEscalate scope i now) s = snd (mem_Escalate scope i now s)"
| "call_store (CallResolve scope i result by basis now) s = snd (mem_Resolve scope i result by basis now s)"

definition calls_store :: "store_call list \<Rightarrow> MemoryStore \<Rightarrow> MemoryStore" where
  "calls_store cs s = fold call_store cs s"

definition fresh_call :: "store_call \<Rightarrow> bool" where
  "fresh_call c \<longleftrightarrow> (case c of CallCreate v \<Rightarrow> fresh_operation v | _ \<Rightarrow> True)"

text \<open>The store: every operation under its own key, consistent, and at most one undecided operation of a run.\<close>

definition rival :: "Operation \<Rightarrow> Operation \<Rightarrow> bool" where
  "rival v w \<longleftrightarrow> undecided (op_Status v) \<and> active_entry (op_Scope v) (op_RunID v) w"

definition exclusive :: "('v \<Rightarrow> 'v \<Rightarrow> bool) \<Rightarrow> ('k \<Rightarrow> 'v option) \<Rightarrow> bool" where
  "exclusive R m \<longleftrightarrow> (\<forall>k l v w. m k = Some v \<longrightarrow> m l = Some w \<longrightarrow> R v w \<longrightarrow> k = l)"

definition store_inv :: "MemoryStore \<Rightarrow> bool" where
  "store_inv s \<longleftrightarrow> gm_ok s \<and> gm_all (\<lambda>k v. k = operationKey (op_Scope v) (op_ID v) \<and> op_ok v) s \<and> exclusive rival (gm_get s)"

lemma exclusive_replace:
  assumes "exclusive R m" and "m k = Some v" and "\<And>x. R x w \<Longrightarrow> R x v" and "\<And>x. R w x \<Longrightarrow> R v x"
  shows "exclusive R (m(k \<mapsto> w))"
  unfolding exclusive_def
proof (intro allI impI)
  fix i j x y
  assume "(m(k \<mapsto> w)) i = Some x" "(m(k \<mapsto> w)) j = Some y" "R x y"
  then show "i = j"
    using assms unfolding exclusive_def by (auto split: if_splits)
qed

lemma exclusive_add:
  assumes "exclusive R m" and "\<And>l x. m l = Some x \<Longrightarrow> \<not> R x v \<and> \<not> R v x"
  shows "exclusive R (m(k \<mapsto> v))"
  unfolding exclusive_def
proof (intro allI impI)
  fix i j x y
  assume "(m(k \<mapsto> v)) i = Some x" "(m(k \<mapsto> v)) j = Some y" "R x y"
  then show "i = j"
    using assms unfolding exclusive_def by (auto split: if_splits)
qed

lemma store_inv_New: "store_inv NewMemoryStore"
  by (simp add: store_inv_def NewMemoryStore_def exclusive_def)

lemma rival_active: "active_entry scope runID v \<Longrightarrow> active_entry scope runID w \<Longrightarrow> rival v w"
  by (auto simp: rival_def active_entry_def)

lemma rival_sym: "rival v w \<longleftrightarrow> rival w v"
  by (auto simp: rival_def active_entry_def)

lemma ActiveForRun_None: "gm_ok s \<Longrightarrow> ActiveForRun scope runID s = None \<longleftrightarrow> gm_all (\<lambda>k v. \<not> active_entry scope runID v) s"
  by (auto simp: ActiveForRun_def find_None_iff gm_all_set)

lemma ActiveForRun_Some:
  "gm_ok s \<Longrightarrow> ActiveForRun scope runID s = Some v \<Longrightarrow> active_entry scope runID v \<and> (\<exists>k. gm_get s k = Some v)"
  unfolding ActiveForRun_def by (auto simp: find_Some_iff gm_get_iff) (metis nth_mem prod.collapse)

lemma ActiveForRun_iff:
  assumes "store_inv s"
  shows "ActiveForRun scope runID s = Some v \<longleftrightarrow> gm_get s (operationKey (op_Scope v) (op_ID v)) = Some v \<and> active_entry scope runID v"
    (is "?l = ?r")
proof
  have ok: "gm_ok s" and keyed: "\<And>k v. gm_get s k = Some v \<Longrightarrow> k = operationKey (op_Scope v) (op_ID v)"
    using assms by (auto simp: store_inv_def gm_all_def)
  show ?r if ?l using ActiveForRun_Some [OF ok that] keyed by blast
  show ?l if r: ?r
  proof (cases "ActiveForRun scope runID s")
    case None
    with r show ?thesis using ok by (auto simp: ActiveForRun_None gm_all_def)
  next
    case (Some w)
    with ActiveForRun_Some [OF ok Some] obtain k where "active_entry scope runID w" "gm_get s k = Some w" by blast
    moreover from this r have "k = operationKey (op_Scope v) (op_ID v)"
      using assms unfolding store_inv_def exclusive_def by (metis rival_active)
    ultimately show ?thesis using Some r by simp
  qed
qed

lemma op_le_rival: "op_le v w \<Longrightarrow> rival w x \<Longrightarrow> rival v x"
  using op_le_undecided by (auto simp: rival_def active_entry_def op_le_def same_identity_def)

lemma moved_inv:
  assumes "moved s t" and "store_inv s"
  shows "store_inv t"
proof (cases "gm_get t = gm_get s")
  case True
  then show ?thesis using assms by (simp add: moved_def store_inv_def gm_all_def)
next
  case False
  then obtain k v w where m: "gm_get s k = Some v" "gm_get t = (gm_get s)(k \<mapsto> w)" "op_le v w" "op_ok v \<longrightarrow> op_ok w"
    and ok: "gm_ok t" using assms by (auto simp: moved_def store_inv_def)
  have "exclusive rival (gm_get t)" unfolding m(2)
    by (rule exclusive_replace [where v = v]) (use assms(2) m(1) op_le_rival [OF m(3)] rival_sym in \<open>auto simp: store_inv_def\<close>)
  moreover have "op_Scope w = op_Scope v" "op_ID w = op_ID v" using m(3) by (simp_all add: op_le_def same_identity_def)
  ultimately show ?thesis using m ok assms(2) unfolding store_inv_def gm_all_def by simp
qed

lemma create_inv:
  assumes "fresh_operation v" and "store_inv s"
  shows "store_inv (snd (mem_Create v s)) \<and> (snd (mem_Create v s) = s \<or>
    gm_get s (operationKey (op_Scope v) (op_ID v)) = None \<and>
    snd (mem_Create v s) = gm_put (operationKey (op_Scope v) (op_ID v)) v s)"
proof (cases "ActiveForRun (op_Scope v) (op_RunID v) s = None \<and> gm_get s (operationKey (op_Scope v) (op_ID v)) = None")
  case False
  then show ?thesis using assms(2) by (auto simp: mem_Create_def split: option.splits)
next
  case True
  have ok: "gm_ok s" using assms(2) by (simp add: store_inv_def)
  then have none: "gm_all (\<lambda>k w. \<not> active_entry (op_Scope v) (op_RunID v) w) s" using True by (simp add: ActiveForRun_None)
  have "exclusive rival ((gm_get s)(operationKey (op_Scope v) (op_ID v) \<mapsto> v))"
  proof (rule exclusive_add)
    fix l x
    assume "gm_get s l = Some x"
    then have "\<not> active_entry (op_Scope v) (op_RunID v) x" using none by (simp add: gm_all_def)
    then have "\<not> rival v x" by (simp add: rival_def)
    then show "\<not> rival x v \<and> \<not> rival v x" by (simp add: rival_sym)
  qed (use assms(2) in \<open>simp add: store_inv_def\<close>)
  then have "store_inv (gm_put (operationKey (op_Scope v) (op_ID v)) v s)"
    using assms(2) fresh_operation_ok [OF assms(1)] by (simp add: store_inv_def gm_ok_put gm_all_put update_conv')
  then show ?thesis using True by (simp add: mem_Create_def)
qed

lemma call_store_moved: "\<nexists>v. c = CallCreate v \<Longrightarrow> moved s (call_store c s)"
  by (cases c) (simp_all add: mem_MarkIssued_def mem_MarkAwaiting_def mem_Finalize_def moved_update moved_RecordReconcile moved_Escalate moved_Resolve)

lemma call_store_inv:
  assumes "fresh_call c" and "store_inv s"
  shows "store_inv (call_store c s) \<and> (\<forall>k v. gm_get s k = Some v \<longrightarrow> (\<exists>w. gm_get (call_store c s) k = Some w \<and> op_le v w))"
proof (cases "\<exists>v. c = CallCreate v")
  case True
  then obtain v where v: "c = CallCreate v" "fresh_operation v" using assms(1) by (auto simp: fresh_call_def)
  from create_inv [OF v(2) assms(2)] have "store_inv (call_store c s)" and
    "call_store c s = s \<or> gm_get s (operationKey (op_Scope v) (op_ID v)) = None \<and>
      call_store c s = gm_put (operationKey (op_Scope v) (op_ID v)) v s"
    unfolding v(1) call_store.simps by blast+
  then show ?thesis by (elim disjE) (auto simp: gm_get_put)
next
  case False
  then have m: "moved s (call_store c s)" by (rule call_store_moved)
  have "\<exists>w. gm_get (call_store c s) k = Some w \<and> op_le v w" if "gm_get s k = Some v" for k v
    using m that unfolding moved_def by (metis fun_upd_apply op_le_refl option.inject)
  with moved_inv [OF m assms(2)] show ?thesis by blast
qed

lemma calls_store_inv:
  assumes "list_all fresh_call cs" and "store_inv s"
  shows "store_inv (calls_store cs s) \<and> (\<forall>k v. gm_get s k = Some v \<longrightarrow> (\<exists>w. gm_get (calls_store cs s) k = Some w \<and> op_le v w))"
  using assms
proof (induction cs arbitrary: s)
  case (Cons c cs)
  then have "fresh_call c" "list_all fresh_call cs" by simp_all
  with call_store_inv [OF this(1) Cons.prems(2)] Cons.IH show ?case
    unfolding calls_store_def fold_Cons comp_def by (meson op_le_trans)
qed (simp add: calls_store_def)

section \<open>The theorems of the store\<close>

text \<open>C12 (one undecided operation). Whatever methods are called in whatever order on the journal of governed
  operations, a run has at most one operation that is not decided, \<open>ActiveForRun\<close> answers exactly this one, and an
  authorization is marked consumed exactly when its operation is decided.\<close>

theorem one_undecided_operation:
  assumes "list_all fresh_call cs" and "s = calls_store cs NewMemoryStore"
  shows "(gm_get s k = Some v \<and> gm_get s l = Some w \<and> op_Scope v = op_Scope w \<and> op_RunID v = op_RunID w \<and>
      undecided (op_Status v) \<and> undecided (op_Status w) \<longrightarrow> v = w) \<and>
    (ActiveForRun scope runID s = Some v \<longleftrightarrow> mem_Get scope (op_ID v) s = Inr v \<and> active_entry scope runID v) \<and>
    (gm_get s k = Some v \<longrightarrow> (op_AuthorizationConsumed v \<longleftrightarrow> decided (op_Status v)))"
proof -
  have inv: "store_inv s" using calls_store_inv [OF assms(1) store_inv_New] assms(2) by blast
  have "v = w" if "gm_get s k = Some v" "gm_get s l = Some w" "op_Scope v = op_Scope w" "op_RunID v = op_RunID w"
    "undecided (op_Status v)" "undecided (op_Status w)"
  proof -
    have "rival v w" using that by (simp add: rival_def active_entry_def)
    then have "k = l" using inv that(1,2) unfolding store_inv_def exclusive_def by blast
    then show ?thesis using that(1,2) by simp
  qed
  moreover have "ActiveForRun scope runID s = Some v \<longleftrightarrow> mem_Get scope (op_ID v) s = Inr v \<and> active_entry scope runID v"
    using ActiveForRun_iff [OF inv] by (auto simp: mem_Get_def active_entry_def split: option.splits)
  moreover have "gm_get s k = Some v \<Longrightarrow> op_ok v" using inv unfolding store_inv_def gm_all_def by blast
  ultimately show ?thesis by (auto simp: op_ok_def)
qed

definition demo_scope :: CommitScope where
  "demo_scope = \<lparr>cs_WorkspaceID = ''w'', cs_ProjectID = ''p''\<rparr>"

definition demo_operation :: Operation where
  "demo_operation = \<lparr>op_Scope = demo_scope, op_RunID = ''r'', op_ID = ''o'', op_AuthorizationID = ''a'', op_AuthorizationJWS = ''t'',
     op_ActionDigest = ''x'', op_ArtifactDigest = ''y'', op_ExpectedRevision = ''1'', op_IdempotencyKey = ''k'', op_RequestDigest = ''d'',
     op_Status = Recorded, op_AuthorizationConsumed = False, op_ReconcileAttempts = 0, op_FirstUncertainAt = 0, op_EscalatedAt = 0,
     op_ResolvedBy = '''', op_ResolutionBasis = '''', op_CreatedAt = 1, op_UpdatedAt = 1\<rparr>"

definition demo_calls :: "store_call list" where
  "demo_calls = [CallCreate demo_operation, CallFinalize demo_scope ''o'' Applied 2, CallMarkIssued demo_scope ''o'' 2,
     CallCreate (demo_operation\<lparr>op_ID := ''q''\<rparr>), CallRecordReconcile demo_scope ''o'' 3, CallEscalate demo_scope ''o'' 4]"

theorem one_undecided_operation_witness:
  "\<exists>v. ActiveForRun demo_scope ''r'' (calls_store demo_calls NewMemoryStore) = Some v \<and> op_Status v = Escalated \<and>
    op_ReconcileAttempts v = 1 \<and> mem_Get demo_scope (op_ID v) (calls_store demo_calls NewMemoryStore) = Inr v"
proof -
  have "list_all fresh_call demo_calls" by code_simp
  note c = one_undecided_operation [OF this refl]
  have "map_option (\<lambda>v. (op_Status v, op_ReconcileAttempts v)) (ActiveForRun demo_scope ''r'' (calls_store demo_calls NewMemoryStore))
      = Some (Escalated, 1)" by code_simp
  then obtain v where "ActiveForRun demo_scope ''r'' (calls_store demo_calls NewMemoryStore) = Some v"
    "op_Status v = Escalated" "op_ReconcileAttempts v = 1" by auto
  with c show ?thesis by blast
qed

text \<open>C13 (decisions are final). Between any two moments of the journal an operation keeps its identity, its status
  only moves forward, and once it is decided its outcome and the audit of who resolved it never change.\<close>

theorem decisions_are_final:
  assumes "list_all fresh_call cs" and "list_all fresh_call ds" and "gm_get (calls_store cs NewMemoryStore) k = Some v"
  shows "\<exists>w. gm_get (calls_store ds (calls_store cs NewMemoryStore)) k = Some w \<and> same_identity v w \<and>
    (op_Status w = op_Status v \<or> rank (op_Status v) < rank (op_Status w)) \<and>
    (decided (op_Status v) \<longrightarrow> op_Status w = op_Status v \<and> op_ResolvedBy w = op_ResolvedBy v \<and>
      op_ResolutionBasis w = op_ResolutionBasis v)"
proof -
  have "store_inv (calls_store cs NewMemoryStore)" using calls_store_inv [OF assms(1) store_inv_New] by blast
  from calls_store_inv [OF assms(2) this] assms(3) obtain w where
    w: "gm_get (calls_store ds (calls_store cs NewMemoryStore)) k = Some w" "op_le v w" by blast
  moreover have "decided (op_Status v) \<longrightarrow> op_Status w = op_Status v" using op_le_decided [OF w(2)] by blast
  ultimately show ?thesis unfolding op_le_def by (intro exI [of _ w]) auto
qed

theorem decisions_are_final_witness:
  "\<exists>w. gm_get (calls_store [CallFinalize demo_scope ''o'' RejectedStatus 9, CallResolve demo_scope ''o'' Applied ''eve'' ''none'' 9]
      (calls_store (demo_calls @ [CallResolve demo_scope ''o'' ConflictStatus ''bob'' ''ticket'' 5]) NewMemoryStore))
      (operationKey demo_scope ''o'') = Some w \<and> op_Status w = ConflictStatus \<and> op_ResolvedBy w = ''bob''"
proof -
  let ?cs = "demo_calls @ [CallResolve demo_scope ''o'' ConflictStatus ''bob'' ''ticket'' 5]"
  have a: "list_all fresh_call ?cs" by code_simp
  have b: "list_all fresh_call [CallFinalize demo_scope ''o'' RejectedStatus 9, CallResolve demo_scope ''o'' Applied ''eve'' ''none'' 9]"
    by code_simp
  have "map_option (\<lambda>v. (op_Status v, op_ResolvedBy v)) (gm_get (calls_store ?cs NewMemoryStore) (operationKey demo_scope ''o''))
      = Some (ConflictStatus, ''bob'')" by code_simp
  then obtain v where v: "gm_get (calls_store ?cs NewMemoryStore) (operationKey demo_scope ''o'') = Some v"
    "op_Status v = ConflictStatus" "op_ResolvedBy v = ''bob''" by (auto simp: map_option_eq_Some)
  from decisions_are_final [OF a b v(1)] v(2,3) show ?thesis by (auto simp: decided_def)
qed

end
