(* ===== verification/Journal.thy ===== *)
theory Journal
  imports Prelude Problem "HOL-Library.Multiset"
begin

text \<open>
  The receipt journal (\<open>src/internal/journal/journal.go\<close>): authority facts that are acknowledged only once
  they are retained, the in-memory store, and the reconstruction of a service from the retained facts.
  \<open>sha\<close> is SHA-256 on byte lists; what it answers is an argument. The in-memory \<open>List\<close> takes the order
  in which \<open>range\<close> visits the map as an argument.
\<close>

section \<open>Facts\<close>

datatype FactClass = FactCreate | FactInput | FactApproval | FactCancel | FactRetry | FactDiscard
  | FactAuthorization | FactDecision | FactPrivilegedAudit | FactOther string

definition Classes :: "FactClass list" where
  "Classes = [FactCreate, FactInput, FactApproval, FactCancel, FactRetry, FactDiscard, FactAuthorization,
     FactDecision, FactPrivilegedAudit]"

record Fact =
  f_ID :: string
  f_WorkspaceID :: string
  f_ProjectID :: string
  f_Class :: FactClass
  f_OperationOrder :: uint64
  f_Canonical :: string
  f_Digest :: string
  f_Projection :: string

definition knownClass :: "FactClass \<Rightarrow> bool" where
  "knownClass c \<longleftrightarrow> list_ex (\<lambda>candidate. c = candidate) Classes"

definition NewFact :: "(string \<Rightarrow> string) \<Rightarrow> string \<Rightarrow> string \<Rightarrow> string \<Rightarrow> FactClass \<Rightarrow> string \<Rightarrow> string \<Rightarrow> err + Fact" where
  "NewFact sha i w p c canonical projection =
     (if i = '''' \<or> w = '''' \<or> p = '''' \<or> \<not> knownClass c \<or> canonical = ''''
      then Inl (Plain ''journal fact: identity, scope, known class, and canonical bytes are required'')
      else Inr \<lparr>f_ID = i, f_WorkspaceID = w, f_ProjectID = p, f_Class = c, f_OperationOrder = 0,
             f_Canonical = canonical, f_Digest = sha canonical, f_Projection = projection\<rparr>)"

section \<open>The coordinator over any store\<close>

record 's Store =
  st_Append :: "Fact \<Rightarrow> ('s, err, Fact) op"
  st_List :: "('s, err, Fact list) op"
  st_Check :: "'s \<Rightarrow> err option"

text \<open>\<open>commit\<close> is the effect whose projection is acknowledged.\<close>

definition Acknowledge :: "'s Store \<Rightarrow> Fact \<Rightarrow> ('s, err, string) op \<Rightarrow> ('s, err, string) op" where
  "Acknowledge st given commit s =
     (case commit s of
        (Inl e, s) \<Rightarrow> (Inl (Wrapped ''commit authority fact'' e), s)
      | (Inr projection, s) \<Rightarrow>
          (case st_Append st (given\<lparr>f_Projection := projection\<rparr>) s of
             (Inl e, s) \<Rightarrow> (Inl (Wrapped ''authority fact remains unacknowledged'' e), s)
           | (Inr retained, s) \<Rightarrow> (Inr (f_Projection retained), s)))"

datatype ApplyResult = Reconstructed | ApplyConflict | ApplyOther string

text \<open>
  The loop of \<open>Reconstruct\<close> over the sorted facts: \<open>previous\<close> is the last order seen, \<open>results\<close> the map
  built so far, \<open>target\<close> the reconstructor.
\<close>

fun replay_facts :: "(string \<Rightarrow> string) \<Rightarrow> (Fact \<Rightarrow> ('s, err, ApplyResult) op) \<Rightarrow> Fact list \<Rightarrow> uint64 \<Rightarrow>
    ApplyResult gomap \<Rightarrow> ('s, err, ApplyResult gomap) op" where
  "replay_facts sha target [] previous results s = (Inr results, s)"
| "replay_facts sha target (given # facts) previous results s =
     (if f_OperationOrder given = 0 \<or> f_OperationOrder given \<le> previous \<or> \<not> knownClass (f_Class given)
         \<or> sha (f_Canonical given) \<noteq> f_Digest given
      then (Inl (Plain (''reconstruct fact '' @ f_ID given @ '': invalid retained envelope'')), s)
      else case target given s of
        (Inl e, s) \<Rightarrow> (Inl (Wrapped (''reconstruct fact '' @ f_ID given) e), s)
      | (Inr result, s) \<Rightarrow>
          (if result \<noteq> Reconstructed \<and> result \<noteq> ApplyConflict
           then (Inl (Plain (''reconstruct fact '' @ f_ID given @ '': silent outcome is forbidden'')), s)
           else replay_facts sha target facts (f_OperationOrder given) (gm_put (f_ID given) result results) s))"

definition Reconstruct :: "(string \<Rightarrow> string) \<Rightarrow> 's Store \<Rightarrow> (Fact \<Rightarrow> ('s, err, ApplyResult) op) \<Rightarrow>
    ('s, err, ApplyResult gomap) op" where
  "Reconstruct sha st target s =
     (case st_List st s of
        (Inl e, s) \<Rightarrow> (Inl (Wrapped ''list journal facts'' e), s)
      | (Inr facts, s) \<Rightarrow> replay_facts sha target (sort_key f_OperationOrder facts) 0 [] s)"

section \<open>The in-memory store\<close>

record MemoryStore =
  ms_available :: bool
  ms_facts :: "Fact gomap"
  ms_nextOrder :: uint64

definition NewMemoryStore :: MemoryStore where
  "NewMemoryStore = \<lparr>ms_available = True, ms_facts = [], ms_nextOrder = 0\<rparr>"

definition SetAvailable :: "bool \<Rightarrow> MemoryStore \<Rightarrow> MemoryStore" where
  "SetAvailable available s = s\<lparr>ms_available := available\<rparr>"

definition mem_Check :: "MemoryStore \<Rightarrow> err option" where
  "mem_Check s = (if \<not> ms_available s then Some (Plain ''journal unavailable'') else None)"

definition mem_Append :: "Fact \<Rightarrow> (MemoryStore, err, Fact) op" where
  "mem_Append given s =
     (if \<not> ms_available s then (Inl (Plain ''journal unavailable''), s)
      else case gm_get (ms_facts s) (f_ID given) of
        Some existing \<Rightarrow>
          (if f_WorkspaceID existing \<noteq> f_WorkspaceID given \<or> f_ProjectID existing \<noteq> f_ProjectID given
              \<or> f_Class existing \<noteq> f_Class given \<or> f_Digest existing \<noteq> f_Digest given
              \<or> f_Canonical existing \<noteq> f_Canonical given \<or> f_Projection existing \<noteq> f_Projection given
           then (Inl (Plain ''journal conflict: fact identity reused with different bytes''), s)
           else (Inr existing, s))
      | None \<Rightarrow>
          (let order = ms_nextOrder s + 1;
               given = given\<lparr>f_OperationOrder := order\<rparr>
           in (Inr given, s\<lparr>ms_nextOrder := order, ms_facts := gm_put (f_ID given) given (ms_facts s)\<rparr>)))"

definition mem_List :: "(Fact list \<Rightarrow> Fact list) \<Rightarrow> (MemoryStore, err, Fact list) op" where
  "mem_List visit s =
     (if \<not> ms_available s then (Inl (Plain ''journal unavailable''), s) else (Inr (visit (map snd (ms_facts s))), s))"

definition memory_store :: "(Fact list \<Rightarrow> Fact list) \<Rightarrow> MemoryStore Store" where
  "memory_store visit = \<lparr>st_Append = mem_Append, st_List = mem_List visit, st_Check = mem_Check\<rparr>"

section \<open>Histories of the store\<close>

datatype event = Available bool | Receipt string string string FactClass string string

text \<open>A history of the store, and the facts it acknowledged in the order of the acknowledgements.\<close>

fun history :: "(string \<Rightarrow> string) \<Rightarrow> event list \<Rightarrow> MemoryStore \<Rightarrow> Fact list \<times> MemoryStore" where
  "history sha [] s = ([], s)"
| "history sha (Available b # es) s = history sha es (SetAvailable b s)"
| "history sha (Receipt i w p c canonical projection # es) s =
     (case NewFact sha i w p c canonical projection of
        Inl e \<Rightarrow> history sha es s
      | Inr given \<Rightarrow>
          (case mem_Append given s of
             (Inl e, s) \<Rightarrow> history sha es s
           | (Inr retained, s) \<Rightarrow> (case history sha es s of (acks, s) \<Rightarrow> (retained # acks, s))))"

definition retained :: "MemoryStore \<Rightarrow> Fact list" where
  "retained s = map snd (ms_facts s)"

definition valid_fact :: "(string \<Rightarrow> string) \<Rightarrow> Fact \<Rightarrow> bool" where
  "valid_fact sha f \<longleftrightarrow> knownClass (f_Class f) \<and> f_Digest f = sha (f_Canonical f)"

text \<open>The facts stand in the order of their numbers, which count up from one without a gap.\<close>

definition journal_inv :: "(string \<Rightarrow> string) \<Rightarrow> MemoryStore \<Rightarrow> bool" where
  "journal_inv sha s \<longleftrightarrow> gm_ok (ms_facts s) \<and> map fst (ms_facts s) = map f_ID (retained s) \<and>
     map (\<lambda>f. unat (f_OperationOrder f)) (retained s) = [1..<Suc (length (retained s))] \<and>
     unat (ms_nextOrder s) = length (retained s) \<and> list_all (valid_fact sha) (retained s)"

lemma journal_inv_New: "journal_inv sha NewMemoryStore"
  by (simp add: journal_inv_def NewMemoryStore_def retained_def)

lemma journal_inv_SetAvailable: "journal_inv sha (SetAvailable b s) = journal_inv sha s"
  by (simp add: journal_inv_def SetAvailable_def retained_def)

lemma update_new: "k \<notin> fst ` set m \<Longrightarrow> gm_put k v m = m @ [(k, v)]"
  by (induction m) auto

lemma unat_next: "unat (n :: uint64) = k \<Longrightarrow> k + 1 < 2 ^ 64 \<Longrightarrow> unat (n + 1) = k + 1"
  by (simp add: unat_word_ariths)

lemma mem_Append_known:
  assumes "mem_Append given s = (Inr kept, s')" and "journal_inv sha s" and "f_ID given \<in> f_ID ` set (retained s)"
  shows "s' = s \<and> kept \<in> set (retained s)"
proof -
  from assms(2,3) have "f_ID given \<in> fst ` set (ms_facts s)" by (metis journal_inv_def list.set_map)
  then obtain old where "gm_get (ms_facts s) (f_ID given) = Some old"
    by (metis map_of_eq_None_iff not_None_eq)
  with assms(1) show ?thesis
    by (auto simp: mem_Append_def retained_def split: if_splits dest!: map_of_SomeD intro: rev_image_eqI)
qed

lemma mem_Append_new:
  assumes "mem_Append given s = (Inr kept, s')" and "journal_inv sha s" and "f_ID given \<notin> f_ID ` set (retained s)"
    and "valid_fact sha given" and "length (retained s) + 1 < 2 ^ 64"
  shows "retained s' = retained s @ [kept] \<and> kept \<notin> set (retained s) \<and> journal_inv sha s'"
proof -
  from assms(2,3) have new: "f_ID given \<notin> fst ` set (ms_facts s)" by (metis journal_inv_def list.set_map)
  then have "gm_get (ms_facts s) (f_ID given) = None" by (simp add: map_of_eq_None_iff)
  with assms(1) have k: "kept = given\<lparr>f_OperationOrder := ms_nextOrder s + 1\<rparr>"
    and s': "s' = s\<lparr>ms_nextOrder := ms_nextOrder s + 1, ms_facts := ms_facts s @ [(f_ID given, kept)]\<rparr>"
    by (auto simp: mem_Append_def Let_def update_new [OF new] split: if_splits)
  have r: "retained s' = retained s @ [kept]" by (simp add: s' retained_def)
  have n: "unat (ms_nextOrder s + 1) = length (retained s) + 1"
    using assms(2,5) by (intro unat_next) (simp_all add: journal_inv_def)
  have "kept \<notin> set (retained s)" using assms(3) k by (force simp: image_iff)
  moreover have "journal_inv sha s'"
  proof -
    have old: "distinct (map fst (ms_facts s))" "map fst (ms_facts s) = map f_ID (retained s)"
      "map (\<lambda>f. unat (f_OperationOrder f)) (retained s) = [1..<Suc (length (retained s))]"
      "list_all (valid_fact sha) (retained s)"
      using assms(2) unfolding journal_inv_def gm_ok_def by blast+
    have facts: "ms_facts s' = ms_facts s @ [(f_ID given, kept)]" "ms_nextOrder s' = ms_nextOrder s + 1"
      by (simp_all add: s')
    have "map (\<lambda>f. unat (f_OperationOrder f)) (retained s') = [1..<Suc (length (retained s'))]"
      using old(3) n by (simp only: r map_append length_append) (simp add: k)
    then show ?thesis
      using old(1,2,4) new n assms(3,4) unfolding journal_inv_def gm_ok_def facts
      by (simp add: r k valid_fact_def)
  qed
  ultimately show ?thesis using r by blast
qed

definition firsts :: "'a list \<Rightarrow> 'a list" where
  "firsts xs = rev (remdups (rev xs))"

lemma firsts_simps [simp]: "firsts [] = []" "firsts (xs @ [x]) = (if x \<in> set xs then firsts xs else firsts xs @ [x])"
  by (simp_all add: firsts_def)

lemma set_firsts [simp]: "set (firsts xs) = set xs"
  by (simp add: firsts_def)

lemma history_retained:
  assumes "history sha es s = (acks, s')" and "journal_inv sha s" and "retained s = firsts pre"
    and "length (retained s) + length es < 2 ^ 64"
  shows "journal_inv sha s' \<and> retained s' = firsts (pre @ acks)"
  using assms
proof (induction sha es s arbitrary: pre acks rule: history.induct)
  case (1 sha s)
  then show ?case by simp
next
  case (2 sha b es s)
  have "retained (SetAvailable b s) = retained s" by (simp add: retained_def SetAvailable_def)
  with 2 show ?case by (simp add: journal_inv_SetAvailable)
next
  case (3 sha i w p c canonical projection es s)
  show ?case
  proof (cases "NewFact sha i w p c canonical projection")
    case (Inl e)
    with 3 show ?thesis by simp
  next
    case (Inr given)
    then have valid: "valid_fact sha given" by (auto simp: NewFact_def valid_fact_def split: if_splits)
    show ?thesis
    proof (cases "mem_Append given s")
      case (Pair r s1)
      show ?thesis
      proof (cases r)
        case (Inl e)
        then have "s1 = s" using Pair by (auto simp: mem_Append_def Let_def split: if_splits option.splits)
        with 3(2) [OF \<open>NewFact _ _ _ _ _ _ _ = Inr given\<close> Pair [symmetric] Inl] 3(4-) Inl Pair
          \<open>NewFact _ _ _ _ _ _ _ = Inr given\<close> show ?thesis by simp
      next
        case kept: (Inr kept)
        obtain acks' where rest: "history sha es s1 = (acks', s')" and acks: "acks = kept # acks'"
          using 3(4) Inr Pair kept by (auto split: prod.splits)
        have a: "mem_Append given s = (Inr kept, s1)" using Pair kept by simp
        have "journal_inv sha s1 \<and> retained s1 = firsts (pre @ [kept]) \<and> length (retained s1) \<le> length (retained s) + 1"
        proof (cases "f_ID given \<in> f_ID ` set (retained s)")
          case True
          from mem_Append_known [OF a 3(5) True] 3(5,6) show ?thesis by (simp del: set_firsts) (metis set_firsts)
        next
          case False
          from mem_Append_new [OF a 3(5) False valid] 3(6,7) show ?thesis by simp
        qed
        then have after: "journal_inv sha s1" "retained s1 = firsts (pre @ [kept])" "length (retained s1) \<le> length (retained s) + 1"
          by blast+
        then have room: "length (retained s1) + length es < 2 ^ 64" using 3(7) by (simp only: list.size)
        from 3(3) [OF Inr a [symmetric] refl rest after(1,2) room] acks show ?thesis by simp
      qed
    qed
  qed
qed

section \<open>Reconstruction\<close>

text \<open>A journal beside the service that is rebuilt from it, and a service that takes in every fact.\<close>

definition beside :: "('s, err, 'a) op \<Rightarrow> ('s \<times> 'w, err, 'a) op" where
  "beside f = (\<lambda>(s, w). case f s of (r, s) \<Rightarrow> (r, (s, w)))"

definition store_beside :: "(Fact list \<Rightarrow> Fact list) \<Rightarrow> (MemoryStore \<times> 'w) Store" where
  "store_beside visit = \<lparr>st_Append = \<lambda>f. beside (mem_Append f), st_List = beside (mem_List visit), st_Check = \<lambda>(s, w). mem_Check s\<rparr>"

definition rebuild :: "(Fact \<Rightarrow> ApplyResult) \<Rightarrow> Fact \<Rightarrow> ('s \<times> Fact list, err, ApplyResult) op" where
  "rebuild judge f = (\<lambda>(s, w). (Inr (judge f), (s, w @ [f])))"

lemma rebuild_simp [simp]: "rebuild judge f (s, w) = (Inr (judge f), (s, w @ [f]))"
  by (simp add: rebuild_def)

lemma replay_facts_rebuild:
  assumes "list_all (valid_fact sha) fs" and "sorted_wrt (<) (map f_OperationOrder fs)"
    and "\<forall>f \<in> set fs. previous < f_OperationOrder f" and "\<forall>f. judge f = Reconstructed \<or> judge f = ApplyConflict"
  shows "\<exists>results'. replay_facts sha (rebuild judge) fs previous results (s, w) = (Inr results', (s, w @ fs)) \<and>
    (\<forall>i. gm_get results' i \<noteq> None \<longleftrightarrow> gm_get results i \<noteq> None \<or> i \<in> f_ID ` set fs)"
  using assms
proof (induction fs arbitrary: previous results w)
  case (Cons f fs)
  have "f_OperationOrder f \<noteq> 0" "\<not> f_OperationOrder f \<le> previous" using Cons.prems(3) word_gt_0 by fastforce+
  moreover have "list_all (valid_fact sha) fs" "sorted_wrt (<) (map f_OperationOrder fs)"
    "\<forall>g \<in> set fs. f_OperationOrder f < f_OperationOrder g" "valid_fact sha f"
    using Cons.prems(1,2) by auto
  moreover have "judge f = Reconstructed \<or> judge f = ApplyConflict" using Cons.prems(4) by blast
  moreover obtain results' where
    "replay_facts sha (rebuild judge) fs (f_OperationOrder f) (gm_put (f_ID f) (judge f) results) (s, w @ [f]) =
      (Inr results', (s, (w @ [f]) @ fs))"
    "\<forall>i. gm_get results' i \<noteq> None \<longleftrightarrow> gm_get (gm_put (f_ID f) (judge f) results) i \<noteq> None \<or> i \<in> f_ID ` set fs"
    using Cons.IH [OF calculation(3-5) Cons.prems(4)] by blast
  ultimately show ?case
    by (intro exI [of _ results']) (auto simp: valid_fact_def gm_get_put)
qed simp

lemma journal_inv_orders:
  assumes "journal_inv sha s"
  shows "sorted_wrt (<) (map f_OperationOrder (retained s)) \<and> (\<forall>f \<in> set (retained s). 0 < f_OperationOrder f) \<and>
    distinct (map f_ID (retained s)) \<and> list_all (valid_fact sha) (retained s)"
proof -
  have u: "map unat (map f_OperationOrder (retained s)) = [1..<Suc (length (retained s))]"
    and d: "distinct (map fst (ms_facts s))" "map fst (ms_facts s) = map f_ID (retained s)" "list_all (valid_fact sha) (retained s)"
    using assms unfolding journal_inv_def gm_ok_def map_map comp_def by blast+
  have "sorted_wrt (<) (map unat (map f_OperationOrder (retained s)))" unfolding u by (rule sorted_wrt_upt)
  then have "sorted_wrt (<) (map f_OperationOrder (retained s))" by (simp add: sorted_wrt_map word_less_nat_alt)
  moreover have "0 < f_OperationOrder f" if "f \<in> set (retained s)" for f
  proof -
    have "unat (f_OperationOrder f) \<in> set (map unat (map f_OperationOrder (retained s)))" using that by simp
    then show ?thesis unfolding u by (auto simp: word_less_nat_alt)
  qed
  ultimately show ?thesis using d by metis
qed

text \<open>C14 (acknowledged facts come back). Whatever the history of a journal, its outages and the order in which the
  store lists its map, a reconstruction accepts every fact that was acknowledged, hands each to the service exactly
  once, unchanged and in the order of the first acknowledgements, and reports an outcome for exactly these facts.\<close>

theorem acknowledged_facts_come_back:
  assumes "history sha es NewMemoryStore = (acks, s)" and "ms_available s" and "length es < 2 ^ 64"
    and "\<forall>xs. mset (visit xs) = mset xs" and "\<forall>f. judge f = Reconstructed \<or> judge f = ApplyConflict"
  shows "\<exists>results. Reconstruct sha (store_beside visit) (rebuild judge) (s, []) = (Inr results, (s, firsts acks)) \<and>
    (\<forall>i. gm_get results i \<noteq> None \<longleftrightarrow> i \<in> f_ID ` set acks) \<and>
    distinct (map f_ID (firsts acks)) \<and> sorted_wrt (<) (map f_OperationOrder (firsts acks))"
proof -
  have "retained NewMemoryStore = []" by (simp add: retained_def NewMemoryStore_def)
  then have "journal_inv sha s \<and> retained s = firsts ([] @ acks)"
    using assms(3) by (intro history_retained [OF assms(1) journal_inv_New]) simp_all
  then have inv: "journal_inv sha s" and r: "retained s = firsts acks" by simp_all
  note o = journal_inv_orders [OF inv, unfolded r]
  have "sort_key f_OperationOrder (visit (firsts acks)) = firsts acks"
  proof (rule sort_key_inj_key_eq)
    show "mset (visit (firsts acks)) = mset (firsts acks)" using assms(4) by blast
    then have "set (visit (firsts acks)) = set (firsts acks)" by (rule mset_eq_setD)
    moreover have "distinct (map f_OperationOrder (firsts acks))" using o strict_sorted_iff by blast
    ultimately show "inj_on f_OperationOrder (set (visit (firsts acks)))" by (simp add: distinct_map)
    show "sorted (map f_OperationOrder (firsts acks))" using o strict_sorted_iff by blast
  qed
  then have l: "st_List (store_beside visit) (s, []) = (Inr (visit (firsts acks)), (s, []))"
    "sort_key f_OperationOrder (visit (firsts acks)) = firsts acks"
    using assms(2) r by (simp_all add: store_beside_def beside_def mem_List_def retained_def)
  obtain results where "replay_facts sha (rebuild judge) (firsts acks) 0 [] (s, []) = (Inr results, (s, firsts acks))"
    "\<forall>i. gm_get results i \<noteq> None \<longleftrightarrow> i \<in> f_ID ` set acks"
    using replay_facts_rebuild [of sha "firsts acks" 0 judge "[]" s "[]"] o assms(5) by auto
  then show ?thesis using o unfolding Reconstruct_def l(1) by (simp add: l(2))
qed

definition journal_demo :: "event list" where
  "journal_demo = [Receipt ''b'' ''w'' ''p'' FactCancel ''two'' ''2'', Available False, Receipt ''c'' ''w'' ''p'' FactRetry ''x'' '''',
     Available True, Receipt ''a'' ''w'' ''p'' FactCreate ''one'' ''1'', Receipt ''b'' ''w'' ''p'' FactCancel ''two'' ''2'']"

definition journal_judge :: "Fact \<Rightarrow> ApplyResult" where
  "journal_judge f = (if f_Class f = FactCreate then Reconstructed else ApplyConflict)"

theorem acknowledged_facts_come_back_witness:
  "\<exists>acks s results. history id journal_demo NewMemoryStore = (acks, s) \<and> map f_ID (firsts acks) = [''b'', ''a''] \<and>
    Reconstruct id (store_beside rev) (rebuild journal_judge) (s, []) = (Inr results, (s, firsts acks))"
proof -
  obtain acks s where h: "history id journal_demo NewMemoryStore = (acks, s)" by (cases "history id journal_demo NewMemoryStore")
  have "ms_available (snd (history id journal_demo NewMemoryStore)) \<and>
      map f_ID (firsts (fst (history id journal_demo NewMemoryStore))) = [''b'', ''a'']" by code_simp
  then have a: "ms_available s" "map f_ID (firsts acks) = [''b'', ''a'']" by (simp_all add: h)
  have l: "length journal_demo < 2 ^ 64" by (simp add: journal_demo_def)
  have v: "\<forall>xs :: Fact list. mset (rev xs) = mset xs" by simp
  have j: "\<forall>f. journal_judge f = Reconstructed \<or> journal_judge f = ApplyConflict" by (simp add: journal_judge_def)
  from acknowledged_facts_come_back [OF h a(1) l v j] obtain results where
    "Reconstruct id (store_beside rev) (rebuild journal_judge) (s, []) = (Inr results, (s, firsts acks))" by blast
  with h a(2) show ?thesis by (intro exI conjI)
qed

end
