(* ===== verification/Apply_Auth.thy ===== *)
theory Apply_Auth
  imports Journal
begin

text \<open>
  Apply authorizations: the issuer and the verifier of signed single-use capabilities
  (\<open>src/internal/applyauth/applyauth.go\<close>), and the commit authority that gives every durable commit
  operation exactly one of them (\<open>src/internal/execution/applyauthority.go\<close>). Base64 is written out;
  canonical JSON, SHA-256, Ed25519 and the text form of times are a record \<open>crypto\<close> of functions.
  The issuer's ports (authority, identities, keys, audit, journal, contract guard, clock) are a record of
  operations on any world.
\<close>

section \<open>Base64url without padding\<close>

text \<open>\<open>base64.RawURLEncoding.Strict()\<close>: unused low bits must be zero; CR and LF are skipped.\<close>

definition alphabet64 :: string where
  "alphabet64 = ''ABCDEFGHIJKLMNOPQRSTUVWXYZabcdefghijklmnopqrstuvwxyz0123456789-_''"

definition char64 :: "nat \<Rightarrow> char" where
  "char64 n = alphabet64 ! n"

definition val64 :: "char \<Rightarrow> nat option" where
  "val64 c = find (\<lambda>n. char64 n = c) [0..<64]"

fun encode64 :: "string \<Rightarrow> string" where
  "encode64 [] = []"
| "encode64 [a] = (let n = of_char a * 16 in [char64 (n div 64), char64 (n mod 64)])"
| "encode64 [a, b] = (let n = (of_char a * 256 + of_char b) * 4 in
     [char64 (n div 4096), char64 (n div 64 mod 64), char64 (n mod 64)])"
| "encode64 (a # b # c # s) = (let n = (of_char a * 256 + of_char b) * 256 + of_char c in
     [char64 (n div 262144), char64 (n div 4096 mod 64), char64 (n div 64 mod 64), char64 (n mod 64)] @ encode64 s)"

fun groups64 :: "nat list \<Rightarrow> string option" where
  "groups64 [] = Some []"
| "groups64 [w] = None"
| "groups64 [w, x] = (let n = w * 64 + x in
     if n mod 16 \<noteq> 0 then None else Some [char_of (n div 16)])"
| "groups64 [w, x, y] = (let n = (w * 64 + x) * 64 + y in
     if n mod 4 \<noteq> 0 then None else Some [char_of (n div 1024), char_of (n div 4 mod 256)])"
| "groups64 (w # x # y # z # vs) = (let n = ((w * 64 + x) * 64 + y) * 64 + z in
     case groups64 vs of None \<Rightarrow> None
     | Some s \<Rightarrow> Some (char_of (n div 65536) # char_of (n div 256 mod 256) # char_of (n mod 256) # s))"

definition LF :: char where "LF = CHR 0x0A"
definition CR :: char where "CR = CHR 0x0D"

definition decode64 :: "string \<Rightarrow> string option" where
  "decode64 s = Option.bind (those (map val64 (filter (\<lambda>c. c \<noteq> LF \<and> c \<noteq> CR) s))) groups64"

lemma val64_char64: "n < 64 \<Longrightarrow> val64 (char64 n) = Some n \<and> char64 n \<noteq> LF \<and> char64 n \<noteq> CR \<and> char64 n \<noteq> CHR ''.''"
proof -
  have "list_all (\<lambda>n. val64 (char64 n) = Some n \<and> char64 n \<noteq> LF \<and> char64 n \<noteq> CR \<and> char64 n \<noteq> CHR ''.'') [0..<64]"
    by code_simp
  then show "n < 64 \<Longrightarrow> ?thesis" by (simp add: list_all_iff)
qed

lemma those_Some: "those (map Some xs) = Some xs"
  by (induction xs) auto

lemma byte_bound [simp]: "(of_char c :: nat) < 256"
  using nat_of_char_less_256 by blast

lemma byte_sums:
  "a < 256 \<Longrightarrow> b < 256 \<Longrightarrow> (a * 256 + b) * 4 < (64 * 4096 :: nat)"
  "a < 256 \<Longrightarrow> b < 256 \<Longrightarrow> c < 256 \<Longrightarrow> (a * 256 + b) * 256 + c < (64 * 262144 :: nat)"
  by simp_all

definition values64 :: "string \<Rightarrow> nat list \<Rightarrow> bool" where
  "values64 s vs \<longleftrightarrow> s = map char64 vs \<and> (\<forall>v \<in> set vs. v < 64)"

lemma digits64:
  "(n div 4096 * 64 + n div 64 mod 64) * 64 + n mod 64 = (n :: nat)"
  "((n div 262144 * 64 + n div 4096 mod 64) * 64 + n div 64 mod 64) * 64 + n mod 64 = n"
proof -
  have "n div 4096 = n div 64 div 64" "n div 262144 = n div 64 div 64 div 64" by (simp_all flip: div_mult2_eq)
  then show "(n div 4096 * 64 + n div 64 mod 64) * 64 + n mod 64 = n"
    "((n div 262144 * 64 + n div 4096 mod 64) * 64 + n div 64 mod 64) * 64 + n mod 64 = n"
    by (simp_all only: div_mult_mod_eq)
qed

lemma bytes:
  "b < 256 \<Longrightarrow> (a * 256 + b) * 4 div 1024 = a \<and> (a * 256 + b) * 4 div 4 mod 256 = (b :: nat)"
  "b < 256 \<Longrightarrow> c < 256 \<Longrightarrow> ((a * 256 + b) * 256 + c) div 65536 = a \<and>
     ((a * 256 + b) * 256 + c) div 256 mod 256 = (b :: nat) \<and> ((a * 256 + b) * 256 + c) mod 256 = c"
proof -
  assume b: "b < 256"
  have "(a * 256 + b) * 4 div 1024 = (a * 256 + b) * 4 div 4 div 256" by (simp only: flip: div_mult2_eq) simp
  then show "(a * 256 + b) * 4 div 1024 = a \<and> (a * 256 + b) * 4 div 4 mod 256 = b" using b by simp
next
  assume b: "b < 256" "c < 256"
  have two: "(x * 256 + y) div 256 = x \<and> (x * 256 + y) mod 256 = y" if "y < 256" for x y :: nat
    using that by simp
  have "((a * 256 + b) * 256 + c) div 65536 = ((a * 256 + b) * 256 + c) div 256 div 256" by (simp flip: div_mult2_eq)
  then show "((a * 256 + b) * 256 + c) div 65536 = a \<and>
     ((a * 256 + b) * 256 + c) div 256 mod 256 = b \<and> ((a * 256 + b) * 256 + c) mod 256 = c"
    using two [OF b(1), of a] two [OF b(2), of "a * 256 + b"] by (simp only:)
qed

lemma encode64_values: "\<exists>vs. values64 (encode64 s) vs \<and> groups64 vs = Some s"
proof (induction s rule: encode64.induct)
  case 1
  show ?case by (intro exI [of _ "[]"]) (simp add: values64_def)
next
  case (2 a)
  let ?n = "of_char a * 16 :: nat"
  have "?n div 64 < 64" using byte_bound [of a] by linarith
  moreover have "?n div 64 * 64 + ?n mod 64 = ?n" by presburger
  moreover have "?n div 16 = of_char a" "?n mod 16 = 0" by simp_all
  ultimately show ?case
    by (intro exI [of _ "[?n div 64, ?n mod 64]"]) (simp add: values64_def Let_def del: div_mult_mult1_if)
next
  case (3 a b)
  obtain n :: nat where n: "n = (of_char a * 256 + of_char b) * 4" by simp
  obtain w x y where w: "w = n div 4096" "x = n div 64 mod 64" "y = n mod 64" by simp
  have "n < 64 * 4096" unfolding n by (rule byte_sums) (rule byte_bound)+
  then have "w < 64" unfolding w by (rule less_mult_imp_div_less)
  moreover have "x < 64" "y < 64" by (simp_all add: w)
  moreover have "(w * 64 + x) * 64 + y = n" unfolding w by (rule digits64)
  moreover have "n div 1024 = of_char a" "n div 4 mod 256 = of_char b" "n mod 4 = 0"
    using bytes(1) [of "of_char b" "of_char a"] by (simp_all add: n)
  ultimately show ?case
    unfolding encode64.simps Let_def n [symmetric] w [symmetric]
    by (intro exI [of _ "[w, x, y]"]) (simp add: values64_def Let_def)
next
  case (4 a b c s)
  then obtain vs where vs: "values64 (encode64 s) vs" "groups64 vs = Some s" by blast
  obtain n :: nat where n: "n = (of_char a * 256 + of_char b) * 256 + of_char c" by simp
  obtain w x y z where w: "w = n div 262144" "x = n div 4096 mod 64" "y = n div 64 mod 64" "z = n mod 64" by simp
  have "n < 64 * 262144" unfolding n by (rule byte_sums) (rule byte_bound)+
  then have "w < 64" unfolding w by (rule less_mult_imp_div_less)
  moreover have "x < 64" "y < 64" "z < 64" by (simp_all add: w)
  ultimately have v: "values64 (char64 w # char64 x # char64 y # char64 z # encode64 s) (w # x # y # z # vs)"
    using vs(1) unfolding values64_def by simp
  have sum: "((w * 64 + x) * 64 + y) * 64 + z = n" unfolding w by (rule digits64)
  have parts: "n div 65536 = of_char a" "n div 256 mod 256 = of_char b" "n mod 256 = of_char c"
    using bytes(2) [of "of_char b" "of_char c" "of_char a", OF byte_bound byte_bound, folded n] by blast+
  have "groups64 (w # x # y # z # vs) = Some (a # b # c # s)"
    unfolding groups64.simps Let_def sum parts vs(2) by simp
  with v show ?case
    unfolding encode64.simps Let_def n [symmetric] w [symmetric] append.simps by blast
qed

lemma decode64_encode64 [simp]: "decode64 (encode64 s) = Some s"
proof -
  obtain vs where vs: "values64 (encode64 s) vs" "groups64 vs = Some s" using encode64_values by blast
  then have "filter (\<lambda>c. c \<noteq> LF \<and> c \<noteq> CR) (encode64 s) = encode64 s" "map val64 (encode64 s) = map Some vs"
    using val64_char64 by (auto simp: values64_def filter_id_conv)
  then show ?thesis using vs(2) by (simp add: decode64_def those_Some)
qed

lemma encode64_no_dot: "CHR ''.'' \<notin> set (encode64 s)"
proof
  assume "CHR ''.'' \<in> set (encode64 s)"
  then obtain n where "CHR ''.'' = char64 n" "n < 64" using encode64_values [of s] by (auto simp: values64_def)
  then show False using val64_char64 [of n] by simp
qed

lemma decode64_newline: "decode64 (s @ [LF]) = decode64 s"
  by (simp add: decode64_def)

section \<open>Data\<close>

record IssueCommand =
  ic_WorkspaceID :: string
  ic_ProjectID :: string
  ic_RunID :: string
  ic_ApprovalRequestID :: string
  ic_ArtifactID :: string
  ic_OperationKey :: string

record ApplyTarget =
  at_Type :: string
  at_ID :: string
  at_WorkspaceID :: string
  at_ProjectID :: string

record Binding =
  bi_RunID :: string
  bi_ActionDigest :: string
  bi_ArtifactDigest :: string
  bi_BaseRevision :: string
  bi_Target :: ApplyTarget
  bi_ActorID :: string
  bi_WorkspaceID :: string
  bi_ApprovalVersion :: uint64
  bi_ContractBOMDigest :: string
  bi_PolicyDigest :: string
  bi_DefinitionDigest :: string
  bi_CatalogDigest :: string

record Proof =
  pr_Approved :: Binding
  pr_Current :: Binding
  pr_ApprovalCurrent :: bool
  pr_ArtifactEligible :: bool

record AuditRecord =
  au_AuthorizationID :: string
  au_WorkspaceID :: string
  au_ProjectID :: string
  au_RunID :: string
  au_KeyID :: string
  au_PayloadDigest :: string
  au_TokenDigest :: string
  au_IssuedAt :: time
  au_ExpiresAt :: time
  au_OperationKey :: string
  au_Token :: string

record Payload =
  pl_Kind :: string
  pl_AuthorizationID :: string
  pl_KeyID :: string
  pl_Issuer :: string
  pl_Audience :: string
  pl_IssuedAt :: string
  pl_NotBefore :: string
  pl_ExpiresAt :: string
  pl_Binding :: Binding

record Authorization =
  an_ID :: string
  an_KeyID :: string
  an_Compact :: string
  an_Payload :: Payload
  an_IssuedAt :: time
  an_ExpiresAt :: time

record protectedHeader =
  ph_Algorithm :: string
  ph_KeyID :: string
  ph_Type :: string

text \<open>
  The libraries: canonical JSON of the three documents that are signed or journalled, the strict decoding
  of the first two, SHA-256 in its text form, Ed25519, and the millisecond text form of a time.
\<close>

record crypto =
  cy_header :: "protectedHeader \<Rightarrow> err + string"
  cy_payload :: "Payload \<Rightarrow> err + string"
  cy_receipt :: "IssueCommand \<Rightarrow> Authorization \<Rightarrow> err + string"
  cy_projection :: "Authorization \<Rightarrow> err + string"
  cy_read_header :: "string \<Rightarrow> protectedHeader option"
  cy_read_payload :: "string \<Rightarrow> Payload option"
  cy_sha :: "string \<Rightarrow> string"
  cy_hash :: "string \<Rightarrow> string"
  cy_verify :: "string \<Rightarrow> string \<Rightarrow> string \<Rightarrow> bool"
  cy_format :: "time \<Rightarrow> string"
  cy_parse :: "string \<Rightarrow> time option"

definition Issuer :: string where "Issuer = ''urn:anvilkit:issuer:agent-service''"
definition Audience :: string where "Audience = ''urn:anvilkit:audience:pagix''"
definition TokenType :: string where "TokenType = ''anvilkit-apply-authorization+jws''"

definition lowerAlphanumeric :: "char \<Rightarrow> bool" where
  "lowerAlphanumeric c \<longleftrightarrow> is_lower c \<or> is_digit c"

definition opaque :: "string \<Rightarrow> bool" where
  "opaque value \<longleftrightarrow> 1 \<le> length value \<and> length value \<le> 128 \<and>
     (case value of [] \<Rightarrow> False
      | c # cs \<Rightarrow> (is_upper c \<or> is_lower c \<or> is_digit c) \<and>
          list_all (\<lambda>d. is_upper d \<or> is_lower d \<or> is_digit d \<or> d \<in> set ''._:-'') cs)"

definition boundedOperationKey :: "string \<Rightarrow> bool" where
  "boundedOperationKey value \<longleftrightarrow> 1 \<le> length value \<and> length value \<le> 512 \<and>
     list_all (\<lambda>c. CHR 0x21 \<le> c \<and> c \<le> CHR 0x7E) value"

definition key_prefix :: string where "key_prefix = ''urn:anvilkit:key:''"

definition validKeyID :: "string \<Rightarrow> bool" where
  "validKeyID value \<longleftrightarrow> 16 \<le> length value \<and> length value \<le> 256 \<and> HasPrefix value key_prefix \<and>
     (case drop (length key_prefix) value of [] \<Rightarrow> False | c # cs \<Rightarrow> lowerAlphanumeric c) \<and>
     list_all (\<lambda>c. lowerAlphanumeric c \<or> c \<in> set '':-'') value"

definition targetType :: "string \<Rightarrow> bool" where
  "targetType value \<longleftrightarrow> 1 \<le> length value \<and> length value \<le> 64 \<and> is_lower (hd value) \<and>
     list_all (\<lambda>c. lowerAlphanumeric c \<or> c \<in> set ''.-'') value"

definition validDigest :: "string \<Rightarrow> bool" where
  "validDigest value \<longleftrightarrow> length value = 71 \<and> HasPrefix value ''sha256:'' \<and>
     list_all (\<lambda>c. c \<in> set ''0123456789abcdef'') (drop 7 value)"

definition denied :: "string \<Rightarrow> err" where
  "denied detail = problem_detail CodeApplyAuthorizationDenied detail"

definition validBinding :: "Binding \<Rightarrow> bool" where
  "validBinding b \<longleftrightarrow> opaque (bi_RunID b) \<and> validDigest (bi_ActionDigest b) \<and> validDigest (bi_ArtifactDigest b) \<and>
     targetType (at_Type (bi_Target b)) \<and> opaque (at_ID (bi_Target b)) \<and>
     at_WorkspaceID (bi_Target b) = bi_WorkspaceID b \<and> opaque (at_ProjectID (bi_Target b)) \<and>
     opaque (bi_BaseRevision b) \<and> opaque (bi_ActorID b) \<and> opaque (bi_WorkspaceID b) \<and> 0 < bi_ApprovalVersion b \<and>
     validDigest (bi_ContractBOMDigest b) \<and> validDigest (bi_PolicyDigest b) \<and> validDigest (bi_DefinitionDigest b) \<and>
     validDigest (bi_CatalogDigest b)"

definition millisecond :: time where "millisecond = 1000000"
definition five_minutes :: time where "five_minutes = 300 * 1000000000"

definition truncate_ms :: "time \<Rightarrow> time" where
  "truncate_ms t = t - t mod millisecond"

definition timestamp :: "crypto \<Rightarrow> time \<Rightarrow> string" where
  "timestamp cy t = cy_format cy (truncate_ms t)"

definition payloadFor :: "crypto \<Rightarrow> string \<Rightarrow> string \<Rightarrow> Binding \<Rightarrow> time \<Rightarrow> time \<Rightarrow> Payload" where
  "payloadFor cy i keyID binding issued expires =
     \<lparr>pl_Kind = ''ApplyAuthorization'', pl_AuthorizationID = i, pl_KeyID = keyID, pl_Issuer = Issuer, pl_Audience = Audience,
      pl_IssuedAt = timestamp cy issued, pl_NotBefore = timestamp cy issued, pl_ExpiresAt = timestamp cy expires,
      pl_Binding = binding\<rparr>"

section \<open>The issuer\<close>

record 'w ports =
  po_Resolve :: "IssueCommand \<Rightarrow> ('w, err, Proof) op"
  po_AuthorizationID :: "('w, err, string) op"
  po_ActiveKeyID :: "('w, err, string) op"
  po_Sign :: "string \<Rightarrow> string \<Rightarrow> ('w, err, string) op"
  po_PublicKey :: "string \<Rightarrow> ('w, err, string) op"
  po_Revoked :: "string \<Rightarrow> ('w, err, bool) op"
  po_Record :: "AuditRecord \<Rightarrow> ('w, err, unit) op"
  po_Append :: "Fact \<Rightarrow> ('w, err, Fact) op"
  po_Require :: "string \<Rightarrow> ('w, err, unit) op"
  po_Now :: "'w \<Rightarrow> time \<times> 'w"

definition wrap :: "string \<Rightarrow> ('w, err, 'a) op \<Rightarrow> ('w, err, 'a) op" where
  "wrap what f w = (case f w of (Inl e, w) \<Rightarrow> (Inl (Wrapped what e), w) | (Inr x, w) \<Rightarrow> (Inr x, w))"

definition fail :: "err \<Rightarrow> ('w, err, 'a) op" where
  "fail e w = (Inl e, w)"

definition lift :: "string \<Rightarrow> err + 'a \<Rightarrow> ('w, err, 'a) op" where
  "lift what r w = (case r of Inl e \<Rightarrow> (Inl (Wrapped what e), w) | Inr x \<Rightarrow> (Inr x, w))"

definition bounded_command :: "IssueCommand \<Rightarrow> bool" where
  "bounded_command c \<longleftrightarrow> opaque (ic_WorkspaceID c) \<and> opaque (ic_ProjectID c) \<and> opaque (ic_RunID c) \<and>
     opaque (ic_ApprovalRequestID c) \<and> opaque (ic_ArtifactID c) \<and> boundedOperationKey (ic_OperationKey c)"

definition proof_holds :: "IssueCommand \<Rightarrow> Proof \<Rightarrow> bool" where
  "proof_holds c p \<longleftrightarrow> pr_ApprovalCurrent p \<and> pr_ArtifactEligible p \<and> pr_Approved p = pr_Current p \<and>
     bi_RunID (pr_Current p) = ic_RunID c \<and> bi_WorkspaceID (pr_Current p) = ic_WorkspaceID c \<and>
     at_WorkspaceID (bi_Target (pr_Current p)) = ic_WorkspaceID c \<and> validBinding (pr_Current p)"

text \<open>The token: the two documents in base64, and the signature over them.\<close>

definition signingInput :: "string \<Rightarrow> string \<Rightarrow> string" where
  "signingInput headerBytes payloadBytes = encode64 headerBytes @ ''.'' @ encode64 payloadBytes"

definition sign_token :: "crypto \<Rightarrow> 'w ports \<Rightarrow> string \<Rightarrow> Payload \<Rightarrow> ('w, err, string \<times> string) op" where
  "sign_token cy po keyID payload =
     andThen (lift ''canonicalize authorization payload'' (cy_payload cy payload)) (\<lambda>payloadBytes.
     andThen (wrap ''validate apply authorization boundary'' (po_Require po payloadBytes)) (\<lambda>_.
     andThen (lift ''canonicalize authorization header''
         (cy_header cy \<lparr>ph_Algorithm = ''EdDSA'', ph_KeyID = keyID, ph_Type = TokenType\<rparr>)) (\<lambda>headerBytes.
     andThen (wrap ''sign authorization'' (po_Sign po keyID (signingInput headerBytes payloadBytes))) (\<lambda>signature.
       if length signature \<noteq> 64 then fail (Plain ''sign authorization: invalid EdDSA signature size'')
       else Pair (Inr (payloadBytes, signingInput headerBytes payloadBytes @ ''.'' @ encode64 signature))))))"

text \<open>The journal receipt of a signed token, and before it the audit row.\<close>

definition acknowledge_token :: "crypto \<Rightarrow> 'w ports \<Rightarrow> IssueCommand \<Rightarrow> Authorization \<Rightarrow> ('w, err, Authorization) op" where
  "acknowledge_token cy po c a =
     andThen (lift ''canonicalize authorization receipt'' (cy_receipt cy c a)) (\<lambda>factBytes.
     andThen (lift ''marshal authorization receipt projection'' (cy_projection cy a)) (\<lambda>projection.
       case NewFact (cy_sha cy) (ic_WorkspaceID c @ '':authorization:'' @ an_ID a) (ic_WorkspaceID c) (ic_ProjectID c)
           FactAuthorization factBytes projection of
         Inl e \<Rightarrow> fail e
       | Inr receipt \<Rightarrow>
           andThen (wrap ''authorization fact remains unacknowledged'' (po_Append po receipt)) (\<lambda>_. Pair (Inr a))))"

definition audit_row :: "crypto \<Rightarrow> IssueCommand \<Rightarrow> string \<Rightarrow> Authorization \<Rightarrow> AuditRecord" where
  "audit_row cy c payloadBytes a =
     \<lparr>au_AuthorizationID = an_ID a, au_WorkspaceID = ic_WorkspaceID c, au_ProjectID = ic_ProjectID c, au_RunID = ic_RunID c,
      au_KeyID = an_KeyID a, au_PayloadDigest = cy_hash cy payloadBytes, au_TokenDigest = cy_hash cy (an_Compact a),
      au_IssuedAt = an_IssuedAt a, au_ExpiresAt = an_ExpiresAt a, au_OperationKey = ic_OperationKey c, au_Token = an_Compact a\<rparr>"

definition record_token :: "crypto \<Rightarrow> 'w ports \<Rightarrow> IssueCommand \<Rightarrow> string \<Rightarrow> Authorization \<Rightarrow> ('w, err, Authorization) op" where
  "record_token cy po c payloadBytes a =
     andThen (wrap ''durably audit authorization issuance'' (po_Record po (audit_row cy c payloadBytes a)))
       (\<lambda>_. acknowledge_token cy po c a)"

text \<open>A key that is known and not revoked.\<close>

definition live_key :: "'w ports \<Rightarrow> string \<Rightarrow> err \<Rightarrow> ('w, err, unit) op" where
  "live_key po keyID e w = (case po_Revoked po keyID w of (Inr False, w) \<Rightarrow> (Inr (), w) | (r, w) \<Rightarrow> fail e w)"

text \<open>The last part of \<open>Issue\<close>: the token for a proved binding under a live key.\<close>

definition mint :: "crypto \<Rightarrow> 'w ports \<Rightarrow> time \<Rightarrow> IssueCommand \<Rightarrow> Binding \<Rightarrow> string \<Rightarrow> string \<Rightarrow> ('w, err, Authorization) op" where
  "mint cy po ttl c binding i keyID w =
     (case po_Now po w of
        (now, w) \<Rightarrow>
          (let now = truncate_ms now; expires = now + ttl; payload = payloadFor cy i keyID binding now expires
           in if now = 0 then fail (denied ''authoritative time is unavailable'') w
              else andThen (sign_token cy po keyID payload) (\<lambda>(payloadBytes, compact).
                record_token cy po c payloadBytes \<lparr>an_ID = i, an_KeyID = keyID, an_Compact = compact,
                  an_Payload = payload, an_IssuedAt = now, an_ExpiresAt = expires\<rparr>) w))"

definition issue_as :: "crypto \<Rightarrow> 'w ports \<Rightarrow> time \<Rightarrow> IssueCommand \<Rightarrow> Binding \<Rightarrow> string \<Rightarrow> ('w, err, Authorization) op" where
  "issue_as cy po ttl c binding i =
     (if \<not> opaque i then fail (Plain ''allocate authorization identity: invalid identity'')
      else andThen (wrap ''resolve active authorization key'' (po_ActiveKeyID po)) (\<lambda>keyID.
        if \<not> validKeyID keyID then fail (Plain ''resolve active authorization key: invalid key ID'')
        else andThen (live_key po keyID (denied ''active signing key is revoked'')) (\<lambda>_.
          mint cy po ttl c binding i keyID)))"

definition Issue :: "crypto \<Rightarrow> 'w ports \<Rightarrow> time \<Rightarrow> IssueCommand \<Rightarrow> ('w, err, Authorization) op" where
  "Issue cy po ttl c =
     (if \<not> bounded_command c then fail (denied ''bounded issuance command is incomplete'')
      else andThen (po_Resolve po c) (\<lambda>prf.
        if \<not> proof_holds c prf then fail (denied ''approval, artifact, target, BOM, or policy binding is stale'')
        else andThen (wrap ''allocate authorization identity'' (po_AuthorizationID po))
          (issue_as cy po ttl c (pr_Current prf))))"

section \<open>The verifier\<close>

definition valid_claims :: "crypto \<Rightarrow> time \<Rightarrow> Payload \<Rightarrow> bool" where
  "valid_claims cy now p \<longleftrightarrow>
     (case (cy_parse cy (pl_NotBefore p), cy_parse cy (pl_IssuedAt p), cy_parse cy (pl_ExpiresAt p)) of
        (Some nbf, Some iat, Some exp) \<Rightarrow>
          pl_NotBefore p = timestamp cy nbf \<and> pl_IssuedAt p = timestamp cy iat \<and> pl_ExpiresAt p = timestamp cy exp \<and>
          iat = nbf \<and> now \<noteq> 0 \<and> nbf \<le> now \<and> now < exp \<and> exp - nbf \<le> five_minutes \<and> validBinding (pl_Binding p)
      | _ \<Rightarrow> False)"

text \<open>The key and the signature of a header, then the claims under it.\<close>

definition check_signature :: "crypto \<Rightarrow> 'w ports \<Rightarrow> string \<Rightarrow> string \<Rightarrow> string \<Rightarrow> ('w, err, unit) op" where
  "check_signature cy po keyID message signature w =
     (case po_PublicKey po keyID w of
        (Inr public, w) \<Rightarrow>
          (if length public \<noteq> 32 \<or> \<not> cy_verify cy public message signature
           then fail (denied ''authorization signature is invalid'') w else (Inr (), w))
      | (Inl e, w) \<Rightarrow> fail (denied ''authorization signature is invalid'') w)"

definition check_claims :: "crypto \<Rightarrow> string \<Rightarrow> string \<Rightarrow> time \<Rightarrow> err + Payload" where
  "check_claims cy payloadBytes keyID now =
     (case cy_read_payload cy payloadBytes of
        None \<Rightarrow> Inl (denied ''authorization claims are invalid'')
      | Some payload \<Rightarrow>
          (if \<not> opaque (pl_AuthorizationID payload) \<or> pl_KeyID payload \<noteq> keyID
              \<or> pl_Issuer payload \<noteq> Issuer \<or> pl_Audience payload \<noteq> Audience
              \<or> pl_Kind payload \<noteq> ''ApplyAuthorization''
           then Inl (denied ''authorization claims are invalid'')
           else if \<not> valid_claims cy now payload
           then Inl (denied ''authorization is expired, premature, or incompletely bound'')
           else Inr payload))"

definition Verify :: "crypto \<Rightarrow> 'w ports \<Rightarrow> string \<Rightarrow> time \<Rightarrow> ('w, err, Payload) op" where
  "Verify cy po compact now =
     (case Split CHR ''.'' compact of
        [h, p, s] \<Rightarrow>
          (case decode64 h of None \<Rightarrow> fail (denied ''authorization header is not canonical base64url'')
           | Some headerBytes \<Rightarrow>
          (case decode64 p of None \<Rightarrow> fail (denied ''authorization payload is not canonical base64url'')
           | Some payloadBytes \<Rightarrow>
          (case decode64 s of None \<Rightarrow> fail (denied ''authorization signature is not canonical base64url'')
           | Some signature \<Rightarrow>
          (case cy_read_header cy headerBytes of None \<Rightarrow> fail (denied ''authorization protected header is invalid'')
           | Some header \<Rightarrow>
             if ph_Algorithm header \<noteq> ''EdDSA'' \<or> ph_Type header \<noteq> TokenType \<or> \<not> validKeyID (ph_KeyID header)
             then fail (denied ''authorization protected header is invalid'')
             else andThen (live_key po (ph_KeyID header) (denied ''authorization key is unavailable or revoked'')) (\<lambda>_.
                  andThen (check_signature cy po (ph_KeyID header) (h @ ''.'' @ p) signature) (\<lambda>_.
                    Pair (check_claims cy payloadBytes (ph_KeyID header) now)))))))
      | parts \<Rightarrow> fail (denied ''authorization is not compact JWS''))"

section \<open>The in-memory key ring\<close>

text \<open>\<open>public\<close> and \<open>sign\<close> are Ed25519 on private keys; a new private key is an argument.\<close>

record MemoryKeyRing =
  kr_active :: string
  kr_private :: "string gomap"
  kr_revoked :: "bool gomap"

definition NewMemoryKeyRing :: "string \<Rightarrow> string \<Rightarrow> err + MemoryKeyRing" where
  "NewMemoryKeyRing private keyID =
     (if \<not> validKeyID keyID then Inl (Plain ''key ID is invalid'')
      else Inr \<lparr>kr_active = keyID, kr_private = [(keyID, private)], kr_revoked = []\<rparr>)"

definition key_revoked :: "MemoryKeyRing \<Rightarrow> string \<Rightarrow> bool" where
  "key_revoked r keyID \<longleftrightarrow> gm_get (kr_revoked r) keyID = Some True"

definition ring_ActiveKeyID :: "(MemoryKeyRing, err, string) op" where
  "ring_ActiveKeyID r = (Inr (kr_active r), r)"

definition ring_Sign :: "(string \<Rightarrow> string \<Rightarrow> string) \<Rightarrow> string \<Rightarrow> string \<Rightarrow> (MemoryKeyRing, err, string) op" where
  "ring_Sign sign keyID message r =
     (case gm_get (kr_private r) keyID of
        None \<Rightarrow> (Inl (Plain ''signing key unavailable''), r)
      | Some key \<Rightarrow> (if key_revoked r keyID then (Inl (Plain ''signing key unavailable''), r) else (Inr (sign key message), r)))"

definition ring_PublicKey :: "(string \<Rightarrow> string) \<Rightarrow> string \<Rightarrow> (MemoryKeyRing, err, string) op" where
  "ring_PublicKey public keyID r =
     (case gm_get (kr_private r) keyID of
        None \<Rightarrow> (Inl (Plain ''key unavailable''), r)
      | Some key \<Rightarrow> (Inr (public key), r))"

definition ring_Revoked :: "string \<Rightarrow> (MemoryKeyRing, err, bool) op" where
  "ring_Revoked keyID r =
     (case gm_get (kr_private r) keyID of
        None \<Rightarrow> (Inl (Plain ''key unavailable''), r)
      | Some key \<Rightarrow> (Inr (key_revoked r keyID), r))"

definition Rotate :: "string \<Rightarrow> string \<Rightarrow> (MemoryKeyRing, err, unit) op" where
  "Rotate private keyID r =
     (if \<not> validKeyID keyID then (Inl (Plain ''key ID is invalid''), r)
      else (Inr (), r\<lparr>kr_private := gm_put keyID private (kr_private r), kr_active := keyID\<rparr>))"

definition Revoke :: "string \<Rightarrow> MemoryKeyRing \<Rightarrow> MemoryKeyRing" where
  "Revoke keyID r = r\<lparr>kr_revoked := gm_put keyID True (kr_revoked r)\<rparr>"

section \<open>What an issued token says\<close>

lemma Split_last: "sep \<notin> set s \<Longrightarrow> Split sep s = [s]"
  by (induction s) auto

lemma Split_append: "sep \<notin> set a \<Longrightarrow> Split sep (a @ sep # s) = a # Split sep s"
  by (induction a) auto

lemma Split_token: "Split CHR ''.'' (signingInput h p @ ''.'' @ encode64 s) = [encode64 h, encode64 p, encode64 s]"
  by (simp add: signingInput_def Split_append Split_last encode64_no_dot)

lemma Split_not_Nil: "Split sep s \<noteq> []"
  by (induction s) (auto split: list.splits)

lemma Split_snoc: "c \<noteq> sep \<Longrightarrow> Split sep (s @ [c]) = butlast (Split sep s) @ [last (Split sep s) @ [c]]"
  by (induction s) (auto split: list.splits simp: Split_not_Nil)

lemma wrap_Inr: "wrap what f w = (Inr x, w') \<longleftrightarrow> f w = (Inr x, w')"
  by (auto simp: wrap_def split: prod.splits sum.splits)

lemma lift_Inr: "lift what r w = (Inr x, w') \<longleftrightarrow> r = Inr x \<and> w' = w"
  by (auto simp: lift_def split: sum.splits)

lemma fail_Inr [simp]: "fail e w \<noteq> (Inr x, w')"
  by (simp add: fail_def)

lemma andThen_Inr_iff: "andThen f g s = (Inr y, u) \<longleftrightarrow> (\<exists>x t. f s = (Inr x, t) \<and> g x t = (Inr y, u))"
  by (auto simp: andThen_def split: prod.splits sum.splits)

lemma case_Inr: "(case r of Inl e \<Rightarrow> fail e | Inr x \<Rightarrow> g x) w = (Inr y, u) \<longleftrightarrow> (\<exists>x. r = Inr x \<and> g x w = (Inr y, u))"
  by (auto split: sum.splits)

lemmas op_success = wrap_Inr lift_Inr andThen_Inr_iff case_Inr

text \<open>The documents and the signature of a token, and when they are the issuer's for a payload.\<close>

definition token_of :: "crypto \<Rightarrow> 'w ports \<Rightarrow> string \<Rightarrow> Payload \<Rightarrow> string \<Rightarrow> bool" where
  "token_of cy po keyID payload compact \<longleftrightarrow> (\<exists>headerBytes payloadBytes signature v v'.
     cy_payload cy payload = Inr payloadBytes \<and>
     cy_header cy \<lparr>ph_Algorithm = ''EdDSA'', ph_KeyID = keyID, ph_Type = TokenType\<rparr> = Inr headerBytes \<and>
     po_Sign po keyID (signingInput headerBytes payloadBytes) v = (Inr signature, v') \<and>
     compact = signingInput headerBytes payloadBytes @ ''.'' @ encode64 signature)"

lemma sign_token_Inr: "sign_token cy po keyID payload w = (Inr (bytes, compact), w') \<Longrightarrow> token_of cy po keyID payload compact"
  by (auto simp: sign_token_def op_success token_of_def split: if_splits)

definition issued_by :: "crypto \<Rightarrow> 'w ports \<Rightarrow> time \<Rightarrow> IssueCommand \<Rightarrow> Proof \<Rightarrow> Authorization \<Rightarrow> bool" where
  "issued_by cy po ttl c prf a \<longleftrightarrow> proof_holds c prf \<and> opaque (an_ID a) \<and> validKeyID (an_KeyID a) \<and> an_IssuedAt a \<noteq> 0 \<and>
     an_IssuedAt a mod millisecond = 0 \<and> an_ExpiresAt a = an_IssuedAt a + ttl \<and>
     an_Payload a = payloadFor cy (an_ID a) (an_KeyID a) (pr_Current prf) (an_IssuedAt a) (an_ExpiresAt a) \<and>
     token_of cy po (an_KeyID a) (an_Payload a) (an_Compact a)"

lemma truncate_ms_mod [simp]: "truncate_ms t mod millisecond = 0"
  by (simp add: truncate_ms_def minus_mod_eq_mult_div)

lemma truncate_ms_id: "t mod millisecond = 0 \<Longrightarrow> truncate_ms t = t"
  by (simp add: truncate_ms_def)

lemma record_token_Inr: "record_token cy po c bytes a w = (Inr a', w') \<Longrightarrow> a' = a"
  by (auto simp: record_token_def acknowledge_token_def op_success)

lemma mint_Inr:
  assumes "mint cy po ttl c (pr_Current pf) i keyID w = (Inr a, w')"
    and "proof_holds c pf" and "opaque i" and "validKeyID keyID"
  shows "issued_by cy po ttl c pf a"
proof -
  obtain now v where n: "po_Now po w = (now, v)" by fastforce
  obtain bytes compact v1 where s: "truncate_ms now \<noteq> 0"
    "sign_token cy po keyID (payloadFor cy i keyID (pr_Current pf) (truncate_ms now) (truncate_ms now + ttl)) v = (Inr (bytes, compact), v1)"
    "record_token cy po c bytes \<lparr>an_ID = i, an_KeyID = keyID, an_Compact = compact,
       an_Payload = payloadFor cy i keyID (pr_Current pf) (truncate_ms now) (truncate_ms now + ttl),
       an_IssuedAt = truncate_ms now, an_ExpiresAt = truncate_ms now + ttl\<rparr> v1 = (Inr a, w')"
    using assms(1) by (auto simp: mint_def n Let_def op_success split: if_splits)
  show ?thesis
    using assms(2-4) s(1) sign_token_Inr [OF s(2)] record_token_Inr [OF s(3)] by (simp add: issued_by_def)
qed

lemma Issue_Inr:
  assumes "Issue cy po ttl c w = (Inr a, w')"
  shows "\<exists>pf v. po_Resolve po c w = (Inr pf, v) \<and> issued_by cy po ttl c pf a"
  using assms by (auto simp: Issue_def issue_as_def op_success split: if_splits dest: mint_Inr)

text \<open>What the documents' codecs promise: decoding what was encoded, and times up to the year 9999.\<close>

definition codec_ok :: "crypto \<Rightarrow> bool" where
  "codec_ok cy \<longleftrightarrow> (\<forall>h s. cy_header cy h = Inr s \<longrightarrow> cy_read_header cy s = Some h) \<and>
     (\<forall>p s. cy_payload cy p = Inr s \<longrightarrow> cy_read_payload cy s = Some p) \<and>
     (\<forall>t. 0 \<le> t \<and> t < 315537897600 * 1000000000 \<longrightarrow> cy_parse cy (cy_format cy t) = Some t)"

lemma Verify_token:
  assumes t: "token_of cy po keyID payload compact" and codec: "codec_ok cy" and "validKeyID keyID"
    and sig: "\<And>m s v v'. po_Sign po keyID m v = (Inr s, v') \<Longrightarrow> cy_verify cy public m s"
    and live: "po_Revoked po keyID w = (Inr False, w1)" "po_PublicKey po keyID w1 = (Inr public, w2)" "length public = 32"
    and claims: "opaque (pl_AuthorizationID payload)" "pl_KeyID payload = keyID" "pl_Issuer payload = Issuer"
      "pl_Audience payload = Audience" "pl_Kind payload = ''ApplyAuthorization''" "valid_claims cy now payload"
  shows "Verify cy po compact now w = (Inr payload, w2)"
proof -
  obtain h p s v v' where d: "cy_payload cy payload = Inr p"
    "cy_header cy \<lparr>ph_Algorithm = ''EdDSA'', ph_KeyID = keyID, ph_Type = TokenType\<rparr> = Inr h"
    "po_Sign po keyID (signingInput h p) v = (Inr s, v')" "compact = signingInput h p @ ''.'' @ encode64 s"
    using t by (auto simp: token_of_def)
  have "cy_read_header cy h = Some \<lparr>ph_Algorithm = ''EdDSA'', ph_KeyID = keyID, ph_Type = TokenType\<rparr>"
    "cy_read_payload cy p = Some payload" using codec d(1,2) by (auto simp: codec_ok_def)
  moreover have "Split CHR ''.'' compact = [encode64 h, encode64 p, encode64 s]" unfolding d(4) by (rule Split_token)
  moreover have "cy_verify cy public (encode64 h @ ''.'' @ encode64 p) s" using sig [OF d(3)] by (simp add: signingInput_def)
  ultimately show ?thesis
    using assms(3) live claims
    by (simp add: Verify_def live_key_def check_signature_def check_claims_def andThen_def)
qed

lemma Verify_newline:
  assumes "Split CHR ''.'' compact = [h, p, s]"
  shows "Verify cy po (compact @ [LF]) now w = Verify cy po compact now w"
proof -
  have "LF \<noteq> CHR ''.''" by (simp add: LF_def)
  then have parts: "Split CHR ''.'' (compact @ [LF]) = [h, p, s @ [LF]]" by (simp add: Split_snoc assms)
  show ?thesis unfolding Verify_def assms parts list.case decode64_newline by (rule refl)
qed

lemma issued_claims:
  assumes "issued_by cy po ttl c pf a" and "codec_ok cy" and "ttl \<le> five_minutes"
    and "0 \<le> an_IssuedAt a" and "an_ExpiresAt a < 315537897600 * 1000000000"
    and "an_IssuedAt a \<le> now" and "now < truncate_ms (an_ExpiresAt a)"
  shows "valid_claims cy now (an_Payload a) \<and> pl_Binding (an_Payload a) = pr_Current pf \<and>
    pl_AuthorizationID (an_Payload a) = an_ID a \<and> pl_KeyID (an_Payload a) = an_KeyID a \<and>
    pl_Issuer (an_Payload a) = Issuer \<and> pl_Audience (an_Payload a) = Audience \<and>
    pl_Kind (an_Payload a) = ''ApplyAuthorization''"
proof -
  let ?i = "an_IssuedAt a" and ?e = "truncate_ms (an_ExpiresAt a)"
  have i: "?i mod millisecond = 0" "?i \<noteq> 0" "an_ExpiresAt a = ?i + ttl" "validBinding (pr_Current pf)"
    and p: "an_Payload a = payloadFor cy (an_ID a) (an_KeyID a) (pr_Current pf) ?i (an_ExpiresAt a)"
    using assms(1) by (simp_all add: issued_by_def proof_holds_def)
  have e: "?e \<le> an_ExpiresAt a" by (simp add: truncate_ms_def millisecond_def)
  have t: "timestamp cy ?i = cy_format cy ?i" using i(1) by (simp add: timestamp_def truncate_ms_id)
  have "cy_parse cy (cy_format cy ?i) = Some ?i" "cy_parse cy (cy_format cy ?e) = Some ?e"
    using assms(2,4-7) e unfolding codec_ok_def by auto
  moreover have "truncate_ms ?e = ?e" by (simp add: truncate_ms_id)
  moreover have "?e - ?i \<le> five_minutes" using e i(3) assms(3) by simp
  ultimately show ?thesis
    unfolding p using assms(4,6,7) i t
    by (simp add: payloadFor_def valid_claims_def timestamp_def truncate_ms_id)
qed


section \<open>The commit authority\<close>

record AuthorizationRequest =
  ar_IdempotencyKey :: string
  ar_WorkspaceID :: string
  ar_ProjectID :: string
  ar_RunID :: string
  ar_ArtifactDigest :: string
  ar_ActionDigest :: string
  ar_ApprovalRequestID :: string

record IssuedAuthorization =
  ia_AuthorizationID :: string
  ia_CompactJWS :: string
  ia_ExpiresAt :: time

record IssuanceRecord =
  is_WorkspaceID :: string
  is_ProjectID :: string
  is_RunID :: string
  is_OperationKey :: string
  is_AuthorizationID :: string
  is_AuthorizationJWS :: string
  is_ExpiresAt :: time

definition issuedFromRecord :: "IssuanceRecord \<Rightarrow> err + IssuedAuthorization" where
  "issuedFromRecord r =
     (if is_AuthorizationID r = '''' \<or> is_AuthorizationJWS r = ''''
      then Inl (Plain ''commit authority: the recorded issuance does not carry the complete signed authorization'')
      else Inr \<lparr>ia_AuthorizationID = is_AuthorizationID r, ia_CompactJWS = is_AuthorizationJWS r, ia_ExpiresAt = is_ExpiresAt r\<rparr>)"

text \<open>
  \<open>recorded\<close> is the issuance store, \<open>issue\<close> the issuer service; both are operations of one world. The error
  of \<open>issue\<close> selects the second reading of the store.
\<close>

definition issue_command :: "AuthorizationRequest \<Rightarrow> IssueCommand" where
  "issue_command q = \<lparr>ic_WorkspaceID = ar_WorkspaceID q, ic_ProjectID = ar_ProjectID q, ic_RunID = ar_RunID q,
     ic_ApprovalRequestID = ar_ApprovalRequestID q, ic_ArtifactID = ar_ArtifactDigest q, ic_OperationKey = ar_IdempotencyKey q\<rparr>"

definition is_code :: "code \<Rightarrow> err \<Rightarrow> bool" where
  "is_code c e \<longleftrightarrow> (case as_Details e of None \<Rightarrow> False | Some d \<Rightarrow> d_Code d = code_string c)"

definition issue_new :: "(string \<Rightarrow> string \<Rightarrow> string \<Rightarrow> ('w, err, IssuanceRecord option) op) \<Rightarrow>
    (IssueCommand \<Rightarrow> ('w, err, Authorization) op) \<Rightarrow> AuthorizationRequest \<Rightarrow> ('w, err, IssuedAuthorization) op" where
  "issue_new recorded issue q w =
     (case issue (issue_command q) w of
        (Inr a, w) \<Rightarrow> (Inr \<lparr>ia_AuthorizationID = an_ID a, ia_CompactJWS = an_Compact a, ia_ExpiresAt = an_ExpiresAt a\<rparr>, w)
      | (Inl e, w) \<Rightarrow>
          (if is_code CodeIdempotencyConflict e
           then case recorded (ar_WorkspaceID q) (ar_ProjectID q) (ar_IdempotencyKey q) w of
               (Inl e', w) \<Rightarrow> (Inl (Wrapped ''read winning issuance after race'' e'), w)
             | (Inr (Some r), w) \<Rightarrow> (issuedFromRecord r, w)
             | (Inr None, w) \<Rightarrow> (Inl e, w)
           else (Inl e, w)))"

definition commit_Issue :: "(string \<Rightarrow> string \<Rightarrow> string \<Rightarrow> ('w, err, IssuanceRecord option) op) \<Rightarrow>
    (IssueCommand \<Rightarrow> ('w, err, Authorization) op) \<Rightarrow> AuthorizationRequest \<Rightarrow> ('w, err, IssuedAuthorization) op" where
  "commit_Issue recorded issue q w =
     (if ar_IdempotencyKey q = '''' \<or> ar_WorkspaceID q = '''' \<or> ar_ProjectID q = '''' \<or> ar_RunID q = ''''
         \<or> ar_ApprovalRequestID q = ''''
      then (Inl (Plain ''commit authority: the durable operation identity, scope, run, and approval identities are required''), w)
      else if \<not> validDigest (ar_ArtifactDigest q) \<or> ar_ActionDigest q \<noteq> ar_ArtifactDigest q
      then (Inl (Plain ''commit authority: the approved action digest must bind the exact artifact being committed''), w)
      else case recorded (ar_WorkspaceID q) (ar_ProjectID q) (ar_IdempotencyKey q) w of
          (Inl e, w) \<Rightarrow> (Inl (Wrapped ''read recorded issuance'' e), w)
        | (Inr (Some r), w) \<Rightarrow> (issuedFromRecord r, w)
        | (Inr None, w) \<Rightarrow> issue_new recorded issue q w)"

type_synonym MemoryIssuanceStore = "IssuanceRecord gomap"

definition NewMemoryIssuanceStore :: MemoryIssuanceStore where
  "NewMemoryIssuanceStore = []"

definition issuanceKey :: "string \<Rightarrow> string \<Rightarrow> string \<Rightarrow> string" where
  "issuanceKey w p k = scoped_key w p k"

definition mem_Recorded :: "string \<Rightarrow> string \<Rightarrow> string \<Rightarrow> (MemoryIssuanceStore, err, IssuanceRecord option) op" where
  "mem_Recorded w p k s = (Inr (gm_get s (issuanceKey w p k)), s)"

definition mem_Record :: "AuditRecord \<Rightarrow> (MemoryIssuanceStore, err, unit) op" where
  "mem_Record a s =
     (if au_OperationKey a = '''' \<or> au_Token a = ''''
      then (Inl (Plain ''issuance record requires the durable operation identity and the signed token''), s)
      else let key = issuanceKey (au_WorkspaceID a) (au_ProjectID a) (au_OperationKey a) in
        case gm_get s key of
          Some winner \<Rightarrow>
            (if is_AuthorizationID winner \<noteq> au_AuthorizationID a then (Inl (problem CodeIdempotencyConflict), s)
             else (Inr (), s))
        | None \<Rightarrow>
            (Inr (), gm_put key \<lparr>is_WorkspaceID = au_WorkspaceID a, is_ProjectID = au_ProjectID a, is_RunID = au_RunID a,
               is_OperationKey = au_OperationKey a, is_AuthorizationID = au_AuthorizationID a,
               is_AuthorizationJWS = au_Token a, is_ExpiresAt = au_ExpiresAt a\<rparr> s))"

text \<open>The audit port of \<open>applyauth.go\<close> itself, which keeps the records of the winners in order.\<close>

record MemoryAudit =
  ma_Records :: "AuditRecord list"
  ma_operations :: "AuditRecord gomap"

definition audit_Record :: "AuditRecord \<Rightarrow> (MemoryAudit, err, unit) op" where
  "audit_Record a s =
     (let key = scoped_key (au_WorkspaceID a) (au_ProjectID a) (au_OperationKey a) in
      case gm_get (ma_operations s) key of
        Some prior \<Rightarrow>
          (if au_AuthorizationID prior \<noteq> au_AuthorizationID a then (Inl (problem CodeIdempotencyConflict), s) else (Inr (), s))
      | None \<Rightarrow> (Inr (), s\<lparr>ma_operations := gm_put key a (ma_operations s), ma_Records := ma_Records s @ [a]\<rparr>))"

definition audit_Recorded :: "string \<Rightarrow> string \<Rightarrow> string \<Rightarrow> MemoryAudit \<Rightarrow> AuditRecord option" where
  "audit_Recorded w p k s = gm_get (ma_operations s) (scoped_key w p k)"

section \<open>One capability per operation\<close>

text \<open>A history of commits against one store and issuer, whatever each of them answers.\<close>

fun issue_all :: "(string \<Rightarrow> string \<Rightarrow> string \<Rightarrow> ('w, err, IssuanceRecord option) op) \<Rightarrow>
    (IssueCommand \<Rightarrow> ('w, err, Authorization) op) \<Rightarrow> AuthorizationRequest list \<Rightarrow> 'w \<Rightarrow> 'w" where
  "issue_all recorded issue [] s = s"
| "issue_all recorded issue (q # qs) s = issue_all recorded issue qs (snd (commit_Issue recorded issue q s))"

text \<open>
  What the commit authority needs of the issuance store and the issuer: an invariant all operations keep,
  records that are never lost or changed, a store that reads them, and an issuer whose answer is recorded.
\<close>

locale issuance =
  fixes recorded :: "string \<Rightarrow> string \<Rightarrow> string \<Rightarrow> ('w, err, IssuanceRecord option) op"
    and issue :: "IssueCommand \<Rightarrow> ('w, err, Authorization) op"
    and durable :: "'w \<Rightarrow> string \<Rightarrow> IssuanceRecord option"
    and inv :: "'w \<Rightarrow> bool"
  assumes recorded_keeps: "inv s \<Longrightarrow> recorded w p k s = (r, t) \<Longrightarrow> inv t \<and> durable s \<subseteq>\<^sub>m durable t"
    and recorded_reads: "inv s \<Longrightarrow> recorded w p k s = (Inr x, t) \<Longrightarrow> durable t (issuanceKey w p k) = x"
    and issue_keeps: "inv s \<Longrightarrow> issue c s = (r', t) \<Longrightarrow> inv t \<and> durable s \<subseteq>\<^sub>m durable t"
    and issue_records: "inv s \<Longrightarrow> issue c s = (Inr a, t) \<Longrightarrow>
      \<exists>r. durable t (issuanceKey (ic_WorkspaceID c) (ic_ProjectID c) (ic_OperationKey c)) = Some r \<and>
        is_AuthorizationID r = an_ID a \<and> is_AuthorizationJWS r = an_Compact a"
begin

lemma new_keeps: "inv s \<Longrightarrow> issue_new recorded issue q s = (r, t) \<Longrightarrow> inv t \<and> durable s \<subseteq>\<^sub>m durable t"
  by (auto simp: issue_new_def split: if_splits prod.splits sum.splits option.splits)
    (metis recorded_keeps issue_keeps map_le_trans)+

lemma commit_keeps: "inv s \<Longrightarrow> commit_Issue recorded issue q s = (r, t) \<Longrightarrow> inv t \<and> durable s \<subseteq>\<^sub>m durable t"
  by (auto simp: commit_Issue_def split: if_splits prod.splits sum.splits option.splits)
    (metis recorded_keeps new_keeps map_le_trans)+

definition holds_for :: "AuthorizationRequest \<Rightarrow> IssuedAuthorization \<Rightarrow> 'w \<Rightarrow> bool" where
  "holds_for q x s \<longleftrightarrow> (\<exists>r. durable s (issuanceKey (ar_WorkspaceID q) (ar_ProjectID q) (ar_IdempotencyKey q)) = Some r \<and>
    is_AuthorizationID r = ia_AuthorizationID x \<and> is_AuthorizationJWS r = ia_CompactJWS x)"

lemma from_record:
  "inv s \<Longrightarrow> recorded (ar_WorkspaceID q) (ar_ProjectID q) (ar_IdempotencyKey q) s = (Inr (Some r), t) \<Longrightarrow>
    issuedFromRecord r = Inr x \<Longrightarrow> holds_for q x t"
  using recorded_reads by (fastforce simp: holds_for_def issuedFromRecord_def split: if_splits)

lemma new_records:
  assumes "inv s" and "issue_new recorded issue q s = (Inr x, t)"
  shows "holds_for q x t"
proof (cases "issue (issue_command q) s")
  case (Pair r s1)
  with assms have "inv s1" using issue_keeps by blast
  then show ?thesis
    using assms Pair issue_records [of s "issue_command q" _ s1]
    by (auto simp: issue_new_def holds_for_def issue_command_def
        split: sum.splits if_splits prod.splits option.splits dest!: from_record [unfolded holds_for_def])
qed

lemma commit_records:
  assumes "inv s" and "commit_Issue recorded issue q s = (Inr x, t)"
  shows "holds_for q x t"
  using assms recorded_keeps new_records
  by (auto simp: commit_Issue_def split: if_splits prod.splits sum.splits option.splits intro: from_record) blast

lemma issue_all_keeps: "inv s \<Longrightarrow> inv (issue_all recorded issue qs s) \<and> durable s \<subseteq>\<^sub>m durable (issue_all recorded issue qs s)"
proof (induction qs arbitrary: s)
  case (Cons q qs)
  obtain r t where t: "commit_Issue recorded issue q s = (r, t)" by fastforce
  with Cons commit_keeps [OF Cons.prems t] show ?case by (auto intro: map_le_trans)
qed simp

lemma same_capability:
  assumes "inv s" and "commit_Issue recorded issue q s = (Inr x, t)"
    and "commit_Issue recorded issue q' (issue_all recorded issue qs t) = (Inr y, u)"
    and "ar_WorkspaceID q' = ar_WorkspaceID q" and "ar_ProjectID q' = ar_ProjectID q"
    and "ar_IdempotencyKey q' = ar_IdempotencyKey q"
  shows "ia_AuthorizationID y = ia_AuthorizationID x \<and> ia_CompactJWS y = ia_CompactJWS x"
proof -
  have t: "inv t" "holds_for q x t" using assms(1,2) commit_keeps commit_records by blast+
  have a: "inv (issue_all recorded issue qs t)" "durable t \<subseteq>\<^sub>m durable (issue_all recorded issue qs t)" using issue_all_keeps [OF t(1)] by blast+
  have u: "holds_for q' y u" "durable (issue_all recorded issue qs t) \<subseteq>\<^sub>m durable u"
    using commit_records [OF a(1) assms(3)] commit_keeps [OF a(1) assms(3)] by blast+
  with a(2) have "durable t \<subseteq>\<^sub>m durable u" by (blast intro: map_le_trans)
  then show ?thesis using t(2) u(1) assms(4-6) by (auto simp: holds_for_def map_le_def dom_def)
qed

end

section \<open>The issuer over the in-memory records\<close>

text \<open>
  The world the issuer runs in: the issuance records, the receipt journal, what happens to the next calls
  of the audit and the journal (they work, get lost, or work and lose their answer), the serial number of
  the identities, and the state of all other ports. \<open>RandomAuthorizationIDs\<close> never repeats an identity.
\<close>

datatype fate = Works | Lost | Late

record 'x issuing =
  iw_records :: MemoryIssuanceStore
  iw_receipts :: MemoryStore
  iw_fates :: "fate list"
  iw_serial :: nat
  iw_rest :: 'x

definition lost :: err where
  "lost = Plain ''connection lost''"

definition faulty :: "('x issuing, err, 'a) op \<Rightarrow> ('x issuing, err, 'a) op" where
  "faulty f s =
     (case iw_fates s of
        [] \<Rightarrow> f s
      | Works # fs \<Rightarrow> f (s\<lparr>iw_fates := fs\<rparr>)
      | Lost # fs \<Rightarrow> (Inl lost, s\<lparr>iw_fates := fs\<rparr>)
      | Late # fs \<Rightarrow> (Inl lost, snd (f (s\<lparr>iw_fates := fs\<rparr>))))"

definition on_records :: "(MemoryIssuanceStore, err, 'a) op \<Rightarrow> ('x issuing, err, 'a) op" where
  "on_records f s = (case f (iw_records s) of (r, m) \<Rightarrow> (r, s\<lparr>iw_records := m\<rparr>))"

definition on_receipts :: "(MemoryStore, err, 'a) op \<Rightarrow> ('x issuing, err, 'a) op" where
  "on_receipts f s = (case f (iw_receipts s) of (r, m) \<Rightarrow> (r, s\<lparr>iw_receipts := m\<rparr>))"

definition on_rest :: "('x \<Rightarrow> 'a \<times> 'x) \<Rightarrow> 'x issuing \<Rightarrow> 'a \<times> 'x issuing" where
  "on_rest f s = (case f (iw_rest s) of (r, x) \<Rightarrow> (r, s\<lparr>iw_rest := x\<rparr>))"

definition serial_id :: "nat \<Rightarrow> string" where
  "serial_id n = ''authorization.'' @ nat_digits n"

definition next_id :: "('x issuing, err, string) op" where
  "next_id s = (Inr (serial_id (iw_serial s)), s\<lparr>iw_serial := Suc (iw_serial s)\<rparr>)"

definition issuing_ports :: "'x ports \<Rightarrow> 'x issuing ports" where
  "issuing_ports p = \<lparr>po_Resolve = \<lambda>c. on_rest (po_Resolve p c), po_AuthorizationID = next_id,
     po_ActiveKeyID = on_rest (po_ActiveKeyID p), po_Sign = \<lambda>k m. on_rest (po_Sign p k m),
     po_PublicKey = \<lambda>k. on_rest (po_PublicKey p k), po_Revoked = \<lambda>k. on_rest (po_Revoked p k),
     po_Record = \<lambda>a. faulty (on_records (mem_Record a)), po_Append = \<lambda>f. faulty (on_receipts (mem_Append f)),
     po_Require = \<lambda>b. on_rest (po_Require p b), po_Now = on_rest (po_Now p)\<rparr>"

definition mem_recorded :: "string \<Rightarrow> string \<Rightarrow> string \<Rightarrow> ('x issuing, err, IssuanceRecord option) op" where
  "mem_recorded w p k = faulty (on_records (mem_Recorded w p k))"

definition mem_issue :: "crypto \<Rightarrow> 'x ports \<Rightarrow> time \<Rightarrow> IssueCommand \<Rightarrow> ('x issuing, err, Authorization) op" where
  "mem_issue cy p ttl = Issue cy (issuing_ports p) ttl"

definition mem_commit_Issue :: "crypto \<Rightarrow> 'x ports \<Rightarrow> time \<Rightarrow> AuthorizationRequest \<Rightarrow> ('x issuing, err, IssuedAuthorization) op" where
  "mem_commit_Issue cy p ttl = commit_Issue mem_recorded (mem_issue cy p ttl)"

text \<open>No recorded identity is still to come.\<close>

definition issuing_inv :: "'x issuing \<Rightarrow> bool" where
  "issuing_inv s \<longleftrightarrow> (\<forall>k r. gm_get (iw_records s) k = Some r \<longrightarrow> (\<exists>n < iw_serial s. is_AuthorizationID r = serial_id n))"

definition quiet :: "'x issuing \<Rightarrow> 'x issuing \<Rightarrow> bool" where
  "quiet s t \<longleftrightarrow> iw_records t = iw_records s \<and> iw_serial s \<le> iw_serial t"

definition is_quiet :: "('x issuing, err, 'a) op \<Rightarrow> bool" where
  "is_quiet f \<longleftrightarrow> (\<forall>s. quiet s (snd (f s)))"

lemma quiet_refl [simp]: "quiet s s"
  by (simp add: quiet_def)

lemma quiet_trans: "quiet s t \<Longrightarrow> quiet t u \<Longrightarrow> quiet s u"
  by (simp add: quiet_def)

lemma is_quietD: "is_quiet f \<Longrightarrow> f s = (r, t) \<Longrightarrow> quiet s t"
  by (metis is_quiet_def snd_conv)

lemma quiet_andThen: "is_quiet f \<Longrightarrow> (\<And>x. is_quiet (g x)) \<Longrightarrow> is_quiet (andThen f g)"
  by (auto simp: is_quiet_def andThen_def split: prod.splits sum.splits) (metis quiet_trans snd_conv)+

lemma quiet_on_rest: "is_quiet (on_rest f)" "quiet s (snd (on_rest g s))"
  by (auto simp: is_quiet_def on_rest_def quiet_def split: prod.splits)

lemma quiet_basic:
  "is_quiet (lift what r)" "is_quiet (fail e)" "is_quiet (Pair x)" "is_quiet f \<Longrightarrow> is_quiet (wrap what f)" "is_quiet next_id"
  by (auto simp: is_quiet_def lift_def fail_def wrap_def next_id_def quiet_def split: sum.splits prod.splits)
    (metis snd_conv)+

lemma quiet_faulty: "is_quiet f \<Longrightarrow> is_quiet (faulty f)"
proof -
  assume f: "is_quiet f"
  have "quiet s (snd (f (s\<lparr>iw_fates := fs\<rparr>)))" for s fs
    using f unfolding is_quiet_def quiet_def by (metis issuing.select_convs(1,4) issuing.surjective issuing.update_convs(3))
  then show ?thesis using f by (auto simp: is_quiet_def faulty_def quiet_def split: list.splits fate.splits)
qed

lemma quiet_on_receipts: "is_quiet (on_receipts f)"
  by (auto simp: is_quiet_def on_receipts_def quiet_def split: prod.splits)

lemma quiet_reading: "is_quiet (on_records (mem_Recorded w p k))"
  by (auto simp: is_quiet_def on_records_def mem_Recorded_def quiet_def)

lemmas quiet_intros = quiet_andThen quiet_on_rest(1) quiet_basic quiet_faulty quiet_on_receipts quiet_reading

lemma issuing_ports_simps [simp]:
  "po_Resolve (issuing_ports p) c = on_rest (po_Resolve p c)" "po_AuthorizationID (issuing_ports p) = next_id"
  "po_ActiveKeyID (issuing_ports p) = on_rest (po_ActiveKeyID p)" "po_Sign (issuing_ports p) k m = on_rest (po_Sign p k m)"
  "po_PublicKey (issuing_ports p) k = on_rest (po_PublicKey p k)" "po_Revoked (issuing_ports p) k = on_rest (po_Revoked p k)"
  "po_Record (issuing_ports p) a = faulty (on_records (mem_Record a))"
  "po_Append (issuing_ports p) f = faulty (on_receipts (mem_Append f))"
  "po_Require (issuing_ports p) b = on_rest (po_Require p b)" "po_Now (issuing_ports p) = on_rest (po_Now p)"
  by (simp_all add: issuing_ports_def)

lemma quiet_sign: "is_quiet (sign_token cy (issuing_ports p) keyID payload)"
  unfolding sign_token_def issuing_ports_simps by (intro quiet_intros) (auto intro: quiet_intros)

lemma quiet_live_key: "is_quiet (live_key (issuing_ports p) keyID e)"
  unfolding is_quiet_def live_key_def issuing_ports_simps
  by (auto simp: fail_def split: prod.splits sum.splits bool.splits) (metis quiet_on_rest(2) snd_conv)+

text \<open>
  The effect of one issuance: nothing is recorded and no capability is answered, or the operation had no
  record and has one now, with the answered identity and token if there is an answer.
\<close>

definition command_key :: "IssueCommand \<Rightarrow> string" where
  "command_key c = issuanceKey (ic_WorkspaceID c) (ic_ProjectID c) (ic_OperationKey c)"

definition effect :: "IssueCommand \<Rightarrow> string \<Rightarrow> 'x issuing \<Rightarrow> err + Authorization \<Rightarrow> 'x issuing \<Rightarrow> bool" where
  "effect c i s r t \<longleftrightarrow> iw_serial s \<le> iw_serial t \<and>
     (iw_records t = iw_records s \<and> (\<forall>a. r \<noteq> Inr a) \<or>
      (\<exists>n. gm_get (iw_records s) (command_key c) = None \<and> iw_records t = gm_put (command_key c) n (iw_records s) \<and>
         is_AuthorizationID n = i \<and> (\<forall>a. r = Inr a \<longrightarrow> an_ID a = i \<and> is_AuthorizationJWS n = an_Compact a)))"

definition unused :: "string \<Rightarrow> 'x issuing \<Rightarrow> bool" where
  "unused i s \<longleftrightarrow> (\<forall>k r. gm_get (iw_records s) k = Some r \<longrightarrow> is_AuthorizationID r \<noteq> i)"

lemma effect_quiet: "quiet s u \<Longrightarrow> effect c i u r t \<Longrightarrow> effect c i s r t"
  by (auto simp: effect_def quiet_def)

lemma effect_Inl: "quiet s t \<Longrightarrow> effect c i s (Inl e) t"
  by (simp add: effect_def quiet_def)

lemma unused_quiet: "quiet s t \<Longrightarrow> unused i s \<Longrightarrow> unused i t"
  by (simp add: unused_def quiet_def)

lemma effect_andThen:
  assumes "andThen f g s = (r, t)" and "is_quiet f"
    and "\<And>x u. f s = (Inr x, u) \<Longrightarrow> quiet s u \<Longrightarrow> g x u = (r, t) \<Longrightarrow> effect c i u r t"
  shows "effect c i s r t"
proof (cases "f s")
  case (Pair q u)
  with assms(2) have "quiet s u" by (rule is_quietD)
  with assms(1,3) Pair show ?thesis
    by (cases q) (auto intro: effect_quiet effect_Inl)
qed

lemma record_port:
  assumes "faulty (on_records (mem_Record a)) s = (r, t)" and "unused (au_AuthorizationID a) s"
    and "key = issuanceKey (au_WorkspaceID a) (au_ProjectID a) (au_OperationKey a)"
  shows "iw_serial t = iw_serial s \<and> (iw_records t = iw_records s \<and> (\<exists>e. r = Inl e) \<or>
    (\<exists>n. gm_get (iw_records s) key = None \<and> iw_records t = gm_put key n (iw_records s) \<and>
       is_AuthorizationID n = au_AuthorizationID a \<and> is_AuthorizationJWS n = au_Token a))"
  using assms(1,2) unfolding assms(3)
  by (auto simp: faulty_def on_records_def mem_Record_def unused_def Let_def
      split: list.splits fate.splits if_splits option.splits)

lemma quiet_acknowledge: "is_quiet (acknowledge_token cy (issuing_ports p) c a)"
  unfolding acknowledge_token_def issuing_ports_simps
  by (intro quiet_intros) (auto split: sum.splits intro: quiet_intros)

lemma acknowledge_Inr: "acknowledge_token cy po c a w = (Inr a', w') \<Longrightarrow> a' = a"
  by (auto simp: acknowledge_token_def op_success)

lemma effect_record:
  assumes "record_token cy (issuing_ports p) c bytes a s = (r, t)" and "unused (an_ID a) s"
  shows "effect c (an_ID a) s r t"
proof -
  obtain r1 s1 where f: "faulty (on_records (mem_Record (audit_row cy c bytes a))) s = (r1, s1)" by fastforce
  have row: "au_AuthorizationID (audit_row cy c bytes a) = an_ID a" "au_Token (audit_row cy c bytes a) = an_Compact a"
    "command_key c = issuanceKey (au_WorkspaceID (audit_row cy c bytes a)) (au_ProjectID (audit_row cy c bytes a))
       (au_OperationKey (audit_row cy c bytes a))"
    by (simp_all add: audit_row_def command_key_def)
  note port = record_port [OF f _ row(3), unfolded row(1,2), OF assms(2)]
  show ?thesis
  proof (cases r1)
    case (Inl e)
    then have "r = Inl (Wrapped ''durably audit authorization issuance'' e)" "t = s1"
      using assms(1) f by (simp_all add: record_token_def andThen_def wrap_def)
    then show ?thesis using port by (auto simp: effect_def)
  next
    case (Inr x)
    then have "acknowledge_token cy (issuing_ports p) c a s1 = (r, t)"
      using assms(1) f by (simp add: record_token_def andThen_def wrap_def)
    then have "quiet s1 t" "\<forall>b. r = Inr b \<longrightarrow> b = a"
      by (auto dest: acknowledge_Inr is_quietD [OF quiet_acknowledge])
    then show ?thesis using port Inr by (auto simp: effect_def quiet_def)
  qed
qed

lemma effect_mint:
  assumes "mint cy (issuing_ports p) ttl c b i keyID s = (r, t)" and "unused i s"
  shows "effect c i s r t"
proof -
  obtain now u where n: "on_rest (po_Now p) s = (now, u)" by fastforce
  then have q: "quiet s u" by (metis quiet_on_rest(2) snd_conv)
  with assms(2) have u: "unused i u" by (blast intro: unused_quiet)
  have "effect c i u r t"
  proof (cases "truncate_ms now = 0")
    case True
    then show ?thesis using assms(1) n by (auto simp: mint_def fail_def effect_def)
  next
    case False
    with assms(1) n have m: "andThen (sign_token cy (issuing_ports p) keyID (payloadFor cy i keyID b (truncate_ms now) (truncate_ms now + ttl)))
        (\<lambda>(payloadBytes, compact). record_token cy (issuing_ports p) c payloadBytes \<lparr>an_ID = i, an_KeyID = keyID, an_Compact = compact,
           an_Payload = payloadFor cy i keyID b (truncate_ms now) (truncate_ms now + ttl),
           an_IssuedAt = truncate_ms now, an_ExpiresAt = truncate_ms now + ttl\<rparr>) u = (r, t)"
      by (simp add: mint_def Let_def)
    show ?thesis
    proof (rule effect_andThen [OF m quiet_sign])
      fix x v
      assume "quiet u v"
        and "(case x of (payloadBytes, compact) \<Rightarrow> record_token cy (issuing_ports p) c payloadBytes \<lparr>an_ID = i, an_KeyID = keyID, an_Compact = compact,
           an_Payload = payloadFor cy i keyID b (truncate_ms now) (truncate_ms now + ttl),
           an_IssuedAt = truncate_ms now, an_ExpiresAt = truncate_ms now + ttl\<rparr>) v = (r, t)"
      with u show "effect c i v r t"
        by (cases x) (auto dest!: effect_record intro: unused_quiet)
    qed
  qed
  with q show ?thesis by (rule effect_quiet)
qed

lemma effect_issue_as:
  assumes "issue_as cy (issuing_ports p) ttl c b i s = (r, t)" and "unused i s"
  shows "effect c i s r t"
proof (cases "opaque i")
  case False
  then show ?thesis using assms(1) by (auto simp: issue_as_def fail_def effect_def)
next
  case True
  with assms(1) have m: "andThen (wrap ''resolve active authorization key'' (on_rest (po_ActiveKeyID p))) (\<lambda>keyID.
        if \<not> validKeyID keyID then fail (Plain ''resolve active authorization key: invalid key ID'')
        else andThen (live_key (issuing_ports p) keyID (denied ''active signing key is revoked'')) (\<lambda>_.
          mint cy (issuing_ports p) ttl c b i keyID)) s = (r, t)"
    by (simp add: issue_as_def)
  show ?thesis
  proof (rule effect_andThen [OF m])
    show "is_quiet (wrap ''resolve active authorization key'' (on_rest (po_ActiveKeyID p)))" by (intro quiet_intros)
    fix keyID u
    assume u: "quiet s u" and k: "(if \<not> validKeyID keyID then fail (Plain ''resolve active authorization key: invalid key ID'')
        else andThen (live_key (issuing_ports p) keyID (denied ''active signing key is revoked'')) (\<lambda>_.
          mint cy (issuing_ports p) ttl c b i keyID)) u = (r, t)"
    show "effect c i u r t"
    proof (cases "validKeyID keyID")
      case False
      then show ?thesis using k by (auto simp: fail_def effect_def)
    next
      case True
      with k have l: "andThen (live_key (issuing_ports p) keyID (denied ''active signing key is revoked''))
          (\<lambda>_. mint cy (issuing_ports p) ttl c b i keyID) u = (r, t)" by simp
      show ?thesis
        using unused_quiet [OF u assms(2)]
        by (intro effect_andThen [OF l quiet_live_key]) (auto intro: effect_mint unused_quiet)
    qed
  qed
qed

lemma serial_id_inject [simp]: "serial_id m = serial_id n \<longleftrightarrow> m = n"
  by (auto simp: serial_id_def dest: nat_digits_inject)

lemma effect_Issue:
  assumes "mem_issue cy p ttl c s = (r, t)" and "issuing_inv s"
  shows "\<exists>n. iw_serial s \<le> n \<and> (n < iw_serial t \<or> quiet s t) \<and> effect c (serial_id n) s r t"
proof (cases "bounded_command c")
  case False
  then show ?thesis using assms(1) by (auto simp: mem_issue_def Issue_def fail_def effect_def)
next
  case True
  obtain q u where u: "on_rest (po_Resolve p c) s = (q, u)" by fastforce
  then have quiet: "quiet s u" by (metis quiet_on_rest(2) snd_conv)
  show ?thesis
  proof (cases "\<exists>pf. q = Inr pf \<and> proof_holds c pf")
    case False
    then have "(\<exists>e. r = Inl e) \<and> t = u"
      using assms(1) True u by (auto simp: mem_issue_def Issue_def fail_def andThen_def split: sum.splits if_splits)
    then show ?thesis using quiet effect_Inl by blast
  next
    case True': True
    then obtain pf where pf: "q = Inr pf" "proof_holds c pf" by blast
    let ?n = "iw_serial u" and ?v = "u\<lparr>iw_serial := Suc (iw_serial u)\<rparr>"
    have i: "issue_as cy (issuing_ports p) ttl c (pr_Current pf) (serial_id ?n) ?v = (r, t)"
      using assms(1) True u pf by (simp add: mem_issue_def Issue_def andThen_def wrap_def next_id_def)
    have "unused (serial_id ?n) ?v"
      using assms(2) quiet unfolding unused_def issuing_inv_def quiet_def by fastforce
    then have e: "effect c (serial_id ?n) ?v r t" using i by (rule effect_issue_as [rotated])
    moreover have "quiet s ?v" using quiet by (simp add: quiet_def)
    ultimately have "effect c (serial_id ?n) s r t" by (blast intro: effect_quiet)
    moreover have "?n < iw_serial t" "iw_serial s \<le> ?n" using e quiet by (auto simp: effect_def quiet_def)
    ultimately show ?thesis by blast
  qed
qed

lemma effect_keeps:
  assumes "effect c (serial_id n) s r t" and "iw_serial s \<le> n" and "n < iw_serial t \<or> quiet s t" and "issuing_inv s"
  shows "issuing_inv t \<and> gm_get (iw_records s) \<subseteq>\<^sub>m gm_get (iw_records t)"
proof -
  consider "iw_records t = iw_records s" "iw_serial s \<le> iw_serial t"
    | rec where "gm_get (iw_records s) (command_key c) = None" "iw_records t = gm_put (command_key c) rec (iw_records s)"
        "is_AuthorizationID rec = serial_id n" "iw_serial s \<le> iw_serial t"
    using assms(1) by (auto simp: effect_def)
  then show ?thesis
  proof cases
    case 1
    then show ?thesis using assms(4) unfolding issuing_inv_def by (metis le_trans less_le_trans map_le_refl)
  next
    case 2
    have "n < iw_serial t"
      using assms(2,3) 2 by (auto simp: quiet_def gm_get_put) (metis gm_get_put option.distinct(1))
    moreover have "issuing_inv t" if "n < iw_serial t"
      using assms(4) 2 that unfolding issuing_inv_def by (auto simp: gm_get_put) (metis less_le_trans)
    ultimately show ?thesis using 2(1,2) by (auto simp: map_le_def gm_get_put)
  qed
qed

interpretation memory: issuance mem_recorded "mem_issue cy p ttl" "\<lambda>s. gm_get (iw_records s)" issuing_inv for cy p ttl
proof
  have quiet_keeps: "quiet s t \<Longrightarrow> issuing_inv s \<Longrightarrow> issuing_inv t \<and> gm_get (iw_records s) \<subseteq>\<^sub>m gm_get (iw_records t)"
    for s t :: "'a issuing"
    unfolding quiet_def issuing_inv_def by (metis less_le_trans map_le_refl)
  have q: "is_quiet (mem_recorded w pr k :: ('a issuing, err, IssuanceRecord option) op)" for w pr k
    unfolding mem_recorded_def by (intro quiet_intros)
  show "issuing_inv t \<and> gm_get (iw_records s) \<subseteq>\<^sub>m gm_get (iw_records t)"
    if "issuing_inv s" and "mem_recorded w pr k s = (r, t)" for s t :: "'a issuing" and w pr k r
    using that quiet_keeps is_quietD [OF q] by blast
  show "gm_get (iw_records t) (issuanceKey w pr k) = x"
    if "issuing_inv s" and "mem_recorded w pr k s = (Inr x, t)" for s t :: "'a issuing" and w pr k x
    using that(2) by (auto simp: mem_recorded_def faulty_def on_records_def mem_Recorded_def
        split: list.splits fate.splits)
  show "issuing_inv t \<and> gm_get (iw_records s) \<subseteq>\<^sub>m gm_get (iw_records t)"
    if "issuing_inv s" and "mem_issue cy p ttl c s = (r, t)" for s t :: "'a issuing" and c r
    using effect_Issue [OF that(2,1)] effect_keeps that(1) by blast
  show "\<exists>r. gm_get (iw_records t) (issuanceKey (ic_WorkspaceID c) (ic_ProjectID c) (ic_OperationKey c)) = Some r \<and>
        is_AuthorizationID r = an_ID a \<and> is_AuthorizationJWS r = an_Compact a"
    if "issuing_inv s" and "mem_issue cy p ttl c s = (Inr a, t)" for s t :: "'a issuing" and c a
    using effect_Issue [OF that(2,1)] by (auto simp: effect_def command_key_def gm_get_put)
qed

section \<open>Properties\<close>

text \<open>C6 (one capability per commit operation). Whatever calls of the audit, the issuance store and the journal get
  lost or lose their answers, and whatever else is issued in between: once a commit operation was handed a
  capability, every later answer for that operation is the same authorization with the same signed token.\<close>

theorem one_capability_per_operation:
  assumes "issuing_inv s" and "mem_commit_Issue cy p ttl q s = (Inr x, t)"
    and "mem_commit_Issue cy p ttl q' (issue_all mem_recorded (mem_issue cy p ttl) qs t) = (Inr y, u)"
    and "ar_WorkspaceID q' = ar_WorkspaceID q" and "ar_ProjectID q' = ar_ProjectID q"
    and "ar_IdempotencyKey q' = ar_IdempotencyKey q"
  shows "ia_AuthorizationID y = ia_AuthorizationID x \<and> ia_CompactJWS y = ia_CompactJWS x"
  using assms unfolding mem_commit_Issue_def by (rule memory.same_capability)

text \<open>Concrete ports: everything is current, one key signs, the clock stands at an hour.\<close>

definition digest1 :: string where
  "digest1 = ''sha256:'' @ replicate 64 (CHR ''a'')"

definition binding1 :: Binding where
  "binding1 = \<lparr>bi_RunID = ''run'', bi_ActionDigest = digest1, bi_ArtifactDigest = digest1, bi_BaseRevision = ''rev:1'',
     bi_Target = \<lparr>at_Type = ''page'', at_ID = ''t'', at_WorkspaceID = ''w'', at_ProjectID = ''p''\<rparr>, bi_ActorID = ''actor'',
     bi_WorkspaceID = ''w'', bi_ApprovalVersion = 1, bi_ContractBOMDigest = digest1, bi_PolicyDigest = digest1,
     bi_DefinitionDigest = digest1, bi_CatalogDigest = digest1\<rparr>"

definition key1 :: string where
  "key1 = ''urn:anvilkit:key:one''"

definition ports1 :: "unit ports" where
  "ports1 = \<lparr>po_Resolve = \<lambda>c x. (Inr \<lparr>pr_Approved = binding1, pr_Current = binding1, pr_ApprovalCurrent = True, pr_ArtifactEligible = True\<rparr>, x),
     po_AuthorizationID = \<lambda>x. (Inr ''a'', x), po_ActiveKeyID = \<lambda>x. (Inr key1, x),
     po_Sign = \<lambda>k m x. (Inr (replicate 64 (CHR ''s'')), x), po_PublicKey = \<lambda>k x. (Inr (replicate 32 (CHR ''k'')), x),
     po_Revoked = \<lambda>k x. (Inr False, x), po_Record = \<lambda>a x. (Inr (), x), po_Append = \<lambda>f x. (Inr f, x),
     po_Require = \<lambda>b x. (Inr (), x), po_Now = \<lambda>x. (3600000000000, x)\<rparr>"

definition header1 :: protectedHeader where
  "header1 = \<lparr>ph_Algorithm = ''EdDSA'', ph_KeyID = key1, ph_Type = TokenType\<rparr>"

function format1 :: "time \<Rightarrow> string" where
  "format1 t = (if t \<le> 0 then [] else (if t mod 2 = 1 then CHR ''1'' else CHR ''0'') # format1 (t div 2))"
  by auto
termination by (relation "measure nat") auto

declare format1.simps [simp del]

fun parse1 :: "string \<Rightarrow> time" where
  "parse1 [] = 0"
| "parse1 (c # cs) = (if c = CHR ''1'' then 1 else 0) + 2 * parse1 cs"

lemma parse1_format1: "0 \<le> t \<Longrightarrow> parse1 (format1 t) = t"
proof (induction t rule: format1.induct)
  case (1 t)
  have "(if t mod 2 = 1 then 1 else 0) + 2 * (t div 2) = t" by presburger
  with 1 show ?case by (subst format1.simps) auto
qed

definition payload1 :: Payload where
  "payload1 = \<lparr>pl_Kind = ''ApplyAuthorization'', pl_AuthorizationID = ''authorization.0'', pl_KeyID = key1, pl_Issuer = Issuer,
     pl_Audience = Audience, pl_IssuedAt = format1 (3600000000000), pl_NotBefore = format1 (3600000000000),
     pl_ExpiresAt = format1 (3660000000000), pl_Binding = binding1\<rparr>"

definition crypto1 :: crypto where
  "crypto1 = \<lparr>cy_header = \<lambda>h. if h = header1 then Inr ''h'' else Inl lost,
     cy_payload = \<lambda>p. if p = payload1 then Inr ''p'' else Inl lost,
     cy_receipt = \<lambda>c a. Inr ''receipt'', cy_projection = \<lambda>a. Inr ''projection'',
     cy_read_header = \<lambda>s. if s = ''h'' then Some header1 else None,
     cy_read_payload = \<lambda>s. if s = ''p'' then Some payload1 else None,
     cy_sha = id, cy_hash = id, cy_verify = \<lambda>k m s. True, cy_format = format1, cy_parse = \<lambda>s. Some (parse1 s)\<rparr>"

definition request1 :: AuthorizationRequest where
  "request1 = \<lparr>ar_IdempotencyKey = ''op'', ar_WorkspaceID = ''w'', ar_ProjectID = ''p'', ar_RunID = ''run'',
     ar_ArtifactDigest = digest1, ar_ActionDigest = digest1, ar_ApprovalRequestID = ''approval''\<rparr>"

definition issuing1 :: "fate list \<Rightarrow> unit issuing" where
  "issuing1 fs = \<lparr>iw_records = NewMemoryIssuanceStore, iw_receipts = NewMemoryStore, iw_fates = fs, iw_serial = 0, iw_rest = ()\<rparr>"

definition minute :: time where
  "minute = 60000000000"

lemma codec1: "codec_ok crypto1"
  by (simp add: codec_ok_def crypto1_def parse1_format1)

definition token1 :: string where
  "token1 = signingInput ''h'' ''p'' @ ''.'' @ encode64 (replicate 64 (CHR ''s''))"

definition authorization1 :: Authorization where
  "authorization1 = \<lparr>an_ID = serial_id 0, an_KeyID = key1, an_Compact = token1, an_Payload = payload1,
     an_IssuedAt = 3600000000000, an_ExpiresAt = 3660000000000\<rparr>"

lemma serial1: "serial_id 0 = ''authorization.0''"
  by code_simp

lemma checks1:
  "bounded_command (issue_command request1)" "validBinding binding1" "opaque (serial_id 0)" "validKeyID key1" "validDigest digest1"
  "bi_RunID binding1 = ic_RunID (issue_command request1)" "bi_WorkspaceID binding1 = ic_WorkspaceID (issue_command request1)"
  "at_WorkspaceID (bi_Target binding1) = ic_WorkspaceID (issue_command request1)"
  by code_simp+

lemma times1: "truncate_ms (3600000000000) = 3600000000000" "3600000000000 + minute = 3660000000000"
  "truncate_ms (3660000000000) = 3660000000000"
  by (simp_all add: truncate_ms_def millisecond_def minute_def)

lemma payload1: "payloadFor crypto1 (serial_id 0) key1 binding1 (3600000000000) (3660000000000) = payload1"
  unfolding payloadFor_def timestamp_def times1 by (simp add: payload1_def crypto1_def serial1)

lemma on_rest_unit [simp]: "on_rest f (s :: unit issuing) = (fst (f ()), s)"
  by (simp add: on_rest_def split: prod.splits)

lemma ports1_answers [simp]:
  "fst (po_Resolve ports1 c ()) = Inr \<lparr>pr_Approved = binding1, pr_Current = binding1, pr_ApprovalCurrent = True, pr_ArtifactEligible = True\<rparr>"
  "fst (po_ActiveKeyID ports1 ()) = Inr key1" "fst (po_Sign ports1 k m ()) = Inr (replicate 64 (CHR ''s''))"
  "fst (po_PublicKey ports1 k ()) = Inr (replicate 32 (CHR ''k''))" "fst (po_Revoked ports1 k ()) = Inr False"
  "fst (po_Require ports1 b ()) = Inr ()" "fst (po_Now ports1 ()) = 3600000000000"
  by (simp_all add: ports1_def)

lemma mint1:
  assumes "iw_serial s = 0"
  shows "Issue crypto1 (issuing_ports ports1) minute (issue_command request1) s =
    record_token crypto1 (issuing_ports ports1) (issue_command request1) ''p'' authorization1 (s\<lparr>iw_serial := Suc 0\<rparr>)"
proof -
  let ?s = "s\<lparr>iw_serial := Suc 0\<rparr>"
  have sign: "sign_token crypto1 (issuing_ports ports1) key1 payload1 ?s = (Inr (''p'', token1), ?s)"
    by (simp add: sign_token_def andThen_def lift_def wrap_def crypto1_def header1_def token1_def del: encode64.simps)
  have "mint crypto1 (issuing_ports ports1) minute (issue_command request1) binding1 (serial_id 0) key1 ?s =
      record_token crypto1 (issuing_ports ports1) (issue_command request1) ''p'' authorization1 ?s"
    unfolding mint_def issuing_ports_simps on_rest_unit ports1_answers prod.case Let_def times1 payload1
    by (simp add: andThen_def sign authorization1_def)
  then show ?thesis
    using assms checks1
    by (simp add: Issue_def issue_as_def andThen_def wrap_def next_id_def proof_holds_def live_key_def)
qed

definition record1 :: IssuanceRecord where
  "record1 = \<lparr>is_WorkspaceID = ''w'', is_ProjectID = ''p'', is_RunID = ''run'', is_OperationKey = ''op'',
     is_AuthorizationID = serial_id 0, is_AuthorizationJWS = token1, is_ExpiresAt = 3660000000000\<rparr>"

definition issued1 :: IssuedAuthorization where
  "issued1 = \<lparr>ia_AuthorizationID = serial_id 0, ia_CompactJWS = token1, ia_ExpiresAt = 3660000000000\<rparr>"

lemma token1_nonempty [simp]: "token1 \<noteq> []" "serial_id n \<noteq> []"
  by (simp_all add: token1_def serial_id_def)

lemma crypto1_answers [simp]:
  "cy_receipt crypto1 c a = Inr ''receipt''" "cy_projection crypto1 a = Inr ''projection''" "cy_sha crypto1 = id" "cy_hash crypto1 = id"
  by (simp_all add: crypto1_def)

lemma command1 [simp]:
  "ic_WorkspaceID (issue_command request1) = ''w''" "ic_ProjectID (issue_command request1) = ''p''"
  "ic_RunID (issue_command request1) = ''run''" "ic_OperationKey (issue_command request1) = ''op''"
  by (simp_all add: issue_command_def request1_def)

lemma authorization1 [simp]:
  "an_ID authorization1 = serial_id 0" "an_Compact authorization1 = token1" "an_ExpiresAt authorization1 = 3660000000000"
  "an_Payload authorization1 = payload1" "an_KeyID authorization1 = key1" "an_IssuedAt authorization1 = 3600000000000"
  by (simp_all add: authorization1_def)

definition after1 :: "unit issuing" where
  "after1 = \<lparr>iw_records = [(issuanceKey ''w'' ''p'' ''op'', record1)], iw_receipts = NewMemoryStore, iw_fates = [],
     iw_serial = Suc 0, iw_rest = ()\<rparr>"

lemma row1: "mem_Record (audit_row crypto1 (issue_command request1) ''p'' authorization1) [] =
    (Inr (), [(issuanceKey ''w'' ''p'' ''op'', record1)])"
  by (simp add: mem_Record_def audit_row_def record1_def Let_def)

text \<open>An issuance whose journal call gets lost, and one that works.\<close>

lemma lost1: "mem_issue crypto1 ports1 minute (issue_command request1) (issuing1 [Works, Lost]) =
    (Inl (Wrapped ''authorization fact remains unacknowledged'' lost), after1)"
  unfolding mem_issue_def
  by (subst mint1) (simp_all add: issuing1_def NewMemoryIssuanceStore_def record_token_def andThen_def wrap_def faulty_def on_records_def row1
      acknowledge_token_def lift_def NewFact_def knownClass_def Classes_def after1_def)

lemma works1: "\<exists>t. mem_issue crypto1 ports1 minute (issue_command request1) (issuing1 []) = (Inr authorization1, t) \<and>
    iw_records t = [(issuanceKey ''w'' ''p'' ''op'', record1)] \<and> iw_fates t = []"
  unfolding mem_issue_def
  by (subst mint1) (simp_all add: issuing1_def NewMemoryIssuanceStore_def record_token_def andThen_def wrap_def faulty_def on_records_def row1
      acknowledge_token_def lift_def NewFact_def knownClass_def Classes_def on_receipts_def mem_Append_def NewMemoryStore_def Let_def)

lemma request1 [simp]:
  "ar_IdempotencyKey request1 = ''op''" "ar_WorkspaceID request1 = ''w''" "ar_ProjectID request1 = ''p''" "ar_RunID request1 = ''run''"
  "ar_ApprovalRequestID request1 = ''approval''" "ar_ArtifactDigest request1 = digest1" "ar_ActionDigest request1 = digest1"
  by (simp_all add: request1_def)

text \<open>The commit authority before there is a record, and when it finds one.\<close>

lemma unrecorded1:
  assumes "iw_records s = []" and "iw_fates s = [] \<or> (\<exists>fs. iw_fates s = Works # fs)"
  shows "mem_commit_Issue cy p ttl request1 s = issue_new mem_recorded (mem_issue cy p ttl) request1 (s\<lparr>iw_fates := tl (iw_fates s)\<rparr>)"
proof -
  have "t\<lparr>iw_records := [], iw_fates := fs\<rparr> = t\<lparr>iw_fates := fs\<rparr>" if "iw_records t = []" for t :: "'a issuing" and fs
    using that by (cases t) simp
  then show ?thesis using assms checks1(5)
    by (cases s) (auto simp: mem_commit_Issue_def commit_Issue_def mem_recorded_def faulty_def on_records_def mem_Recorded_def)
qed

lemma recorded1:
  assumes "iw_records s = [(issuanceKey ''w'' ''p'' ''op'', record1)]" and "iw_fates s = []"
  shows "mem_commit_Issue cy p ttl request1 s = (Inr issued1, s)"
  using assms checks1(5)
  by (cases s) (simp add: mem_commit_Issue_def commit_Issue_def mem_recorded_def faulty_def on_records_def mem_Recorded_def
      issuedFromRecord_def record1_def issued1_def)



text \<open>The witness of one capability per operation: a retry after the lost receipt, then another one.\<close>

theorem one_capability_per_operation_witness:
  "\<exists>x y. mem_commit_Issue crypto1 ports1 minute request1 after1 = (Inr x, after1) \<and>
     mem_commit_Issue crypto1 ports1 minute request1 (issue_all mem_recorded (mem_issue crypto1 ports1 minute) [request1] after1) = (Inr y, after1) \<and>
     ia_AuthorizationID y = ia_AuthorizationID x \<and> ia_CompactJWS y = ia_CompactJWS x"
proof -
  have a: "mem_commit_Issue cy p ttl request1 after1 = (Inr issued1, after1)" for cy :: crypto and p ttl
    by (rule recorded1) (simp_all add: after1_def)
  have i: "issuing_inv after1" by (auto simp: issuing_inv_def after1_def record1_def)
  have b: "mem_commit_Issue crypto1 ports1 minute request1 (issue_all mem_recorded (mem_issue crypto1 ports1 minute) [request1] after1)
      = (Inr issued1, after1)" using a by (simp add: mem_commit_Issue_def)
  from one_capability_per_operation [OF i a b] a b show ?thesis by blast
qed

end
