(* ===== verification/Domain_Owner.thy ===== *)
theory Domain_Owner
  imports Apply_Auth
begin

text \<open>
  The strict owner of governed effects (\<open>src/internal/execution/domainowner.go\<close>): it verifies the whole signed
  capability, compares every binding of the command with it, and redeems it in a record that admits each
  operation and each authorization once. \<open>MemoryRedemptionStore\<close> holds its lock for the whole of each method.
\<close>

section \<open>The redemption record\<close>

record DomainRedemption =
  rd_WorkspaceID :: string
  rd_ProjectID :: string
  rd_OperationID :: string
  rd_AuthorizationID :: string
  rd_TokenDigest :: string
  rd_RunID :: string
  rd_ArtifactDigest :: string
  rd_Outcome :: string
  rd_RedeemedAt :: time

record RedemptionResult =
  rr_Outcome :: string
  rr_Replayed :: bool

record MemoryRedemptionStore =
  mr_byOperation :: "DomainRedemption gomap"
  mr_byAuthorization :: "string gomap"

definition NewMemoryRedemptionStore :: MemoryRedemptionStore where
  "NewMemoryRedemptionStore = \<lparr>mr_byOperation = [], mr_byAuthorization = []\<rparr>"

definition redemptionKey :: "string \<Rightarrow> string \<Rightarrow> string \<Rightarrow> string" where
  "redemptionKey w p i = scoped_key w p i"

definition mem_Redeem :: "DomainRedemption \<Rightarrow> (MemoryRedemptionStore, err, RedemptionResult) op" where
  "mem_Redeem d s =
     (case gm_get (mr_byOperation s) (redemptionKey (rd_WorkspaceID d) (rd_ProjectID d) (rd_OperationID d)) of
        Some prior \<Rightarrow>
          (if rd_AuthorizationID prior \<noteq> rd_AuthorizationID d \<or> rd_TokenDigest prior \<noteq> rd_TokenDigest d
              \<or> rd_RunID prior \<noteq> rd_RunID d \<or> rd_ArtifactDigest prior \<noteq> rd_ArtifactDigest d
           then (Inl (problem CodeIdempotencyConflict), s)
           else (Inr \<lparr>rr_Outcome = rd_Outcome prior, rr_Replayed = True\<rparr>, s))
      | None \<Rightarrow>
          (if gm_get (mr_byAuthorization s) (redemptionKey (rd_WorkspaceID d) (rd_ProjectID d) (rd_AuthorizationID d)) \<noteq> None
           then (Inl (problem CodeIdempotencyConflict), s)
           else (Inr \<lparr>rr_Outcome = rd_Outcome d, rr_Replayed = False\<rparr>,
             s\<lparr>mr_byOperation := gm_put (redemptionKey (rd_WorkspaceID d) (rd_ProjectID d) (rd_OperationID d)) d (mr_byOperation s),
               mr_byAuthorization := gm_put (redemptionKey (rd_WorkspaceID d) (rd_ProjectID d) (rd_AuthorizationID d))
                 (rd_OperationID d) (mr_byAuthorization s)\<rparr>)))"

definition mem_Redeemed :: "string \<Rightarrow> string \<Rightarrow> string \<Rightarrow> MemoryRedemptionStore \<Rightarrow> DomainRedemption option" where
  "mem_Redeemed w p i s = gm_get (mr_byOperation s) (redemptionKey w p i)"

section \<open>The owner\<close>

record DomainCommand =
  dc_OperationID :: string
  dc_WorkspaceID :: string
  dc_ProjectID :: string
  dc_RunID :: string
  dc_ArtifactDigest :: string
  dc_AuthorizationID :: string
  dc_AuthorizationJWS :: string
  dc_ActionDigest :: string
  dc_BaseRevision :: string
  dc_Target :: ApplyTarget
  dc_ActorID :: string
  dc_DefinitionDigest :: string
  dc_ContractBOMDigest :: string
  dc_PolicyDigest :: string

definition DomainConfirmed :: string where "DomainConfirmed = ''confirmed''"
definition DomainConflict :: string where "DomainConflict = ''conflict''"
definition DomainRejected :: string where "DomainRejected = ''rejected''"

record DomainQuery =
  dq_OperationID :: string
  dq_WorkspaceID :: string
  dq_ProjectID :: string
  dq_RunID :: string

definition bindings_exact :: "Payload \<Rightarrow> DomainCommand \<Rightarrow> bool" where
  "bindings_exact p c \<longleftrightarrow> pl_AuthorizationID p = dc_AuthorizationID c \<and>
     bi_WorkspaceID (pl_Binding p) = dc_WorkspaceID c \<and> at_ProjectID (bi_Target (pl_Binding p)) = dc_ProjectID c \<and>
     bi_RunID (pl_Binding p) = dc_RunID c \<and> bi_ArtifactDigest (pl_Binding p) = dc_ArtifactDigest c \<and>
     bi_ActionDigest (pl_Binding p) = dc_ActionDigest c \<and> bi_Target (pl_Binding p) = dc_Target c \<and>
     bi_BaseRevision (pl_Binding p) = dc_BaseRevision c \<and> bi_ActorID (pl_Binding p) = dc_ActorID c \<and>
     bi_DefinitionDigest (pl_Binding p) = dc_DefinitionDigest c \<and>
     bi_ContractBOMDigest (pl_Binding p) = dc_ContractBOMDigest c \<and> bi_PolicyDigest (pl_Binding p) = dc_PolicyDigest c"

text \<open>\<open>cy_hash\<close> is SHA-256 in its text form. The decision the owner makes when it applies is \<open>outcome\<close>.\<close>

definition redemption_of :: "crypto \<Rightarrow> string \<Rightarrow> time \<Rightarrow> DomainCommand \<Rightarrow> DomainRedemption" where
  "redemption_of cy result now c = \<lparr>rd_WorkspaceID = dc_WorkspaceID c, rd_ProjectID = dc_ProjectID c,
     rd_OperationID = dc_OperationID c, rd_AuthorizationID = dc_AuthorizationID c,
     rd_TokenDigest = cy_hash cy (dc_AuthorizationJWS c), rd_RunID = dc_RunID c, rd_ArtifactDigest = dc_ArtifactDigest c,
     rd_Outcome = result, rd_RedeemedAt = now\<rparr>"

definition owner_Commit :: "crypto \<Rightarrow> 'w ports \<Rightarrow> (DomainRedemption \<Rightarrow> ('w, err, RedemptionResult) op) \<Rightarrow> string \<Rightarrow>
    DomainCommand \<Rightarrow> ('w, err, string) op" where
  "owner_Commit cy po redeem result c w =
     (if dc_OperationID c = '''' \<or> dc_WorkspaceID c = '''' \<or> dc_ProjectID c = '''' \<or> dc_RunID c = '''' \<or>
         dc_AuthorizationID c = '''' \<or> dc_AuthorizationJWS c = ''''
      then (Inl (Plain ''verifying domain port: operation, scope, run, and the complete signed authorization are required''), w)
      else case po_Now po w of
        (now, w) \<Rightarrow>
          (if now = 0 then (Inl (Plain ''verifying domain port: authoritative time is unavailable''), w)
           else case Verify cy po (dc_AuthorizationJWS c) now w of
             (Inl e, w) \<Rightarrow> (Inr DomainRejected, w)
           | (Inr payload, w) \<Rightarrow>
               (if \<not> bindings_exact payload c then (Inr DomainRejected, w)
                else case redeem (redemption_of cy result now c) w of
                  (Inl e, w) \<Rightarrow>
                    (if is_code CodeIdempotencyConflict e then (Inr DomainRejected, w)
                     else (Inl (Wrapped ''redeem apply authorization'' e), w))
                | (Inr r, w) \<Rightarrow> (Inr (rr_Outcome r), w))))"

definition owner_Reconcile :: "(string \<Rightarrow> string \<Rightarrow> string \<Rightarrow> ('w, err, DomainRedemption option) op) \<Rightarrow>
    DomainQuery \<Rightarrow> ('w, err, string option) op" where
  "owner_Reconcile redeemed q w =
     (if dq_OperationID q = '''' \<or> dq_WorkspaceID q = '''' \<or> dq_RunID q = ''''
      then (Inl (Plain ''verifying domain port: operation, workspace, and run identity are required''), w)
      else case redeemed (dq_WorkspaceID q) (dq_ProjectID q) (dq_OperationID q) w of
        (Inl e, w) \<Rightarrow> (Inl (Wrapped ''read domain redemption'' e), w)
      | (Inr None, w) \<Rightarrow> (Inr None, w)
      | (Inr (Some r), w) \<Rightarrow>
          (if rd_RunID r \<noteq> dq_RunID q then (Inl (problem CodeIdempotencyConflict), w)
           else (Inr (Some (rd_Outcome r)), w)))"

section \<open>What the redemption record promises\<close>

definition operation_key :: "DomainRedemption \<Rightarrow> string" where
  "operation_key d = redemptionKey (rd_WorkspaceID d) (rd_ProjectID d) (rd_OperationID d)"

definition authority_key :: "DomainRedemption \<Rightarrow> string" where
  "authority_key d = redemptionKey (rd_WorkspaceID d) (rd_ProjectID d) (rd_AuthorizationID d)"

text \<open>Every redemption is under its operation and claims its authorization for it.\<close>

definition redeemed_inv :: "MemoryRedemptionStore \<Rightarrow> bool" where
  "redeemed_inv s \<longleftrightarrow> (\<forall>k d. gm_get (mr_byOperation s) k = Some d \<longrightarrow>
     k = operation_key d \<and> gm_get (mr_byAuthorization s) (authority_key d) = Some (rd_OperationID d))"

definition same_redemption :: "DomainRedemption \<Rightarrow> DomainRedemption \<Rightarrow> bool" where
  "same_redemption d e \<longleftrightarrow> rd_AuthorizationID d = rd_AuthorizationID e \<and> rd_TokenDigest d = rd_TokenDigest e \<and>
     rd_RunID d = rd_RunID e \<and> rd_ArtifactDigest d = rd_ArtifactDigest e"

lemma redeemed_inv_New: "redeemed_inv NewMemoryRedemptionStore"
  by (simp add: redeemed_inv_def NewMemoryRedemptionStore_def)

lemma mem_Redeem_cases:
  obtains (replayed) prior where "gm_get (mr_byOperation s) (operation_key d) = Some prior" and "same_redemption prior d"
      and "mem_Redeem d s = (Inr \<lparr>rr_Outcome = rd_Outcome prior, rr_Replayed = True\<rparr>, s)"
  | (recorded) "gm_get (mr_byOperation s) (operation_key d) = None" and "gm_get (mr_byAuthorization s) (authority_key d) = None"
      and "mem_Redeem d s = (Inr \<lparr>rr_Outcome = rd_Outcome d, rr_Replayed = False\<rparr>,
        s\<lparr>mr_byOperation := gm_put (operation_key d) d (mr_byOperation s),
          mr_byAuthorization := gm_put (authority_key d) (rd_OperationID d) (mr_byAuthorization s)\<rparr>)"
  | (refused) "mem_Redeem d s = (Inl (problem CodeIdempotencyConflict), s)"
proof (cases "gm_get (mr_byOperation s) (operation_key d)")
  case None
  with recorded refused show thesis
    by (cases "gm_get (mr_byAuthorization s) (authority_key d)") (auto simp: mem_Redeem_def operation_key_def authority_key_def)
next
  case (Some prior)
  with replayed refused show thesis
    by (cases "same_redemption prior d") (auto simp: mem_Redeem_def operation_key_def same_redemption_def)
qed

lemma mem_Redeem_keeps:
  assumes "redeemed_inv s" and "mem_Redeem d s = (r, t)"
  shows "redeemed_inv t \<and> gm_get (mr_byOperation s) \<subseteq>\<^sub>m gm_get (mr_byOperation t) \<and>
    (\<forall>x. r = Inr x \<longrightarrow> (\<exists>e. gm_get (mr_byOperation t) (operation_key d) = Some e \<and> same_redemption e d \<and> rd_Outcome e = rr_Outcome x))"
proof (cases d s rule: mem_Redeem_cases)
  case replayed
  then show ?thesis using assms by auto
next
  case recorded
  have "redeemed_inv (s\<lparr>mr_byOperation := gm_put (operation_key d) d (mr_byOperation s),
      mr_byAuthorization := gm_put (authority_key d) (rd_OperationID d) (mr_byAuthorization s)\<rparr>)"
    unfolding redeemed_inv_def
  proof (intro allI impI)
    fix k e
    assume "gm_get (mr_byOperation (s\<lparr>mr_byOperation := gm_put (operation_key d) d (mr_byOperation s),
      mr_byAuthorization := gm_put (authority_key d) (rd_OperationID d) (mr_byAuthorization s)\<rparr>)) k = Some e"
    then have "k = operation_key d \<and> e = d \<or> k \<noteq> operation_key d \<and> gm_get (mr_byOperation s) k = Some e"
      by (auto simp: gm_get_put split: if_splits)
    then show "k = operation_key e \<and> gm_get (mr_byAuthorization (s\<lparr>mr_byOperation := gm_put (operation_key d) d (mr_byOperation s),
        mr_byAuthorization := gm_put (authority_key d) (rd_OperationID d) (mr_byAuthorization s)\<rparr>)) (authority_key e)
        = Some (rd_OperationID e)"
      using assms(1) recorded(2) unfolding redeemed_inv_def by (auto simp: gm_get_put)
  qed
  then show ?thesis using recorded assms(2) by (auto simp: gm_get_put map_le_def same_redemption_def)
next
  case refused
  then show ?thesis using assms by auto
qed

text \<open>Two redemptions of one scope that agree in the operation or in the authorization are one.\<close>

lemma redeemed_inv_unique:
  assumes "redeemed_inv s" and "gm_get (mr_byOperation s) k = Some d" and "gm_get (mr_byOperation s) l = Some e"
    and "rd_WorkspaceID d = rd_WorkspaceID e" and "rd_ProjectID d = rd_ProjectID e"
    and "rd_OperationID d = rd_OperationID e \<or> rd_AuthorizationID d = rd_AuthorizationID e"
  shows "d = e"
proof -
  have a: "k = operation_key d" "gm_get (mr_byAuthorization s) (authority_key d) = Some (rd_OperationID d)"
    "l = operation_key e" "gm_get (mr_byAuthorization s) (authority_key e) = Some (rd_OperationID e)"
    using assms(1-3) unfolding redeemed_inv_def by blast+
  have "rd_OperationID d = rd_OperationID e"
    using assms(4-6) a(2,4) unfolding authority_key_def by (metis option.inject)
  then have "k = l" using a(1,3) assms(4,5) by (simp add: operation_key_def)
  then show ?thesis using assms(2,3) by simp
qed

section \<open>What a verified command says\<close>

lemma identity_nul_free: "opaque s \<Longrightarrow> nul_free s"
  by (cases s) (auto simp: opaque_def nul_free_def NUL_def is_upper_def is_lower_def is_digit_def list_all_iff less_eq_char_def)

lemma check_claims_valid: "check_claims cy bytes k now = Inr p \<Longrightarrow> validBinding (pl_Binding p)"
  by (auto simp: check_claims_def valid_claims_def split: option.splits if_splits)

lemma Verify_valid: "Verify cy po compact now w = (Inr p, v) \<Longrightarrow> validBinding (pl_Binding p)"
  by (auto simp: Verify_def fail_def andThen_def split: list.splits option.splits if_splits prod.splits sum.splits
      dest: check_claims_valid)

definition verified :: "crypto \<Rightarrow> 'w ports \<Rightarrow> DomainCommand \<Rightarrow> bool" where
  "verified cy po c \<longleftrightarrow> (\<exists>now u u' payload. Verify cy po (dc_AuthorizationJWS c) now u = (Inr payload, u') \<and> bindings_exact payload c)"

lemma verified_nul_free: "verified cy po c \<Longrightarrow> nul_free (dc_WorkspaceID c) \<and> nul_free (dc_ProjectID c)"
  using Verify_valid identity_nul_free unfolding verified_def bindings_exact_def validBinding_def by metis

section \<open>What the owner needs of its record\<close>

text \<open>Commands of any callers, answered by owners that decide as the pair says.\<close>

fun owner_all :: "crypto \<Rightarrow> 'w ports \<Rightarrow> (DomainRedemption \<Rightarrow> ('w, err, RedemptionResult) op) \<Rightarrow>
    (string \<times> DomainCommand) list \<Rightarrow> 'w \<Rightarrow> 'w" where
  "owner_all cy po redeem [] w = w"
| "owner_all cy po redeem ((result, c) # cs) w = owner_all cy po redeem cs (snd (owner_Commit cy po redeem result c w))"

text \<open>
  The record of a world: \<open>redeem\<close> answers what the record of the world answers, or fails, having recorded or
  not; the key ring and the clock never touch it. A failure of the connection is no conflict of identity.
\<close>

locale redemption =
  fixes po :: "'w ports" and redeem :: "DomainRedemption \<Rightarrow> ('w, err, RedemptionResult) op" and store :: "'w \<Rightarrow> MemoryRedemptionStore"
  assumes redeem: "redeem d w = (r, v) \<Longrightarrow>
      mem_Redeem d (store w) = (r, store v) \<or>
      (\<exists>e. r = Inl e \<and> \<not> is_code CodeIdempotencyConflict e) \<and> (store v = store w \<or> store v = snd (mem_Redeem d (store w)))"
    and now: "store (snd (po_Now po w)) = store w"
    and revoked: "store (snd (po_Revoked po k w)) = store w"
    and public: "store (snd (po_PublicKey po k w)) = store w"
begin

lemma live_key_store: "store (snd (live_key po k e w)) = store w"
  using revoked [of k w] by (auto simp: live_key_def fail_def split: prod.splits sum.splits bool.splits)

lemma check_signature_store: "store (snd (check_signature cy po k m s w)) = store w"
  using public [of k w] by (auto simp: check_signature_def fail_def split: prod.splits sum.splits)

lemma Verify_store: "store (snd (Verify cy po compact now w)) = store w"
proof -
  have "store (snd (andThen (live_key po k e) (\<lambda>_. andThen (check_signature cy po k m s) (\<lambda>_. Pair x)) w)) = store w" for k e m s x
    using live_key_store [of k e w] check_signature_store [of cy k m s "snd (live_key po k e w)"]
    by (auto simp: andThen_def split: prod.splits sum.splits)
  then show ?thesis
    unfolding Verify_def by (auto simp: fail_def split: list.splits option.splits)
qed

text \<open>What one command does to the record, and what an answer other than a rejection means.\<close>

lemma owner_Commit_effect:
  assumes "owner_Commit cy po redeem result c w = (r, v)" and "redeemed_inv (store w)" and "result \<noteq> DomainRejected"
  shows "redeemed_inv (store v) \<and> gm_get (mr_byOperation (store w)) \<subseteq>\<^sub>m gm_get (mr_byOperation (store v)) \<and>
    (store v \<noteq> store w \<or> (\<exists>x. r = Inr x \<and> x \<noteq> DomainRejected) \<longrightarrow> verified cy po c) \<and>
    (\<forall>x. r = Inr x \<longrightarrow> x = DomainRejected \<or> (\<exists>now d. gm_get (mr_byOperation (store v)) (operation_key (redemption_of cy result now c)) = Some d \<and>
      same_redemption d (redemption_of cy result now c) \<and> rd_Outcome d = x))"
proof (cases "dc_OperationID c = '''' \<or> dc_WorkspaceID c = '''' \<or> dc_ProjectID c = '''' \<or> dc_RunID c = '''' \<or>
    dc_AuthorizationID c = '''' \<or> dc_AuthorizationJWS c = ''''")
  case True
  then show ?thesis using assms by (auto simp: owner_Commit_def)
next
  case False
  obtain n w1 where n: "po_Now po w = (n, w1)" by (cases "po_Now po w")
  obtain p w2 where p: "Verify cy po (dc_AuthorizationJWS c) n w1 = (p, w2)" by (cases "Verify cy po (dc_AuthorizationJWS c) n w1")
  have s: "store w1 = store w" "store w2 = store w" using now [of w] Verify_store [of cy "dc_AuthorizationJWS c" n w1] n p by simp_all
  show ?thesis
  proof (cases "n \<noteq> 0 \<and> (\<exists>payload. p = Inr payload \<and> bindings_exact payload c)")
    case no: False
    then have "(r = Inr DomainRejected \<or> (\<exists>e. r = Inl e)) \<and> store v = store w"
      using assms(1) False n p s by (auto simp: owner_Commit_def split: if_splits sum.splits)
    then show ?thesis using assms(2) by auto
  next
    case True
    then obtain payload where payload: "p = Inr payload" "bindings_exact payload c" by blast
    let ?d = "redemption_of cy result n c"
    obtain q w3 where q: "redeem ?d w2 = (q, w3)" by (cases "redeem ?d w2")
    have v: "v = w3" and r: "r = (case q of Inl e \<Rightarrow> if is_code CodeIdempotencyConflict e then Inr DomainRejected
        else Inl (Wrapped ''redeem apply authorization'' e) | Inr x \<Rightarrow> Inr (rr_Outcome x))"
      using assms(1) False True n p payload q by (auto simp: owner_Commit_def split: sum.splits if_splits)
    obtain q' t where t: "mem_Redeem ?d (store w) = (q', t)" by (cases "mem_Redeem ?d (store w)")
    note k = mem_Redeem_keeps [OF assms(2) t]
    have "q = q' \<and> store v = t \<or> (\<exists>e. q = Inl e \<and> \<not> is_code CodeIdempotencyConflict e) \<and> (store v = store w \<or> store v = t)"
      using redeem [OF q] t v s by auto
    moreover have "verified cy po c" using p payload unfolding verified_def by blast
    ultimately show ?thesis using k assms(2) r by (auto split: sum.splits)
  qed
qed

lemma owner_all_keeps:
  assumes "redeemed_inv (store w)" and "\<forall>(result, c) \<in> set cs. result \<noteq> DomainRejected"
  shows "redeemed_inv (store (owner_all cy po redeem cs w)) \<and>
    gm_get (mr_byOperation (store w)) \<subseteq>\<^sub>m gm_get (mr_byOperation (store (owner_all cy po redeem cs w)))"
  using assms
proof (induction cs arbitrary: w)
  case (Cons rc cs)
  obtain result c where rc: "rc = (result, c)" by (cases rc)
  obtain r v where r: "owner_Commit cy po redeem result c w = (r, v)" by (cases "owner_Commit cy po redeem result c w")
  have "result \<noteq> DomainRejected" using Cons.prems(2) rc by auto
  note e = owner_Commit_effect [OF r Cons.prems(1) this]
  have i: "redeemed_inv (store v)" and l: "gm_get (mr_byOperation (store w)) \<subseteq>\<^sub>m gm_get (mr_byOperation (store v))"
    using e by blast+
  have "\<forall>(result, c) \<in> set cs. result \<noteq> DomainRejected" using Cons.prems(2) by simp
  from Cons.IH [OF i this] l show ?case unfolding rc owner_all.simps r snd_conv by (meson map_le_trans)
qed simp

lemma applied_once:
  assumes "redeemed_inv (store w)" and "result \<noteq> DomainRejected" and "result' \<noteq> DomainRejected"
    and "\<forall>(result, c) \<in> set cs. result \<noteq> DomainRejected"
    and "owner_Commit cy po redeem result c w = (Inr x, v)" and "x \<noteq> DomainRejected"
    and "owner_Commit cy po redeem result' c' (owner_all cy po redeem cs v) = (Inr x', v')" and "x' \<noteq> DomainRejected"
    and "dc_WorkspaceID c' = dc_WorkspaceID c" and "dc_ProjectID c' = dc_ProjectID c"
    and "dc_OperationID c' = dc_OperationID c \<or> dc_AuthorizationID c' = dc_AuthorizationID c"
    and "nul_free (dc_OperationID c)" and "nul_free (dc_OperationID c')"
  shows "dc_OperationID c' = dc_OperationID c \<and> dc_AuthorizationID c' = dc_AuthorizationID c \<and>
    cy_hash cy (dc_AuthorizationJWS c') = cy_hash cy (dc_AuthorizationJWS c) \<and> dc_RunID c' = dc_RunID c \<and>
    dc_ArtifactDigest c' = dc_ArtifactDigest c \<and> x' = x"
proof -
  note first = owner_Commit_effect [OF assms(5,1,2)]
  then obtain n d where d: "gm_get (mr_byOperation (store v)) (operation_key (redemption_of cy result n c)) = Some d"
    "same_redemption d (redemption_of cy result n c)" "rd_Outcome d = x" using assms(6) by blast
  have "redeemed_inv (store v)" using first by blast
  note between = owner_all_keeps [OF this assms(4), of cy]
  then have inv: "redeemed_inv (store (owner_all cy po redeem cs v))" by blast
  note second = owner_Commit_effect [OF assms(7) inv assms(3)]
  then obtain n' d' where d': "gm_get (mr_byOperation (store v')) (operation_key (redemption_of cy result' n' c')) = Some d'"
    "same_redemption d' (redemption_of cy result' n' c')" "rd_Outcome d' = x'" using assms(8) by blast
  have inv': "redeemed_inv (store v')" using second by blast
  have kept: "gm_get (mr_byOperation (store v')) (operation_key (redemption_of cy result n c)) = Some d"
    using d(1) between second unfolding map_le_def by (metis domI)
  have k: "operation_key d = operation_key (redemption_of cy result n c)"
    "operation_key d' = operation_key (redemption_of cy result' n' c')"
    using inv' kept d'(1) unfolding redeemed_inv_def by metis+
  have v: "verified cy po c" "verified cy po c'" using first second assms(6,8) by blast+
  have s: "rd_WorkspaceID d = dc_WorkspaceID c" "rd_ProjectID d = dc_ProjectID c" "rd_OperationID d = dc_OperationID c"
    "rd_WorkspaceID d' = dc_WorkspaceID c'" "rd_ProjectID d' = dc_ProjectID c'" "rd_OperationID d' = dc_OperationID c'"
    using k verified_nul_free [OF v(1)] verified_nul_free [OF v(2)] assms(12,13) scoped_key_nul_free
    unfolding operation_key_def redemptionKey_def redemption_of_def by (metis DomainRedemption.select_convs(1-3))+
  have "d = d'"
    by (rule redeemed_inv_unique [OF inv' kept d'(1)])
      (use s assms(9-11) d(2) d'(2) in \<open>auto simp: same_redemption_def redemption_of_def\<close>)
  then show ?thesis using d(2,3) d'(2,3) s by (auto simp: same_redemption_def redemption_of_def)
qed

end

section \<open>The owner over the in-memory record\<close>

text \<open>
  The world of the owner: its record, what happens to the next calls of the record (as in \<open>Apply_Auth\<close>), and
  the state of the key ring and the clock.
\<close>

record 'x owning =
  ow_record :: MemoryRedemptionStore
  ow_fates :: "fate list"
  ow_rest :: 'x

definition on_owned :: "('x \<Rightarrow> 'a \<times> 'x) \<Rightarrow> 'x owning \<Rightarrow> 'a \<times> 'x owning" where
  "on_owned f s = (case f (ow_rest s) of (r, x) \<Rightarrow> (r, s\<lparr>ow_rest := x\<rparr>))"

definition owning_ports :: "'x ports \<Rightarrow> 'x owning ports" where
  "owning_ports p = \<lparr>po_Resolve = \<lambda>c. on_owned (po_Resolve p c), po_AuthorizationID = on_owned (po_AuthorizationID p),
     po_ActiveKeyID = on_owned (po_ActiveKeyID p), po_Sign = \<lambda>k m. on_owned (po_Sign p k m),
     po_PublicKey = \<lambda>k. on_owned (po_PublicKey p k), po_Revoked = \<lambda>k. on_owned (po_Revoked p k),
     po_Record = \<lambda>a. on_owned (po_Record p a), po_Append = \<lambda>f. on_owned (po_Append p f),
     po_Require = \<lambda>b. on_owned (po_Require p b), po_Now = on_owned (po_Now p)\<rparr>"

definition owning_redeem :: "DomainRedemption \<Rightarrow> ('x owning, err, RedemptionResult) op" where
  "owning_redeem d s =
     (case mem_Redeem d (ow_record s) of
        (r, m) \<Rightarrow>
          (case ow_fates s of
             [] \<Rightarrow> (r, s\<lparr>ow_record := m\<rparr>)
           | Works # fs \<Rightarrow> (r, s\<lparr>ow_record := m, ow_fates := fs\<rparr>)
           | Lost # fs \<Rightarrow> (Inl lost, s\<lparr>ow_fates := fs\<rparr>)
           | Late # fs \<Rightarrow> (Inl lost, s\<lparr>ow_record := m, ow_fates := fs\<rparr>)))"

definition owning_redeemed :: "string \<Rightarrow> string \<Rightarrow> string \<Rightarrow> ('x owning, err, DomainRedemption option) op" where
  "owning_redeemed w p i s = (Inr (mem_Redeemed w p i (ow_record s)), s)"

lemma ow_record_on_owned: "ow_record (snd (on_owned f s)) = ow_record s"
  by (simp add: on_owned_def split: prod.splits)

lemma lost_is_no_conflict: "\<not> is_code c lost"
  by (simp add: is_code_def lost_def)

interpretation owner: redemption "owning_ports p" owning_redeem ow_record for p
proof unfold_locales
  fix d and w v :: "'a owning" and r
  assume "owning_redeem d w = (r, v)"
  then show "mem_Redeem d (ow_record w) = (r, ow_record v) \<or> (\<exists>e. r = Inl e \<and> \<not> is_code CodeIdempotencyConflict e) \<and>
      (ow_record v = ow_record w \<or> ow_record v = snd (mem_Redeem d (ow_record w)))"
    using lost_is_no_conflict by (fastforce simp: owning_redeem_def split: prod.splits list.splits fate.splits)
qed (simp_all add: owning_ports_def ow_record_on_owned)

text \<open>C9 (effects apply once). Whatever calls of the owner's record get lost or lose their answers, and whatever other
  commands are served in between, by owners that may decide differently: two answers other than a rejection that
  concern the same operation, or the same authorization, are answers to the same operation with the same
  authorization, signed token, run and artifact, and they report the same outcome.\<close>

theorem effects_apply_once:
  assumes "redeemed_inv (ow_record w)" and "result \<noteq> DomainRejected" and "result' \<noteq> DomainRejected"
    and "\<forall>(result, c) \<in> set cs. result \<noteq> DomainRejected"
    and "owner_Commit cy (owning_ports p) owning_redeem result c w = (Inr x, v)" and "x \<noteq> DomainRejected"
    and "owner_Commit cy (owning_ports p) owning_redeem result' c' (owner_all cy (owning_ports p) owning_redeem cs v) = (Inr x', v')"
    and "x' \<noteq> DomainRejected" and "dc_WorkspaceID c' = dc_WorkspaceID c" and "dc_ProjectID c' = dc_ProjectID c"
    and "dc_OperationID c' = dc_OperationID c \<or> dc_AuthorizationID c' = dc_AuthorizationID c"
    and "nul_free (dc_OperationID c)" and "nul_free (dc_OperationID c')"
  shows "dc_OperationID c' = dc_OperationID c \<and> dc_AuthorizationID c' = dc_AuthorizationID c \<and>
    cy_hash cy (dc_AuthorizationJWS c') = cy_hash cy (dc_AuthorizationJWS c) \<and> dc_RunID c' = dc_RunID c \<and>
    dc_ArtifactDigest c' = dc_ArtifactDigest c \<and> x' = x"
  using assms by (rule owner.applied_once)

text \<open>The command that carries the capability of \<open>Apply_Auth\<close>'s example.\<close>

definition command1 :: DomainCommand where
  "command1 = \<lparr>dc_OperationID = ''domain.1'', dc_WorkspaceID = ''w'', dc_ProjectID = ''p'', dc_RunID = ''run'',
     dc_ArtifactDigest = digest1, dc_AuthorizationID = serial_id 0, dc_AuthorizationJWS = token1, dc_ActionDigest = digest1,
     dc_BaseRevision = ''rev:1'', dc_Target = \<lparr>at_Type = ''page'', at_ID = ''t'', at_WorkspaceID = ''w'', at_ProjectID = ''p''\<rparr>,
     dc_ActorID = ''actor'', dc_DefinitionDigest = digest1, dc_ContractBOMDigest = digest1, dc_PolicyDigest = digest1\<rparr>"

definition owning1 :: "fate list \<Rightarrow> unit owning" where
  "owning1 fs = \<lparr>ow_record = NewMemoryRedemptionStore, ow_fates = fs, ow_rest = ()\<rparr>"

lemma token1_of: "token_of crypto1 (owning_ports ports1) key1 payload1 token1"
  unfolding token_of_def by (intro exI [of _ "''p''"] exI [of _ "''h''"] exI [of _ "replicate 64 (CHR ''s'')"] exI [of _ "owning1 []"])
    (auto simp: crypto1_def header1_def owning_ports_def on_owned_def ports1_def token1_def owning1_def)

lemma valid1: "valid_claims crypto1 3600000000000 payload1"
proof -
  have "(3660000000000 :: int) - 3600000000000 \<le> five_minutes" by (simp add: five_minutes_def)
  then show ?thesis
    using checks1(2) times1 by (simp add: valid_claims_def payload1_def crypto1_def parse1_format1 timestamp_def)
qed

lemma verify1: "Verify crypto1 (owning_ports ports1) token1 3600000000000 (s :: unit owning) = (Inr payload1, s)"
proof (rule Verify_token [OF token1_of codec1 checks1(4)])
  show "po_Revoked (owning_ports ports1) key1 s = (Inr False, s)"
    "po_PublicKey (owning_ports ports1) key1 s = (Inr (replicate 32 (CHR ''k'')), s)"
    by (simp_all add: owning_ports_def on_owned_def ports1_def)
  show "opaque (pl_AuthorizationID payload1)" using checks1(3) by (simp add: payload1_def serial1)
  show "cy_verify crypto1 (replicate 32 (CHR ''k'')) m t" for m t by (simp add: crypto1_def)
  show "valid_claims crypto1 3600000000000 payload1" by (rule valid1)
qed (simp_all add: payload1_def)

lemma commit1:
  "owner_Commit crypto1 (owning_ports ports1) owning_redeem result command1 s =
     (case owning_redeem (redemption_of crypto1 result 3600000000000 command1) s of
        (Inl e, w) \<Rightarrow> (if is_code CodeIdempotencyConflict e then (Inr DomainRejected, w) else (Inl (Wrapped ''redeem apply authorization'' e), w))
      | (Inr r, w) \<Rightarrow> (Inr (rr_Outcome r), w))"
proof -
  have "po_Now (owning_ports ports1) s = (3600000000000, s)" by (simp add: owning_ports_def on_owned_def ports1_def)
  moreover have "bindings_exact payload1 command1"
    by (simp add: bindings_exact_def payload1_def command1_def binding1_def serial1)
  moreover have "dc_AuthorizationJWS command1 = token1" "dc_OperationID command1 \<noteq> ''''" "dc_WorkspaceID command1 \<noteq> ''''"
    "dc_ProjectID command1 \<noteq> ''''" "dc_RunID command1 \<noteq> ''''" "dc_AuthorizationID command1 \<noteq> ''''"
    by (simp_all add: command1_def)
  ultimately show ?thesis by (simp add: owner_Commit_def verify1)
qed

lemma command1_keys:
  "operation_key (redemption_of cy result n command1) = redemptionKey ''w'' ''p'' ''domain.1''"
  "authority_key (redemption_of cy result n command1) = redemptionKey ''w'' ''p'' (serial_id 0)"
  by (simp_all add: operation_key_def authority_key_def redemption_of_def command1_def)

text \<open>An owner whose first answer gets lost after its record was written, and a successor that decides otherwise.\<close>

theorem effects_apply_once_witness:
  "\<exists>v x. owner_Commit crypto1 (owning_ports ports1) owning_redeem DomainConfirmed command1 (owning1 [Late]) = (Inl (Wrapped ''redeem apply authorization'' lost), v) \<and>
     owner_Commit crypto1 (owning_ports ports1) owning_redeem DomainConflict command1 v = (Inr DomainConfirmed, v) \<and>
     owner_Commit crypto1 (owning_ports ports1) owning_redeem DomainConflict command1
       (owner_all crypto1 (owning_ports ports1) owning_redeem [(DomainConflict, command1)] v) = (Inr x, v) \<and> x = DomainConfirmed"
proof -
  let ?C = "owner_Commit crypto1 (owning_ports ports1) owning_redeem"
  have ne: "DomainConfirmed \<noteq> DomainRejected" "DomainConflict \<noteq> DomainRejected" by (simp_all add: DomainConfirmed_def DomainConflict_def DomainRejected_def)
  let ?d = "redemption_of crypto1 DomainConfirmed 3600000000000 command1"
  define m where "m = \<lparr>mr_byOperation = [(operation_key ?d, ?d)], mr_byAuthorization = [(authority_key ?d, rd_OperationID ?d)]\<rparr>"
  define s :: "unit owning" where "s = \<lparr>ow_record = m, ow_fates = [], ow_rest = ()\<rparr>"
  have r: "mem_Redeem ?d NewMemoryRedemptionStore = (Inr \<lparr>rr_Outcome = DomainConfirmed, rr_Replayed = False\<rparr>, m)"
    by (cases ?d NewMemoryRedemptionStore rule: mem_Redeem_cases)
      (simp_all add: m_def NewMemoryRedemptionStore_def mem_Redeem_def redemption_of_def operation_key_def authority_key_def)
  have first: "?C DomainConfirmed command1 (owning1 [Late]) = (Inl (Wrapped ''redeem apply authorization'' lost), s)"
    unfolding commit1 owning1_def owning_redeem_def using lost_is_no_conflict by (simp add: r s_def)
  have replay: "mem_Redeem (redemption_of crypto1 result 3600000000000 command1) m = (Inr \<lparr>rr_Outcome = DomainConfirmed, rr_Replayed = True\<rparr>, m)" for result
    by (simp add: m_def mem_Redeem_def redemption_of_def operation_key_def)
  have again: "?C result command1 s = (Inr DomainConfirmed, s)" for result
    unfolding commit1 owning_redeem_def by (simp add: s_def replay)
  have inv: "redeemed_inv (ow_record s)" by (simp add: s_def m_def redeemed_inv_def)
  have all: "owner_all crypto1 (owning_ports ports1) owning_redeem [(DomainConflict, command1)] s = s" by (simp add: again)
  have "\<forall>(result, c) \<in> set [(DomainConflict, command1)]. result \<noteq> DomainRejected" using ne by simp
  moreover have "nul_free (dc_OperationID command1)" by (simp add: command1_def nul_free_def NUL_def)
  moreover obtain x where x: "?C DomainConflict command1 (owner_all crypto1 (owning_ports ports1) owning_redeem [(DomainConflict, command1)] s)
      = (Inr x, s)" "x \<noteq> DomainRejected" unfolding all using again ne(1) by blast
  ultimately have "x = DomainConfirmed"
    using effects_apply_once [OF inv ne(2,2) _ again ne(1) x refl refl] by blast
  then show ?thesis using first again x(1) by (intro exI [of _ s] exI [of _ x]) simp
qed

text \<open>
  The owner's record says that a replay returns the recorded outcome, but the owner looks at the capability first: once
  it expired, or its key was revoked, the very command whose effect was confirmed is answered with a rejection.
\<close>

lemma late_replay_is_rejected:
  assumes "gm_get (mr_byOperation (ow_record w)) (redemptionKey (dc_WorkspaceID c) (dc_ProjectID c) (dc_OperationID c)) = Some d"
    and "rd_Outcome d = DomainConfirmed" and "rd_RunID d = dc_RunID c"
    and "dc_OperationID c \<noteq> []" and "dc_WorkspaceID c \<noteq> []" and "dc_ProjectID c \<noteq> []" and "dc_RunID c \<noteq> []"
    and "dc_AuthorizationID c \<noteq> []" and "dc_AuthorizationJWS c \<noteq> []" and "po_Now (owning_ports p) w = (now, w1)" and "now \<noteq> 0"
    and "Verify cy (owning_ports p) (dc_AuthorizationJWS c) now w1 = (Inl e, w2)"
  shows "owner_Commit cy (owning_ports p) owning_redeem result c w = (Inr DomainRejected, w2) \<and>
    owner_Reconcile owning_redeemed \<lparr>dq_OperationID = dc_OperationID c, dq_WorkspaceID = dc_WorkspaceID c,
      dq_ProjectID = dc_ProjectID c, dq_RunID = dc_RunID c\<rparr> w2 = (Inr (Some DomainConfirmed), w2)"
proof -
  have "ow_record w2 = ow_record w"
    using owner.Verify_store [of cy p "dc_AuthorizationJWS c" now w1] owner.now [of p w] assms(10,12) by simp
  then show ?thesis using assms by (simp add: owner_Commit_def owner_Reconcile_def owning_redeemed_def mem_Redeemed_def)
qed

end
