(* ===== verification/Authority.thy ===== *)
theory Authority
  imports Runs
begin

text \<open>
  The current-authority observation (\<open>src/internal/authority/authority.go\<close>) that every boundary of the runtime
  reads: governance material, activation, roles, grants and withdrawals, and the configured source \<open>Static\<close>.
  A scope of this package has the fields of \<open>Runs.Scope\<close> and is represented by it.
\<close>

section \<open>Observations\<close>

record Grants =
  gr_AllowedTools :: "string list"
  gr_AllowedCapabilities :: "string list"
  gr_AllowedEffects :: "string list"
  gr_MaximumRisk :: string
  gr_DataClasses :: "string list"
  gr_ApprovalDecisionVersion :: uint64

record ActorAuthority =
  aa_Capabilities :: "string list"
  aa_DataClasses :: "string list"

definition ClassificationRank :: "string \<Rightarrow> nat" where
  "ClassificationRank c =
     (if c = ''public'' then 1 else if c = ''internal'' then 2 else if c = ''confidential'' then 3
      else if c = ''restricted'' then 4 else 0)"

definition HasCapability :: "ActorAuthority \<Rightarrow> string \<Rightarrow> bool" where
  "HasCapability a name \<longleftrightarrow> name \<noteq> '''' \<and> list_ex (\<lambda>granted. granted = name) (aa_Capabilities a)"

definition Clears :: "ActorAuthority \<Rightarrow> string \<Rightarrow> bool" where
  "Clears a classification \<longleftrightarrow> ClassificationRank classification \<noteq> 0 \<and>
     list_ex (\<lambda>held. ClassificationRank classification \<le> ClassificationRank held) (aa_DataClasses a)"

text \<open>The loop keeps the first of the highest classifications so far, with its rank.\<close>

fun highest :: "string list \<Rightarrow> string \<Rightarrow> nat \<Rightarrow> string" where
  "highest [] clearance r = clearance"
| "highest (held # rest) clearance r =
     (if r < ClassificationRank held then highest rest held (ClassificationRank held) else highest rest clearance r)"

definition Clearance :: "ActorAuthority \<Rightarrow> string" where
  "Clearance a = highest (aa_DataClasses a) '''' 0"

record CurrentAuthority =
  cu_Definition :: json
  cu_ContractBOM :: json
  cu_Policy :: json
  cu_Budget :: json
  cu_WorkspaceActive :: bool
  cu_ActorActive :: bool
  cu_PermissionActive :: bool
  cu_PolicyActive :: bool
  cu_ActorRole :: string
  cu_ActorGrants :: ActorAuthority
  cu_Grants :: Grants
  cu_RevokedTargets :: "string list"
  cu_RevokedApprovals :: "string list"

definition Active :: "CurrentAuthority \<Rightarrow> bool" where
  "Active c \<longleftrightarrow> cu_WorkspaceActive c \<and> cu_ActorActive c \<and> cu_PermissionActive c \<and> cu_PolicyActive c"

definition MaterialComplete :: "CurrentAuthority \<Rightarrow> bool" where
  "MaterialComplete c \<longleftrightarrow> cu_Definition c \<noteq> '''' \<and> cu_ContractBOM c \<noteq> '''' \<and> cu_Policy c \<noteq> '''' \<and> cu_Budget c \<noteq> ''''"

definition RoleOperator :: string where "RoleOperator = ''agent-operator''"
definition RoleArtifactCustodian :: string where "RoleArtifactCustodian = ''agent-artifact-custodian''"

definition HasRole :: "CurrentAuthority \<Rightarrow> string \<Rightarrow> bool" where
  "HasRole c role \<longleftrightarrow> role \<noteq> '''' \<and> cu_ActorRole c = role \<and> cu_ActorActive c"

definition TargetRevoked :: "CurrentAuthority \<Rightarrow> string \<Rightarrow> bool" where
  "TargetRevoked c target \<longleftrightarrow> list_ex (\<lambda>revoked. revoked = target) (cu_RevokedTargets c)"

definition ApprovalRevoked :: "CurrentAuthority \<Rightarrow> string \<Rightarrow> bool" where
  "ApprovalRevoked c request \<longleftrightarrow> list_ex (\<lambda>revoked. revoked = request) (cu_RevokedApprovals c)"

datatype RevocationKind = RevokeActor | RevokeRole | RevokeWorkspace | RevokeDefinition | RevokePolicy | RevokeBudget
  | RevokeTarget | RevokeApproval

record Revocation =
  rv_WorkspaceID :: string
  rv_ProjectID :: string
  rv_RevocationID :: string
  rv_Kind :: RevocationKind
  rv_Subject :: string
  rv_Reason :: string

lemma TargetRevoked_iff: "TargetRevoked c t \<longleftrightarrow> t \<in> set (cu_RevokedTargets c)"
  by (auto simp: TargetRevoked_def list_ex_iff)

lemma ApprovalRevoked_iff: "ApprovalRevoked c r \<longleftrightarrow> r \<in> set (cu_RevokedApprovals c)"
  by (auto simp: ApprovalRevoked_def list_ex_iff)

text \<open>A clearance is one of the classifications held, registered, and reaches what any of them reaches.\<close>

lemma highest_max:
  "ClassificationRank clearance = r \<Longrightarrow> (highest xs clearance r = clearance \<or> highest xs clearance r \<in> set xs) \<and>
     (\<forall>x \<in> insert clearance (set xs). ClassificationRank x \<le> ClassificationRank (highest xs clearance r))"
proof (induction xs arbitrary: clearance r)
  case (Cons x xs)
  show ?case
  proof (cases "r < ClassificationRank x")
    case True
    with Cons.IH [of x "ClassificationRank x"] Cons.prems show ?thesis by auto
  next
    case False
    with Cons.IH [of clearance r] Cons.prems show ?thesis by auto
  qed
qed simp

lemma Clearance_clears:
  "ClassificationRank c \<noteq> 0 \<Longrightarrow> Clears a c \<longleftrightarrow> ClassificationRank c \<le> ClassificationRank (Clearance a)"
  using highest_max [of "''''" 0 "aa_DataClasses a"]
  by (force simp: Clears_def Clearance_def list_ex_iff ClassificationRank_def [of "''''"])

section \<open>The configured source\<close>

record Static =
  sc_value :: CurrentAuthority
  sc_revoked :: bool

definition NewStatic :: "CurrentAuthority \<Rightarrow> Static" where
  "NewStatic v = \<lparr>sc_value = v, sc_revoked = False\<rparr>"

definition static_Revoke :: "Static \<Rightarrow> Static" where
  "static_Revoke s = s\<lparr>sc_revoked := True\<rparr>"

definition static_Restore :: "Static \<Rightarrow> Static" where
  "static_Restore s = s\<lparr>sc_revoked := False\<rparr>"

definition static_Replace :: "CurrentAuthority \<Rightarrow> Static \<Rightarrow> Static" where
  "static_Replace v s = s\<lparr>sc_value := v\<rparr>"

definition static_Current :: "Scope \<Rightarrow> (Static, err, CurrentAuthority) op" where
  "static_Current scope s =
     (if WorkspaceID scope = '''' \<or> ProjectID scope = '''' \<or> ActorID scope = ''''
      then (Inl (Plain ''current authority: workspace, project, and actor identity are required''), s)
      else if \<not> MaterialComplete (sc_value s)
      then (Inl (Plain ''current authority: pinned governance material is unavailable''), s)
      else
        (let value = (if sc_revoked s then (sc_value s)\<lparr>cu_WorkspaceActive := False, cu_ActorActive := False,
                        cu_PermissionActive := False, cu_PolicyActive := False\<rparr> else sc_value s);
             value = (if \<not> cu_ActorActive value
                      then value\<lparr>cu_ActorRole := '''', cu_ActorGrants := \<lparr>aa_Capabilities = [], aa_DataClasses = []\<rparr>\<rparr>
                      else value)
         in (Inr value, s)))"

text \<open>A revoked source never answers a permissive observation, whatever material it is given.\<close>

lemma revoked_source_denies:
  "static_Current scope (static_Replace v (static_Revoke s)) = (Inr c, t) \<Longrightarrow>
     \<not> Active c \<and> \<not> HasRole c r \<and> \<not> HasCapability (cu_ActorGrants c) n \<and> Clearance (cu_ActorGrants c) = '''' \<and> MaterialComplete c"
  by (auto simp: static_Current_def static_Replace_def static_Revoke_def Active_def HasRole_def HasCapability_def Clearance_def
      MaterialComplete_def Let_def split: if_splits)

end
