(* ===== verification/Evidence.thy ===== *)
theory Evidence
  imports Authority
begin

text \<open>
  Internal evidence (\<open>src/internal/events/evidence.go\<close>): the facts a durable operation leaves behind, the contract they
  meet, the in-memory store that numbers them per run, and the clearance under which they are read.

  \<open>sha\<close> is the canonical digest of a document; \<open>evidenceDocument\<close> is the document of a fact, the association list of its
  members. The layout of a time (\<open>evidenceTimeLayout\<close>) is an argument, and so are the answers of the contract
  validator, the request authorizer and the authority source. Lower-casing is that of ASCII, and a value a message
  quotes stands in it without its quotation marks.
\<close>

section \<open>Facts\<close>

record EventScope =
  es_WorkspaceID :: string
  es_ProjectID :: string

definition EventScope_Validate :: "EventScope \<Rightarrow> err option" where
  "EventScope_Validate s =
     (if es_WorkspaceID s = '''' \<or> es_ProjectID s = '''' then Some (Plain ''event scope requires workspace and project'') else None)"

record EvidenceProducer =
  ep_Component :: string
  ep_DefinitionDigest :: string
  ep_PolicyDigest :: string
  ep_ContractBOMDigest :: string

record EvidenceFact =
  ev_WorkspaceID :: string
  ev_ProjectID :: string
  ev_RunID :: string
  ev_EvidenceID :: string
  ev_Type :: string
  ev_OccurredAt :: time
  ev_Producer :: EvidenceProducer
  ev_Classification :: string
  ev_Retention :: string
  ev_TurnID :: string
  ev_WorkflowID :: string
  ev_PublicEventID :: string
  ev_Traceparent :: string
  ev_Payload :: "string gomap"

record RecordedEvidence =
  re_Evidence :: EvidenceFact
  re_Sequence :: uint64
  re_RecordedAt :: time
  re_ExpiresAt :: time
  re_Digest :: string
  re_Identity :: string

definition MaximumEvidencePage :: int where
  "MaximumEvidencePage = 1000"

definition BoundedEvidencePage :: "int \<Rightarrow> int" where
  "BoundedEvidencePage limit = (if limit \<le> 0 \<or> limit > MaximumEvidencePage then MaximumEvidencePage else limit)"

section \<open>The contract of a fact\<close>

definition day :: time where "day = 24 * 3600 * 1000000000"

definition RetentionWindow :: "string \<Rightarrow> err + time" where
  "RetentionWindow category =
     (if category = ''operational'' then Inr (30 * day)
      else if category = ''audit'' then Inr (365 * day)
      else if category = ''security'' then Inr (10 * 365 * day)
      else Inl (Plain (''evidence retention category '' @ category @ '' is not registered'')))"

definition RetentionCategories :: "string list" where
  "RetentionCategories = [''operational'', ''audit'', ''security'']"

definition DisclosureDeadline :: "time \<Rightarrow> string \<Rightarrow> err + time" where
  "DisclosureDeadline recordedAt category =
     (case RetentionWindow category of Inl e \<Rightarrow> Inl e | Inr window \<Rightarrow> Inr (recordedAt + window))"

fun cutoffs :: "time \<Rightarrow> string list \<Rightarrow> time gomap \<Rightarrow> err + time gomap" where
  "cutoffs now [] acc = Inr acc"
| "cutoffs now (category # rest) acc =
     (case RetentionWindow category of Inl e \<Rightarrow> Inl e | Inr window \<Rightarrow> cutoffs now rest (gm_put category (now - window) acc))"

definition RetentionCutoffs :: "time \<Rightarrow> err + time gomap" where
  "RetentionCutoffs now = cutoffs now RetentionCategories []"

definition alphanumeric :: "char \<Rightarrow> bool" where
  "alphanumeric c \<longleftrightarrow> is_upper c \<or> is_lower c \<or> is_digit c"

definition opaqueIdentity :: "string \<Rightarrow> bool" where
  "opaqueIdentity s \<longleftrightarrow> (case s of [] \<Rightarrow> False
     | c # cs \<Rightarrow> alphanumeric c \<and> length cs \<le> 127 \<and> list_all (\<lambda>d. alphanumeric d \<or> d \<in> set ''._:-'') cs)"

definition hex_char :: "char \<Rightarrow> bool" where
  "hex_char c \<longleftrightarrow> is_digit c \<or> c \<in> set ''abcdef''"

definition digestPattern :: "string \<Rightarrow> bool" where
  "digestPattern s \<longleftrightarrow> HasPrefix s ''sha256:'' \<and> length s = 71 \<and> list_all hex_char (drop 7 s)"

definition traceparentPattern :: "string \<Rightarrow> bool" where
  "traceparentPattern s \<longleftrightarrow>
     (case Split (CHR ''-'') s of
        [a, b, c, d] \<Rightarrow> length a = 2 \<and> length b = 32 \<and> length c = 16 \<and> length d = 2 \<and>
          list_all hex_char a \<and> list_all hex_char b \<and> list_all hex_char c \<and> list_all hex_char d
      | _ \<Rightarrow> False)"

definition evidence_namespaces :: "string list" where
  "evidence_namespaces = [''agent'', ''model'', ''tool'', ''validation'', ''artifact'', ''approval'', ''commit'', ''domain'', ''recovery'']"

definition evidenceTypePattern :: "string \<Rightarrow> bool" where
  "evidenceTypePattern s \<longleftrightarrow> list_ex (\<lambda>n. HasPrefix s (n @ ''.'') \<and>
     (case drop (length n + 1) s of [] \<Rightarrow> False
      | c # cs \<Rightarrow> (is_lower c \<or> is_digit c) \<and> list_all (\<lambda>d. is_lower d \<or> is_digit d \<or> d \<in> set ''.-'') cs)) evidence_namespaces"

definition PublicEventTypes :: "string list" where
  "PublicEventTypes = [''run.created'', ''run.state-changed'', ''run.input-requested'', ''run.approval-requested'',
     ''run.artifact-available'', ''run.problem-recorded'']"

definition PublicEventType :: "string \<Rightarrow> bool" where
  "PublicEventType value \<longleftrightarrow> list_ex (\<lambda>t. t = value) PublicEventTypes"

definition ToLower :: "string \<Rightarrow> string" where
  "ToLower s = map (\<lambda>c. if is_upper c then char_of ((of_char c :: nat) + 32) else c) s"

definition ProhibitedContentCategories :: "string list" where
  "ProhibitedContentCategories = [''prompt'', ''puckdata'', ''canvas'', ''pageir'', ''componentsource'', ''imagebytes'',
     ''signedurl'', ''continuation'', ''secret'']"

definition prohibitedContent :: "string \<Rightarrow> bool" where
  "prohibitedContent text \<longleftrightarrow> list_ex (\<lambda>p. Contains (ToLower text) p) ProhibitedContentCategories"

fun check_payload :: "string gomap \<Rightarrow> err option" where
  "check_payload [] = None"
| "check_payload ((key, field) # rest) =
     (if key = '''' \<or> length key > 64 \<or> length field > 1024
      then Some (Plain ''evidence payload facts must be bounded strings'')
      else if prohibitedContent (key @ '' '' @ field)
      then Some (Plain ''evidence payload carries prohibited content'')
      else check_payload rest)"

definition ValidateEvidence :: "EvidenceFact \<Rightarrow> err option" where
  "ValidateEvidence v =
     (if \<not> opaqueIdentity (ev_WorkspaceID v) \<or> \<not> opaqueIdentity (ev_ProjectID v) \<or> \<not> opaqueIdentity (ev_RunID v)
         \<or> \<not> opaqueIdentity (ev_EvidenceID v)
      then Some (Plain ''evidence requires bounded workspace, project, run, and evidence identities'')
      else case find (\<lambda>c. c \<noteq> '''' \<and> \<not> opaqueIdentity c) [ev_TurnID v, ev_WorkflowID v, ev_PublicEventID v] of
        Some c \<Rightarrow> Some (Plain (''evidence correlation identity '' @ c @ '' is not a bounded opaque identifier''))
      | None \<Rightarrow>
     (if PublicEventType (ev_Type v) then Some (Plain (''evidence type '' @ ev_Type v @ '' is a public event type''))
      else if \<not> evidenceTypePattern (ev_Type v) \<or> length (ev_Type v) > 128
      then Some (Plain (''evidence type '' @ ev_Type v @ '' is not in a registered internal namespace''))
      else if ClassificationRank (ev_Classification v) = 0
      then Some (Plain (''evidence data classification '' @ ev_Classification v @ '' is not registered''))
      else case RetentionWindow (ev_Retention v) of Inl e \<Rightarrow> Some e
      | Inr window \<Rightarrow>
     (if ev_OccurredAt v = 0 then Some (Plain ''evidence requires its occurrence time'')
      else if ep_Component (ev_Producer v) = '''' \<or> length (ep_Component (ev_Producer v)) > 128
      then Some (Plain ''evidence requires a bounded producing component'')
      else if \<not> digestPattern (ep_PolicyDigest (ev_Producer v)) \<or> \<not> digestPattern (ep_ContractBOMDigest (ev_Producer v))
      then Some (Plain ''evidence requires the producer's policy and contract bill-of-materials digests'')
      else if ep_DefinitionDigest (ev_Producer v) \<noteq> '''' \<and> \<not> digestPattern (ep_DefinitionDigest (ev_Producer v))
      then Some (Plain ''evidence producer definition digest is malformed'')
      else if \<not> traceparentPattern (ev_Traceparent v)
      then Some (Plain ''evidence requires a well-formed trace context'')
      else if length (ev_Payload v) > 16 then Some (Plain ''evidence payload exceeds the bounded fact set'')
      else check_payload (ev_Payload v))))"

section \<open>Documents\<close>

datatype member = Text string | Number uint64 | Members "string gomap"

type_synonym document = "member gomap"

record codec =
  cd_time :: "time \<Rightarrow> string"
  cd_sha :: "document \<Rightarrow> err + string"
  cd_require :: "document \<Rightarrow> err option"

definition producerDocument :: "EvidenceProducer \<Rightarrow> string gomap" where
  "producerDocument p = [(''component'', ep_Component p), (''policyDigest'', ep_PolicyDigest p),
     (''contractBomDigest'', ep_ContractBOMDigest p)] @
     (if ep_DefinitionDigest p \<noteq> '''' then [(''definitionDigest'', ep_DefinitionDigest p)] else [])"

definition evidenceDocument :: "codec \<Rightarrow> EvidenceFact \<Rightarrow> document" where
  "evidenceDocument cd v =
     [(''kind'', Text ''AgentEvidence''), (''evidenceId'', Text (ev_EvidenceID v)), (''runId'', Text (ev_RunID v)),
      (''workspaceId'', Text (ev_WorkspaceID v)), (''projectId'', Text (ev_ProjectID v)), (''evidenceType'', Text (ev_Type v)),
      (''occurredAt'', Text (cd_time cd (ev_OccurredAt v))), (''producer'', Members (producerDocument (ev_Producer v))),
      (''dataClassification'', Text (ev_Classification v)), (''retentionCategory'', Text (ev_Retention v)),
      (''traceContext'', Members [(''traceparent'', ev_Traceparent v)])] @
     (if ev_TurnID v \<noteq> '''' then [(''turnId'', Text (ev_TurnID v))] else []) @
     (if ev_WorkflowID v \<noteq> '''' then [(''workflowId'', Text (ev_WorkflowID v))] else []) @
     (if ev_PublicEventID v \<noteq> '''' then [(''publicEventId'', Text (ev_PublicEventID v))] else []) @
     (if ev_Payload v \<noteq> [] then [(''payload'', Members (ev_Payload v))] else [])"

definition RenderEvidence :: "codec \<Rightarrow> EvidenceFact \<Rightarrow> uint64 \<Rightarrow> time \<Rightarrow> document" where
  "RenderEvidence cd v sequence recordedAt =
     evidenceDocument cd v @ [(''evidenceSequence'', Number sequence), (''recordedAt'', Text (cd_time cd recordedAt))]"

definition EvidenceIdentity :: "codec \<Rightarrow> EvidenceFact \<Rightarrow> err + string" where
  "EvidenceIdentity cd v =
     (case cd_sha cd (evidenceDocument cd v) of Inl e \<Rightarrow> Inl (Wrapped ''digest evidence identity'' e) | Inr d \<Rightarrow> Inr d)"

definition EvidenceConflict :: "string \<Rightarrow> err" where
  "EvidenceConflict i = problem_detail CodeIdempotencyConflict
     (''evidence identity '' @ i @ '' is already recorded with different content'')"

definition EvidenceDigest :: "codec \<Rightarrow> document \<Rightarrow> err + string" where
  "EvidenceDigest cd rendered =
     (case cd_sha cd rendered of Inl e \<Rightarrow> Inl (Wrapped ''digest evidence'' e) | Inr d \<Rightarrow> Inr d)"

section \<open>The in-memory store\<close>

record MemoryEvidence =
  me_records :: "RecordedEvidence list gomap"
  me_byID :: "RecordedEvidence gomap"
  me_Reads :: "string list"

definition NewMemoryEvidence :: MemoryEvidence where
  "NewMemoryEvidence = \<lparr>me_records = [], me_byID = [], me_Reads = []\<rparr>"

definition evidenceRunKey :: "string \<Rightarrow> string \<Rightarrow> string \<Rightarrow> string" where
  "evidenceRunKey w p r = scoped_key w p r"

definition run_records :: "MemoryEvidence \<Rightarrow> string \<Rightarrow> RecordedEvidence list" where
  "run_records m k = (case gm_get (me_records m) k of None \<Rightarrow> [] | Some rs \<Rightarrow> rs)"

definition fact_key :: "EvidenceFact \<Rightarrow> string" where
  "fact_key v = scoped_key (ev_WorkspaceID v) (ev_ProjectID v) (ev_EvidenceID v)"

definition run_key :: "EvidenceFact \<Rightarrow> string" where
  "run_key v = evidenceRunKey (ev_WorkspaceID v) (ev_ProjectID v) (ev_RunID v)"

text \<open>\<open>now\<close> is what the store's clock answers; the store keeps its milliseconds.\<close>

definition append_new :: "codec \<Rightarrow> time \<Rightarrow> EvidenceFact \<Rightarrow> string \<Rightarrow> (MemoryEvidence, err, uint64) op" where
  "append_new cd now v identity m =
     (let sequence = of_nat (length (run_records m (run_key v)) + 1);
          recordedAt = now - now mod 1000000;
          rendered = RenderEvidence cd v sequence recordedAt
      in case cd_require cd rendered of
           Some e \<Rightarrow> (Inl (Wrapped ''validate evidence against its canonical contract'' e), m)
         | None \<Rightarrow>
      (case EvidenceDigest cd rendered of Inl e \<Rightarrow> (Inl e, m) | Inr digest \<Rightarrow>
      (case DisclosureDeadline recordedAt (ev_Retention v) of Inl e \<Rightarrow> (Inl e, m) | Inr deadline \<Rightarrow>
        (let record = \<lparr>re_Evidence = v, re_Sequence = sequence, re_RecordedAt = recordedAt, re_ExpiresAt = deadline,
               re_Digest = digest, re_Identity = identity\<rparr>
         in (Inr sequence, m\<lparr>me_records := gm_put (run_key v) (run_records m (run_key v) @ [record]) (me_records m),
               me_byID := gm_put (fact_key v) record (me_byID m)\<rparr>)))))"

definition AppendEvidence :: "codec \<Rightarrow> time \<Rightarrow> EvidenceFact \<Rightarrow> (MemoryEvidence, err, uint64) op" where
  "AppendEvidence cd now v m =
     (case ValidateEvidence v of Some e \<Rightarrow> (Inl e, m) | None \<Rightarrow>
     (case EvidenceIdentity cd v of Inl e \<Rightarrow> (Inl e, m) | Inr identity \<Rightarrow>
     (case gm_get (me_byID m) (fact_key v) of
        Some recorded \<Rightarrow>
          (if re_Identity recorded \<noteq> identity then (Inl (EvidenceConflict (ev_EvidenceID v)), m)
           else (Inr (re_Sequence recorded), m))
      | None \<Rightarrow> append_new cd now v identity m)))"

definition mem_RecordedEvidence :: "EventScope \<Rightarrow> string \<Rightarrow> (MemoryEvidence, err, RecordedEvidence option) op" where
  "mem_RecordedEvidence scope i m =
     (case EventScope_Validate scope of Some e \<Rightarrow> (Inl e, m)
      | None \<Rightarrow> (Inr (gm_get (me_byID m) (scoped_key (es_WorkspaceID scope) (es_ProjectID scope) i)), m))"

section \<open>Reading evidence\<close>

text \<open>
  A minted authority keeps how to resolve itself again, from its claims and purpose; what the request authorizer
  and the authority source answer when it does are arguments of the call (\<open>authorized\<close>, \<open>observed\<close>).
\<close>

record EvidenceAuthority =
  ea_scope :: EventScope
  ea_accessor :: string
  ea_purpose :: string
  ea_clearance :: string
  ea_minted :: bool

definition evidenceAccessDenied :: "string \<Rightarrow> err" where
  "evidenceAccessDenied detail = problem_detail CodeAuthorizationDenied detail"

definition EvidenceAuthority_Validate :: "EvidenceAuthority \<Rightarrow> err option" where
  "EvidenceAuthority_Validate a =
     (case EventScope_Validate (ea_scope a) of
        Some e \<Rightarrow> Some (Wrapped ''evidence reads require the accessor's authorized tenant scope'' e)
      | None \<Rightarrow>
     (if ea_accessor a = '''' \<or> length (ea_accessor a) > 128
      then Some (Plain ''evidence reads require a bounded accessor identity'')
      else if ea_purpose a = '''' \<or> length (ea_purpose a) > 256
      then Some (Plain ''evidence reads require a bounded declared purpose'')
      else if ClassificationRank (ea_clearance a) = 0
      then Some (Plain (''evidence read clearance '' @ ea_clearance a @ '' is not a registered data classification''))
      else None))"

definition resolveEvidenceAuthority :: "err + Scope \<Rightarrow> (Scope \<Rightarrow> err + CurrentAuthority) \<Rightarrow> string \<Rightarrow> err + EvidenceAuthority" where
  "resolveEvidenceAuthority authorized observed purpose =
     (if purpose = '''' \<or> length purpose > 256 then Inl (Plain ''evidence reads require a bounded declared purpose'')
      else case authorized of Inl e \<Rightarrow> Inl e | Inr scope \<Rightarrow>
     (case observed scope of Inl e \<Rightarrow> Inl e | Inr current \<Rightarrow>
     (if \<not> Active current then Inl (evidenceAccessDenied ''current authority no longer permits evidence access'')
      else if cu_ActorRole current = '''' then Inl (evidenceAccessDenied ''the scope admits no role for this actor'')
      else if Clearance (cu_ActorGrants current) = ''''
      then Inl (evidenceAccessDenied ''current authority grants this actor no evidence data classification'')
      else
        (let value = \<lparr>ea_scope = \<lparr>es_WorkspaceID = WorkspaceID scope, es_ProjectID = ProjectID scope\<rparr>,
               ea_accessor = ActorID scope, ea_purpose = purpose, ea_clearance = Clearance (cu_ActorGrants current), ea_minted = True\<rparr>
         in case EvidenceAuthority_Validate value of Some e \<Rightarrow> Inl e | None \<Rightarrow> Inr value))))"

definition Revalidated :: "err + Scope \<Rightarrow> (Scope \<Rightarrow> err + CurrentAuthority) \<Rightarrow> EvidenceAuthority \<Rightarrow> err + EvidenceAuthority" where
  "Revalidated authorized observed a =
     (if \<not> ea_minted a then Inl (evidenceAccessDenied ''evidence reads require a minted access authority'')
      else case resolveEvidenceAuthority authorized observed (ea_purpose a) of Inl e \<Rightarrow> Inl e | Inr current \<Rightarrow>
        (if ea_scope current \<noteq> ea_scope a \<or> ea_accessor current \<noteq> ea_accessor a
         then Inl (evidenceAccessDenied ''the accessor's authority no longer covers the scope this read was minted for'')
         else Inr current))"

definition Permits :: "EvidenceAuthority \<Rightarrow> string \<Rightarrow> bool" where
  "Permits a classification \<longleftrightarrow> ClassificationRank classification \<noteq> 0 \<and>
     ClassificationRank (ea_clearance a) \<ge> ClassificationRank classification"

definition PermittedClassifications :: "EvidenceAuthority \<Rightarrow> string list" where
  "PermittedClassifications a = filter (Permits a) [''public'', ''internal'', ''confidential'', ''restricted'']"

definition ValidateEvidenceRun :: "string \<Rightarrow> err option" where
  "ValidateEvidenceRun r = (if \<not> opaqueIdentity r then Some (Plain ''evidence reads require a bounded run identity'') else None)"

text \<open>The loop over the records of the run; the page is full when it holds \<open>limit\<close> records.\<close>

fun disclose :: "EvidenceAuthority \<Rightarrow> time \<Rightarrow> int \<Rightarrow> RecordedEvidence list \<Rightarrow> RecordedEvidence list \<Rightarrow> RecordedEvidence list" where
  "disclose a now limit [] acc = acc"
| "disclose a now limit (r # rs) acc =
     (if \<not> Permits a (ev_Classification (re_Evidence r)) \<or> \<not> now < re_ExpiresAt r then disclose a now limit rs acc
      else if int (length acc) = limit then acc
      else disclose a now limit rs (acc @ [r]))"

definition ReadEvidence :: "err + Scope \<Rightarrow> (Scope \<Rightarrow> err + CurrentAuthority) \<Rightarrow> time \<Rightarrow> EvidenceAuthority \<Rightarrow> string \<Rightarrow> int \<Rightarrow>
    (MemoryEvidence, err, RecordedEvidence list) op" where
  "ReadEvidence authorized observed now a r limit m =
     (case Revalidated authorized observed a of Inl e \<Rightarrow> (Inl e, m) | Inr current \<Rightarrow>
     (case EvidenceAuthority_Validate current of Some e \<Rightarrow> (Inl e, m) | None \<Rightarrow>
     (case ValidateEvidenceRun r of Some e \<Rightarrow> (Inl e, m) | None \<Rightarrow>
       (Inr (disclose current now (BoundedEvidencePage limit)
           (run_records m (evidenceRunKey (es_WorkspaceID (ea_scope current)) (es_ProjectID (ea_scope current)) r)) []),
        m\<lparr>me_Reads := me_Reads m @ [ea_accessor current @ '':'' @ ea_purpose current]\<rparr>))))"

section \<open>What the store keeps\<close>

datatype evidence_call =
    CallAppend time EvidenceFact
  | CallRead "err + Scope" "Scope \<Rightarrow> err + CurrentAuthority" time EvidenceAuthority string int

primrec call_evidence :: "codec \<Rightarrow> evidence_call \<Rightarrow> MemoryEvidence \<Rightarrow> MemoryEvidence" where
  "call_evidence cd (CallAppend now v) m = snd (AppendEvidence cd now v m)"
| "call_evidence cd (CallRead authorized observed now a r limit) m = snd (ReadEvidence authorized observed now a r limit m)"

definition calls_evidence :: "codec \<Rightarrow> evidence_call list \<Rightarrow> MemoryEvidence \<Rightarrow> MemoryEvidence" where
  "calls_evidence cd cs m = fold (call_evidence cd) cs m"

text \<open>A record under its own fact: valid, with its identity and the deadline of its category.\<close>

definition record_ok :: "codec \<Rightarrow> RecordedEvidence \<Rightarrow> bool" where
  "record_ok cd r \<longleftrightarrow> ValidateEvidence (re_Evidence r) = None \<and> EvidenceIdentity cd (re_Evidence r) = Inr (re_Identity r) \<and>
     DisclosureDeadline (re_RecordedAt r) (ev_Retention (re_Evidence r)) = Inr (re_ExpiresAt r)"

definition evidence_inv :: "codec \<Rightarrow> MemoryEvidence \<Rightarrow> bool" where
  "evidence_inv cd m \<longleftrightarrow>
     (\<forall>k. map re_Sequence (run_records m k) = map (\<lambda>i. of_nat (Suc i)) [0..<length (run_records m k)]) \<and>
     (\<forall>k r. gm_get (me_byID m) k = Some r \<longrightarrow> k = fact_key (re_Evidence r) \<and> r \<in> set (run_records m (run_key (re_Evidence r)))) \<and>
     (\<forall>k. \<forall>r \<in> set (run_records m k). k = run_key (re_Evidence r) \<and> gm_get (me_byID m) (fact_key (re_Evidence r)) = Some r \<and> record_ok cd r)"

definition evidence_le :: "MemoryEvidence \<Rightarrow> MemoryEvidence \<Rightarrow> bool" where
  "evidence_le m n \<longleftrightarrow> gm_get (me_byID m) \<subseteq>\<^sub>m gm_get (me_byID n) \<and> (\<forall>k. \<exists>rs. run_records n k = run_records m k @ rs)"

lemma evidence_inv_New: "evidence_inv cd NewMemoryEvidence"
  by (simp add: evidence_inv_def NewMemoryEvidence_def run_records_def)

lemma evidence_le_refl [simp]: "evidence_le m m"
  by (simp add: evidence_le_def)

lemma evidence_le_trans: "evidence_le m n \<Longrightarrow> evidence_le n p \<Longrightarrow> evidence_le m p"
  unfolding evidence_le_def by (metis append.assoc map_le_trans)

lemma append_new_cases:
  assumes "append_new cd now v identity m = (r, n)"
  shows "(\<exists>e. r = Inl e \<and> n = m) \<or> (\<exists>x. re_Evidence x = v \<and> re_Identity x = identity \<and>
    re_Sequence x = of_nat (length (run_records m (run_key v)) + 1) \<and>
    DisclosureDeadline (re_RecordedAt x) (ev_Retention v) = Inr (re_ExpiresAt x) \<and> r = Inr (re_Sequence x) \<and>
    n = m\<lparr>me_records := gm_put (run_key v) (run_records m (run_key v) @ [x]) (me_records m),
      me_byID := gm_put (fact_key v) x (me_byID m)\<rparr>)"
proof -
  let ?s = "of_nat (length (run_records m (run_key v)) + 1)" and ?t = "now - now mod 1000000"
  show ?thesis
  proof (cases "cd_require cd (RenderEvidence cd v ?s ?t)")
    case (Some e)
    then show ?thesis using assms by (auto simp: append_new_def Let_def)
  next
    case ok: None
    show ?thesis
    proof (cases "EvidenceDigest cd (RenderEvidence cd v ?s ?t)")
      case (Inl e)
      then show ?thesis using assms ok by (auto simp: append_new_def Let_def)
    next
      case (Inr digest)
      show ?thesis
      proof (cases "DisclosureDeadline ?t (ev_Retention v)")
        case (Inl e)
        then show ?thesis using assms ok Inr by (auto simp: append_new_def Let_def)
      next
        case deadline: (Inr deadline)
        then show ?thesis using assms ok Inr
          by (intro disjI2 exI [of _ "\<lparr>re_Evidence = v, re_Sequence = ?s, re_RecordedAt = ?t, re_ExpiresAt = deadline,
                re_Digest = digest, re_Identity = identity\<rparr>"]) (simp add: append_new_def Let_def)
      qed
    qed
  qed
qed

lemma AppendEvidence_cases:
  assumes "AppendEvidence cd now v m = (r, n)"
  obtains (refused) e where "r = Inl e" and "n = m"
  | (replayed) recorded where "gm_get (me_byID m) (fact_key v) = Some recorded" and "ValidateEvidence v = None"
      and "EvidenceIdentity cd v = Inr (re_Identity recorded)" and "r = Inr (re_Sequence recorded)" and "n = m"
  | (recorded) x where "gm_get (me_byID m) (fact_key v) = None" and "record_ok cd x" and "re_Evidence x = v"
      and "re_Sequence x = of_nat (length (run_records m (run_key v)) + 1)" and "r = Inr (re_Sequence x)"
      and "n = m\<lparr>me_records := gm_put (run_key v) (run_records m (run_key v) @ [x]) (me_records m),
        me_byID := gm_put (fact_key v) x (me_byID m)\<rparr>"
proof (cases "ValidateEvidence v")
  case (Some e)
  with assms refused show thesis by (auto simp: AppendEvidence_def)
next
  case valid: None
  show thesis
  proof (cases "EvidenceIdentity cd v")
    case (Inl e)
    with assms valid refused show thesis by (auto simp: AppendEvidence_def)
  next
    case (Inr identity)
    show thesis
    proof (cases "gm_get (me_byID m) (fact_key v)")
      case (Some old)
      with assms valid Inr refused replayed show thesis by (auto simp: AppendEvidence_def split: if_splits)
    next
      case None
      then have "append_new cd now v identity m = (r, n)" using assms valid Inr by (simp add: AppendEvidence_def)
      from append_new_cases [OF this] show thesis
      proof (elim disjE exE conjE)
        fix x
        assume x: "re_Evidence x = v" "re_Identity x = identity" "re_Sequence x = of_nat (length (run_records m (run_key v)) + 1)"
          "DisclosureDeadline (re_RecordedAt x) (ev_Retention v) = Inr (re_ExpiresAt x)" "r = Inr (re_Sequence x)"
          "n = m\<lparr>me_records := gm_put (run_key v) (run_records m (run_key v) @ [x]) (me_records m),
            me_byID := gm_put (fact_key v) x (me_byID m)\<rparr>"
        have "record_ok cd x" using x valid Inr by (simp add: record_ok_def)
        then show thesis by (rule recorded [OF None _ x(1,3,5,6)])
      qed (rule refused)
    qed
  qed
qed

lemma run_records_put [simp]:
  "run_records (m\<lparr>me_records := gm_put k rs (me_records m), me_byID := b\<rparr>) l = (if l = k then rs else run_records m l)"
  by (auto simp: run_records_def gm_get_put)

lemma append_keeps:
  assumes "AppendEvidence cd now v m = (r, n)" and "evidence_inv cd m"
  shows "evidence_inv cd n \<and> evidence_le m n \<and>
    (\<forall>s. r = Inr s \<longrightarrow> (\<exists>x. gm_get (me_byID n) (fact_key v) = Some x \<and> re_Sequence x = s \<and> EvidenceIdentity cd v = Inr (re_Identity x)))"
  using assms(1)
proof (cases rule: AppendEvidence_cases)
  case (refused e)
  then show ?thesis using assms(2) by simp
next
  case (replayed recorded)
  then show ?thesis using assms(2) by simp
next
  case (recorded x)
  let ?k = "run_key v" and ?rs = "run_records m (run_key v)"
  have inv: "\<And>k. map re_Sequence (run_records m k) = map (\<lambda>i. of_nat (Suc i)) [0..<length (run_records m k)]"
    "\<And>k r. gm_get (me_byID m) k = Some r \<Longrightarrow> k = fact_key (re_Evidence r) \<and> r \<in> set (run_records m (run_key (re_Evidence r)))"
    "\<And>k r. r \<in> set (run_records m k) \<Longrightarrow> k = run_key (re_Evidence r) \<and> gm_get (me_byID m) (fact_key (re_Evidence r)) = Some r \<and> record_ok cd r"
    using assms(2) unfolding evidence_inv_def by blast+
  have new: "\<And>k r. r \<in> set (run_records m k) \<Longrightarrow> fact_key (re_Evidence r) \<noteq> fact_key v"
    using inv(3) recorded(1) by force
  have records: "run_records n k = (if k = ?k then ?rs @ [x] else run_records m k)" for k unfolding recorded(6) by simp
  have byID: "gm_get (me_byID n) k = (if k = fact_key v then Some x else gm_get (me_byID m) k)" for k
    unfolding recorded(6) by (auto simp: gm_get_put)
  have "map re_Sequence (run_records n k) = map (\<lambda>i. of_nat (Suc i)) [0..<length (run_records n k)]" for k
    using inv(1) [of k] inv(1) [of ?k] recorded(4) by (simp add: records)
  moreover have "k = fact_key (re_Evidence r) \<and> r \<in> set (run_records n (run_key (re_Evidence r)))" if "gm_get (me_byID n) k = Some r" for k r
  proof (cases "k = fact_key v")
    case True
    then show ?thesis using that recorded(3) by (auto simp: byID records)
  next
    case False
    then show ?thesis using that inv(2) [of k r] by (simp add: byID records) metis
  qed
  moreover have "k = run_key (re_Evidence r) \<and> gm_get (me_byID n) (fact_key (re_Evidence r)) = Some r \<and> record_ok cd r"
    if "r \<in> set (run_records n k)" for k r
  proof (cases "k = ?k \<and> r = x")
    case True
    then show ?thesis using recorded(2,3) by (simp add: byID)
  next
    case False
    then have "r \<in> set (run_records m k)" using that by (auto simp: records split: if_splits)
    then show ?thesis using inv(3) [of r k] new [of r k] by (simp add: byID)
  qed
  ultimately have "evidence_inv cd n" unfolding evidence_inv_def by blast
  moreover have "evidence_le m n" using recorded(1) by (auto simp: evidence_le_def recorded(6) gm_get_put map_le_def)
  moreover have "EvidenceIdentity cd v = Inr (re_Identity x)" using recorded(2,3) by (simp add: record_ok_def)
  ultimately show ?thesis using recorded(5,6) by (auto simp: gm_get_put)
qed

lemma read_keeps: "ReadEvidence authorized observed now a r limit m = (x, n) \<Longrightarrow> me_records n = me_records m \<and> me_byID n = me_byID m"
  by (auto simp: ReadEvidence_def split: sum.splits option.splits)

lemma call_keeps:
  assumes "evidence_inv cd m"
  shows "evidence_inv cd (call_evidence cd c m) \<and> evidence_le m (call_evidence cd c m)"
proof (cases c)
  case (CallAppend now v)
  then show ?thesis using append_keeps [OF _ assms] by (metis call_evidence.simps(1) surjective_pairing)
next
  case (CallRead authorized observed now a r limit)
  have "me_records (call_evidence cd c m) = me_records m \<and> me_byID (call_evidence cd c m) = me_byID m"
    unfolding CallRead call_evidence.simps by (rule read_keeps [OF surjective_pairing])
  then show ?thesis using assms by (simp add: evidence_inv_def evidence_le_def run_records_def)
qed

lemma calls_keep: "evidence_inv cd m \<Longrightarrow> evidence_inv cd (calls_evidence cd cs m) \<and> evidence_le m (calls_evidence cd cs m)"
  unfolding calls_evidence_def
proof (induction cs arbitrary: m)
  case (Cons c cs)
  then show ?case using call_keeps [OF Cons.prems, of c] evidence_le_trans by fastforce
qed simp

section \<open>Properties\<close>

text \<open>C10 (one account per fact). Whatever was appended and read before and is afterwards, a fact that was accepted keeps the
  record it was given; the same identifier is accepted again exactly for the same fact, with the same number; and the
  facts of a run are numbered from one without gaps.\<close>

theorem one_account_per_fact:
  assumes "m = calls_evidence cd cs NewMemoryEvidence" and "AppendEvidence cd now v m = (Inr s, n)"
    and "p = calls_evidence cd ds n" and "ev_WorkspaceID w = ev_WorkspaceID v" and "ev_ProjectID w = ev_ProjectID v"
    and "ev_EvidenceID w = ev_EvidenceID v"
  shows "(\<exists>x. gm_get (me_byID n) (fact_key v) = Some x \<and> re_Sequence x = s \<and> gm_get (me_byID p) (fact_key v) = Some x) \<and>
    (fst (AppendEvidence cd later w p) = Inr s \<longleftrightarrow> ValidateEvidence w = None \<and> EvidenceIdentity cd w = EvidenceIdentity cd v) \<and>
    map re_Sequence (run_records p k) = map (\<lambda>i. of_nat (Suc i)) [0..<length (run_records p k)]"
proof -
  have "evidence_inv cd m" using calls_keep [OF evidence_inv_New] assms(1) by blast
  note n = append_keeps [OF assms(2) this]
  then obtain x where x: "gm_get (me_byID n) (fact_key v) = Some x" "re_Sequence x = s" "EvidenceIdentity cd v = Inr (re_Identity x)"
    by blast
  have "evidence_inv cd n" using n by blast
  note between = calls_keep [OF this, of ds, folded assms(3)]
  have "gm_get (me_byID n) \<subseteq>\<^sub>m gm_get (me_byID p)" using between unfolding evidence_le_def by blast
  then have p: "gm_get (me_byID p) (fact_key v) = Some x" using x(1) unfolding map_le_def by (metis domI)
  have q: "map re_Sequence (run_records p k) = map (\<lambda>i. of_nat (Suc i)) [0..<length (run_records p k)]"
    using between unfolding evidence_inv_def by blast
  have "fact_key w = fact_key v" using assms(4-6) by (simp add: fact_key_def)
  then have "fst (AppendEvidence cd later w p) = Inr s \<longleftrightarrow> ValidateEvidence w = None \<and> EvidenceIdentity cd w = EvidenceIdentity cd v"
    using p x(2,3) by (auto simp: AppendEvidence_def split: option.splits sum.splits)
  with p q x show ?thesis by blast
qed

lemma disclose_filter:
  assumes "0 \<le> limit" and "int (length acc) \<le> limit"
  shows "disclose a now limit rs acc =
    acc @ take (nat limit - length acc) (filter (\<lambda>r. Permits a (ev_Classification (re_Evidence r)) \<and> now < re_ExpiresAt r) rs)"
  using assms(2)
proof (induction rs arbitrary: acc)
  case (Cons r rs)
  show ?case
  proof (cases "Permits a (ev_Classification (re_Evidence r)) \<and> now < re_ExpiresAt r \<and> int (length acc) \<noteq> limit")
    case True
    then have "nat limit - length acc = Suc (nat limit - length (acc @ [r]))" using Cons.prems assms(1) by auto
    then show ?thesis using True Cons.IH [of "acc @ [r]"] Cons.prems by simp
  next
    case False
    then show ?thesis using Cons by auto
  qed
qed simp

lemma opaqueIdentity_nul_free: "opaqueIdentity s \<Longrightarrow> nul_free s"
  by (cases s) (auto simp: opaqueIdentity_def alphanumeric_def nul_free_def NUL_def is_upper_def is_lower_def is_digit_def
      list_all_iff less_eq_char_def)

lemma record_ok_nul_free:
  "record_ok cd r \<Longrightarrow> nul_free (ev_WorkspaceID (re_Evidence r)) \<and> nul_free (ev_ProjectID (re_Evidence r)) \<and> nul_free (ev_RunID (re_Evidence r))"
  by (auto simp: record_ok_def ValidateEvidence_def intro: opaqueIdentity_nul_free split: if_splits)

text \<open>C11 (disclosure follows current authority). A read discloses only facts of the tenant the caller is authorized for now and
  of the run it names, in their order and at most a thousand of them; each is of a registered classification that the
  reader's own clearance reaches at this moment and has not outlived its category; the authority is active, and the
  read is recorded. What was minted earlier decides nothing but the purpose.\<close>

theorem disclosure_follows_current_authority:
  assumes "m = calls_evidence cd cs NewMemoryEvidence"
    and "ReadEvidence authorized observed now a run limit m = (Inr rs, n)"
  shows "\<exists>scope current. authorized = Inr scope \<and> observed scope = Inr current \<and> Active current \<and> cu_ActorRole current \<noteq> '''' \<and>
    me_Reads n = me_Reads m @ [ActorID scope @ '':'' @ ea_purpose a] \<and> length rs \<le> 1000 \<and>
    rs = take (nat (BoundedEvidencePage limit))
      (filter (\<lambda>r. Clears (cu_ActorGrants current) (ev_Classification (re_Evidence r)) \<and> now < re_ExpiresAt r)
        (run_records m (evidenceRunKey (WorkspaceID scope) (ProjectID scope) run))) \<and>
    (\<forall>r \<in> set rs. ev_WorkspaceID (re_Evidence r) = WorkspaceID scope \<and> ev_ProjectID (re_Evidence r) = ProjectID scope \<and>
      ev_RunID (re_Evidence r) = run \<and> Inr (re_ExpiresAt r) = DisclosureDeadline (re_RecordedAt r) (ev_Retention (re_Evidence r)))"
proof -
  obtain current where c: "Revalidated authorized observed a = Inr current"
    using assms(2) by (auto simp: ReadEvidence_def split: sum.splits)
  have purpose: "ea_purpose current = ea_purpose a"
    using c by (auto simp: Revalidated_def resolveEvidenceAuthority_def Let_def split: if_splits sum.splits option.splits)
  obtain scope cu where s: "authorized = Inr scope" "observed scope = Inr cu" "Active cu" "cu_ActorRole cu \<noteq> ''''"
    "ea_scope current = \<lparr>es_WorkspaceID = WorkspaceID scope, es_ProjectID = ProjectID scope\<rparr>" "ea_accessor current = ActorID scope"
    "ea_clearance current = Clearance (cu_ActorGrants cu)"
    using c by (auto simp: Revalidated_def resolveEvidenceAuthority_def Let_def split: if_splits sum.splits option.splits)
  let ?k = "evidenceRunKey (WorkspaceID scope) (ProjectID scope) run"
  have bound: "0 < BoundedEvidencePage limit" "BoundedEvidencePage limit \<le> 1000"
    by (auto simp: BoundedEvidencePage_def MaximumEvidencePage_def)
  have permits: "Permits current x = Clears (cu_ActorGrants cu) x" for x
    using Clearance_clears [of x "cu_ActorGrants cu"] s(7) by (auto simp: Permits_def Clears_def)
  have rs: "rs = disclose current now (BoundedEvidencePage limit) (run_records m ?k) []"
    "me_Reads n = me_Reads m @ [ActorID scope @ '':'' @ ea_purpose a]"
    using assms(2) c s(5,6) purpose by (auto simp: ReadEvidence_def split: option.splits)
  then have r: "rs = take (nat (BoundedEvidencePage limit)) (filter (\<lambda>r. Clears (cu_ActorGrants cu) (ev_Classification (re_Evidence r)) \<and>
      now < re_ExpiresAt r) (run_records m ?k))"
    using disclose_filter [of "BoundedEvidencePage limit" "[]"] bound permits by simp
  have "ev_WorkspaceID (re_Evidence r) = WorkspaceID scope \<and> ev_ProjectID (re_Evidence r) = ProjectID scope \<and>
    ev_RunID (re_Evidence r) = run \<and> Inr (re_ExpiresAt r) = DisclosureDeadline (re_RecordedAt r) (ev_Retention (re_Evidence r))"
    if "r \<in> set rs" for r
  proof -
    have "r \<in> set (run_records m ?k)" using that r by (auto dest: in_set_takeD)
    moreover have "evidence_inv cd m" using calls_keep [OF evidence_inv_New] assms(1) by blast
    ultimately have k: "?k = run_key (re_Evidence r)" "record_ok cd r" unfolding evidence_inv_def by blast+
    with record_ok_nul_free [OF k(2)] scoped_key_nul_free have "WorkspaceID scope = ev_WorkspaceID (re_Evidence r) \<and>
        ProjectID scope = ev_ProjectID (re_Evidence r) \<and> run = ev_RunID (re_Evidence r)"
      unfolding run_key_def evidenceRunKey_def by blast
    then show ?thesis using k(2) by (simp add: record_ok_def)
  qed
  moreover have "length rs \<le> 1000" using r bound(2) by simp
  ultimately show ?thesis using s(1-4) rs(2) r by blast
qed

section \<open>Witnesses\<close>

primrec member_text :: "member \<Rightarrow> string" where
  "member_text (Text s) = s"
| "member_text (Number n) = ''#''"
| "member_text (Members ms) = concat (map (\<lambda>(k, v). k @ ''='' @ v) ms)"

definition codec2 :: codec where
  "codec2 = \<lparr>cd_time = \<lambda>t. if t = 5 then ''five'' else ''other'', cd_sha = \<lambda>d. Inr (concat (map (\<lambda>(k, m). k @ '':'' @ member_text m) d)),
     cd_require = \<lambda>d. None\<rparr>"

definition digest2 :: string where
  "digest2 = ''sha256:'' @ replicate 64 (CHR ''a'')"

definition fact2 :: EvidenceFact where
  "fact2 = \<lparr>ev_WorkspaceID = ''w'', ev_ProjectID = ''p'', ev_RunID = ''run'', ev_EvidenceID = ''e1'', ev_Type = ''domain.effect-confirmed'',
     ev_OccurredAt = 5, ev_Producer = \<lparr>ep_Component = ''agent-executor'', ep_DefinitionDigest = digest2, ep_PolicyDigest = digest2,
       ep_ContractBOMDigest = digest2\<rparr>, ev_Classification = ''internal'', ev_Retention = ''audit'', ev_TurnID = ''domain:1'',
     ev_WorkflowID = ''run:g1'', ev_PublicEventID = '''',
     ev_Traceparent = ''00-'' @ replicate 32 (CHR ''a'') @ ''-'' @ replicate 16 (CHR ''b'') @ ''-01'', ev_Payload = [(''operationId'', ''o'')]\<rparr>"

definition other2 :: EvidenceFact where
  "other2 = fact2\<lparr>ev_EvidenceID := ''e2'', ev_Classification := ''restricted'', ev_Payload := [(''basis'', ''OPS-7'')]\<rparr>"

definition store2 :: MemoryEvidence where
  "store2 = calls_evidence codec2 [CallAppend 7000000 fact2, CallAppend 8000000 other2] NewMemoryEvidence"

lemma appended2: "fst (AppendEvidence codec2 7000000 fact2 NewMemoryEvidence) = Inr 1"
  by code_simp

lemma valid2: "ValidateEvidence fact2 = None" "ValidateEvidence (fact2\<lparr>ev_Payload := [(''operationId'', ''q'')]\<rparr>) = None"
  "EvidenceIdentity codec2 (fact2\<lparr>ev_Payload := [(''operationId'', ''q'')]\<rparr>) \<noteq> EvidenceIdentity codec2 fact2"
  by code_simp+

theorem one_account_per_fact_witness:
  "fst (AppendEvidence codec2 9000000 fact2 store2) = Inr 1 \<and>
   fst (AppendEvidence codec2 9000000 (fact2\<lparr>ev_Payload := [(''operationId'', ''q'')]\<rparr>) store2) \<noteq> Inr 1 \<and>
   map re_Sequence (run_records store2 (run_key fact2)) = [1, 2]"
proof -
  have a: "NewMemoryEvidence = calls_evidence codec2 [] NewMemoryEvidence" by (simp add: calls_evidence_def)
  have b: "AppendEvidence codec2 7000000 fact2 NewMemoryEvidence = (Inr 1, snd (AppendEvidence codec2 7000000 fact2 NewMemoryEvidence))"
    using appended2 by (metis prod.collapse)
  have c: "store2 = calls_evidence codec2 [CallAppend 8000000 other2] (snd (AppendEvidence codec2 7000000 fact2 NewMemoryEvidence))"
    by (simp add: store2_def calls_evidence_def)
  note t = one_account_per_fact [OF a b c]
  have "fst (AppendEvidence codec2 9000000 fact2 store2) = Inr 1" using t [of fact2 9000000] valid2 by blast
  moreover have "fst (AppendEvidence codec2 9000000 (fact2\<lparr>ev_Payload := [(''operationId'', ''q'')]\<rparr>) store2) \<noteq> Inr 1"
    using t [of "fact2\<lparr>ev_Payload := [(''operationId'', ''q'')]\<rparr>" 9000000] valid2 by simp
  moreover have "length (run_records store2 (run_key fact2)) = 2" by code_simp
  ultimately show ?thesis using t [of fact2 _ "run_key fact2"] by (simp add: numeral_2_eq_2)
qed

definition reader2 :: EvidenceAuthority where
  "reader2 = \<lparr>ea_scope = \<lparr>es_WorkspaceID = ''w'', es_ProjectID = ''p''\<rparr>, ea_accessor = ''eve'', ea_purpose = ''audit'',
     ea_clearance = ''restricted'', ea_minted = True\<rparr>"

definition scope2 :: Scope where
  "scope2 = \<lparr>WorkspaceID = ''w'', ProjectID = ''p'', ActorID = ''eve''\<rparr>"

definition current2 :: CurrentAuthority where
  "current2 = \<lparr>cu_Definition = ''d'', cu_ContractBOM = ''b'', cu_Policy = ''p'', cu_Budget = ''m'', cu_WorkspaceActive = True, cu_ActorActive = True,
     cu_PermissionActive = True, cu_PolicyActive = True, cu_ActorRole = ''auditor'',
     cu_ActorGrants = \<lparr>aa_Capabilities = [], aa_DataClasses = [''public'', ''internal'']\<rparr>,
     cu_Grants = \<lparr>gr_AllowedTools = [], gr_AllowedCapabilities = [], gr_AllowedEffects = [], gr_MaximumRisk = '''', gr_DataClasses = [],
       gr_ApprovalDecisionVersion = 0\<rparr>, cu_RevokedTargets = [], cu_RevokedApprovals = []\<rparr>"

text \<open>A reader minted with clearance for restricted facts whose clearance has been reduced since.\<close>

theorem disclosure_follows_current_authority_witness:
  "\<exists>rs n. ReadEvidence (Inr scope2) (\<lambda>s. Inr current2) 9000000 reader2 ''run'' 10 store2 = (Inr rs, n) \<and>
     map (\<lambda>r. ev_EvidenceID (re_Evidence r)) rs = [''e1''] \<and> (\<forall>r \<in> set rs. ev_WorkspaceID (re_Evidence r) = ''w'')"
proof -
  let ?read = "ReadEvidence (Inr scope2) (\<lambda>s. Inr current2) 9000000 reader2 ''run'' 10 store2"
  have "case fst ?read of Inl e \<Rightarrow> False | Inr rs \<Rightarrow> map (\<lambda>r. ev_EvidenceID (re_Evidence r)) rs = [''e1'']" by code_simp
  then obtain rs where rs: "?read = (Inr rs, snd ?read)" "map (\<lambda>r. ev_EvidenceID (re_Evidence r)) rs = [''e1'']"
    by (cases "fst ?read") (auto simp: prod_eq_iff)
  from disclosure_follows_current_authority [OF store2_def rs(1)] have "\<forall>r \<in> set rs. ev_WorkspaceID (re_Evidence r) = ''w''"
    by (auto simp: scope2_def)
  then show ?thesis by (intro exI conjI) (rule rs)+
qed

end
