(* ===== verification/Run_Budget.thy ===== *)
theory Run_Budget
  imports Budget_Controller Runs
begin

text \<open>
  The money side of the executor (\<open>src/internal/execution/executor.go\<close>): reading the allowance pinned on a run,
  reserving it before the run executes, and settling it at every terminal boundary. The controller is reached through
  the executor's interface \<open>BudgetController\<close>, here the record \<open>BudgetPort\<close>; \<open>controller_port\<close> is the controller of
  \<open>Budget_Controller\<close> behind it. What \<open>encoding/json\<close> decodes a budget document to, and the canonical digest of a
  document, are arguments.
\<close>

section \<open>The pinned allowance\<close>

record budgetLimits =
  bl_MaximumModelCalls :: int
  bl_MaximumInputTokens :: int
  bl_MaximumOutputTokens :: int
  bl_MaximumTotalTokens :: int
  bl_MaximumCostMicros :: int
  bl_ExceedBehavior :: string

text \<open>The members of the decoded document that \<open>parseBudget\<close> reads.\<close>

record BudgetDocument =
  bd_Kind :: string
  bd_MaximumCalls :: int
  bd_InputTokens :: int
  bd_OutputTokens :: int
  bd_TotalTokens :: int
  bd_Amount :: string
  bd_ExceedBehavior :: string

text \<open>\<open>strconv.ParseInt(s, 10, 64)\<close>: an optional sign, digits, the range of an \<open>int64\<close>.\<close>

definition ParseInt :: "string \<Rightarrow> int option" where
  "ParseInt s =
     (case s of [] \<Rightarrow> None
      | c # cs \<Rightarrow>
          (let body = (if c = CHR ''+'' \<or> c = CHR ''-'' then cs else s)
           in if body = '''' \<or> \<not> list_all is_digit body then None
              else if c = CHR ''-''
              then (if num_value 0 body \<le> 9223372036854775808 then Some (- int (num_value 0 body)) else None)
              else (if num_value 0 body \<le> 9223372036854775807 then Some (int (num_value 0 body)) else None)))"

text \<open>\<open>strings.Cut\<close> at a one-byte separator: what is before it, and what is after it if it is there.\<close>

fun Cut :: "char \<Rightarrow> string \<Rightarrow> string \<times> string option" where
  "Cut sep [] = ([], None)"
| "Cut sep (c # s) = (if c = sep then ([], Some s) else (case Cut sep s of (before, after) \<Rightarrow> (c # before, after)))"

definition decimalMicros :: "string \<Rightarrow> err + int" where
  "decimalMicros amount =
     (if amount = '''' \<or> length amount > 20 then Inl (Plain ''amount is required and bounded'')
      else case Cut (CHR ''.'') amount of (whole, fraction) \<Rightarrow>
        (case ParseInt whole of
           None \<Rightarrow> Inl (Plain ''amount must be a non-negative decimal'')
         | Some units \<Rightarrow>
             (if units < 0 then Inl (Plain ''amount must be a non-negative decimal'')
              else let micros = wrap64 (units * 1000000) in
                case fraction of None \<Rightarrow> Inr micros
                | Some fraction \<Rightarrow>
                    (if fraction = '''' \<or> length fraction > 6 then Inl (Plain ''amount fraction must contain 1-6 digits'')
                     else case ParseInt (fraction @ replicate (6 - length fraction) (CHR ''0'')) of
                       None \<Rightarrow> Inl (Plain ''amount fraction must be numeric'')
                     | Some part \<Rightarrow>
                         (if part < 0 then Inl (Plain ''amount fraction must be numeric'')
                          else Inr (wrap64 (micros + part)))))))"

definition parseBudget :: "(json \<Rightarrow> err + BudgetDocument) \<Rightarrow> json \<Rightarrow> err + budgetLimits" where
  "parseBudget decode raw =
     (case decode raw of
        Inl e \<Rightarrow> Inl (Wrapped ''decode pinned agent budget'' e)
      | Inr d \<Rightarrow>
          (if bd_Kind d \<noteq> ''AgentBudget'' then Inl (Plain ''pinned budget kind must be AgentBudget'')
           else case decimalMicros (bd_Amount d) of
             Inl e \<Rightarrow> Inl (Wrapped ''decode pinned budget cost'' e)
           | Inr costMicros \<Rightarrow>
               (if bd_ExceedBehavior d \<noteq> ''refuse'' \<and> bd_ExceedBehavior d \<noteq> ''pause-for-approval'' \<and> bd_ExceedBehavior d \<noteq> ''cancel''
                then Inl (Plain ''pinned budget exceed behavior is outside the frozen vocabulary'')
                else if bd_InputTokens d < 1 \<or> bd_OutputTokens d < 1 \<or> bd_TotalTokens d < 1
                then Inl (Plain ''pinned budget token limits must be positive, aggregate limit included'')
                else Inr \<lparr>bl_MaximumModelCalls = bd_MaximumCalls d, bl_MaximumInputTokens = bd_InputTokens d,
                  bl_MaximumOutputTokens = bd_OutputTokens d, bl_MaximumTotalTokens = bd_TotalTokens d,
                  bl_MaximumCostMicros = costMicros, bl_ExceedBehavior = bd_ExceedBehavior d\<rparr>)))"

section \<open>The controller as the executor sees it\<close>

record 'w BudgetPort =
  bp_ReserveInitial :: "Estimate \<Rightarrow> Generation \<Rightarrow> ('w, err, Reservation) op"
  bp_ReserveReplacement :: "Estimate \<Rightarrow> Generation \<Rightarrow> string \<Rightarrow> ('w, err, Reservation) op"
  bp_Observe :: "Observation \<Rightarrow> ('w, err, unit) op"
  bp_Reservation :: "Budget_Ledger.Scope \<Rightarrow> string \<Rightarrow> ('w, err, Reservation) op"
  bp_Reconcile :: "Budget_Ledger.Scope \<Rightarrow> string \<Rightarrow> Generation \<Rightarrow> int option \<Rightarrow> bool \<Rightarrow> string \<Rightarrow> ('w, err, Reservation) op"
  bp_ReconcileSuperseded :: "Budget_Ledger.Scope \<Rightarrow> string \<Rightarrow> Generation \<Rightarrow> string \<Rightarrow> ('w, err, Reservation list) op"
  bp_RecoverSupersededFinality :: "Budget_Ledger.Scope \<Rightarrow> string \<Rightarrow> string \<Rightarrow> ('w, err, Reservation list) op"
  bp_FenceCancelledRun :: "Budget_Ledger.Scope \<Rightarrow> string \<Rightarrow> string \<Rightarrow> ('w, err, Reservation list) op"
  bp_ConcludeCancelledRun :: "Budget_Ledger.Scope \<Rightarrow> string \<Rightarrow> string \<Rightarrow> string \<Rightarrow> ('w, err, Reservation list) op"
  bp_RecoverCancelledFinality :: "Budget_Ledger.Scope \<Rightarrow> string \<Rightarrow> string \<Rightarrow> ('w, err, Reservation list) op"
  bp_OutstandingCancelledHolds :: "Budget_Ledger.Scope \<Rightarrow> string \<Rightarrow> ('w, err, bool) op"

definition controller_port :: "'s Controller \<Rightarrow> 's World BudgetPort" where
  "controller_port c =
     \<lparr>bp_ReserveInitial = ReserveInitial c, bp_ReserveReplacement = ReserveReplacement c,
      bp_Observe = Controller_Observe c, bp_Reservation = Controller_Reservation c, bp_Reconcile = Reconcile c,
      bp_ReconcileSuperseded = ReconcileSuperseded c, bp_RecoverSupersededFinality = RecoverSupersededFinality c,
      bp_FenceCancelledRun = FenceCancelledRun c, bp_ConcludeCancelledRun = ConcludeCancelledRun c,
      bp_RecoverCancelledFinality = RecoverCancelledFinality c, bp_OutstandingCancelledHolds = OutstandingCancelledHolds c\<rparr>"

section \<open>Reservation\<close>

definition budgetReservationID :: "string \<Rightarrow> uint64 \<Rightarrow> string" where
  "budgetReservationID runID generation = ''budget:'' @ runID @ '':g'' @ show_int (uint generation)"

definition budgetScopeOf :: "Snapshot \<Rightarrow> Budget_Ledger.Scope" where
  "budgetScopeOf sn = \<lparr>Budget_Ledger.Scope.WorkspaceID = sn_WorkspaceID sn, Budget_Ledger.Scope.ProjectID = tg_ProjectID (sn_Target sn)\<rparr>"

definition budget_denied :: "string \<Rightarrow> Details" where
  "budget_denied detail = (Problem.New CodeBudgetDenied '''')\<lparr>d_Detail := detail\<rparr>"

text \<open>\<open>var details problem.Details; if errors.As(err, &details) { return &details }\<close>, else the refusal of the caller.\<close>

definition refused :: "string \<Rightarrow> ('w, err, 'a) op \<Rightarrow> ('w, Details, unit) op" where
  "refused detail f w =
     (case f w of
        (Inl e, w) \<Rightarrow> (Inl (case as_Details e of Some d \<Rightarrow> d | None \<Rightarrow> budget_denied detail), w)
      | (Inr x, w) \<Rightarrow> (Inr (), w))"

definition run_estimate :: "Snapshot \<Rightarrow> string \<Rightarrow> string \<Rightarrow> budgetLimits \<Rightarrow> time \<Rightarrow> Estimate" where
  "run_estimate sn policyVersion budgetVersion limits expires =
     \<lparr>e_ReservationID = budgetReservationID (sn_RunID sn) (sn_ExecutionGeneration sn), e_RootRunID = sn_RootRunID sn,
      e_RunID = sn_RunID sn, e_WorkspaceID = sn_WorkspaceID sn, e_ProjectID = tg_ProjectID (sn_Target sn),
      e_PolicyVersion = policyVersion, e_BudgetVersion = budgetVersion, e_MaximumCostMicros = bl_MaximumCostMicros limits,
      e_ExpiresAt = expires\<rparr>"

definition reserve_run :: "'w BudgetPort \<Rightarrow> Snapshot \<Rightarrow> Estimate \<Rightarrow> ('w, Details, unit) op" where
  "reserve_run bp sn estimate =
     (let generation = sn_ExecutionGeneration sn;
          prior = budgetReservationID (sn_RunID sn) (generation - 1);
          made = refused ''the durable budget reservation could not be made''
      in if generation > 1
         then andThen (refused ''superseded budget reservations could not be reconciled''
                (bp_ReconcileSuperseded bp (budgetScopeOf sn) (sn_RootRunID sn) generation SettlementActor))
           (\<lambda>_ w. case bp_Reservation bp (budgetScopeOf sn) prior w of
              (Inr v, w) \<Rightarrow> made (bp_ReserveReplacement bp estimate generation prior) w
            | (Inl e, w) \<Rightarrow> made (bp_ReserveInitial bp estimate generation) w)
         else made (bp_ReserveInitial bp estimate generation))"

definition ensureRunReservation :: "(json \<Rightarrow> err + string) \<Rightarrow> ('w \<Rightarrow> time \<times> 'w) \<Rightarrow> time \<Rightarrow> 'w BudgetPort \<Rightarrow> Snapshot \<Rightarrow> budgetLimits
    \<Rightarrow> ('w, Details, unit) op" where
  "ensureRunReservation digest now ttl bp sn limits w =
     (case (digest (sn_Policy sn), digest (sn_Budget sn)) of
        (Inr policyVersion, Inr budgetVersion) \<Rightarrow>
          (case now w of (t, w) \<Rightarrow> reserve_run bp sn (run_estimate sn policyVersion budgetVersion limits (t + ttl)) w)
      | _ \<Rightarrow> (Inl (budget_denied ''pinned budget material is not digestible''), w))"

section \<open>Settlement\<close>

definition budgetSettlementRounds :: nat where
  "budgetSettlementRounds = 8"

definition final_observation :: "Snapshot \<Rightarrow> Observation" where
  "final_observation sn =
     \<lparr>o_ID = ''budget:final:'' @ sn_RunID sn @ '':g'' @ show_int (uint (sn_ExecutionGeneration sn)),
      o_Scope = budgetScopeOf sn, o_ReservationID = budgetReservationID (sn_RunID sn) (sn_ExecutionGeneration sn),
      o_RootRunID = sn_RootRunID sn, o_RunID = sn_RunID sn, o_TaskID = ''settlement'',
      o_AttemptID = ''settlement:'' @ budgetReservationID (sn_RunID sn) (sn_ExecutionGeneration sn),
      o_RecoveryEpoch = 0, o_ExecutionGeneration = sn_ExecutionGeneration sn, o_MeterSequence = 0, o_CostMicros = 0,
      o_Final = True\<rparr>"

definition recoverCancelledBudget :: "'w BudgetPort \<Rightarrow> Snapshot \<Rightarrow> ('w, err, unit) op" where
  "recoverCancelledBudget bp sn = andThen (map_err (Wrapped ''recover cancelled budget reservations'')
     (bp_RecoverCancelledFinality bp (budgetScopeOf sn) (sn_RootRunID sn) SettlementActor)) (\<lambda>_. returns ())"

definition recoverSupersededBudget :: "'w BudgetPort \<Rightarrow> Snapshot \<Rightarrow> ('w, err, unit) op" where
  "recoverSupersededBudget bp sn = andThen (map_err (Wrapped ''recover superseded budget reservations'')
     (bp_RecoverSupersededFinality bp (budgetScopeOf sn) (sn_RootRunID sn) SettlementActor)) (\<lambda>_. returns ())"

text \<open>The settlement loop; the first argument is the rounds that are left after this one.\<close>

fun settle_run :: "nat \<Rightarrow> 'w BudgetPort \<Rightarrow> Budget_Ledger.Scope \<Rightarrow> string \<Rightarrow> Generation \<Rightarrow> bool \<Rightarrow> Reservation \<Rightarrow> ('w, err, unit) op" where
  "settle_run 0 bp scope i generation release v w =
     (case bp_Reconcile bp scope i generation (Some (r_ObservedMicros v)) release SettlementActor w of
        (Inr settled, w) \<Rightarrow> (Inr (), w)
      | (Inl e, w) \<Rightarrow> (Inl (Wrapped ''settle run budget reservation'' e), w))"
| "settle_run (Suc rounds) bp scope i generation release v w =
     (case bp_Reconcile bp scope i generation (Some (r_ObservedMicros v)) release SettlementActor w of
        (Inr settled, w) \<Rightarrow> (Inr (), w)
      | (Inl e, w) \<Rightarrow>
          (if as_Conflict e = None then (Inl (Wrapped ''settle run budget reservation'' e), w)
           else case bp_Reservation bp scope i w of
             (Inl e, w) \<Rightarrow> (Inl (Wrapped ''re-read run budget reservation after settlement conflict'' e), w)
           | (Inr v, w) \<Rightarrow> (if r_Released v then (Inr (), w) else settle_run rounds bp scope i generation release v w)))"

definition settle_open :: "'w BudgetPort \<Rightarrow> Snapshot \<Rightarrow> bool \<Rightarrow> ('w, err, unit) op" where
  "settle_open bp sn release =
     (let scope = budgetScopeOf sn; i = budgetReservationID (sn_RunID sn) (sn_ExecutionGeneration sn) in
      andThen (map_err (Wrapped ''finalize run budget reservation'') (bp_Observe bp (final_observation sn))) (\<lambda>_.
      andThen (map_err (Wrapped ''re-read run budget reservation for settlement'') (bp_Reservation bp scope i)) (\<lambda>v.
      andThen (settle_run budgetSettlementRounds bp scope i (sn_ExecutionGeneration sn) release v) (\<lambda>_.
      andThen (recoverCancelledBudget bp sn) (\<lambda>_. recoverSupersededBudget bp sn)))))"

definition not_found :: "err \<Rightarrow> bool" where
  "not_found e \<longleftrightarrow> (case as_Details e of None \<Rightarrow> False | Some d \<Rightarrow> d_Code d = code_string CodeResourceNotFound)"

definition settleRunBudget :: "'w BudgetPort \<Rightarrow> Snapshot \<Rightarrow> bool \<Rightarrow> ('w, err, unit) op" where
  "settleRunBudget bp sn release w =
     (case bp_Reservation bp (budgetScopeOf sn) (budgetReservationID (sn_RunID sn) (sn_ExecutionGeneration sn)) w of
        (Inl e, w) \<Rightarrow>
          (if not_found e then (Inr (), w) else (Inl (Wrapped ''read run budget reservation for settlement'' e), w))
      | (Inr v, w) \<Rightarrow> (if r_Released v then recoverSupersededBudget bp sn w else settle_open bp sn release w))"

definition SettleRunBudget :: "'w BudgetPort \<Rightarrow> Snapshot \<Rightarrow> bool \<Rightarrow> ('w, err, unit) op" where
  "SettleRunBudget bp sn release = settleRunBudget bp sn release"

definition FenceRunBudget :: "'w BudgetPort \<Rightarrow> Snapshot \<Rightarrow> ('w, err, unit) op" where
  "FenceRunBudget bp sn w =
     (case bp_FenceCancelledRun bp (budgetScopeOf sn) (sn_RootRunID sn) (sn_RunID sn) w of
        (Inl e, w) \<Rightarrow> (if not_found e then (Inr (), w) else (Inl (Wrapped ''fence cancelled run budget'' e), w))
      | (Inr fenced, w) \<Rightarrow> (Inr (), w))"

definition SettleCancelledRunBudget :: "'w BudgetPort \<Rightarrow> Snapshot \<Rightarrow> ('w, err, unit) op" where
  "SettleCancelledRunBudget bp sn = andThen (map_err (Wrapped ''settle cancelled run budget'')
     (bp_ConcludeCancelledRun bp (budgetScopeOf sn) (sn_RootRunID sn) (sn_RunID sn) SettlementActor)) (\<lambda>_. returns ())"

definition OutstandingCancelledRunBudget :: "'w BudgetPort \<Rightarrow> Snapshot \<Rightarrow> ('w, err, bool) op" where
  "OutstandingCancelledRunBudget bp sn = map_err (Wrapped ''read outstanding cancelled budget holds'')
     (bp_OutstandingCancelledHolds bp (budgetScopeOf sn) (sn_RootRunID sn))"

section \<open>What an amount reads as\<close>

lemma Cut_none: "sep \<notin> set s \<Longrightarrow> Cut sep s = (s, None)"
  by (induction s) auto

lemma Cut_at: "sep \<notin> set s \<Longrightarrow> Cut sep (s @ sep # t) = (s, Some t)"
  by (induction s) auto

lemma digit_no_sign: "is_digit c \<Longrightarrow> c \<noteq> CHR ''+'' \<and> c \<noteq> CHR ''-'' \<and> c \<noteq> CHR ''.''"
  by (auto simp: is_digit_def less_eq_char_def)

lemma ParseInt_num:
  "is_num s \<Longrightarrow> ParseInt s = (if num_value 0 s \<le> 9223372036854775807 then Some (int (num_value 0 s)) else None)"
  using digit_no_sign by (cases s) (auto simp: ParseInt_def is_num_def Let_def)

lemma num_no_dot: "is_num s \<Longrightarrow> CHR ''.'' \<notin> set s"
  using digit_no_sign by (auto simp: is_num_def list_all_iff)

lemma num_value_shift: "num_value a (replicate k (CHR ''0'')) = a * 10 ^ k"
  by (induction k arbitrary: a) (simp_all add: algebra_simps)

lemma num_value_lt: "list_all is_digit s \<Longrightarrow> num_value a s < (a + 1) * 10 ^ length s"
proof (induction s arbitrary: a)
  case (Cons c s)
  have "of_char c - 48 < (10 :: nat)" using Cons.prems by (auto simp: is_digit_def less_eq_char_def)
  then have "(10 * a + (of_char c - 48) + 1) * 10 ^ length s \<le> (10 * a + 10) * 10 ^ length s"
    by (intro mult_right_mono) auto
  moreover have "num_value (10 * a + (of_char c - 48)) s < (10 * a + (of_char c - 48) + 1) * 10 ^ length s"
    using Cons by simp
  ultimately show ?case by (simp add: algebra_simps)
qed simp

text \<open>The fraction, padded to six digits.\<close>

lemma padded_fraction:
  assumes "is_num fraction" and "length fraction \<le> 6"
  shows "ParseInt (fraction @ replicate (6 - length fraction) (CHR ''0'')) =
    Some (int (num_value 0 fraction * 10 ^ (6 - length fraction)))"
proof -
  let ?p = "fraction @ replicate (6 - length fraction) (CHR ''0'')"
  have "is_num ?p" using assms(1) by (auto simp: is_num_def list_all_iff is_digit_def less_eq_char_def)
  moreover have "num_value 0 ?p = num_value 0 fraction * 10 ^ (6 - length fraction)"
    by (simp add: num_value_append num_value_shift)
  moreover have "num_value 0 ?p < 10 ^ 6"
    using num_value_lt [of ?p 0] \<open>is_num ?p\<close> assms(2) by (simp add: is_num_def)
  ultimately show ?thesis by (simp add: ParseInt_num)
qed

lemma wrap64_wrap64_add: "wrap64 (wrap64 a + b) = wrap64 (a + b)"
  unfolding wrap64_def by (simp add: mod_simps algebra_simps)

lemma decimalMicros_num:
  assumes "is_num whole" and "is_num fraction" and "length fraction \<le> 6" and "length whole + length fraction < 20"
    and "num_value 0 whole \<le> 9223372036854775807"
  shows "decimalMicros (whole @ ''.'' @ fraction) =
    Inr (wrap64 (int (num_value 0 whole) * 1000000 + int (num_value 0 fraction * 10 ^ (6 - length fraction))))"
proof -
  have f: "fraction \<noteq> ''''" using assms(2) by (simp add: is_num_def)
  have "Cut (CHR ''.'') (whole @ ''.'' @ fraction) = (whole, Some fraction)"
    using Cut_at [OF num_no_dot [OF assms(1)], of fraction] by simp
  moreover have "ParseInt whole = Some (int (num_value 0 whole))" using ParseInt_num [OF assms(1)] assms(5) by simp
  ultimately show ?thesis
    using assms(3,4) f padded_fraction [OF assms(2,3)] unfolding decimalMicros_def
    by (simp add: Let_def wrap64_wrap64_add not_less)
qed

lemma wrap64_fits: "wrap64 x = x \<longleftrightarrow> in_int64 x"
  using in_int64_wrap64 [of x] wrap64_id [of x] by metis

lemma large_amount: "decimalMicros ''18446744073710'' = Inr 448384"
  by (simp add: decimalMicros_def ParseInt_def is_digit_def less_eq_char_def wrap64_def Let_def)

lemma negative_amount: "decimalMicros ''-0.5'' = Inr 500000"
proof -
  have "replicate 5 (CHR ''0'') = ''00000''" by (simp add: numeral_eq_Suc)
  then have "ParseInt ''500000'' = Some 500000" "ParseInt ''-0'' = Some 0" "(5 :: nat) = 6 - 1"
    by (simp_all add: ParseInt_def is_digit_def less_eq_char_def)
  then show ?thesis
    using \<open>replicate 5 (CHR ''0'') = ''00000''\<close> by (simp add: decimalMicros_def wrap64_def)
qed



section \<open>What a settlement leaves behind\<close>

text \<open>A settled hold: its attempt is final and it charges the usage the attempt reported, no more.\<close>

definition accounted :: "'s Controller \<Rightarrow> Generation \<Rightarrow> bool \<Rightarrow> Reservation \<Rightarrow> bool" where
  "accounted c g release v \<longleftrightarrow> r_AttemptFinal v \<and> r_ObservedMicros v = r_UpperBoundMicros v \<and>
     (release \<longrightarrow> r_Released v \<or> (\<exists>cur > g. current c (Reservation_Scope v) (r_RootRunID v) = Inr cur))"

lemma res_le_accounted: "accounted c g release v \<Longrightarrow> res_le v v' \<Longrightarrow> res_wf v' \<Longrightarrow> accounted c g release v'"
  by (auto simp: accounted_def res_le_def res_wf_def Reservation_Scope_def)

lemma il_hold_wf: "il_good M s \<Longrightarrow> il_hold s scope rid = Some v \<Longrightarrow> res_wf v"
  using ledger_invD(4) [OF mem_goodD(1)] by (auto simp: il_good_def il_hold_def mem_hold_def)

lemma released_accounted: "res_wf v \<Longrightarrow> r_Released v \<Longrightarrow> accounted c g release v"
  by (simp add: accounted_def res_wf_def)

text \<open>The states a settlement passes through: the hold of the run is there, and evolved from what it was.\<close>

definition on_hold :: "int \<Rightarrow> Budget_Ledger.Scope \<Rightarrow> string \<Rightarrow> Interleaved World \<Rightarrow> bool" where
  "on_hold M scope rid w \<longleftrightarrow> il_good M (w_ledger w) \<and> (\<exists>v. il_hold (w_ledger w) scope rid = Some v \<and> Reservation.r_ID v = rid)"

lemma on_holdI:
  assumes "on_hold M scope rid w" and "il_good M (w_ledger w')" and "evolves il_hold (w_ledger w) (w_ledger w')"
  shows "on_hold M scope rid w'"
proof -
  obtain v where v: "il_hold (w_ledger w) scope rid = Some v" "Reservation.r_ID v = rid" using assms(1) by (auto simp: on_hold_def)
  then obtain v' where "il_hold (w_ledger w') scope rid = Some v'" "res_le v v'" using assms(3) unfolding evolves_def by blast
  with v assms(2) show ?thesis by (auto simp: on_hold_def res_le_def)
qed

lemma on_hold_kept: "kept (il_good M) il_hold f \<Longrightarrow> on_hold M scope rid w \<Longrightarrow> f w = (r, w') \<Longrightarrow> on_hold M scope rid w'"
  using keptD [of "il_good M" il_hold f w r w'] on_holdI [of M scope rid w w'] by (auto simp: on_hold_def)

lemma read_hold:
  assumes "on_hold M scope rid w" and "call (L_Reservation interleaved_ops scope rid) w = (Inr v, w')"
  shows "on_hold M scope rid w'" and "il_hold (w_ledger w') scope rid = Some v" and "Reservation.r_ID v = rid" and "res_wf v"
proof -
  show o: "on_hold M scope rid w'" by (rule on_hold_kept [OF il.kept_calls(6) assms])
  have "L_Reservation interleaved_ops scope rid (w_ledger w) = (Inr v, w_ledger w')"
    using assms(2) by (auto simp: call_def split: prod.splits)
  then show h: "il_hold (w_ledger w') scope rid = Some v"
    using il.read_law [of M "w_ledger w" scope rid] assms(1) by (auto simp: on_hold_def)
  show "Reservation.r_ID v = rid" using o h by (auto simp: on_hold_def)
  show "res_wf v" using o h il_hold_wf by (auto simp: on_hold_def)
qed

text \<open>A settlement that succeeds answers the hold of the ledger it leaves.\<close>

lemma settle_rounds_hold:
  assumes "c_ledger c = interleaved_ops" and "on_hold M scope (Reservation.r_ID v) w"
    and "settle_rounds n c scope v release actor w = (Inr u, w')"
  shows "on_hold M scope (Reservation.r_ID v) w' \<and> il_hold (w_ledger w') scope (Reservation.r_ID v) = Some u \<and> r_AttemptFinal u \<and>
    r_ObservedMicros u = r_UpperBoundMicros u \<and> r_Released u = release"
  using assms(2,3)
proof (induction n arbitrary: v w)
  case (Suc n)
  obtain rs ws where s: "call (L_Settle interleaved_ops (observed_settlement scope v release actor)) w = (rs, ws)"
    by (cases "call (L_Settle interleaved_ops (observed_settlement scope v release actor)) w")
  have ws: "on_hold M scope (Reservation.r_ID v) ws" by (rule on_hold_kept [OF il.kept_calls(3) Suc.prems(1) s])
  show ?case
  proof (cases rs)
    case (Inr x)
    then have u: "u = x" "w' = ws" using Suc.prems(2) by (simp_all add: assms(1) s)
    have "L_Settle interleaved_ops (observed_settlement scope v release actor) (w_ledger w) = (Inr x, w_ledger ws)"
      using s Inr by (auto simp: call_def split: prod.splits)
    from il.settle_law [OF _ this, of M] Suc.prems(1) show ?thesis
      using u ws by (simp add: observed_settlement_def on_hold_def)
  next
    case (Inl e)
    then obtain v1 w1 where r: "call (L_Reservation interleaved_ops scope (Reservation.r_ID v)) ws = (Inr v1, w1)"
      and run: "settle_rounds n c scope v1 release actor w1 = (Inr u, w')"
      using Suc.prems(2) by (auto simp: assms(1) s split: if_splits prod.splits sum.splits)
    from read_hold [OF ws r] Suc.IH [OF _ run] show ?thesis by simp
  qed
qed simp

lemma settle_call_hold:
  assumes "on_hold M (s_Scope st) (s_ReservationID st) w" and "call (L_Settle interleaved_ops st) w = (Inr u, w')"
  shows "on_hold M (s_Scope st) (s_ReservationID st) w' \<and> il_hold (w_ledger w') (s_Scope st) (s_ReservationID st) = Some u \<and>
    r_AttemptFinal u \<and> r_ObservedMicros u = r_UpperBoundMicros u \<and> r_Released u = s_Release st"
proof -
  have "L_Settle interleaved_ops st (w_ledger w) = (Inr u, w_ledger w')"
    using assms(2) by (auto simp: call_def split: prod.splits)
  from il.settle_law [OF _ this, of M] on_hold_kept [OF il.kept_calls(3) assms] assms(1) show ?thesis
    by (auto simp: on_hold_def)
qed

text \<open>The states the rest of a settlement keeps: the hold is settled.\<close>

definition on_settled :: "int \<Rightarrow> Interleaved Controller \<Rightarrow> Generation \<Rightarrow> bool \<Rightarrow> Budget_Ledger.Scope \<Rightarrow> string \<Rightarrow> Interleaved World \<Rightarrow> bool" where
  "on_settled M c g release scope rid w \<longleftrightarrow> il_good M (w_ledger w) \<and>
     (\<exists>v. il_hold (w_ledger w) scope rid = Some v \<and> Reservation.r_ID v = rid \<and> accounted c g release v)"

lemma on_settled_kept:
  assumes "kept (il_good M) il_hold f" and "on_settled M c g release scope rid w" and "f w = (r, w')"
  shows "on_settled M c g release scope rid w'"
proof -
  obtain v where v: "il_hold (w_ledger w) scope rid = Some v" "Reservation.r_ID v = rid" "accounted c g release v" and good: "il_good M (w_ledger w)"
    using assms(2) by (auto simp: on_settled_def)
  note k = keptD [OF assms(1) good assms(3)]
  then obtain v' where v': "il_hold (w_ledger w') scope rid = Some v'" "res_le v v'" using v(1) unfolding evolves_def by blast
  moreover have "accounted c g release v'"
    by (rule res_le_accounted [OF v(3) v'(2)]) (use k v'(1) il_hold_wf in blast)
  moreover have "Reservation.r_ID v' = rid" using v(2) v'(2) by (simp add: res_le_def)
  ultimately show ?thesis using k by (simp add: on_settled_def)
qed

lemma Reconcile_settles:
  assumes "c_ledger c = interleaved_ops" and "on_hold M scope rid w"
    and "Reconcile c scope rid g (Some cost) release SettlementActor w = (Inr x, w')"
  shows "on_settled M c g release scope rid w'"
proof -
  obtain v w1 where read: "call (L_Reservation interleaved_ops scope rid) w = (Inr v, w1)"
    using assms(1,3) by (auto simp: Reconcile_def split: if_splits prod.splits sum.splits)
  note v = read_hold [OF assms(2) read]
  obtain cur where cur: "current c (Reservation_Scope v) (r_RootRunID v) = Inr cur" and
    guards: "r_Generation v = g" "g \<le> cur" "r_AttemptFinal v"
    using assms(1,3) by (auto simp: Reconcile_def read split: if_splits sum.splits)
  have report: "on_settled M c g release scope rid w'"
    if "on_settled M c g release scope rid w2" "reporting c scope (r_RootRunID v) y w2 = (Inr x, w')" for w2 and y :: Reservation
    by (rule on_settled_kept [OF il.kept_reporting(1) [OF assms(1)] that])
  show ?thesis
  proof (cases "g < cur")
    case True
    then obtain y b w2 where s: "settleSuperseded c scope v SettlementActor w1 = (Inr (y, b), w2)"
      and rep: "reporting c scope (r_RootRunID v) y w2 = (Inr x, w')"
      using assms(1,3) guards by (auto simp: Reconcile_def read cur split: if_splits elim!: andThenE)
    have late: "\<exists>cur > g. current c (Reservation_Scope u) (r_RootRunID u) = Inr cur" if "res_le v u" for u
      using that True cur by (auto simp: res_le_def Reservation_Scope_def)
    consider "w2 = w1" "r_Released v \<or> r_UpperBoundMicros v = r_ObservedMicros v"
      | "settle_rounds settlementConflictRounds c scope v False SettlementActor w1 = (Inr y, w2)"
      using s guards(3) by (auto simp: settleSuperseded_def settleObserved_def split: if_splits prod.splits sum.splits)
    then have "on_settled M c g release scope rid w2"
    proof cases
      case 1
      then have "accounted c g release v" using v(4) guards(3) late [of v] by (auto simp: accounted_def res_wf_def)
      then show ?thesis using 1 v by (auto simp: on_settled_def on_hold_def)
    next
      case 2
      note k = settle_rounds_hold [OF assms(1) v(1) [folded v(3)] 2]
      have "evolves il_hold (w_ledger w1) (w_ledger w2)"
        using keptD [OF il.kept_settle_rounds [OF assms(1)] _ 2] v(1) by (auto simp: on_hold_def)
      then have "res_le v y" using v(2,3) k unfolding evolves_def by fastforce
      then show ?thesis using k v(3) late [of y] by (auto simp: on_settled_def on_hold_def accounted_def res_le_def)
    qed
    then show ?thesis using rep by (rule report)
  next
    case False
    then have "g = cur" using guards by simp
    then obtain st y w2 where s: "call (L_Settle interleaved_ops st) w1 = (Inr y, w2)" and st: "s_Scope st = scope"
        "s_ReservationID st = rid" "s_Release st = release" and rep: "reporting c scope (r_RootRunID v) y w2 = (Inr x, w')"
      using assms(1,3) guards by (auto simp: Reconcile_def read cur Let_def split: if_splits elim!: andThenE)
    note k = settle_call_hold [of M st, unfolded st, OF v(1) s]
    then have "on_settled M c g release scope rid w2" by (auto simp: on_settled_def on_hold_def accounted_def)
    then show ?thesis using rep by (rule report)
  qed
qed

context ledger_contract
begin

lemma kept_Reconcile:
  assumes "c_ledger c = L"
  shows "keeps_ledger (Reconcile c scope rid g cost release actor)"
proof (rule keptI)
  fix w w' :: "'s World" and r
  assume w: "good (w_ledger w)" and run: "Reconcile c scope rid g cost release actor w = (r, w')"
  obtain rr w1 where read: "call (L_Reservation L scope rid) w = (rr, w1)" by (cases "call (L_Reservation L scope rid) w")
  note 1 = keptD [OF kept_calls(6) w read]
  have sup: "keeps_ledger (andThen (settleSuperseded c scope v actor) (\<lambda>(settled, changed). reporting c scope root settled))" for v root
    by (intro kept_andThen kept_settleSuperseded [OF assms]) (auto intro: kept_reporting [OF assms])
  have settle: "keeps_ledger (andThen (call (L_Settle L st)) (reporting c scope root))" for st root
    by (intro kept_andThen kept_calls kept_reporting [OF assms])
  have "w' = w \<or> w' = w1 \<or> (\<exists>f. keeps_ledger f \<and> f w1 = (r, w'))"
    using run sup settle by (auto simp: Reconcile_def assms read Let_def split: if_splits sum.splits option.splits)
  then show "good (w_ledger w') \<and> evolves hold (w_ledger w) (w_ledger w')"
    using 1 w by (auto dest: keptD intro: evolves_trans)
qed

end

lemma controller_read:
  assumes "c_ledger c = interleaved_ops" and "Controller_Reservation c scope rid w = (Inr v, w')"
  shows "call (L_Reservation interleaved_ops scope rid) w = (Inr v, w')"
  using assms by (auto simp: Controller_Reservation_def fails_def split: if_splits)

lemma settle_run_settles:
  assumes "c_ledger c = interleaved_ops" and "on_hold M scope rid w"
    and "settle_run n (controller_port c) scope rid g release v w = (Inr (), w')"
  shows "on_settled M c g release scope rid w'"
  using assms(2,3)
proof (induction n arbitrary: v w)
  case 0
  then obtain x where "Reconcile c scope rid g (Some (r_ObservedMicros v)) release SettlementActor w = (Inr x, w')"
    by (auto simp: controller_port_def split: prod.splits sum.splits)
  then show ?case by (rule Reconcile_settles [OF assms(1) 0(1)])
next
  case (Suc n)
  obtain rr w1 where rec: "Reconcile c scope rid g (Some (r_ObservedMicros v)) release SettlementActor w = (rr, w1)"
    by (cases "Reconcile c scope rid g (Some (r_ObservedMicros v)) release SettlementActor w")
  show ?case
  proof (cases rr)
    case (Inr x)
    then show ?thesis using Suc.prems(2) Reconcile_settles [OF assms(1) Suc.prems(1)] rec by (simp add: controller_port_def)
  next
    case (Inl e)
    have w1: "on_hold M scope rid w1" by (rule on_hold_kept [OF il.kept_Reconcile [OF assms(1)] Suc.prems(1) rec])
    obtain u w2 where read: "Controller_Reservation c scope rid w1 = (Inr u, w2)"
      and rest: "if r_Released u then w' = w2 else settle_run n (controller_port c) scope rid g release u w2 = (Inr (), w')"
      using Suc.prems(2) Inl by (auto simp: controller_port_def rec split: if_splits prod.splits sum.splits)
    note u = read_hold [OF w1 controller_read [OF assms(1) read]]
    show ?thesis
    proof (cases "r_Released u")
      case True
      then show ?thesis using rest u released_accounted by (auto simp: on_settled_def on_hold_def)
    next
      case False
      then show ?thesis using rest Suc.IH [OF u(1)] by simp
    qed
  qed
qed

lemma kept_map_err: "kept good hold f \<Longrightarrow> kept good hold (map_err h f)"
  by (rule keptI) (auto simp: map_err_def split: prod.splits sum.splits dest: keptD)

lemma map_err_Inr: "map_err h f w = (Inr x, w') \<longleftrightarrow> f w = (Inr x, w')"
  by (auto simp: map_err_def split: prod.splits sum.splits)

lemma kept_recoveries:
  assumes "c_ledger c = interleaved_ops"
  shows "kept (il_good M) il_hold (recoverCancelledBudget (controller_port c) sn)"
    and "kept (il_good M) il_hold (recoverSupersededBudget (controller_port c) sn)"
  unfolding recoverCancelledBudget_def recoverSupersededBudget_def controller_port_def
  by (simp_all add: kept_andThen kept_map_err il.kept_sweeps(3) [OF assms] il.kept_settlements(2) [OF assms])

lemma settle_open_settles:
  assumes "c_ledger c = interleaved_ops" and "on_hold M (budgetScopeOf sn) (budgetReservationID (sn_RunID sn) (sn_ExecutionGeneration sn)) w"
    and "settle_open (controller_port c) sn release w = (Inr (), w')"
  shows "on_settled M c (sn_ExecutionGeneration sn) release (budgetScopeOf sn)
    (budgetReservationID (sn_RunID sn) (sn_ExecutionGeneration sn)) w'"
proof -
  let ?i = "budgetReservationID (sn_RunID sn) (sn_ExecutionGeneration sn)" and ?s = "budgetScopeOf sn"
  obtain w1 v w2 w3 w4 where 1: "Controller_Observe c (final_observation sn) w = (Inr (), w1)"
    and 2: "Controller_Reservation c ?s ?i w1 = (Inr v, w2)"
    and 3: "settle_run budgetSettlementRounds (controller_port c) ?s ?i (sn_ExecutionGeneration sn) release v w2 = (Inr (), w3)"
    and 4: "recoverCancelledBudget (controller_port c) sn w3 = (Inr (), w4)"
    and 5: "recoverSupersededBudget (controller_port c) sn w4 = (Inr (), w')"
    using assms(3) unfolding settle_open_def Let_def
    by (auto simp: map_err_Inr controller_port_def elim!: andThenE)
  have "on_hold M ?s ?i w1"
    by (rule on_hold_kept [OF il.kept_settlements(5) assms(2) 1]) (simp_all add: assms(1) final_observation_def)
  from read_hold(1) [OF this controller_read [OF assms(1) 2]]
  have "on_settled M c (sn_ExecutionGeneration sn) release ?s ?i w3" by (rule settle_run_settles [OF assms(1) _ 3])
  then show ?thesis using on_settled_kept [OF kept_recoveries(1) [OF assms(1)] _ 4] on_settled_kept [OF kept_recoveries(2) [OF assms(1)] _ 5] by blast
qed

text \<open>A hold that is there is not missed.\<close>

lemma missing_hold:
  assumes "c_ledger c = interleaved_ops" and "on_hold M scope rid w" and "Controller_Reservation c scope rid w = (Inl e, w')"
  shows "\<not> not_found e"
proof (cases "Scope_Valid scope")
  case True
  obtain v where v: "il_hold (w_ledger w) scope rid = Some v" and good: "il_good M (w_ledger w)"
    using assms(2) by (auto simp: on_hold_def)
  have "interleave (mem_Reservation scope rid) (w_ledger w) = (Inl e, w_ledger w')"
    using assms(1,3) True by (auto simp: Controller_Reservation_def call_def interleaved_ops_def split: prod.splits)
  from interleaveD [OF good this] obtain l where "evolves mem_hold (il_ledger (w_ledger w)) l" and
    l: "mem_Reservation scope rid l = (Inl e, il_ledger (w_ledger w'))" by metis
  then obtain v' where "mem_hold l scope rid = Some v'" using v unfolding evolves_def il_hold_def by blast
  then show ?thesis using l True by (simp add: mem_Reservation_def mem_hold_def)
next
  case False
  then show ?thesis using assms(3) by (auto simp: Controller_Reservation_def fails_def not_found_def budgetProblem_def Problem.New_def)
qed


definition run2 :: Snapshot where
  "run2 = \<lparr>sn_Kind = ''AgentRun'', sn_RunID = ''r'', sn_RootRunID = ''root'', sn_ParentRunID = None, sn_WorkspaceID = ''w'',
     sn_ActorID = ''a'', sn_Domain = ''d'', sn_Operation = ''page-change'',
     sn_Target = \<lparr>tg_Type = ''page'', tg_ID = ''t'', tg_WorkspaceID = ''w'', tg_ProjectID = ''p''\<rparr>, sn_Definition = ''D'',
     sn_ContractBOM = ''B'', sn_Policy = ''P'', sn_Budget = ''L'',
     sn_Idempotency = \<lparr>ip_Scope = '''', ip_Key = '''', ip_CanonicalRequestDigest = ''''\<rparr>, sn_Status = Completed,
     sn_RuntimeBinding = '''', sn_Version = 1, sn_ExecutionGeneration = 1, sn_Problem = None, sn_LatestEventID = '''',
     sn_CreatedAt = 1, sn_UpdatedAt = 1\<rparr>"

lemma run2_simps [simp]: "sn_RunID run2 = ''r''" "sn_RootRunID run2 = ''root''" "sn_ExecutionGeneration run2 = 1"
  by (simp_all add: run2_def)

definition limits2 :: budgetLimits where
  "limits2 = \<lparr>bl_MaximumModelCalls = 1, bl_MaximumInputTokens = 1, bl_MaximumOutputTokens = 1, bl_MaximumTotalTokens = 1,
     bl_MaximumCostMicros = 60, bl_ExceedBehavior = ''refuse''\<rparr>"

abbreviation estimate2 :: Estimate where
  "estimate2 \<equiv> run_estimate run2 ''v'' ''b'' limits2 100"

definition ledger2 :: MemoryLedger where
  "ledger2 = snd (mem_Reserve estimate2 1 100 (NewMemoryLedger 5))"

lemma budgetScope2: "budgetScopeOf run2 = scope1"
  by (simp add: budgetScopeOf_def run2_def scope1_def)

lemma estimate2_scope: "Estimate_Scope estimate2 = scope1"
  by (simp add: Estimate_Scope_def run_estimate_def run2_def scope1_def)

lemma ledger2_eq: "ledger2 = \<lparr>ml_now = 5, ml_values = [(scopedKey scope1 (budgetReservationID ''r'' 1), new_reservation estimate2 1)],
    ml_observations = []\<rparr>"
  using estimate2_scope
  by (simp add: ledger2_def mem_Reserve_def Let_def fenceExpiredLocked_def NewMemoryLedger_def wrap64_def run_estimate_def
      run2_def limits2_def budgetReservationID_def)

lemma ledger2_good: "mem_good 100 ledger2"
proof -
  have "ledger_steps 100 (NewMemoryLedger 5) ledger2"
    unfolding ledger2_def
    by (rule ledger_steps.more [OF ledger_steps.none], rule ledger_step.reserve)
      (simp_all add: maxMicros_def run_estimate_def limits2_def)
  from ledger_steps_inv [OF this] show ?thesis by (simp add: mem_good_def maxMicros_def NewMemoryLedger_inv)
qed

definition hold2 :: Reservation where
  "hold2 = new_reservation estimate2 1"

lemma reservation_named [simp]: "budgetReservationID r g \<noteq> []"
  by (simp add: budgetReservationID_def)

abbreviation at2 :: "Reservation \<Rightarrow> Observation gomap \<Rightarrow> Exposure list \<Rightarrow> Interleaved World" where
  "at2 v obs exposed \<equiv> \<lparr>w_ledger = \<lparr>il_ledger = \<lparr>ml_now = 5, ml_values = [(scopedKey scope1 (budgetReservationID ''r'' 1), v)],
     ml_observations = obs\<rparr>, il_pending = []\<rparr>, w_exposed = exposed\<rparr>"

lemma hold2_simps [simp]:
  "Reservation.r_ID hold2 = budgetReservationID ''r'' 1" "r_RootRunID hold2 = ''root''" "Reservation_Scope hold2 = scope1"
  "r_UpperBoundMicros hold2 = 60" "r_ObservedMicros hold2 = 0" "r_Generation hold2 = 1" "\<not> r_AttemptFinal hold2"
  "\<not> r_Released hold2" "\<not> r_Cancelled hold2"
  by (simp_all add: hold2_def new_reservation_def run_estimate_def run2_def limits2_def Reservation_Scope_def scope1_def)

lemma port2:
  "bp_Reservation (controller_port (controller1 interleaved_ops)) scope1 (budgetReservationID ''r'' 1) (at2 v obs x) = (Inr v, at2 v obs x)"
  "bp_Observe (controller_port (controller1 interleaved_ops)) (final_observation run2) (at2 hold2 [] x) =
     (Inr (), at2 (hold2\<lparr>r_AttemptFinal := True\<rparr>) [(observationKey scope1 (o_ID (final_observation run2)), final_observation run2)] x)"
  by (simp_all add: controller_port_def Controller_Reservation_def Controller_Observe_def controller1_def call_def
      interleaved_ops_def interleave_def mem_Reservation_def mem_Observe_def final_observation_def budgetScope2 wrap64_def Let_def)
abbreviation final2 :: Reservation where
  "final2 \<equiv> hold2\<lparr>r_AttemptFinal := True\<rparr>"

abbreviation released2 :: Reservation where
  "released2 \<equiv> hold2\<lparr>r_AttemptFinal := True, r_ObservedMicros := 0, r_UpperBoundMicros := 0, r_Released := True\<rparr>"

lemma scope2 [simp]: "Reservation_Scope (v\<lparr>r_AttemptFinal := f\<rparr>) = Reservation_Scope v"
  "Reservation_Scope (v\<lparr>r_UpperBoundMicros := b\<rparr>) = Reservation_Scope v" "Reservation_Scope (v\<lparr>r_ObservedMicros := b\<rparr>) = Reservation_Scope v"
  "Reservation_Scope (v\<lparr>r_Released := f\<rparr>) = Reservation_Scope v"
  by (simp_all add: Reservation_Scope_def)

lemma reconcile2:
  "\<exists>y. bp_Reconcile (controller_port (controller1 interleaved_ops)) scope1 (budgetReservationID ''r'' 1) 1 (Some 0) True SettlementActor (at2 final2 obs x) =
     (Inr released2, at2 released2 obs y)"
  by (simp add: controller_port_def Reconcile_def controller1_def call_def current_def
      interleaved_ops_def interleave_def mem_Reservation_def mem_Settle_def Let_def andThen_def reporting_def reportExposure_def mem_RootReservations_def)

lemma recover2:
  "recoverCancelledBudget (controller_port (controller1 interleaved_ops)) run2 (at2 released2 obs y) = (Inr (), at2 released2 obs y)"
  "recoverSupersededBudget (controller_port (controller1 interleaved_ops)) run2 (at2 released2 obs y) = (Inr (), at2 released2 obs y)"
  by (simp_all add: recoverCancelledBudget_def recoverSupersededBudget_def controller_port_def RecoverCancelledFinality_def
      RecoverSupersededFinality_def sweepSuperseded_def controller1_def call_def current_def budgetScope2 andThen_def map_err_def
      interleaved_ops_def interleave_def mem_RootReservations_def Let_def returns_def report_some_def recover_visit_def superseded_visit_def)


end
