(* ===== verification/Spec2Isabelle.thy ===== *)
theory Spec2Isabelle
  imports Admission Budget_Controller Scheduler Dispatch Queue Interrupts Workflow_Memory Domain_Commit Domain_Owner Evidence Run_Budget
begin

text \<open>
  The agent service: what runs, tasks, deliveries, human decisions and money do.

  \<^bold>\<open>The program.\<close> The service admits agent runs, moves each through a state machine
  (\<open>src/internal/runs\<close>), plans its work into logical tasks, dispatches every task as a sequence of
  physical attempts to untrusted workers (\<open>src/internal/dispatch\<close>, \<open>src/internal/scheduler\<close>), reads their
  results from an at-least-once queue (\<open>src/internal/queue\<close>), asks people for input and approval
  (\<open>src/internal/interrupts\<close>), and holds and settles the money each attempt may cost
  (\<open>src/internal/budget\<close>). Every refusal is a value of the problem registry (\<open>src/internal/problem\<close>).
  Each component is written against interfaces and ships an in-memory implementation, which is the
  executable statement of the contract the PostgreSQL one has to meet; the development models the
  interfaces, the code above them and the in-memory implementations.

  \<^bold>\<open>The theories.\<close>

  \<^item> \<open>Prelude\<close>: Go values. Strings as byte lists, \<open>int64\<close> as bounded integers with \<open>wrap64\<close> written out,
    \<open>uint64\<close> as \<open>64 word\<close>, maps as association lists in the unspecified order of \<open>range\<close>, decimal
    rendering, NUL-joined composite keys and when they are injective.
  \<^item> \<open>Problem\<close> (\<open>problem.go\<close>, \<open>classifier.go\<close>): the code registry, \<open>Details\<close> with its closed wire
    contract, trace identities, the classification of failures, and \<open>err\<close>, the error values of all
    other theories. Lemmas: the registry maps codes to their own definitions, encoding and decoding
    agree, classification and registry agree on what is retried.
  \<^item> \<open>Budget_Ledger\<close> (\<open>budget.go\<close>, the \<open>MemoryLedger\<close> and \<open>MemoryGenerations\<close>): reservations, observations,
    settlements, expiry and cancellation fences. Lemmas: \<open>ledger_inv\<close> and its preservation, the evolution
    order on holds, deduplication of usage, the headroom of a root.
  \<^item> \<open>Budget_Controller\<close> (\<open>budget.go\<close>, \<open>Controller\<close>): the methods over any record of ledger operations. The
    locale \<open>ledger_contract\<close> states what they need of a ledger, and is interpreted on the memory ledger
    and on the memory ledger interleaved with other goroutines. Lemmas: no dispatch on a dead hold, the
    settlement loop (\<open>settlementConflictRounds\<close> = 8 rounds) converges when fewer than eight late
    observations arrive, the recovery sweeps, the exact review threshold.
  \<^item> \<open>Admission\<close> (\<open>admission.go\<close>): the manager that starts runs within limits and queues the rest, retry budgets
    and circuits. Lemmas: counters are tallies of the records (\<open>adm_inv\<close>), what one scan of the round robin
    finds, draining; and a run of requests that overtakes a waiting one.
  \<^item> \<open>Scheduler\<close> (\<open>scheduler.go\<close>): leases, fence tokens, atomic acceptance over promotion, advancement and
    release ports with rollback, dead letters and their replay.
  \<^item> \<open>Dispatch\<close> (\<open>dispatch.go\<close>, \<open>memory.go\<close>, \<open>coordinator.go\<close>): the commit predicate, the repository and the
    coordinator. Lemmas: one open attempt at a time, registrations are forever, rejected results change
    nothing but evidence.
  \<^item> \<open>Queue\<close> (\<open>queue.go\<close>): the processor over broker, inbox and effect, the memory implementation, and
    \<open>flight_step\<close>, the interleaving of deliveries that may die between any two calls. The locales
    \<open>delivery\<close> and \<open>live_delivery\<close> state what the processor needs of its three ports and are interpreted
    on the memory implementation; \<open>calls_refine_steps\<close> shows that the calls refine the step relation.
  \<^item> \<open>Runs\<close> (\<open>runs.go\<close>, the records and identity checks of \<open>service.go\<close>): the state table, the guards and
    \<open>Apply\<close>. Lemmas: histories carry the proofs the guards ask for, no state is stuck.
  \<^item> \<open>Interrupts\<close> (\<open>interrupts.go\<close>, \<open>memory.go\<close>): the whole memory repository of input and approval requests,
    cancellation, retry, discard, children and progress. Lemmas: \<open>good_change\<close> of every method
    (invariant and growth order at once), the types of replay records, the descendants walk.

  \<^item> \<open>Workflow\<close> (\<open>workflow.go\<close>, the decision records of \<open>agent/decision.go\<close>): the durable workflow of one run as a
    program, a tree of calls to its host (\<open>Step\<close>, \<open>AwaitSignal\<close>) over any record of pipeline operations. Lemmas:
    \<open>wp\<close>, what holds on every path whatever the host answers; the order of step names; the number of
    calls; what a stopped or cancelled execution answers.
  \<^item> \<open>Workflow_Memory\<close> (\<open>memory/runtime.go\<close>): the in-memory engine that records the calls, replays them and waits
    for signals, on a machine with a clock, arrivals, and a process that may stop. Lemmas: \<open>run_resume\<close>, what
    a stopped process left is a beginning of what an uninterrupted one makes.

  \<^item> \<open>Journal\<close> (\<open>journal.go\<close>): facts that are acknowledged once they are retained, and the reconstruction from them.
    Lemmas: the retained facts are the acknowledged ones in their order (\<open>history_retained\<close>).
  \<^item> \<open>Apply_Auth\<close> (\<open>applyauth.go\<close>, the commit authority of \<open>execution/applyauthority.go\<close>): signed capabilities for one
    governed effect, their issuer, verifier and key ring, and the commit authority over an issuance store. Base64 is
    written out, the other codecs and the signature scheme are a record of functions. The locale \<open>issuance\<close> states what
    the commit authority needs of store and issuer; it is interpreted on the issuer over the in-memory store, with
    calls that get lost before or after their effect. Lemmas: \<open>effect_Issue\<close>, what one issuance may leave behind.

  \<^item> \<open>Domain_Commit\<close> (\<open>domaincommit/commit.go\<close>, \<open>MemoryStore\<close>): the journal of governed effects. Lemmas: \<open>moved\<close>, what one
    method may change; \<open>store_inv\<close>, at most one undecided operation of a run.
  \<^item> \<open>Domain_Owner\<close> (\<open>execution/domainowner.go\<close>): the owner that verifies a capability and redeems it once. The locale
    \<open>redemption\<close> states what it needs of its record, and is interpreted on the in-memory record whose calls get lost.

  \<^item> \<open>Authority\<close> (\<open>authority.go\<close>): the current-authority observation and the configured source.
  \<^item> \<open>Evidence\<close> (\<open>events/evidence.go\<close>): internal facts, the contract they meet, the in-memory store and reads under a clearance.
    Lemmas: \<open>evidence_inv\<close>, the store and its index agree and number the facts of a run; \<open>disclose_filter\<close>, a page is a filter.

  \<^item> \<open>Run_Budget\<close> (\<open>execution/executor.go\<close>, \<open>decimalMicros\<close> to \<open>settleRunBudget\<close>): what a run reserves and how it is settled, over
    the executor's \<open>BudgetController\<close> interface with the modelled controller behind it. The settlement loop has nine rounds
    as in the source. Lemmas: \<open>on_hold\<close> and \<open>on_settled\<close>, the states a settlement passes through whatever happens between its calls.

  \<^bold>\<open>Interaction.\<close> \<open>Interrupts\<close> moves runs only through \<open>Runs.Apply\<close>. \<open>Budget_Controller\<close> calls its ledger
  only through the record of operations, \<open>Dispatch\<close>'s coordinator its repository likewise, and the queue
  processor its three ports. All errors are \<open>Problem.err\<close>.

  \<^bold>\<open>Correspondence.\<close> A method of the source that takes a lock for its whole body is one function
  \<open>'s \<Rightarrow> (err + 'a) \<times> 's\<close> on the component's state (\<open>op\<close> in \<open>Prelude\<close>); a returned error is \<open>Inl\<close>. What
  the clock, the identifier source, a failure injector or a hash answers during one call is an argument
  of that call. Contexts and their cancellation are not represented. Pointers that may be nil are
  options. A map entry written while it is ranged over is written at the visited key. Names are the
  source's, with \<open>mem_\<close> before the methods of an in-memory implementation whose name is also an
  operation of its interface.

  \<^bold>\<open>Loops and bounds.\<close> The settlement loop recurses on its eight rounds; the descendants walk is a
  \<open>function\<close> whose measure is the number of children not yet seen; the workflow's waits and turns recurse up to
  the bounds of the source (64 wakes, 4096 wakes of a commit, 1024 turns of a delegation, the turn limit of
  the run), and a wait of the memory engine on the arrivals and the time left; every other loop is a fold
  over a list the source ranges over. No definition takes fuel.

  \<^bold>\<open>Not modelled.\<close> The PostgreSQL repositories, the HTTP surface, generated contract clients, the
  cryptography of signatures and the process wiring of \<open>src/cmd\<close> are calls into libraries and services
  the repository does not hold. The executor, the model gateway, artifacts, events
  and recovery are the program's own logic and are not modelled yet; the manifest lists each with its
  reason.
\<close>

end
